(* ===== verification/Prelude.thy ===== *)
theory Prelude
  imports Main "HOL-Library.Word" "HOL-Library.Multiset"
begin

unbundle bit_operations_syntax

text \<open>
  Shared vocabulary of the development: the machine integer types of the Rust code, the
  panics a function may end in and the error monad that carries them, the two standard
  library functions on words the scheduler needs (\<open>trailing_zeros\<close> and
  \<open>saturating_add\<close>), and the generic lemmas on lists and bits the components share.
\<close>

text \<open>Two collections: how operations change the fields of a state, and how a result is taken apart.\<close>

named_theorems state_simps "how the operations of a component change the fields of its state"
named_theorems result_simps "computing with results and the bind of the error monad"

section \<open>Types\<close>

type_synonym u8 = "8 word"
type_synonym u16 = "16 word"
type_synonym u32 = "32 word"
type_synonym u64 = "64 word"

text \<open>
  A panic ends the program (\<open>archs/riscv64-rt/src/panic.rs\<close> loops for ever), so a panic is the
  left injection of a result and no state survives it.
\<close>

datatype panic =
    IndexOutOfBounds
  | BitmapOpsNotInitialized
  | PriorityOutOfRange
  | UnwrapNone
  | TokenDropped
  | NotRegistered
  | NotProbed
  | CapacityExhausted
  | AssertionFailed
  | UnhandledTrap
  | MissingProperty
  | InvalidFdt
  | AlreadyInitialized
  | NotParsed
  | UndefinedBehaviour

type_synonym 'a result = "panic + 'a"

definition rbind :: "'a result \<Rightarrow> ('a \<Rightarrow> 'b result) \<Rightarrow> 'b result" where
  "rbind m f = (case m of Inl e \<Rightarrow> Inl e | Inr x \<Rightarrow> f x)"

lemma rbind_simps [simp, result_simps]:
  "rbind (Inl e) f = Inl e"
  "rbind (Inr x) f = f x"
  by (simp_all add: rbind_def)

lemma rbind_Inr_iff [result_simps]: "rbind m f = Inr y \<longleftrightarrow> (\<exists>x. m = Inr x \<and> f x = Inr y)"
  by (cases m) simp_all

lemma rbind_assoc: "rbind (rbind m f) g = rbind m (\<lambda>x. rbind (f x) g)"
  by (cases m) simp_all

section \<open>Words\<close>

text \<open>\<open>u64::trailing_zeros\<close>: the index of the lowest set bit, 64 for the word 0.\<close>

definition trailing_zeros :: "u64 \<Rightarrow> nat" where
  "trailing_zeros w = length (takeWhile (\<lambda>i. \<not> bit w i) [0..<64])"

text \<open>\<open>u64::saturating_add\<close>.\<close>

definition saturating_add :: "u64 \<Rightarrow> u64 \<Rightarrow> u64" where
  "saturating_add a b = (if uint a + uint b < 2 ^ 64 then a + b else - 1)"

lemma length_takeWhile_upt:
  assumes "P (takeWhile_len)" and "takeWhile_len < n"
    and "\<And>i. i < takeWhile_len \<Longrightarrow> \<not> P i"
  shows "length (takeWhile (\<lambda>i. \<not> P i) [0..<n]) = takeWhile_len"
proof -
  have split: "[0..<n] = [0..<takeWhile_len] @ takeWhile_len # [Suc takeWhile_len..<n]"
    using assms(2) by (metis le_add1 add_0 less_imp_le_nat upt_add_eq_append upt_conv_Cons
        ordered_cancel_comm_monoid_diff_class.add_diff_inverse)
  have "takeWhile (\<lambda>i. \<not> P i) [0..<n] = [0..<takeWhile_len]"
    using assms(1,3) unfolding split by (subst takeWhile_append2) auto
  then show ?thesis by simp
qed

lemma word_nonzero_bit: "(w :: u64) \<noteq> 0 \<longleftrightarrow> (\<exists>i<64. bit w i)"
proof
  assume "w \<noteq> 0"
  then obtain i where "bit w i" using bit_word_eqI [of w 0] by auto
  then show "\<exists>i<64. bit w i" using bit_imp_le_length by fastforce
qed auto

lemma trailing_zeros_Least:
  assumes "w \<noteq> 0"
  shows "trailing_zeros w = (LEAST i. bit w i)"
proof -
  obtain i where i: "i < 64" "bit w i" using assms word_nonzero_bit by blast
  have "bit w (LEAST i. bit w i)" using i(2) by (rule LeastI)
  moreover have "(LEAST i. bit w i) < 64"
    using Least_le [of "bit w", OF i(2)] i(1) by linarith
  ultimately show ?thesis
    unfolding trailing_zeros_def
    by (rule length_takeWhile_upt) (rule not_less_Least)
qed

lemma trailing_zeros_bit:
  assumes "w \<noteq> 0"
  shows "bit w (trailing_zeros w)"
proof -
  obtain i where "bit w i" using assms word_nonzero_bit by blast
  then have "bit w (LEAST i. bit w i)" by (rule LeastI)
  then show ?thesis by (simp only: trailing_zeros_Least [OF assms])
qed

lemma trailing_zeros_less: "w \<noteq> 0 \<Longrightarrow> trailing_zeros w < 64"
  using trailing_zeros_bit bit_imp_le_length by fastforce

lemma trailing_zeros_le:
  assumes "bit w i"
  shows "trailing_zeros w \<le> i"
proof -
  have "w \<noteq> 0" using assms by auto
  then have "trailing_zeros w = (LEAST i. bit w i)" by (rule trailing_zeros_Least)
  then show ?thesis using Least_le [of "bit w", OF assms] by linarith
qed

lemma bit_or_single:
  "b < 64 \<Longrightarrow> bit ((w :: u64) OR 2 ^ b) i \<longleftrightarrow> bit w i \<or> i = b"
  by (auto simp: bit_or_iff bit_exp_iff)

lemma bit_andnot_single:
  "b < 64 \<Longrightarrow> bit ((w :: u64) AND NOT (2 ^ b)) i \<longleftrightarrow> bit w i \<and> i \<noteq> b"
  by (auto simp: bit_and_iff bit_not_iff bit_exp_iff dest: bit_imp_le_length)

lemma unat_minus_one_u64: "unat (- 1 :: u64) = 2 ^ 64 - 1"
  by (simp add: unsigned_minus_1_eq_mask mask_eq_exp_minus_1)

lemma unat_saturating_add:
  "unat (saturating_add a b) = min (unat a + unat b) (2 ^ 64 - 1)"
proof -
  have "uint a + uint b < 2 ^ 64 \<longleftrightarrow> int (unat a + unat b) < int (2 ^ 64)" by simp
  then have "uint a + uint b < 2 ^ 64 \<longleftrightarrow> unat a + unat b < 2 ^ 64" by (simp only: of_nat_less_iff)
  then show ?thesis
    by (cases "unat a + unat b < 2 ^ 64") (simp_all add: saturating_add_def unat_word_ariths unat_minus_one_u64)
qed

section \<open>Lists\<close>

lemma last_conv_rev: "xs \<noteq> [] \<Longrightarrow> last xs = hd (rev xs)"
  by (simp add: hd_rev)

lemma distinct_snoc: "distinct (xs @ [x]) \<longleftrightarrow> distinct xs \<and> x \<notin> set xs"
  by auto

end
