(* ===== verification/PriorityBitmap.thy ===== *)
theory PriorityBitmap
  imports Prelude
begin

text \<open>
  The two-level priority bitmap of \<open>modules/executor/src/priority_bitmap.rs\<close>: a \<open>u64\<close> per
  group of 64 priorities and a \<open>u64\<close> that says which groups are non-empty.  The number of
  groups \<open>NUM_GROUPS\<close> is the length of the table.  \<open>usize\<close> arguments are naturals; the
  arithmetic on them stays below 4096.  Reading or writing a group that is not there is the
  panic of Rust's array indexing, in the debug build (where the \<open>debug_assert!\<close> stops first)
  and in the release build alike.

  The abstraction of a bitmap is the finite set \<open>members\<close> of priorities whose bit is set;
  \<open>bitmap_wf\<close> is the invariant that ties the summary word to the groups.  The locale
  \<open>ready_set\<close> is the interface the scheduler uses, and the interpretation at the end proves
  that this bitmap provides it.
\<close>

section \<open>State and operations\<close>

record priority_bitmap =
  group_map :: u64
  group_table :: "u64 list"

definition GROUP_BITS :: nat where
  "GROUP_BITS = 64"

definition CAPACITY :: "nat \<Rightarrow> nat" where
  "CAPACITY num_groups = num_groups * 64"

definition bitmap_new :: "nat \<Rightarrow> priority_bitmap result" where
  "bitmap_new num_groups =
     (if \<not> 0 < num_groups then Inl AssertionFailed
      else if \<not> num_groups \<le> 64 then Inl AssertionFailed
      else Inr \<lparr>group_map = 0, group_table = replicate num_groups 0\<rparr>)"

definition bitmap_set :: "priority_bitmap \<Rightarrow> nat \<Rightarrow> priority_bitmap result" where
  "bitmap_set bm prio =
     (let g = prio div GROUP_BITS; b = prio mod GROUP_BITS in
      if g < length (group_table bm) then
        Inr (bm\<lparr>group_table := (group_table bm)[g := group_table bm ! g OR push_bit b 1],
                group_map := group_map bm OR push_bit g 1\<rparr>)
      else Inl IndexOutOfBounds)"

definition bitmap_clear :: "priority_bitmap \<Rightarrow> nat \<Rightarrow> priority_bitmap result" where
  "bitmap_clear bm prio =
     (let g = prio div GROUP_BITS; b = prio mod GROUP_BITS in
      if g < length (group_table bm) then
        let t = (group_table bm)[g := group_table bm ! g AND NOT (push_bit b 1)] in
        if t ! g = 0
        then Inr (bm\<lparr>group_table := t, group_map := group_map bm AND NOT (push_bit g 1)\<rparr>)
        else Inr (bm\<lparr>group_table := t\<rparr>)
      else Inl IndexOutOfBounds)"

definition bitmap_highest :: "priority_bitmap \<Rightarrow> nat option result" where
  "bitmap_highest bm =
     (let gm = group_map bm in
      if gm = 0 then Inr None
      else let g = trailing_zeros gm in
        if g < length (group_table bm)
        then Inr (Some (g * GROUP_BITS + trailing_zeros (group_table bm ! g)))
        else Inl IndexOutOfBounds)"

definition bitmap_is_set :: "priority_bitmap \<Rightarrow> nat \<Rightarrow> bool result" where
  "bitmap_is_set bm prio =
     (if prio div GROUP_BITS < length (group_table bm)
      then Inr (drop_bit (prio mod GROUP_BITS) (group_table bm ! (prio div GROUP_BITS)) AND 1 \<noteq> 0)
      else Inl IndexOutOfBounds)"

definition bitmap_is_empty :: "priority_bitmap \<Rightarrow> bool" where
  "bitmap_is_empty bm \<longleftrightarrow> group_map bm = 0"

definition bitmap_pop_highest :: "priority_bitmap \<Rightarrow> (nat option \<times> priority_bitmap) result" where
  "bitmap_pop_highest bm =
     rbind (bitmap_highest bm) (\<lambda>h. case h of
        None \<Rightarrow> Inr (None, bm)
      | Some prio \<Rightarrow> rbind (bitmap_clear bm prio) (\<lambda>bm'. Inr (Some prio, bm')))"

definition bitmap_clear_all :: "priority_bitmap \<Rightarrow> priority_bitmap" where
  "bitmap_clear_all bm =
     bm\<lparr>group_map := 0, group_table := replicate (length (group_table bm)) 0\<rparr>"

section \<open>Invariant and abstraction\<close>

definition members :: "priority_bitmap \<Rightarrow> nat set" where
  "members bm =
     {p. p div 64 < length (group_table bm) \<and> bit (group_table bm ! (p div 64)) (p mod 64)}"

definition bitmap_wf :: "nat \<Rightarrow> priority_bitmap \<Rightarrow> bool" where
  "bitmap_wf n bm \<longleftrightarrow> 0 < n \<and> n \<le> 64 \<and> length (group_table bm) = n
     \<and> (\<forall>g. bit (group_map bm) g \<longleftrightarrow> g < n \<and> group_table bm ! g \<noteq> 0)"

lemma bitmap_wfD:
  assumes "bitmap_wf n bm"
  shows "0 < n" "n \<le> 64" "length (group_table bm) = n"
    "bit (group_map bm) g \<longleftrightarrow> g < n \<and> group_table bm ! g \<noteq> 0"
  using assms by (simp_all add: bitmap_wf_def)

lemma div_lt_capacity: "(p :: nat) div 64 < n \<longleftrightarrow> p < 64 * n"
  by linarith

lemma div_mod_iff: "b < 64 \<Longrightarrow> (p :: nat) div 64 = a \<and> p mod 64 = b \<longleftrightarrow> p = a * 64 + b"
  using div_mult_mod_eq [of p 64] by (intro iffI conjI) (linarith, simp_all)

lemma members_iff:
  "bitmap_wf n bm \<Longrightarrow> p \<in> members bm \<longleftrightarrow> p < 64 * n \<and> bit (group_table bm ! (p div 64)) (p mod 64)"
  by (simp add: members_def bitmap_wfD(3) div_lt_capacity)

lemma members_less: "bitmap_wf n bm \<Longrightarrow> p \<in> members bm \<Longrightarrow> p < 64 * n"
  by (simp add: members_iff)

lemma finite_members: "bitmap_wf n bm \<Longrightarrow> finite (members bm)"
  by (rule finite_subset [of _ "{..<64 * n}"]) (auto dest: members_less)

lemma group_nonempty_iff:
  assumes "bitmap_wf n bm"
  shows "bit (group_map bm) g \<longleftrightarrow> (\<exists>b<64. g * 64 + b \<in> members bm)"
proof -
  have *: "g * 64 + b \<in> members bm \<longleftrightarrow> g < n \<and> bit (group_table bm ! g) b" if "b < 64" for b
    using that by (simp add: members_def bitmap_wfD(3) [OF assms])
  have "bit (group_map bm) g \<longleftrightarrow> (\<exists>b<64. g < n \<and> bit (group_table bm ! g) b)"
    unfolding bitmap_wfD(4) [OF assms] word_nonzero_bit by blast
  also have "\<dots> \<longleftrightarrow> (\<exists>b<64. g * 64 + b \<in> members bm)"
    using * by blast
  finally show ?thesis .
qed

lemma group_map_zero_iff:
  assumes "bitmap_wf n bm"
  shows "group_map bm = 0 \<longleftrightarrow> members bm = {}"
proof
  assume "group_map bm = 0"
  then have none: "\<not> (\<exists>b<64. g * 64 + b \<in> members bm)" for g
    using group_nonempty_iff [OF assms, of g] by simp
  show "members bm = {}"
  proof (rule equals0I)
    fix p assume "p \<in> members bm"
    then have "p div 64 * 64 + p mod 64 \<in> members bm" by (simp only: div_mult_mod_eq)
    then show False using none [of "p div 64"] by (meson mod_less_divisor zero_less_numeral)
  qed
next
  assume "members bm = {}"
  then show "group_map bm = 0"
    using group_nonempty_iff [OF assms] by (intro bit_word_eqI) simp
qed

section \<open>Functional correctness of the operations\<close>

lemma bitmap_new_ok:
  assumes "0 < n" "n \<le> 64"
  obtains bm where "bitmap_new n = Inr bm" "bitmap_wf n bm" "members bm = {}"
proof
  show "bitmap_new n = Inr \<lparr>group_map = 0, group_table = replicate n 0\<rparr>"
    using assms by (simp add: bitmap_new_def)
  show "bitmap_wf n \<lparr>group_map = 0, group_table = replicate n 0\<rparr>"
    using assms by (simp add: bitmap_wf_def)
  show "members \<lparr>group_map = 0, group_table = replicate n 0\<rparr> = {}"
    by (simp add: members_def)
qed

text \<open>Changing one word of the table changes the set in that group only.\<close>

lemma members_table_update:
  assumes "length t = length (group_table bm)" "g < length t"
    and "\<And>h. h < length t \<Longrightarrow> h \<noteq> g \<Longrightarrow> t ! h = group_table bm ! h"
  shows "q \<in> members (bm\<lparr>group_table := t, group_map := m\<rparr>) \<longleftrightarrow>
    (if q div 64 = g then bit (t ! g) (q mod 64) else q \<in> members bm)"
  using assms by (auto simp: members_def)

lemma same_group_eq: "q div 64 = p div 64 \<Longrightarrow> (q :: nat) mod 64 = p mod 64 \<longleftrightarrow> q = p"
  by (metis div_mult_mod_eq)

lemma bitmap_set_ok:
  assumes wf: "bitmap_wf n bm" and p: "p < 64 * n"
  obtains bm' where "bitmap_set bm p = Inr bm'" "bitmap_wf n bm'" "members bm' = insert p (members bm)"
proof
  let ?g = "p div 64" and ?b = "p mod 64"
  let ?w = "group_table bm ! ?g OR 2 ^ ?b"
  let ?t = "(group_table bm)[?g := ?w]"
  let ?bm = "bm\<lparr>group_table := ?t, group_map := group_map bm OR 2 ^ ?g\<rparr>"
  note len = bitmap_wfD(3) [OF wf]
  have g: "?g < n" using p by (simp add: div_lt_capacity)
  have g64: "?g < 64" using g bitmap_wfD(2) [OF wf] by linarith
  have w: "bit ?w i \<longleftrightarrow> bit (group_table bm ! ?g) i \<or> i = ?b" for i
    by (simp add: bit_or_single)
  have w0: "?w \<noteq> 0" using w [of ?b] by (metis bit_0_eq bot_apply bot_bool_def)
  show "bitmap_set bm p = Inr ?bm"
    using g by (simp add: bitmap_set_def GROUP_BITS_def Let_def len)
  have "bit (group_map bm OR 2 ^ ?g) h \<longleftrightarrow> h < n \<and> ?t ! h \<noteq> 0" for h
    using g w0 by (cases "h = ?g") (simp_all add: bit_or_single g64 bitmap_wfD(4) [OF wf] len)
  then show "bitmap_wf n ?bm"
    using wf by (simp add: bitmap_wf_def)
  show "members ?bm = insert p (members bm)"
  proof (rule set_eqI)
    fix q
    have upd: "q \<in> members ?bm \<longleftrightarrow> (if q div 64 = ?g then bit (?t ! ?g) (q mod 64) else q \<in> members bm)"
      using g len by (intro members_table_update) simp_all
    show "q \<in> members ?bm \<longleftrightarrow> q \<in> insert p (members bm)"
      unfolding upd using g by (auto simp: members_def len w same_group_eq)
  qed
qed

lemma bitmap_clear_ok:
  assumes wf: "bitmap_wf n bm" and p: "p < 64 * n"
  obtains bm' where "bitmap_clear bm p = Inr bm'" "bitmap_wf n bm'" "members bm' = members bm - {p}"
proof
  let ?g = "p div 64" and ?b = "p mod 64"
  let ?w = "group_table bm ! ?g AND NOT (2 ^ ?b)"
  let ?t = "(group_table bm)[?g := ?w]"
  let ?m = "if ?w = 0 then group_map bm AND NOT (2 ^ ?g) else group_map bm"
  let ?bm = "bm\<lparr>group_table := ?t, group_map := ?m\<rparr>"
  note len = bitmap_wfD(3) [OF wf]
  have g: "?g < n" using p by (simp add: div_lt_capacity)
  have g64: "?g < 64" using g bitmap_wfD(2) [OF wf] by linarith
  have w: "bit ?w i \<longleftrightarrow> bit (group_table bm ! ?g) i \<and> i \<noteq> ?b" for i
    by (simp add: bit_andnot_single)
  have w_nz: "group_table bm ! ?g \<noteq> 0" if "?w \<noteq> 0"
    using that by auto
  show "bitmap_clear bm p = Inr ?bm"
    using g by (simp add: bitmap_clear_def GROUP_BITS_def Let_def len)
  have "bit ?m h \<longleftrightarrow> h < n \<and> ?t ! h \<noteq> 0" for h
    using g w_nz
    by (cases "h = ?g") (simp_all add: bit_andnot_single g64 bitmap_wfD(4) [OF wf] len)
  then show "bitmap_wf n ?bm"
    using wf by (simp add: bitmap_wf_def)
  show "members ?bm = members bm - {p}"
  proof (rule set_eqI)
    fix q
    have upd: "q \<in> members ?bm \<longleftrightarrow> (if q div 64 = ?g then bit (?t ! ?g) (q mod 64) else q \<in> members bm)"
      using g len by (intro members_table_update) simp_all
    show "q \<in> members ?bm \<longleftrightarrow> q \<in> members bm - {p}"
      unfolding upd using g by (auto simp: members_def len w same_group_eq)
  qed
qed

lemma bitmap_highest_ok:
  assumes wf: "bitmap_wf n bm"
  shows "bitmap_highest bm = Inr (if members bm = {} then None else Some (Min (members bm)))"
proof (cases "group_map bm = 0")
  case True
  then show ?thesis by (simp add: bitmap_highest_def group_map_zero_iff [OF wf])
next
  case False
  let ?g = "trailing_zeros (group_map bm)" let ?w = "group_table bm ! ?g"
  let ?p = "?g * 64 + trailing_zeros ?w"
  have g: "?g < n" and w: "?w \<noteq> 0"
    using trailing_zeros_bit [OF False] by (simp_all add: bitmap_wfD(4) [OF wf])
  have b: "trailing_zeros ?w < 64" "bit ?w (trailing_zeros ?w)"
    using w by (rule trailing_zeros_less, rule trailing_zeros_bit)
  have mem: "?p \<in> members bm"
    using g b by (simp add: members_def bitmap_wfD(3) [OF wf])
  have least: "?p \<le> q" if "q \<in> members bm" for q
  proof -
    have q: "bit (group_table bm ! (q div 64)) (q mod 64)" and "q div 64 < n"
      using that by (simp_all add: members_def bitmap_wfD(3) [OF wf])
    moreover from q have "group_table bm ! (q div 64) \<noteq> 0" by auto
    ultimately have "bit (group_map bm) (q div 64)"
      by (simp add: bitmap_wfD(4) [OF wf])
    then have le: "?g \<le> q div 64" by (rule trailing_zeros_le)
    show ?thesis
    proof (cases "?g = q div 64")
      case True
      then have "trailing_zeros ?w \<le> q mod 64" using q by (simp add: trailing_zeros_le)
      then show ?thesis using True div_mult_mod_eq [of q 64] by linarith
    next
      case False
      then show ?thesis using le b(1) by linarith
    qed
  qed
  have "Min (members bm) = ?p"
    using mem least finite_members [OF wf] by (intro Min_eqI) auto
  moreover have "bitmap_highest bm = Inr (Some ?p)"
    using False g by (simp add: bitmap_highest_def GROUP_BITS_def Let_def bitmap_wfD(3) [OF wf])
  ultimately show ?thesis using mem by auto
qed

lemma bitmap_is_set_ok:
  assumes "bitmap_wf n bm" "p < 64 * n"
  shows "bitmap_is_set bm p = Inr (p \<in> members bm)"
proof -
  have "drop_bit b w AND 1 \<noteq> 0 \<longleftrightarrow> bit w b" for b and w :: u64
    by (simp add: bit_iff_odd_drop_bit and_one_eq odd_iff_mod_2_eq_one)
  then show ?thesis
    using assms by (simp add: bitmap_is_set_def GROUP_BITS_def members_def bitmap_wfD(3) div_lt_capacity)
qed

lemma bitmap_is_empty_ok: "bitmap_wf n bm \<Longrightarrow> bitmap_is_empty bm \<longleftrightarrow> members bm = {}"
  by (simp add: bitmap_is_empty_def group_map_zero_iff)

lemma bitmap_clear_all_ok:
  assumes "bitmap_wf n bm"
  shows "bitmap_wf n (bitmap_clear_all bm)" "members (bitmap_clear_all bm) = {}"
  using assms by (auto simp: bitmap_wf_def bitmap_clear_all_def members_def)

text \<open>Outside the capacity every access is the panic of the array index.\<close>

lemma bitmap_out_of_range:
  assumes "bitmap_wf n bm" "\<not> p < 64 * n"
  shows "bitmap_set bm p = Inl IndexOutOfBounds" "bitmap_clear bm p = Inl IndexOutOfBounds"
    "bitmap_is_set bm p = Inl IndexOutOfBounds"
  using assms
  by (simp_all add: bitmap_set_def bitmap_clear_def bitmap_is_set_def GROUP_BITS_def
      bitmap_wfD(3) div_lt_capacity)

section \<open>The interface the scheduler relies on\<close>

text \<open>
  \<open>BitmapOps\<close> (\<open>executor.rs\<close>) hands the executors \<open>set\<close> and \<open>clear\<close> as function pointers, and
  the spawner calls \<open>highest\<close>.  What they rely on: the operations maintain a finite set of
  priorities below the capacity and \<open>highest\<close> is its least element.
\<close>

locale ready_set =
  fixes rs_set rs_clear :: "'b \<Rightarrow> nat \<Rightarrow> 'b result"
    and rs_highest :: "'b \<Rightarrow> nat option result"
    and rs_invar :: "'b \<Rightarrow> bool"
    and rs_mem :: "'b \<Rightarrow> nat set"
    and rs_cap :: nat
  assumes rs_set_ok: "rs_invar b \<Longrightarrow> p < rs_cap \<Longrightarrow>
      \<exists>b'. rs_set b p = Inr b' \<and> rs_invar b' \<and> rs_mem b' = insert p (rs_mem b)"
    and rs_clear_ok: "rs_invar b \<Longrightarrow> p < rs_cap \<Longrightarrow>
      \<exists>b'. rs_clear b p = Inr b' \<and> rs_invar b' \<and> rs_mem b' = rs_mem b - {p}"
    and rs_highest_ok: "rs_invar b \<Longrightarrow>
      rs_highest b = Inr (if rs_mem b = {} then None else Some (Min (rs_mem b)))"
    and rs_mem_cap: "rs_invar b \<Longrightarrow> rs_mem b \<subseteq> {..<rs_cap}"
begin

lemma rs_finite: "rs_invar b \<Longrightarrow> finite (rs_mem b)"
  using rs_mem_cap finite_subset by blast

lemma rs_highest_mem: "rs_invar b \<Longrightarrow> rs_highest b = Inr (Some p) \<Longrightarrow> p \<in> rs_mem b"
  using Min_in rs_finite by (auto simp: rs_highest_ok split: if_splits)

lemma rs_highest_least: "rs_invar b \<Longrightarrow> rs_highest b = Inr (Some p) \<Longrightarrow> q \<in> rs_mem b \<Longrightarrow> p \<le> q"
  using rs_finite by (auto simp: rs_highest_ok split: if_splits)

lemma rs_highest_None: "rs_invar b \<Longrightarrow> rs_highest b = Inr None \<longleftrightarrow> rs_mem b = {}"
  by (simp add: rs_highest_ok)

lemma rs_highest_cases:
  assumes "rs_invar b"
  obtains (none) "rs_highest b = Inr None" "rs_mem b = {}"
  | (some) p where "rs_highest b = Inr (Some p)" "p \<in> rs_mem b" "\<And>q. q \<in> rs_mem b \<Longrightarrow> p \<le> q" "p < rs_cap"
proof (cases "rs_mem b = {}")
  case True
  then show ?thesis using none assms by (simp add: rs_highest_None)
next
  case False
  then have h: "rs_highest b = Inr (Some (Min (rs_mem b)))" using assms by (simp add: rs_highest_ok)
  show ?thesis
  proof (rule some [OF h])
    show mem: "Min (rs_mem b) \<in> rs_mem b" using assms h by (rule rs_highest_mem)
    show "Min (rs_mem b) < rs_cap" using mem rs_mem_cap [OF assms] by blast
  qed (rule rs_highest_least [OF assms h])
qed

lemma rs_set_then_highest:
  assumes "rs_invar b" "p < rs_cap" "rs_set b p = Inr b'"
  shows "\<exists>h. rs_highest b' = Inr (Some h) \<and> h \<le> p"
proof -
  have b': "rs_invar b'" "p \<in> rs_mem b'" using rs_set_ok [OF assms(1,2)] assms(3) by auto
  then show ?thesis by (cases rule: rs_highest_cases [OF b'(1)]) auto
qed

end

interpretation pb: ready_set bitmap_set bitmap_clear bitmap_highest "bitmap_wf n" members "64 * n"
proof unfold_locales
  fix b p assume "bitmap_wf n b" "p < 64 * n"
  then show "\<exists>b'. bitmap_set b p = Inr b' \<and> bitmap_wf n b' \<and> members b' = insert p (members b)"
    and "\<exists>b'. bitmap_clear b p = Inr b' \<and> bitmap_wf n b' \<and> members b' = members b - {p}"
    by (blast elim: bitmap_set_ok bitmap_clear_ok)+
next
  fix b assume "bitmap_wf n b"
  then show "bitmap_highest b = Inr (if members b = {} then None else Some (Min (members b)))"
    by (rule bitmap_highest_ok)
  show "members b \<subseteq> {..<64 * n}"
    using \<open>bitmap_wf n b\<close> by (auto dest: members_less)
qed

section \<open>Runs of the bitmap against a set of priorities\<close>

datatype bitmap_op =
    OpSet nat | OpClear nat | OpClearAll | OpPop | OpHighest | OpIsSet nat | OpIsEmpty

datatype bitmap_out = OutUnit | OutPrio "nat option" | OutBool bool

fun bitmap_step :: "bitmap_op \<Rightarrow> priority_bitmap \<Rightarrow> (bitmap_out \<times> priority_bitmap) result" where
  "bitmap_step (OpSet p) bm = rbind (bitmap_set bm p) (\<lambda>b. Inr (OutUnit, b))"
| "bitmap_step (OpClear p) bm = rbind (bitmap_clear bm p) (\<lambda>b. Inr (OutUnit, b))"
| "bitmap_step OpClearAll bm = Inr (OutUnit, bitmap_clear_all bm)"
| "bitmap_step OpPop bm = rbind (bitmap_pop_highest bm) (\<lambda>(h, b). Inr (OutPrio h, b))"
| "bitmap_step OpHighest bm = rbind (bitmap_highest bm) (\<lambda>h. Inr (OutPrio h, bm))"
| "bitmap_step (OpIsSet p) bm = rbind (bitmap_is_set bm p) (\<lambda>v. Inr (OutBool v, bm))"
| "bitmap_step OpIsEmpty bm = Inr (OutBool (bitmap_is_empty bm), bm)"

definition least_of :: "nat set \<Rightarrow> nat option" where
  "least_of A = (if A = {} then None else Some (Min A))"

fun set_step :: "nat \<Rightarrow> bitmap_op \<Rightarrow> nat set \<Rightarrow> (bitmap_out \<times> nat set) result" where
  "set_step cap (OpSet p) A = (if p < cap then Inr (OutUnit, insert p A) else Inl IndexOutOfBounds)"
| "set_step cap (OpClear p) A = (if p < cap then Inr (OutUnit, A - {p}) else Inl IndexOutOfBounds)"
| "set_step cap OpClearAll A = Inr (OutUnit, {})"
| "set_step cap OpPop A = Inr (OutPrio (least_of A), if A = {} then A else A - {Min A})"
| "set_step cap OpHighest A = Inr (OutPrio (least_of A), A)"
| "set_step cap (OpIsSet p) A = (if p < cap then Inr (OutBool (p \<in> A), A) else Inl IndexOutOfBounds)"
| "set_step cap OpIsEmpty A = Inr (OutBool (A = {}), A)"

primrec run_ops :: "('op \<Rightarrow> 's \<Rightarrow> ('out \<times> 's) result) \<Rightarrow> 'op list \<Rightarrow> 's \<Rightarrow> ('out list \<times> 's) result" where
  "run_ops step [] s = Inr ([], s)"
| "run_ops step (x # xs) s =
     rbind (step x s) (\<lambda>(v, s'). rbind (run_ops step xs s') (\<lambda>(vs, t). Inr (v # vs, t)))"

definition outputs :: "('out list \<times> 's) result \<Rightarrow> 'out list result" where
  "outputs r = rbind r (\<lambda>(vs, t). Inr vs)"

lemma outputs_simps [simp]:
  "outputs (Inl e) = Inl e"
  "outputs (Inr (vs, t)) = Inr vs"
  by (simp_all add: outputs_def)

lemma outputs_cons:
  "outputs (rbind r (\<lambda>(vs, t). Inr (v # vs, t))) = rbind (outputs r) (\<lambda>vs. Inr (v # vs))"
  by (cases r) auto

lemma bitmap_pop_ok:
  assumes "bitmap_wf n bm"
  obtains (empty) "bitmap_pop_highest bm = Inr (None, bm)" "members bm = {}"
  | (popped) bm' where "bitmap_pop_highest bm = Inr (Some (Min (members bm)), bm')"
      "bitmap_wf n bm'" "members bm' = members bm - {Min (members bm)}" "members bm \<noteq> {}"
proof (cases "members bm = {}")
  case True
  then show ?thesis
    using empty by (simp add: bitmap_pop_highest_def bitmap_highest_ok [OF assms])
next
  case False
  then have "Min (members bm) < 64 * n"
    using finite_members [OF assms] members_less [OF assms] by simp
  then obtain bm' where "bitmap_clear bm (Min (members bm)) = Inr bm'" "bitmap_wf n bm'"
      "members bm' = members bm - {Min (members bm)}"
    by (rule bitmap_clear_ok [OF assms])
  then show ?thesis
    using popped False by (simp add: bitmap_pop_highest_def bitmap_highest_ok [OF assms])
qed

lemma bitmap_step_refines:
  assumes "bitmap_wf n bm"
  shows "case bitmap_step x bm of
      Inl e \<Rightarrow> set_step (64 * n) x (members bm) = Inl e
    | Inr (v, bm') \<Rightarrow> bitmap_wf n bm' \<and> set_step (64 * n) x (members bm) = Inr (v, members bm')"
proof (cases x)
  case (OpSet p)
  show ?thesis
  proof (cases "p < 64 * n")
    case True
    show ?thesis by (rule bitmap_set_ok [OF assms True]) (simp add: OpSet True)
  next
    case False
    with OpSet show ?thesis by (simp add: bitmap_out_of_range [OF assms])
  qed
next
  case (OpClear p)
  show ?thesis
  proof (cases "p < 64 * n")
    case True
    show ?thesis by (rule bitmap_clear_ok [OF assms True]) (simp add: OpClear True)
  next
    case False
    with OpClear show ?thesis by (simp add: bitmap_out_of_range [OF assms])
  qed
next
  case OpPop
  then show ?thesis
    by (cases rule: bitmap_pop_ok [OF assms]) (simp_all add: assms least_of_def)
next
  case (OpIsSet p)
  then show ?thesis
    using bitmap_is_set_ok [OF assms, of p] bitmap_out_of_range [OF assms, of p] assms
    by (cases "p < 64 * n") simp_all
qed (simp_all add: assms bitmap_clear_all_ok [OF assms] bitmap_highest_ok [OF assms]
      bitmap_is_empty_ok [OF assms] least_of_def)

lemma bitmap_run_refines:
  assumes "bitmap_wf n bm"
  shows "outputs (run_ops bitmap_step xs bm)
       = outputs (run_ops (set_step (64 * n)) xs (members bm))"
  using assms
proof (induction xs arbitrary: bm)
  case Nil
  then show ?case by simp
next
  case (Cons x xs)
  show ?case
  proof (cases "bitmap_step x bm")
    case (Inl e)
    then show ?thesis using bitmap_step_refines [OF Cons.prems, of x] by simp
  next
    case (Inr r)
    then show ?thesis
      using bitmap_step_refines [OF Cons.prems, of x] Cons.IH [of "snd r"]
      by (cases r) (simp add: outputs_cons)
  qed
qed

text \<open>
   C10. Any sequence of bitmap operations, started on a new bitmap of 1 to 64 groups, returns
  exactly what the same sequence returns on a plain set of priorities: \<open>highest\<close> and
  \<open>pop_highest\<close> give the smallest priority in the set, \<open>is_set\<close> and \<open>is_empty\<close> test it, and
  the only panic is the one for a priority at or above the capacity.
\<close>

theorem bitmap_runs_refine_set:
  assumes "0 < n" and "n \<le> 64"
  shows "outputs (rbind (bitmap_new n) (run_ops bitmap_step xs))
       = outputs (run_ops (set_step (CAPACITY n)) xs {})"
proof -
  obtain bm where "bitmap_new n = Inr bm" "bitmap_wf n bm" "members bm = {}"
    using assms by (rule bitmap_new_ok)
  then show ?thesis
    using bitmap_run_refines [of n bm xs] by (simp add: CAPACITY_def mult.commute)
qed

theorem bitmap_runs_refine_set_witness:
  "outputs (rbind (bitmap_new 4) (run_ops bitmap_step [OpSet 200, OpSet 65, OpPop, OpPop, OpPop]))
     = Inr [OutUnit, OutUnit, OutPrio (Some 65), OutPrio (Some 200), OutPrio None]"
  by (simp add: bitmap_runs_refine_set CAPACITY_def least_of_def insert_commute)

text \<open>
   Popping a well-formed bitmap as many times as it has members returns every member once,
  in strictly ascending order, which is from the highest to the lowest priority, and leaves the
  bitmap empty.
\<close>

theorem bitmap_drain_sorted:
  assumes "bitmap_wf n bm"
  shows "\<exists>bm'. run_ops bitmap_step (replicate (card (members bm)) OpPop) bm
      = Inr (map (OutPrio \<circ> Some) (sorted_list_of_set (members bm)), bm') \<and> bitmap_is_empty bm'"
  using assms
proof (induction "card (members bm)" arbitrary: bm)
  case 0
  then show ?case using finite_members by (simp add: bitmap_is_empty_ok)
next
  case (Suc k)
  then have ne: "members bm \<noteq> {}" and fin: "finite (members bm)"
    by (auto simp: finite_members)
  obtain bm' where bm': "bitmap_pop_highest bm = Inr (Some (Min (members bm)), bm')"
      "bitmap_wf n bm'" "members bm' = members bm - {Min (members bm)}"
    using bitmap_pop_ok [OF Suc.prems] ne by metis
  have "k = card (members bm')"
    using Suc.hyps(2) fin ne by (simp add: bm'(3))
  from Suc.hyps(1) [OF this bm'(2)] this [symmetric] show ?case
    using bm' sorted_list_of_set_nonempty [OF fin ne] by (auto simp flip: Suc.hyps(2))
qed

theorem bitmap_drain_sorted_witness:
  "bitmap_wf 2 \<lparr>group_map = 3, group_table = [8, 2]\<rparr> \<and>
   (\<exists>bm'. run_ops bitmap_step [OpPop, OpPop] \<lparr>group_map = 3, group_table = [8, 2]\<rparr>
      = Inr ([OutPrio (Some 3), OutPrio (Some 65)], bm') \<and> bitmap_is_empty bm')"
proof -
  let ?bm = "\<lparr>group_map = 3, group_table = [8, 2]\<rparr> :: priority_bitmap"
  have b3: "bit (3 :: u64) i \<longleftrightarrow> i < 2" for i
    using bit_mask_iff [where 'a = "64 word", of 2 i] by (auto simp: mask_eq_exp_minus_1)
  have b8: "bit (8 :: u64) i \<longleftrightarrow> i = 3" for i
    using bit_exp_iff [where 'a = "64 word", of 3 i] by auto
  have b2: "bit (2 :: u64) i \<longleftrightarrow> i = 1" for i
    using bit_exp_iff [where 'a = "64 word", of 1 i] by auto
  have wf: "bitmap_wf 2 ?bm"
    unfolding bitmap_wf_def priority_bitmap.select_convs b3 by (auto simp: less_2_cases_iff)
  have mem: "members ?bm = {3, 65}"
  proof (rule set_eqI)
    fix p :: nat
    consider "p div 64 = 0" | "p div 64 = 1" | "2 \<le> p div 64" by linarith
    then have "p \<in> members ?bm \<longleftrightarrow> (p div 64 = 0 \<and> p mod 64 = 3) \<or> (p div 64 = 1 \<and> p mod 64 = 1)"
    proof cases
      case 1
      then have "p \<in> members ?bm \<longleftrightarrow> bit (8 :: u64) (p mod 64)" by (simp add: members_def)
      then show ?thesis unfolding b8 using 1 by simp
    next
      case 2
      then have "p \<in> members ?bm \<longleftrightarrow> bit (2 :: u64) (p mod 64)" by (simp add: members_def)
      then show ?thesis unfolding b2 using 2 by simp
    qed (simp add: members_def)
    then show "p \<in> members ?bm \<longleftrightarrow> p \<in> {3, 65}"
      by (simp add: div_mod_iff)
  qed
  show ?thesis
    using wf bitmap_drain_sorted [OF wf] by (simp add: mem insert_commute)
qed

end
