(* ===== verification/Containers.thy ===== *)
theory Containers
  imports Prelude
begin

text \<open>
  The two third-party containers the code is built on.  Their sources are not part of this
  repository, so they are parameters: a record of operations that every definition using the
  container takes as an argument, and a locale that states what their documentation promises.

  \<^item> \<open>heapless::Vec<T, N>\<close>: \<open>Spawner::prio_stack\<close>, the entries of \<open>TimerQueue\<close>, the waiters of
    \<open>futures::mutex::Mutex\<close> and the bus stacks.
  \<^item> \<open>cordyceps::List<T>\<close>, an intrusive doubly linked list: the run queue of an executor.

  \<open>vec_items\<close> and \<open>list_items\<close> give the elements in order; \<open>len\<close>, \<open>last\<close>, \<open>iter\<close>, indexing and
  \<open>is_empty\<close> of the code are functions of them.  The two interpretations at the end are the
  list instances that concrete runs use.
\<close>

section \<open>Bounded vectors\<close>

record ('a, 'v) vec_api =
  vec_new :: 'v
  vec_items :: "'v \<Rightarrow> 'a list"
  vec_push :: "'v \<Rightarrow> 'a \<Rightarrow> 'v option"
  vec_pop :: "'v \<Rightarrow> 'a option \<times> 'v"
  vec_remove :: "'v \<Rightarrow> nat \<Rightarrow> ('a \<times> 'v) option"
  vec_swap_remove :: "'v \<Rightarrow> nat \<Rightarrow> ('a \<times> 'v) option"
  vec_retain :: "'v \<Rightarrow> ('a \<Rightarrow> bool) \<Rightarrow> 'v"
  vec_clear :: "'v \<Rightarrow> 'v"

text \<open>The element at \<open>i\<close> is replaced by the last one, and the vector gets shorter by one.\<close>

definition swap_removed :: "nat \<Rightarrow> 'a list \<Rightarrow> 'a list" where
  "swap_removed i xs = butlast (xs[i := last xs])"

definition removed :: "nat \<Rightarrow> 'a list \<Rightarrow> 'a list" where
  "removed i xs = take i xs @ drop (Suc i) xs"

lemma length_swap_removed [simp]: "length (swap_removed i xs) = length xs - 1"
  by (simp add: swap_removed_def)

lemma nth_swap_removed:
  "j < length xs - 1 \<Longrightarrow> swap_removed i xs ! j = (if j = i then last xs else xs ! j)"
  by (simp add: swap_removed_def nth_butlast)

lemma mset_swap_removed:
  assumes "i < length xs"
  shows "add_mset (xs ! i) (mset (swap_removed i xs)) = mset xs"
proof -
  let ?ys = "xs[i := last xs]"
  have "xs \<noteq> []" using assms by auto
  then have ne: "?ys \<noteq> []" and last: "last ?ys = last xs"
    by (simp_all only: last_list_update list_update_nonempty not_False_eq_True if_cancel)
  have "mset ?ys = add_mset (last xs) (mset xs - {#xs ! i#})"
    using assms by (simp add: mset_update)
  moreover have "mset ?ys = add_mset (last xs) (mset (swap_removed i xs))"
    using append_butlast_last_id [OF ne] last
    by (metis (no_types, lifting) add_mset_add_single mset.simps mset_append swap_removed_def)
  ultimately show ?thesis
    using assms by (simp add: insert_DiffM)
qed

locale bounded_vec =
  fixes V :: "('a, 'v) vec_api" and N :: nat
  assumes new_items [simp]: "vec_items V (vec_new V) = []"
    and items_cap: "length (vec_items V v) \<le> N"
    and push_room: "length (vec_items V v) < N \<Longrightarrow>
      \<exists>v'. vec_push V v x = Some v' \<and> vec_items V v' = vec_items V v @ [x]"
    and push_full: "length (vec_items V v) = N \<Longrightarrow> vec_push V v x = None"
    and pop_fst: "fst (vec_pop V v) = (if vec_items V v = [] then None else Some (last (vec_items V v)))"
    and pop_items: "vec_items V (snd (vec_pop V v)) = butlast (vec_items V v)"
    and remove_ok: "i < length (vec_items V v) \<Longrightarrow>
      \<exists>v'. vec_remove V v i = Some (vec_items V v ! i, v') \<and> vec_items V v' = removed i (vec_items V v)"
    and swap_remove_ok: "i < length (vec_items V v) \<Longrightarrow>
      \<exists>v'. vec_swap_remove V v i = Some (vec_items V v ! i, v')
         \<and> vec_items V v' = swap_removed i (vec_items V v)"
    and retain_items [simp]: "vec_items V (vec_retain V v P) = filter P (vec_items V v)"
    and clear_items [simp]: "vec_items V (vec_clear V v) = []"
begin

lemma push_cases:
  obtains (room) v' where "length (vec_items V v) < N" "vec_push V v x = Some v'"
      "vec_items V v' = vec_items V v @ [x]"
  | (full) "length (vec_items V v) = N" "vec_push V v x = None"
proof (cases "length (vec_items V v) < N")
  case True
  with push_room [OF this, of x] room show ?thesis by blast
next
  case False
  then have "length (vec_items V v) = N" using items_cap [of v] by simp
  with push_full [OF this, of x] full show ?thesis by blast
qed

lemma push_Some_items: "vec_push V v x = Some v' \<Longrightarrow> vec_items V v' = vec_items V v @ [x]"
  by (cases rule: push_cases [of v x]) simp_all

lemma push_None_iff: "vec_push V v x = None \<longleftrightarrow> length (vec_items V v) = N"
  by (cases rule: push_cases [of v x]) simp_all

lemma swap_remove_Some:
  assumes "vec_swap_remove V v i = Some (x, v')" "i < length (vec_items V v)"
  shows "x = vec_items V v ! i" "vec_items V v' = swap_removed i (vec_items V v)"
  using swap_remove_ok [OF assms(2)] assms(1) by auto

lemma remove_first:
  assumes "vec_items V v = x # xs"
  shows "\<exists>v'. vec_remove V v 0 = Some (x, v') \<and> vec_items V v' = xs"
  using remove_ok [of 0 v] assms by (auto simp: removed_def)

end

section \<open>Intrusive lists\<close>

text \<open>
  An element of an intrusive list carries its own links, so it may be in one list once only:
  pushing it is specified for an element that the list does not hold.
\<close>

record ('t, 'q) list_api =
  list_new :: 'q
  list_items :: "'q \<Rightarrow> 't list"
  list_push_back :: "'q \<Rightarrow> 't \<Rightarrow> 'q"
  list_pop_front :: "'q \<Rightarrow> 't option \<times> 'q"

locale intrusive_list =
  fixes L :: "('t, 'q) list_api"
  assumes lnew_items [simp]: "list_items L (list_new L) = []"
    and lpush_items: "t \<notin> set (list_items L q) \<Longrightarrow>
      list_items L (list_push_back L q t) = list_items L q @ [t]"
    and lpop_fst: "fst (list_pop_front L q) = (case list_items L q of [] \<Rightarrow> None | t # ts \<Rightarrow> Some t)"
    and lpop_items: "list_items L (snd (list_pop_front L q)) = tl (list_items L q)"
begin

lemma lpop_cases:
  obtains (empty) q' where "list_pop_front L q = (None, q')" "list_items L q = []" "list_items L q' = []"
  | (front) t q' where "list_pop_front L q = (Some t, q')" "list_items L q = t # list_items L q'"
proof (cases "list_items L q")
  case Nil
  with lpop_fst [of q] lpop_items [of q] empty [of "snd (list_pop_front L q)"] show ?thesis
    by (simp add: prod_eq_iff)
next
  case (Cons t ts)
  with lpop_fst [of q] lpop_items [of q] front [of t "snd (list_pop_front L q)"] show ?thesis
    by (simp add: prod_eq_iff)
qed

end

section \<open>List instances\<close>

definition list_vec :: "nat \<Rightarrow> ('a, 'a list) vec_api" where
  "list_vec n = \<lparr>vec_new = [], vec_items = take n,
     vec_push = (\<lambda>v x. if length (take n v) < n then Some (take n v @ [x]) else None),
     vec_pop = (\<lambda>v. (if take n v = [] then None else Some (last (take n v)), butlast (take n v))),
     vec_remove = (\<lambda>v i. if i < length (take n v) then Some (take n v ! i, removed i (take n v)) else None),
     vec_swap_remove = (\<lambda>v i. if i < length (take n v) then Some (take n v ! i, swap_removed i (take n v)) else None),
     vec_retain = (\<lambda>v P. filter P (take n v)), vec_clear = (\<lambda>v. [])\<rparr>"

lemma list_vec_simps [simp]:
  "vec_new (list_vec n) = []"
  "vec_items (list_vec n) v = take n v"
  "vec_push (list_vec n) v x = (if length (take n v) < n then Some (take n v @ [x]) else None)"
  "vec_pop (list_vec n) v =
     (if take n v = [] then None else Some (last (take n v)), butlast (take n v))"
  "vec_remove (list_vec n) v i =
     (if i < length (take n v) then Some (take n v ! i, removed i (take n v)) else None)"
  "vec_swap_remove (list_vec n) v i =
     (if i < length (take n v) then Some (take n v ! i, swap_removed i (take n v)) else None)"
  "vec_retain (list_vec n) v P = filter P (take n v)"
  "vec_clear (list_vec n) v = []"
  by (simp_all add: list_vec_def)

lemma take_short: "length xs \<le> n \<Longrightarrow> take n xs = xs"
  by simp

lemma list_vec_bounded: "bounded_vec (list_vec n) n"
proof unfold_locales
  fix v :: "'a list" and P
  show "vec_items (list_vec n) (vec_retain (list_vec n) v P) = filter P (vec_items (list_vec n) v)"
    by (simp add: take_short order.trans [OF length_filter_le])
qed (auto simp: removed_def)

interpretation lvec: bounded_vec "list_vec n" n
  by (rule list_vec_bounded)

definition list_list :: "('t, 't list) list_api" where
  "list_list = \<lparr>list_new = [], list_items = (\<lambda>q. q), list_push_back = (\<lambda>q t. q @ [t]),
     list_pop_front = (\<lambda>q. case q of [] \<Rightarrow> (None, []) | t # ts \<Rightarrow> (Some t, ts))\<rparr>"

lemma list_list_simps [simp]:
  "list_new list_list = []"
  "list_items list_list q = q"
  "list_push_back list_list q t = q @ [t]"
  "list_pop_front list_list q = (case q of [] \<Rightarrow> (None, []) | t # ts \<Rightarrow> (Some t, ts))"
  by (simp_all add: list_list_def)

lemma list_list_intrusive: "intrusive_list list_list"
  by unfold_locales (auto split: list.splits)

interpretation llist: intrusive_list list_list
  by (rule list_list_intrusive)

end
