(* ===== verification/Priority.thy ===== *)
theory Priority
  imports Prelude
begin

text \<open>
  \<open>modules/executor/src/priority.rs\<close>: a priority is a number with the order turned round, so
  that priority 0 is the greatest.  \<open>cmp\<close> is the \<open>Ord\<close> instance of the code; the
  \<open>linorder\<close> instance of the type is that order, so \<open>p < q\<close> on priorities reads as in Rust.
\<close>

datatype priority = Priority (to_usize: nat)

datatype ordering = Less | Equal | Greater

definition usize_cmp :: "nat \<Rightarrow> nat \<Rightarrow> ordering" where
  "usize_cmp a b = (if a < b then Less else if a = b then Equal else Greater)"

definition priority_cmp :: "priority \<Rightarrow> priority \<Rightarrow> ordering" where
  "priority_cmp self other = usize_cmp (to_usize other) (to_usize self)"

definition partial_cmp :: "priority \<Rightarrow> priority \<Rightarrow> ordering option" where
  "partial_cmp self other = Some (priority_cmp self other)"

definition priority_set :: "priority \<Rightarrow> nat \<Rightarrow> priority" where
  "priority_set self prio = Priority prio"

definition is_lower_than :: "priority \<Rightarrow> priority \<Rightarrow> bool" where
  "is_lower_than self other \<longleftrightarrow> partial_cmp self other = Some Less"

definition is_higher_than :: "priority \<Rightarrow> priority \<Rightarrow> bool" where
  "is_higher_than self other \<longleftrightarrow> partial_cmp self other = Some Greater"

instantiation priority :: linorder
begin

definition less_eq_priority :: "priority \<Rightarrow> priority \<Rightarrow> bool" where
  "less_eq_priority p q \<longleftrightarrow> priority_cmp p q \<noteq> Greater"

definition less_priority :: "priority \<Rightarrow> priority \<Rightarrow> bool" where
  "less_priority p q \<longleftrightarrow> priority_cmp p q = Less"

instance
proof
  fix p q r :: priority
  show "p < q \<longleftrightarrow> p \<le> q \<and> \<not> q \<le> p"
    by (auto simp: less_eq_priority_def less_priority_def priority_cmp_def usize_cmp_def)
  show "p \<le> p" by (simp add: less_eq_priority_def priority_cmp_def usize_cmp_def)
  show "p \<le> q \<Longrightarrow> q \<le> r \<Longrightarrow> p \<le> r"
    by (auto simp: less_eq_priority_def priority_cmp_def usize_cmp_def split: if_splits)
  show "p \<le> q \<Longrightarrow> q \<le> p \<Longrightarrow> p = q"
    by (auto simp: less_eq_priority_def priority_cmp_def usize_cmp_def priority.expand split: if_splits)
  show "p \<le> q \<or> q \<le> p"
    by (auto simp: less_eq_priority_def priority_cmp_def usize_cmp_def)
qed

end

lemma priority_less_iff [simp]: "Priority a < Priority b \<longleftrightarrow> b < a"
  by (simp add: less_priority_def priority_cmp_def usize_cmp_def)

lemma priority_le_iff [simp]: "Priority a \<le> Priority b \<longleftrightarrow> b \<le> a"
  by (auto simp: less_eq_priority_def priority_cmp_def usize_cmp_def)

lemma is_lower_than_iff [simp]: "is_lower_than p q \<longleftrightarrow> to_usize q < to_usize p"
  by (simp add: is_lower_than_def partial_cmp_def priority_cmp_def usize_cmp_def)

lemma is_higher_than_iff [simp]: "is_higher_than p q \<longleftrightarrow> to_usize p < to_usize q"
  by (simp add: is_higher_than_def partial_cmp_def priority_cmp_def usize_cmp_def)

text \<open>
   The order on priorities is a total order in which the smaller number is the higher
  priority: \<open>is_higher_than\<close> and \<open>is_lower_than\<close> are its strict order and its converse, they
  exclude each other, and two priorities neither of which is higher are the same.
\<close>

theorem priority_order_inverted:
  "is_higher_than p q \<longleftrightarrow> q < p" "is_lower_than p q \<longleftrightarrow> p < q"
  "is_higher_than p q \<longleftrightarrow> to_usize p < to_usize q"
  "is_higher_than p q \<longleftrightarrow> is_lower_than q p"
  "p = q \<longleftrightarrow> \<not> is_higher_than p q \<and> \<not> is_lower_than p q"
  by (cases p; cases q; auto)+

end
