(* ===== verification/TaskState.thy ===== *)
theory TaskState
  imports Prelude
begin

text \<open>
  The two smallest components of a task: the atomic state byte of
  \<open>modules/executor/src/task/state.rs\<close> and the storage cell of
  \<open>modules/executor/src/util.rs\<close>.
\<close>

section \<open>The state byte\<close>

definition STATE_SPAWNED :: u8 where
  "STATE_SPAWNED = push_bit 0 1"

definition STATE_RUN_QUEUED :: u8 where
  "STATE_RUN_QUEUED = push_bit 1 1"

definition state_new :: u8 where
  "state_new = 0"

text \<open>The operations return their result with the new value of the byte.\<close>

definition state_spawn :: "u8 \<Rightarrow> bool \<times> u8" where
  "state_spawn inner = (let prev = inner in (prev AND STATE_SPAWNED = 0, inner OR STATE_SPAWNED))"

definition state_despawn :: "u8 \<Rightarrow> u8" where
  "state_despawn inner = inner AND NOT STATE_SPAWNED"

definition state_run_dequeue :: "u8 \<Rightarrow> u8" where
  "state_run_dequeue inner = inner AND NOT STATE_RUN_QUEUED"

text \<open>
  \<open>run_enqueue\<close> is two atomic steps: the \<open>fetch_or\<close>, here \<open>state_run_enqueue\<close>, whose flag
  says whether the closure runs, and then the closure inside \<open>critical_section::with\<close>.  An
  interrupt may be taken between the two.  \<open>run_enqueue\<close> is their composition on a state in
  which \<open>get\<close> reads the byte and \<open>put\<close> writes it.
\<close>

definition state_run_enqueue :: "u8 \<Rightarrow> bool \<times> u8" where
  "state_run_enqueue inner =
     (let prev = inner in (prev AND STATE_RUN_QUEUED = 0, inner OR STATE_RUN_QUEUED))"

definition run_enqueue :: "('s \<Rightarrow> u8) \<Rightarrow> (u8 \<Rightarrow> 's \<Rightarrow> 's) \<Rightarrow> ('s \<Rightarrow> 's result) \<Rightarrow> 's \<Rightarrow> (bool \<times> 's) result" where
  "run_enqueue get put f s =
     (case state_run_enqueue (get s) of
        (first, inner) \<Rightarrow>
          if first then rbind (f (put inner s)) (\<lambda>s'. Inr (True, s'))
          else Inr (False, put inner s))"

section \<open>The flags as predicates\<close>

definition spawned :: "u8 \<Rightarrow> bool" where
  "spawned inner \<longleftrightarrow> inner AND STATE_SPAWNED \<noteq> 0"

definition run_queued :: "u8 \<Rightarrow> bool" where
  "run_queued inner \<longleftrightarrow> inner AND STATE_RUN_QUEUED \<noteq> 0"

lemma bit_STATE_SPAWNED: "bit STATE_SPAWNED i \<longleftrightarrow> i = 0"
  by (simp add: STATE_SPAWNED_def bit_1_iff)

lemma bit_STATE_RUN_QUEUED: "bit STATE_RUN_QUEUED i \<longleftrightarrow> i = 1"
  by (auto simp: STATE_RUN_QUEUED_def bit_2_iff)

lemma and_flag_eq_0_iff:
  assumes "\<And>i. bit (m :: u8) i \<longleftrightarrow> i = n"
  shows "w AND m = 0 \<longleftrightarrow> \<not> bit w n"
proof
  assume "w AND m = 0"
  then have "\<not> bit (w AND m) n" by simp
  then show "\<not> bit w n" by (simp add: bit_and_iff assms)
next
  assume "\<not> bit w n"
  then show "w AND m = 0" by (intro bit_word_eqI) (auto simp: bit_and_iff assms)
qed

lemmas state_flag_simps =
  bit_STATE_SPAWNED bit_STATE_RUN_QUEUED bit_or_iff bit_and_iff bit_not_iff
  and_flag_eq_0_iff [OF bit_STATE_SPAWNED] and_flag_eq_0_iff [OF bit_STATE_RUN_QUEUED]
  state_spawn_def state_despawn_def state_run_enqueue_def state_run_dequeue_def

lemma spawned_bit: "spawned w \<longleftrightarrow> bit w 0"
  by (simp add: spawned_def state_flag_simps)

lemma run_queued_bit: "run_queued w \<longleftrightarrow> bit w 1"
  by (simp add: run_queued_def state_flag_simps del: One_nat_def)

lemma flags_new [simp]: "\<not> spawned state_new" "\<not> run_queued state_new"
  by (simp_all add: spawned_def run_queued_def state_new_def)

lemma fst_state_spawn [simp]: "fst (state_spawn w) \<longleftrightarrow> \<not> spawned w"
  by (simp add: state_spawn_def spawned_def)

text \<open>The \<open>fetch_or\<close> of a flag that is set leaves the byte as it is.\<close>

lemma state_run_enqueue_again: "run_queued w \<Longrightarrow> snd (state_run_enqueue w) = w"
  by (rule bit_eqI) (auto simp: run_queued_bit state_flag_simps)

lemma fst_state_run_enqueue [simp]: "fst (state_run_enqueue w) \<longleftrightarrow> \<not> run_queued w"
  by (simp add: state_run_enqueue_def run_queued_def)

lemma flags_spawn [simp]:
  "spawned (snd (state_spawn w))" "run_queued (snd (state_spawn w)) \<longleftrightarrow> run_queued w"
  by (auto simp: spawned_bit run_queued_bit state_flag_simps)

lemma flags_despawn [simp]:
  "\<not> spawned (state_despawn w)" "run_queued (state_despawn w) \<longleftrightarrow> run_queued w"
  by (auto simp: spawned_bit run_queued_bit state_flag_simps dest: bit_imp_le_length)

lemma flags_run_enqueue [simp]:
  "run_queued (snd (state_run_enqueue w))" "spawned (snd (state_run_enqueue w)) \<longleftrightarrow> spawned w"
  by (auto simp: spawned_bit run_queued_bit state_flag_simps)

lemma flags_run_dequeue [simp]:
  "\<not> run_queued (state_run_dequeue w)" "spawned (state_run_dequeue w) \<longleftrightarrow> spawned w"
  by (auto simp: spawned_bit run_queued_bit state_flag_simps dest: bit_imp_le_length)

text \<open>
   The two flags of a task's state byte are independent: \<open>spawn\<close> and \<open>despawn\<close> set and
  clear the spawned flag, \<open>run_enqueue\<close> and \<open>run_dequeue\<close> the run-queued flag, none of them
  touches the other flag or any of the six unused bits, and \<open>spawn\<close> and \<open>run_enqueue\<close> report
  success exactly when their flag was clear.
\<close>

theorem state_flags_independent:
  "fst (state_spawn w) \<longleftrightarrow> \<not> bit w 0"
  "bit (snd (state_spawn w)) i \<longleftrightarrow> i = 0 \<or> bit w i"
  "bit (state_despawn w) i \<longleftrightarrow> i \<noteq> 0 \<and> bit w i"
  "fst (state_run_enqueue w) \<longleftrightarrow> \<not> bit w 1"
  "bit (snd (state_run_enqueue w)) i \<longleftrightarrow> i = 1 \<or> bit w i"
  "bit (state_run_dequeue w) i \<longleftrightarrow> i \<noteq> 1 \<and> bit w i"
  by (auto simp: state_flag_simps dest: bit_imp_le_length)

section \<open>The uninitialised cell\<close>

text \<open>
  \<open>UninitCell<T>\<close>: memory that holds a value only after it was written.  Reading or dropping
  it before is undefined behaviour, which the model keeps as an error of its own so that its
  absence can be proved.
\<close>

datatype 'a cell = Uninit | Init 'a

definition cell_uninit :: "'a cell" where
  "cell_uninit = Uninit"

definition cell_as_mut :: "'a cell \<Rightarrow> 'a result" where
  "cell_as_mut c = (case c of Uninit \<Rightarrow> Inl UndefinedBehaviour | Init x \<Rightarrow> Inr x)"

definition cell_write_in_place :: "'a cell \<Rightarrow> 'a \<Rightarrow> 'a cell" where
  "cell_write_in_place c x = Init x"

definition cell_drop_in_place :: "'a cell \<Rightarrow> 'a cell result" where
  "cell_drop_in_place c = (case c of Uninit \<Rightarrow> Inl UndefinedBehaviour | Init x \<Rightarrow> Inr Uninit)"

lemma cell_simps [simp]:
  "cell_as_mut (Init x) = Inr x" "cell_as_mut Uninit = Inl UndefinedBehaviour"
  "cell_drop_in_place (Init x) = Inr Uninit" "cell_drop_in_place Uninit = Inl UndefinedBehaviour"
  "cell_write_in_place c x = Init x"
  by (simp_all add: cell_as_mut_def cell_drop_in_place_def cell_write_in_place_def)

end
