(* ===== verification/Kernel.thy ===== *)
theory Kernel
  imports Containers PriorityBitmap Priority TaskState
begin

text \<open>
  The state of the executor crate and its operations, each an atomic step or a composition of
  atomic steps: \<open>task/header.rs\<close>, \<open>task/run_queue.rs\<close>, \<open>task/storage.rs\<close>, \<open>task/waker.rs\<close>,
  \<open>task/join_handle.rs\<close>, \<open>executor.rs\<close> and \<open>spawner.rs\<close> of \<open>modules/executor/src\<close>, with
  \<open>pend\<close> and \<open>clear_pend\<close> of \<open>modules/platform/src/lib.rs\<close>.

  Tasks are statics, so a \<open>TaskRef\<close> (a pointer to a \<open>TaskInfo\<close>) is a number \<open>tid\<close> and all
  storages together are a function from numbers.  An executor pointer is the index of the
  executor in the spawner's array.  The type variables are the futures \<open>'f\<close>, their outputs
  \<open>'o\<close>, the intrusive list \<open>'q\<close> and the bounded vector \<open>'s\<close>; \<open>L\<close> and \<open>V\<close> are the
  operations of the last two.

  A body of \<open>critical_section::with\<close> runs with interrupts masked and is one step.  Where a
  function of the code has several such bodies, each is a definition of its own, since an
  interrupt may be taken between them, and the function is their composition.
\<close>

section \<open>State\<close>

type_synonym tid = nat

text \<open>A \<open>Waker\<close> of the crate is its data pointer; the vtable is shared by all of them.\<close>

type_synonym waker = tid

datatype poll_fn = PollStorage | PollExited

record ('f, 'o) task_storage =
  ti_state :: u8
  ti_executor_ptr :: "nat option"
  ti_poll_fn :: "poll_fn option"
  js_result :: "'o option"
  js_waker :: "waker option"
  ts_f :: "'f cell"

text \<open>The instances of \<open>BitmapOps\<close> that the source has; \<open>NoopOps\<close> is that of the unit tests.\<close>

datatype bitmap_ops = NotInitialized | SpawnerOps | NoopOps

record 'q executor =
  ex_run_queue :: 'q
  ex_priority :: nat
  ex_bitmap_ops :: bitmap_ops

text \<open>The devices of the repository that implement \<open>Ipi\<close>; the flag is \<open>READY\<close> of the driver.\<close>

datatype ipi_dev = ClintMsip bool | StdIpi

text \<open>
  The state that the functions of the crate share.  \<open>k_app\<close> stands for the statics of everything
  else (the application, the mutex, the timer queue); no function of the crate touches it.
\<close>

record ('f, 'o, 'q, 's, 'g) kernel =
  k_tasks :: "tid \<Rightarrow> ('f, 'o) task_storage"
  k_executors :: "'q executor list"
  k_bitmap :: priority_bitmap
  k_prio_stack :: 's
  k_pend_marker :: bool
  k_ipi :: "ipi_dev option"
  k_msip :: bool
  k_app :: 'g

datatype spawn_token = SpawnToken tid
datatype spawn_error = SpawnError
datatype join_handle = JoinHandle tid
datatype run_token = RunToken priority

definition upd_task :: "tid \<Rightarrow> (('f, 'o) task_storage \<Rightarrow> ('f, 'o) task_storage)
    \<Rightarrow> ('f, 'o, 'q, 's, 'g) kernel \<Rightarrow> ('f, 'o, 'q, 's, 'g) kernel" where
  "upd_task t f k = k\<lparr>k_tasks := (k_tasks k)(t := f (k_tasks k t))\<rparr>"

definition upd_exec :: "nat \<Rightarrow> ('q executor \<Rightarrow> 'q executor)
    \<Rightarrow> ('f, 'o, 'q, 's, 'g) kernel \<Rightarrow> ('f, 'o, 'q, 's, 'g) kernel" where
  "upd_exec e f k = k\<lparr>k_executors := (k_executors k)[e := f (k_executors k ! e)]\<rparr>"

section \<open>Pending the scheduler\<close>

definition ipi_send :: "ipi_dev \<Rightarrow> ('f, 'o, 'q, 's, 'g) kernel \<Rightarrow> ('f, 'o, 'q, 's, 'g) kernel" where
  "ipi_send d k = (case d of ClintMsip ready \<Rightarrow> if ready then k\<lparr>k_msip := True\<rparr> else k | StdIpi \<Rightarrow> k)"

definition ipi_clear :: "ipi_dev \<Rightarrow> ('f, 'o, 'q, 's, 'g) kernel \<Rightarrow> ('f, 'o, 'q, 's, 'g) kernel" where
  "ipi_clear d k = (case d of ClintMsip ready \<Rightarrow> if ready then k\<lparr>k_msip := False\<rparr> else k | StdIpi \<Rightarrow> k)"

text \<open>\<open>pend\<close> is two steps: the store to \<open>PEND_MARKER\<close> and \<open>ipi().send()\<close>.\<close>

definition pend_mark :: "('f, 'o, 'q, 's, 'g) kernel \<Rightarrow> ('f, 'o, 'q, 's, 'g) kernel" where
  "pend_mark k = k\<lparr>k_pend_marker := True\<rparr>"

definition pend_send :: "('f, 'o, 'q, 's, 'g) kernel \<Rightarrow> ('f, 'o, 'q, 's, 'g) kernel result" where
  "pend_send k = (case k_ipi k of None \<Rightarrow> Inl NotRegistered | Some d \<Rightarrow> Inr (ipi_send d k))"

definition pend :: "('f, 'o, 'q, 's, 'g) kernel \<Rightarrow> ('f, 'o, 'q, 's, 'g) kernel result" where
  "pend k = pend_send (pend_mark k)"

definition clear_pend :: "('f, 'o, 'q, 's, 'g) kernel \<Rightarrow> (bool \<times> ('f, 'o, 'q, 's, 'g) kernel) result" where
  "clear_pend k =
     (let is_system = k_pend_marker k; k' = k\<lparr>k_pend_marker := False\<rparr> in
      case k_ipi k of None \<Rightarrow> Inl NotRegistered | Some d \<Rightarrow> Inr (is_system, ipi_clear d k'))"

section \<open>Run queue\<close>

definition run_queue_dequeue ::
  "(tid, 'q) list_api \<Rightarrow> nat \<Rightarrow> ('f, 'o, 'q, 's, 'g) kernel \<Rightarrow> tid option \<times> ('f, 'o, 'q, 's, 'g) kernel" where
  "run_queue_dequeue L e k =
     (let (task, q) = list_pop_front L (ex_run_queue (k_executors k ! e));
          k' = upd_exec e (\<lambda>x. x\<lparr>ex_run_queue := q\<rparr>) k in
      case task of
        Some t \<Rightarrow> (Some t, upd_task t (\<lambda>i. i\<lparr>ti_state := state_run_dequeue (ti_state i)\<rparr>) k')
      | None \<Rightarrow> (None, k'))"

definition run_queue_enqueue ::
  "(tid, 'q) list_api \<Rightarrow> nat \<Rightarrow> tid \<Rightarrow> ('f, 'o, 'q, 's, 'g) kernel \<Rightarrow> ('f, 'o, 'q, 's, 'g) kernel" where
  "run_queue_enqueue L e t k =
     upd_exec e (\<lambda>x. x\<lparr>ex_run_queue := list_push_back L (ex_run_queue x) t\<rparr>) k"

section \<open>Executor\<close>

definition executor_new :: "(tid, 'q) list_api \<Rightarrow> nat \<Rightarrow> 'q executor" where
  "executor_new L prio =
     \<lparr>ex_run_queue = list_new L, ex_priority = prio, ex_bitmap_ops = NotInitialized\<rparr>"

definition set_bitmap_ops :: "bitmap_ops \<Rightarrow> 'q executor \<Rightarrow> 'q executor" where
  "set_bitmap_ops ops x = x\<lparr>ex_bitmap_ops := ops\<rparr>"

definition bm_set :: "nat \<Rightarrow> ('f, 'o, 'q, 's, 'g) kernel \<Rightarrow> ('f, 'o, 'q, 's, 'g) kernel result" where
  "bm_set prio k = rbind (bitmap_set (k_bitmap k) prio) (\<lambda>b. Inr (k\<lparr>k_bitmap := b\<rparr>))"

definition bm_clear :: "nat \<Rightarrow> ('f, 'o, 'q, 's, 'g) kernel \<Rightarrow> ('f, 'o, 'q, 's, 'g) kernel result" where
  "bm_clear prio k = rbind (bitmap_clear (k_bitmap k) prio) (\<lambda>b. Inr (k\<lparr>k_bitmap := b\<rparr>))"

definition ops_set :: "'q executor \<Rightarrow> ('f, 'o, 'q, 's, 'g) kernel \<Rightarrow> ('f, 'o, 'q, 's, 'g) kernel result" where
  "ops_set x k = (case ex_bitmap_ops x of
     NotInitialized \<Rightarrow> Inl BitmapOpsNotInitialized | SpawnerOps \<Rightarrow> bm_set (ex_priority x) k | NoopOps \<Rightarrow> Inr k)"

definition ops_clear :: "'q executor \<Rightarrow> ('f, 'o, 'q, 's, 'g) kernel \<Rightarrow> ('f, 'o, 'q, 's, 'g) kernel result" where
  "ops_clear x k = (case ex_bitmap_ops x of
     NotInitialized \<Rightarrow> Inl BitmapOpsNotInitialized | SpawnerOps \<Rightarrow> bm_clear (ex_priority x) k | NoopOps \<Rightarrow> Inr k)"

text \<open>The closure of \<open>Executor::enqueue\<close>, and \<open>enqueue\<close> itself.\<close>

definition enqueue_locked ::
  "(tid, 'q) list_api \<Rightarrow> nat \<Rightarrow> tid \<Rightarrow> ('f, 'o, 'q, 's, 'g) kernel \<Rightarrow> ('f, 'o, 'q, 's, 'g) kernel result" where
  "enqueue_locked L e t k =
     (let k1 = upd_task t (\<lambda>i. i\<lparr>ti_executor_ptr := Some e\<rparr>) k;
          k2 = run_queue_enqueue L e t k1
      in ops_set (k_executors k2 ! e) k2)"

definition put_state :: "tid \<Rightarrow> u8 \<Rightarrow> ('f, 'o, 'q, 's, 'g) kernel \<Rightarrow> ('f, 'o, 'q, 's, 'g) kernel" where
  "put_state t w k = upd_task t (\<lambda>i. i\<lparr>ti_state := w\<rparr>) k"

definition executor_enqueue ::
  "(tid, 'q) list_api \<Rightarrow> nat \<Rightarrow> tid \<Rightarrow> ('f, 'o, 'q, 's, 'g) kernel \<Rightarrow> (bool \<times> ('f, 'o, 'q, 's, 'g) kernel) result" where
  "executor_enqueue L e t k =
     run_enqueue (\<lambda>k. ti_state (k_tasks k t)) (put_state t) (enqueue_locked L e t) k"

text \<open>
  The closure of the loop in \<open>Executor::run\<close>: take the next task, or, if there is none, clear
  the executor's bit in the same critical section.
\<close>

definition run_next ::
  "(tid, 'q) list_api \<Rightarrow> nat \<Rightarrow> ('f, 'o, 'q, 's, 'g) kernel \<Rightarrow> (tid option \<times> ('f, 'o, 'q, 's, 'g) kernel) result" where
  "run_next L e k =
     (case run_queue_dequeue L e k of
        (Some t, k') \<Rightarrow> Inr (Some t, k')
      | (None, k') \<Rightarrow> rbind (ops_clear (k_executors k' ! e) k') (\<lambda>k''. Inr (None, k'')))"

definition wake_task ::
  "(tid, 'q) list_api \<Rightarrow> tid \<Rightarrow> ('f, 'o, 'q, 's, 'g) kernel \<Rightarrow> ('f, 'o, 'q, 's, 'g) kernel result" where
  "wake_task L t k =
     (case ti_executor_ptr (k_tasks k t) of
        None \<Rightarrow> Inr k
      | Some e \<Rightarrow>
          if e < length (k_executors k)
          then rbind (executor_enqueue L e t k) (\<lambda>(enqueued, k'). if enqueued then pend k' else Inr k')
          else Inl UndefinedBehaviour)"

section \<open>Wakers\<close>

definition waker_from_task :: "tid \<Rightarrow> waker" where
  "waker_from_task p = p"

definition waker_clone :: "waker \<Rightarrow> waker" where
  "waker_clone p = p"

definition waker_wake ::
  "(tid, 'q) list_api \<Rightarrow> waker \<Rightarrow> ('f, 'o, 'q, 's, 'g) kernel \<Rightarrow> ('f, 'o, 'q, 's, 'g) kernel result" where
  "waker_wake L p k = wake_task L p k"

definition waker_drop :: "waker \<Rightarrow> ('f, 'o, 'q, 's, 'g) kernel \<Rightarrow> ('f, 'o, 'q, 's, 'g) kernel" where
  "waker_drop p k = k"

section \<open>Task storage\<close>

definition storage_new :: "('f, 'o) task_storage" where
  "storage_new = \<lparr>ti_state = state_new, ti_executor_ptr = None, ti_poll_fn = None,
     js_result = None, js_waker = None, ts_f = cell_uninit\<rparr>"

definition storage_spawn ::
  "tid \<Rightarrow> 'f \<Rightarrow> ('f, 'o, 'q, 's, 'g) kernel \<Rightarrow> (spawn_error + spawn_token) \<times> ('f, 'o, 'q, 's, 'g) kernel" where
  "storage_spawn t f k =
     (case state_spawn (ti_state (k_tasks k t)) of
        (ok, w) \<Rightarrow>
          if \<not> ok then (Inl SpawnError, put_state t w k)
          else (Inr (SpawnToken t),
                upd_task t (\<lambda>i. i\<lparr>js_result := None, js_waker := None, ti_poll_fn := Some PollStorage,
                   ts_f := cell_write_in_place (ts_f i) f\<rparr>) (put_state t w k)))"

text \<open>
  The \<open>Ready\<close> branch of \<open>TaskStorage::poll\<close>, in the pieces that an interrupt may separate:
  storing the result, storing the null pointer, dropping the future and replacing the poll
  function, and the critical section that despawns the task and wakes the joiner.
\<close>

definition poll_store_result ::
  "tid \<Rightarrow> 'o \<Rightarrow> ('f, 'o, 'q, 's, 'g) kernel \<Rightarrow> ('f, 'o, 'q, 's, 'g) kernel" where
  "poll_store_result t out k = upd_task t (\<lambda>i. i\<lparr>js_result := Some out\<rparr>) k"

definition poll_clear_executor ::
  "tid \<Rightarrow> ('f, 'o, 'q, 's, 'g) kernel \<Rightarrow> ('f, 'o, 'q, 's, 'g) kernel" where
  "poll_clear_executor t k = upd_task t (\<lambda>i. i\<lparr>ti_executor_ptr := None\<rparr>) k"

definition poll_drop_future ::
  "tid \<Rightarrow> ('f, 'o, 'q, 's, 'g) kernel \<Rightarrow> ('f, 'o, 'q, 's, 'g) kernel result" where
  "poll_drop_future t k =
     rbind (cell_drop_in_place (ts_f (k_tasks k t)))
       (\<lambda>c. Inr (upd_task t (\<lambda>i. i\<lparr>ts_f := c, ti_poll_fn := Some PollExited\<rparr>) k))"

definition poll_despawn ::
  "(tid, 'q) list_api \<Rightarrow> tid \<Rightarrow> ('f, 'o, 'q, 's, 'g) kernel \<Rightarrow> ('f, 'o, 'q, 's, 'g) kernel result" where
  "poll_despawn L t k =
     (let k1 = put_state t (state_despawn (ti_state (k_tasks k t))) k in
      case js_waker (k_tasks k1 t) of
        Some w \<Rightarrow> waker_wake L w (upd_task t (\<lambda>i. i\<lparr>js_waker := None\<rparr>) k1)
      | None \<Rightarrow> Inr k1)"

definition poll_ready ::
  "(tid, 'q) list_api \<Rightarrow> tid \<Rightarrow> 'o \<Rightarrow> ('f, 'o, 'q, 's, 'g) kernel \<Rightarrow> ('f, 'o, 'q, 's, 'g) kernel result" where
  "poll_ready L t out k =
     rbind (poll_drop_future t (poll_clear_executor t (poll_store_result t out k))) (poll_despawn L t)"

section \<open>Join handle\<close>

text \<open>
  \<open>JoinHandle::poll\<close> is not inside a critical section: taking the result and storing the waker
  are two steps.
\<close>

definition join_take :: "tid \<Rightarrow> ('f, 'o, 'q, 's, 'g) kernel \<Rightarrow> 'o option \<times> ('f, 'o, 'q, 's, 'g) kernel" where
  "join_take t k = (js_result (k_tasks k t), upd_task t (\<lambda>i. i\<lparr>js_result := None\<rparr>) k)"

definition join_store :: "tid \<Rightarrow> waker \<Rightarrow> ('f, 'o, 'q, 's, 'g) kernel \<Rightarrow> ('f, 'o, 'q, 's, 'g) kernel" where
  "join_store t w k = upd_task t (\<lambda>i. i\<lparr>js_waker := Some (waker_clone w)\<rparr>) k"

definition join_poll ::
  "join_handle \<Rightarrow> waker \<Rightarrow> ('f, 'o, 'q, 's, 'g) kernel \<Rightarrow> 'o option \<times> ('f, 'o, 'q, 's, 'g) kernel" where
  "join_poll h w k = (case h of JoinHandle t \<Rightarrow>
     (case join_take t k of
        (Some v, k') \<Rightarrow> (Some v, k')
      | (None, k') \<Rightarrow> (None, join_store t w k')))"

section \<open>Spawner\<close>

definition spawner_new ::
  "(priority, 's) vec_api \<Rightarrow> (tid, 'q) list_api \<Rightarrow> nat \<Rightarrow> ('f, 'o, 'q, 's, 'g) kernel \<Rightarrow>
   ('f, 'o, 'q, 's, 'g) kernel result" where
  "spawner_new V L n k =
     (if 0 < n \<and> n \<le> 4096 then
        rbind (bitmap_new 64) (\<lambda>b.
          Inr (k\<lparr>k_executors := map (executor_new L) [0..<n], k_bitmap := b, k_prio_stack := vec_new V\<rparr>))
      else Inl AssertionFailed)"

definition spawner_init :: "('f, 'o, 'q, 's, 'g) kernel \<Rightarrow> ('f, 'o, 'q, 's, 'g) kernel" where
  "spawner_init k = k\<lparr>k_executors := map (set_bitmap_ops SpawnerOps) (k_executors k)\<rparr>"

text \<open>The critical section at the end of \<open>Spawner::spawn\<close>.\<close>

definition spawn_check ::
  "(priority, 's) vec_api \<Rightarrow> ('f, 'o, 'q, 's, 'g) kernel \<Rightarrow> ('f, 'o, 'q, 's, 'g) kernel result" where
  "spawn_check V k =
     rbind (bitmap_highest (k_bitmap k)) (\<lambda>highest_prio.
       case highest_prio of
         None \<Rightarrow> Inr k
       | Some p \<Rightarrow>
           let now_prio = (case vec_items V (k_prio_stack k) of [] \<Rightarrow> None | x # xs \<Rightarrow> Some (last (x # xs)));
               should_pend = (case now_prio of None \<Rightarrow> True | Some q \<Rightarrow> is_higher_than (Priority p) q)
           in if should_pend then pend k else Inr k)"

definition spawner_spawn ::
  "(priority, 's) vec_api \<Rightarrow> (tid, 'q) list_api \<Rightarrow> priority \<Rightarrow> spawn_token \<Rightarrow> ('f, 'o, 'q, 's, 'g) kernel \<Rightarrow>
   (join_handle \<times> ('f, 'o, 'q, 's, 'g) kernel) result" where
  "spawner_spawn V L prio token k =
     (if to_usize prio < length (k_executors k) then
        (case token of SpawnToken t \<Rightarrow>
           rbind (executor_enqueue L (to_usize prio) t k) (\<lambda>(enqueued, k1).
             rbind (if enqueued then spawn_check V k1 else Inr k1) (\<lambda>k2. Inr (JoinHandle t, k2))))
      else Inl PriorityOutOfRange)"

text \<open>Dropping a token that was not consumed by \<open>Spawner::spawn\<close>.\<close>

definition spawn_token_drop :: "spawn_token \<Rightarrow> 'a result" where
  "spawn_token_drop token = Inl TokenDropped"

definition try_preempt ::
  "(priority, 's) vec_api \<Rightarrow> ('f, 'o, 'q, 's, 'g) kernel \<Rightarrow> (run_token option \<times> ('f, 'o, 'q, 's, 'g) kernel) result" where
  "try_preempt V k =
     rbind (bitmap_highest (k_bitmap k)) (\<lambda>highest_prio.
       case highest_prio of
         None \<Rightarrow> Inr (None, k)
       | Some p \<Rightarrow>
           let highest = Priority p;
               stack = k_prio_stack k;
               push = (case vec_push V stack highest of
                         None \<Rightarrow> Inr (None, k)
                       | Some stack' \<Rightarrow> Inr (Some (RunToken highest), k\<lparr>k_prio_stack := stack'\<rparr>))
           in case vec_items V stack of
                [] \<Rightarrow> push
              | x # xs \<Rightarrow> if is_lower_than (last (x # xs)) highest then push else Inr (None, k))"

definition complete_executor ::
  "(priority, 's) vec_api \<Rightarrow> ('f, 'o, 'q, 's, 'g) kernel \<Rightarrow> ('f, 'o, 'q, 's, 'g) kernel" where
  "complete_executor V k = k\<lparr>k_prio_stack := snd (vec_pop V (k_prio_stack k))\<rparr>"

end
