(* ===== verification/Machine.thy ===== *)
theory Machine
  imports Kernel
begin

text \<open>
  The running system: one hart, one stack, interrupts.  \<open>#[executor::main]\<close>
  (\<open>modules/executor-macro/src/lib.rs\<close>) generates the entry point and the \<open>MachineSoft\<close>
  handler, which are modelled here together with the loop of \<open>Executor::run\<close> and the polls of
  the tasks, at the granularity of critical sections and single stores to shared memory.

  A machine state is the kernel state and a stack of activations, the running one first.  A
  preempted activation stays on the stack, under the interrupt handler that preempted it; that
  is the shared-stack design of \<open>blogs/docs/shared-stack.md\<close>.  Futures are code of the
  application: \<open>fpoll t f\<close> is the sequence of kernel calls that one poll of future \<open>f\<close> of task
  \<open>t\<close> makes, as a tree that branches on the results of the calls.
\<close>

section \<open>Programs of the application\<close>

datatype ('f, 'o, 'g) prog =
    Ready 'o
  | Pending 'f
  | Wake waker "('f, 'o, 'g) prog"
  | Spawn tid 'f priority "bool \<Rightarrow> ('f, 'o, 'g) prog"
  | Join tid "'o option \<Rightarrow> ('f, 'o, 'g) prog"
  | Access "'g \<Rightarrow> 'g" "'g \<Rightarrow> ('f, 'o, 'g) prog"

text \<open>
  \<open>Access u c\<close> is one atomic access to the memory that tasks and handlers share (\<open>k_app\<close>, the
  statics of the application and of the libraries it uses): it is updated by \<open>u\<close>, and \<open>c\<close>
  continues with what was read.

  Handlers and the user's \<open>main\<close> wake tasks, spawn tasks (a token is passed on to
  \<open>Spawner::spawn\<close> at once, an \<open>Err(SpawnError)\<close> is ignored) and access that memory, on which
  what they do next may depend.
\<close>

datatype ('f, 'g) isr_op =
    IsrWake waker
  | IsrSpawn tid 'f priority
  | IsrAccess "'g \<Rightarrow> 'g" "'g \<Rightarrow> ('f, 'g) isr_op list"

section \<open>Calls in progress\<close>

text \<open>
  Where a call stands that is not atomic: \<open>wake_task\<close> (\<open>W_\<close>), \<open>Spawner::spawn\<close> (\<open>D_\<close>) and
  \<open>JoinHandle::poll\<close> (\<open>J_\<close>).
\<close>

datatype stage =
    W_Load tid
  | W_Fetch nat tid
  | W_Push nat tid
  | W_Mark
  | W_Send
  | D_Fetch nat tid
  | D_Push nat tid
  | D_Check
  | J_Store tid waker

definition fetch_enqueue :: "tid \<Rightarrow> ('f, 'o, 'q, 's, 'g) kernel \<Rightarrow> bool \<times> ('f, 'o, 'q, 's, 'g) kernel" where
  "fetch_enqueue t k =
     (case state_run_enqueue (ti_state (k_tasks k t)) of (first, w) \<Rightarrow> (first, put_state t w k))"

fun step_stage ::
  "(priority, 's) vec_api \<Rightarrow> (tid, 'q) list_api \<Rightarrow> stage \<Rightarrow> ('f, 'o, 'q, 's, 'g) kernel \<Rightarrow>
   (stage option \<times> ('f, 'o, 'q, 's, 'g) kernel) result" where
  "step_stage V L (W_Load t) k =
     (case ti_executor_ptr (k_tasks k t) of
        None \<Rightarrow> Inr (None, k)
      | Some e \<Rightarrow> if e < length (k_executors k) then Inr (Some (W_Fetch e t), k) else Inl UndefinedBehaviour)"
| "step_stage V L (W_Fetch e t) k =
     (case fetch_enqueue t k of (first, k') \<Rightarrow> Inr (if first then Some (W_Push e t) else None, k'))"
| "step_stage V L (W_Push e t) k = rbind (enqueue_locked L e t k) (\<lambda>k'. Inr (Some W_Mark, k'))"
| "step_stage V L W_Mark k = Inr (Some W_Send, pend_mark k)"
| "step_stage V L W_Send k = rbind (pend_send k) (\<lambda>k'. Inr (None, k'))"
| "step_stage V L (D_Fetch e t) k =
     (case fetch_enqueue t k of (first, k') \<Rightarrow> Inr (if first then Some (D_Push e t) else None, k'))"
| "step_stage V L (D_Push e t) k = rbind (enqueue_locked L e t k) (\<lambda>k'. Inr (Some D_Check, k'))"
| "step_stage V L D_Check k = rbind (spawn_check V k) (\<lambda>k'. Inr (None, k'))"
| "step_stage V L (J_Store t w) k = Inr (None, join_store t w k)"

text \<open>
  \<open>TaskStorage::spawn\<close> followed, when it returned a token, by the range check of
  \<open>Spawner::spawn\<close>; the flag is whether there was a token.
\<close>

definition begin_spawn ::
  "tid \<Rightarrow> 'f \<Rightarrow> priority \<Rightarrow> ('f, 'o, 'q, 's, 'g) kernel \<Rightarrow>
   (bool \<times> stage option \<times> ('f, 'o, 'q, 's, 'g) kernel) result" where
  "begin_spawn t f p k =
     (case storage_spawn t f k of
        (Inl SpawnError, k') \<Rightarrow> Inr (False, None, k')
      | (Inr (SpawnToken t'), k') \<Rightarrow>
          if to_usize p < length (k_executors k') then Inr (True, Some (D_Fetch (to_usize p) t'), k')
          else Inl PriorityOutOfRange)"

section \<open>Activations\<close>

datatype irq_kind = KBoot | KHook | KIsr

datatype ('f, 'o, 'g) frame =
    FIdle
  | FIrq irq_kind "('f, 'g) isr_op list" "stage option"
  | FClear
  | FSched
  | FLoop nat
  | FGot nat tid
  | FPoll nat tid "stage option" "('f, 'o, 'g) prog"
  | FReady nat tid 'o
  | FNull nat tid
  | FDrop nat tid
  | FDespawn nat tid
  | FRunEnd nat
  | FComplete nat

record ('f, 'o, 'q, 's, 'g) machine =
  m_kernel :: "('f, 'o, 'q, 's, 'g) kernel"
  m_stack :: "('f, 'o, 'g) frame list"

text \<open>Whether interrupts are enabled while an activation runs.\<close>

fun frame_mie :: "('f, 'o, 'g) frame \<Rightarrow> bool" where
  "frame_mie (FIrq kind ops st) = False"
| "frame_mie FClear = False"
| "frame_mie FSched = False"
| "frame_mie (FComplete e) = False"
| "frame_mie fr = True"

text \<open>The executor whose \<open>run\<close> an activation is in.\<close>

fun active :: "('f, 'o, 'g) frame \<Rightarrow> nat option" where
  "active (FLoop e) = Some e"
| "active (FGot e t) = Some e"
| "active (FPoll e t st p) = Some e"
| "active (FReady e t out) = Some e"
| "active (FNull e t) = Some e"
| "active (FDrop e t) = Some e"
| "active (FDespawn e t) = Some e"
| "active (FRunEnd e) = Some e"
| "active (FComplete e) = Some e"
| "active fr = None"

fun frame_stage :: "('f, 'o, 'g) frame \<Rightarrow> stage option" where
  "frame_stage (FIrq kind ops st) = st"
| "frame_stage (FPoll e t st p) = st"
| "frame_stage fr = None"

section \<open>Steps\<close>

text \<open>One step of the running activation: the activations that replace it, and the new kernel state.\<close>

fun step_irq ::
  "(priority, 's) vec_api \<Rightarrow> (tid, 'q) list_api \<Rightarrow> irq_kind \<Rightarrow> ('f, 'g) isr_op list \<Rightarrow> stage option \<Rightarrow>
   ('f, 'o, 'q, 's, 'g) kernel \<Rightarrow> (('f, 'o, 'g) frame list \<times> ('f, 'o, 'q, 's, 'g) kernel) result" where
  "step_irq V L kind ops (Some st) k =
     rbind (step_stage V L st k) (\<lambda>(st', k'). Inr ([FIrq kind ops st'], k'))"
| "step_irq V L kind (IsrWake w # ops) None k = Inr ([FIrq kind ops (Some (W_Load w))], k)"
| "step_irq V L kind (IsrSpawn t f p # ops) None k =
     rbind (begin_spawn t f p k) (\<lambda>(ok, st', k'). Inr ([FIrq kind ops st'], k'))"
| "step_irq V L kind (IsrAccess u c # ops) None k =
     Inr ([FIrq kind (c (k_app k) @ ops) None], k\<lparr>k_app := u (k_app k)\<rparr>)"
| "step_irq V L KBoot [] None k = Inr ([FIdle], k)"
| "step_irq V L KHook [] None k = Inr ([FClear], k)"
| "step_irq V L KIsr [] None k = Inr ([], k)"

fun step_poll ::
  "(priority, 's) vec_api \<Rightarrow> (tid, 'q) list_api \<Rightarrow> nat \<Rightarrow> tid \<Rightarrow> stage option \<Rightarrow> ('f, 'o, 'g) prog \<Rightarrow>
   ('f, 'o, 'q, 's, 'g) kernel \<Rightarrow> (('f, 'o, 'g) frame list \<times> ('f, 'o, 'q, 's, 'g) kernel) result" where
  "step_poll V L e t (Some st) p k =
     rbind (step_stage V L st k) (\<lambda>(st', k'). Inr ([FPoll e t st' p], k'))"
| "step_poll V L e t None (Ready out) k = Inr ([FReady e t out], k)"
| "step_poll V L e t None (Pending f) k = Inr ([FLoop e], upd_task t (\<lambda>i. i\<lparr>ts_f := Init f\<rparr>) k)"
| "step_poll V L e t None (Wake w p) k = Inr ([FPoll e t (Some (W_Load w)) p], k)"
| "step_poll V L e t None (Spawn t' f prio c) k =
     rbind (begin_spawn t' f prio k) (\<lambda>(ok, st', k'). Inr ([FPoll e t st' (c ok)], k'))"
| "step_poll V L e t None (Join t' c) k =
     (case join_take t' k of
        (Some v, k') \<Rightarrow> Inr ([FPoll e t None (c (Some v))], k')
      | (None, k') \<Rightarrow> Inr ([FPoll e t (Some (J_Store t' (waker_from_task t))) (c None)], k'))"
| "step_poll V L e t None (Access u c) k =
     Inr ([FPoll e t None (c (k_app k))], k\<lparr>k_app := u (k_app k)\<rparr>)"

fun step_frame ::
  "(priority, 's) vec_api \<Rightarrow> (tid, 'q) list_api \<Rightarrow> (tid \<Rightarrow> 'f \<Rightarrow> ('f, 'o, 'g) prog) \<Rightarrow> ('f, 'o, 'g) frame \<Rightarrow>
   ('f, 'o, 'q, 's, 'g) kernel \<Rightarrow> (('f, 'o, 'g) frame list \<times> ('f, 'o, 'q, 's, 'g) kernel) result" where
  "step_frame V L fpoll FIdle k = Inr ([FIdle], k)"
| "step_frame V L fpoll (FIrq kind ops st) k = step_irq V L kind ops st k"
| "step_frame V L fpoll FClear k =
     rbind (clear_pend k) (\<lambda>(is_system, k'). Inr (if is_system then [FSched] else [], k'))"
| "step_frame V L fpoll FSched k =
     rbind (try_preempt V k) (\<lambda>(rt, k').
       case rt of
         None \<Rightarrow> Inr ([], k')
       | Some (RunToken p) \<Rightarrow>
           if to_usize p < length (k_executors k') then Inr ([FLoop (to_usize p)], k')
           else Inl IndexOutOfBounds)"
| "step_frame V L fpoll (FLoop e) k =
     rbind (run_next L e k) (\<lambda>(task, k').
       case task of Some t \<Rightarrow> Inr ([FGot e t], k') | None \<Rightarrow> Inr ([FRunEnd e], k'))"
| "step_frame V L fpoll (FGot e t) k =
     (case ti_poll_fn (k_tasks k t) of
        None \<Rightarrow> Inl UnwrapNone
      | Some PollExited \<Rightarrow> Inr ([FLoop e], k)
      | Some PollStorage \<Rightarrow>
          rbind (cell_as_mut (ts_f (k_tasks k t))) (\<lambda>f. Inr ([FPoll e t None (fpoll t f)], k)))"
| "step_frame V L fpoll (FPoll e t st p) k = step_poll V L e t st p k"
| "step_frame V L fpoll (FReady e t out) k = Inr ([FNull e t], poll_store_result t out k)"
| "step_frame V L fpoll (FNull e t) k = Inr ([FDrop e t], poll_clear_executor t k)"
| "step_frame V L fpoll (FDrop e t) k = rbind (poll_drop_future t k) (\<lambda>k'. Inr ([FDespawn e t], k'))"
| "step_frame V L fpoll (FDespawn e t) k = rbind (poll_despawn L t k) (\<lambda>k'. Inr ([FLoop e], k'))"
| "step_frame V L fpoll (FRunEnd e) k = Inr ([FComplete e], k)"
| "step_frame V L fpoll (FComplete e) k = Inr ([FSched], complete_executor V k)"

text \<open>
  What happens next: the running activation makes a step, an interrupt is taken (the machine
  software interrupt if its pending bit is set, any other at any time interrupts are enabled),
  or another hart writes this hart's \<open>msip\<close>.
\<close>

datatype ('f, 'g) event = Step | TakeIsr "('f, 'g) isr_op list" | TakeMsi "('f, 'g) isr_op list" | RaiseMsi

fun exec ::
  "(priority, 's) vec_api \<Rightarrow> (tid, 'q) list_api \<Rightarrow> (tid \<Rightarrow> 'f \<Rightarrow> ('f, 'o, 'g) prog) \<Rightarrow> ('f, 'g) event \<Rightarrow>
   ('f, 'o, 'q, 's, 'g) machine \<Rightarrow> ('f, 'o, 'q, 's, 'g) machine result option" where
  "exec V L fpoll Step m =
     (case m_stack m of
        [] \<Rightarrow> None
      | fr # rest \<Rightarrow> Some (rbind (step_frame V L fpoll fr (m_kernel m))
          (\<lambda>(frs, k'). Inr \<lparr>m_kernel = k', m_stack = frs @ rest\<rparr>)))"
| "exec V L fpoll (TakeIsr ops) m =
     (case m_stack m of
        [] \<Rightarrow> None
      | fr # rest \<Rightarrow> if frame_mie fr
          then Some (Inr (m\<lparr>m_stack := FIrq KIsr ops None # fr # rest\<rparr>)) else None)"
| "exec V L fpoll (TakeMsi ops) m =
     (case m_stack m of
        [] \<Rightarrow> None
      | fr # rest \<Rightarrow> if frame_mie fr \<and> k_msip (m_kernel m)
          then Some (Inr (m\<lparr>m_stack := FIrq KHook ops None # fr # rest\<rparr>)) else None)"
| "exec V L fpoll RaiseMsi m = Some (Inr (m\<lparr>m_kernel := (m_kernel m)\<lparr>k_msip := True\<rparr>\<rparr>))"

text \<open>A run: the events in order; it ends at a panic, and an event that is not enabled ends it too.\<close>

fun exec_all ::
  "(priority, 's) vec_api \<Rightarrow> (tid, 'q) list_api \<Rightarrow> (tid \<Rightarrow> 'f \<Rightarrow> ('f, 'o, 'g) prog) \<Rightarrow> ('f, 'g) event list \<Rightarrow>
   ('f, 'o, 'q, 's, 'g) machine \<Rightarrow> ('f, 'o, 'q, 's, 'g) machine result option" where
  "exec_all V L fpoll [] m = Some (Inr m)"
| "exec_all V L fpoll (ev # evs) m =
     (case exec V L fpoll ev m of
        None \<Rightarrow> None
      | Some (Inl e) \<Rightarrow> Some (Inl e)
      | Some (Inr m') \<Rightarrow> exec_all V L fpoll evs m')"

text \<open>
  The state in which the user's \<open>main\<close> starts: the platform is up (the IPI device is set), a
  new spawner of \<open>n\<close> priorities is initialised, no task was ever spawned.
\<close>

definition boot_kernel ::
  "(priority, 's) vec_api \<Rightarrow> (tid, 'q) list_api \<Rightarrow> ipi_dev \<Rightarrow> nat \<Rightarrow> 'g \<Rightarrow> ('f, 'o, 'q, 's, 'g) kernel result" where
  "boot_kernel V L dev n g =
     rbind (spawner_new V L n
       \<lparr>k_tasks = (\<lambda>t. storage_new), k_executors = [], k_bitmap = \<lparr>group_map = 0, group_table = []\<rparr>,
        k_prio_stack = vec_new V, k_pend_marker = False, k_ipi = Some dev, k_msip = False, k_app = g\<rparr>)
       (\<lambda>k. Inr (spawner_init k))"

definition boot_machine ::
  "(priority, 's) vec_api \<Rightarrow> (tid, 'q) list_api \<Rightarrow> ipi_dev \<Rightarrow> nat \<Rightarrow> 'g \<Rightarrow> ('f, 'g) isr_op list \<Rightarrow>
   ('f, 'o, 'q, 's, 'g) machine result" where
  "boot_machine V L dev n g ops =
     rbind (boot_kernel V L dev n g) (\<lambda>k. Inr \<lparr>m_kernel = k, m_stack = [FIrq KBoot ops None]\<rparr>)"

inductive reachable ::
  "(priority, 's) vec_api \<Rightarrow> (tid, 'q) list_api \<Rightarrow> (tid \<Rightarrow> 'f \<Rightarrow> ('f, 'o, 'g) prog) \<Rightarrow> nat \<Rightarrow>
   ('f, 'o, 'q, 's, 'g) machine \<Rightarrow> bool"
  for V :: "(priority, 's) vec_api" and L :: "(tid, 'q) list_api"
    and fpoll :: "tid \<Rightarrow> 'f \<Rightarrow> ('f, 'o, 'g) prog" and n :: nat where
  reach_boot: "boot_machine V L (ClintMsip True) n g ops = Inr m \<Longrightarrow> reachable V L fpoll n m"
| reach_step: "reachable V L fpoll n m \<Longrightarrow> exec V L fpoll ev m = Some (Inr m') \<Longrightarrow> reachable V L fpoll n m'"

end
