(* ===== verification/KernelLemmas.thy ===== *)
theory KernelLemmas
  imports Machine
begin

text \<open>
  What each kernel operation does to the parts of the state the scheduler's invariant speaks
  of: the contents of the run queues, the members of the ready bitmap, the run-queued flags,
  the executor pointers and the pending bits.
\<close>

section \<open>Views of the kernel state\<close>

definition queue :: "(tid, 'q) list_api \<Rightarrow> ('f, 'o, 'q, 's, 'g) kernel \<Rightarrow> nat \<Rightarrow> tid list" where
  "queue L k e = list_items L (ex_run_queue (k_executors k ! e))"

definition ready_bits :: "('f, 'o, 'q, 's, 'g) kernel \<Rightarrow> nat set" where
  "ready_bits k = members (k_bitmap k)"

definition flagged :: "('f, 'o, 'q, 's, 'g) kernel \<Rightarrow> tid \<Rightarrow> bool" where
  "flagged k t \<longleftrightarrow> run_queued (ti_state (k_tasks k t))"

definition queued :: "(tid, 'q) list_api \<Rightarrow> nat \<Rightarrow> ('f, 'o, 'q, 's, 'g) kernel \<Rightarrow> tid multiset" where
  "queued L n k = (\<Sum>e<n. mset (queue L k e))"

text \<open>The wiring that \<open>Spawner::init\<close> leaves and nothing changes.\<close>

definition wired :: "nat \<Rightarrow> ('f, 'o, 'q, 's, 'g) kernel \<Rightarrow> bool" where
  "wired n k \<longleftrightarrow> length (k_executors k) = n \<and> n \<le> 4096
     \<and> (\<forall>e<n. ex_priority (k_executors k ! e) = e \<and> ex_bitmap_ops (k_executors k ! e) = SpawnerOps)
     \<and> bitmap_wf 64 (k_bitmap k) \<and> k_ipi k = Some (ClintMsip True)"

lemma upd_task_simps [simp]:
  "k_tasks (upd_task t f k) = (k_tasks k)(t := f (k_tasks k t))"
  "k_executors (upd_task t f k) = k_executors k"
  "k_bitmap (upd_task t f k) = k_bitmap k"
  "k_prio_stack (upd_task t f k) = k_prio_stack k"
  "k_pend_marker (upd_task t f k) = k_pend_marker k"
  "k_ipi (upd_task t f k) = k_ipi k"
  "k_msip (upd_task t f k) = k_msip k"
  by (simp_all add: upd_task_def)

lemma upd_exec_simps [simp]:
  "k_tasks (upd_exec e g k) = k_tasks k"
  "k_executors (upd_exec e g k) = (k_executors k)[e := g (k_executors k ! e)]"
  "k_bitmap (upd_exec e g k) = k_bitmap k"
  "k_prio_stack (upd_exec e g k) = k_prio_stack k"
  "k_pend_marker (upd_exec e g k) = k_pend_marker k"
  "k_ipi (upd_exec e g k) = k_ipi k"
  "k_msip (upd_exec e g k) = k_msip k"
  by (simp_all add: upd_exec_def)

lemma put_state_simps [simp]:
  "k_tasks (put_state t w k) = (k_tasks k)(t := (k_tasks k t)\<lparr>ti_state := w\<rparr>)"
  "k_executors (put_state t w k) = k_executors k"
  "k_bitmap (put_state t w k) = k_bitmap k"
  "k_prio_stack (put_state t w k) = k_prio_stack k"
  "k_pend_marker (put_state t w k) = k_pend_marker k"
  "k_ipi (put_state t w k) = k_ipi k"
  "k_msip (put_state t w k) = k_msip k"
  by (simp_all add: put_state_def)

lemma view_cong:
  assumes "k_executors k' = k_executors k" "k_bitmap k' = k_bitmap k" "k_ipi k' = k_ipi k"
  shows "queue L k' e = queue L k e" "ready_bits k' = ready_bits k" "queued L n k' = queued L n k"
    "wired n k' \<longleftrightarrow> wired n k"
  using assms by (simp_all add: queue_def ready_bits_def queued_def wired_def)

lemma task_views [simp]:
  "queue L (upd_task t f k) e = queue L k e" "ready_bits (upd_task t f k) = ready_bits k"
  "queued L n (upd_task t f k) = queued L n k" "wired n (upd_task t f k) = wired n k"
  "queue L (put_state t w k) e = queue L k e" "ready_bits (put_state t w k) = ready_bits k"
  "queued L n (put_state t w k) = queued L n k" "wired n (put_state t w k) = wired n k"
  by (simp_all only: put_state_def) (rule view_cong; simp)+

lemma pend_views [simp]:
  "queue L (k\<lparr>k_pend_marker := a\<rparr>) e = queue L k e" "ready_bits (k\<lparr>k_pend_marker := a\<rparr>) = ready_bits k"
  "queued L n (k\<lparr>k_pend_marker := a\<rparr>) = queued L n k" "wired n (k\<lparr>k_pend_marker := a\<rparr>) = wired n k"
  "flagged (k\<lparr>k_pend_marker := a\<rparr>) t = flagged k t"
  "queue L (k\<lparr>k_msip := a\<rparr>) e = queue L k e" "ready_bits (k\<lparr>k_msip := a\<rparr>) = ready_bits k"
  "queued L n (k\<lparr>k_msip := a\<rparr>) = queued L n k" "wired n (k\<lparr>k_msip := a\<rparr>) = wired n k"
  "flagged (k\<lparr>k_msip := a\<rparr>) t = flagged k t"
  "queue L (k\<lparr>k_prio_stack := ps\<rparr>) e = queue L k e" "ready_bits (k\<lparr>k_prio_stack := ps\<rparr>) = ready_bits k"
  "queued L n (k\<lparr>k_prio_stack := ps\<rparr>) = queued L n k" "wired n (k\<lparr>k_prio_stack := ps\<rparr>) = wired n k"
  "flagged (k\<lparr>k_prio_stack := ps\<rparr>) t = flagged k t"
  "queue L (k\<lparr>k_app := g\<rparr>) e = queue L k e" "ready_bits (k\<lparr>k_app := g\<rparr>) = ready_bits k"
  "queued L n (k\<lparr>k_app := g\<rparr>) = queued L n k" "wired n (k\<lparr>k_app := g\<rparr>) = wired n k"
  "flagged (k\<lparr>k_app := g\<rparr>) t = flagged k t"
  by (simp_all add: queue_def ready_bits_def queued_def wired_def flagged_def)

lemma wiredD:
  assumes "wired n k"
  shows "length (k_executors k) = n" "n \<le> 4096" "bitmap_wf 64 (k_bitmap k)" "k_ipi k = Some (ClintMsip True)"
    "e < n \<Longrightarrow> ex_priority (k_executors k ! e) = e" "e < n \<Longrightarrow> ex_bitmap_ops (k_executors k ! e) = SpawnerOps"
  using assms by (simp_all add: wired_def)

lemma pend_wired:
  "wired n k \<Longrightarrow> pend k = Inr (k\<lparr>k_pend_marker := True, k_msip := True\<rparr>)"
  by (simp add: pend_def pend_send_def pend_mark_def ipi_send_def wiredD)

lemma pend_send_wired: "wired n k \<Longrightarrow> pend_send k = Inr (k\<lparr>k_msip := True\<rparr>)"
  by (simp add: pend_send_def ipi_send_def wiredD)

lemma clear_pend_wired:
  "wired n k \<Longrightarrow> clear_pend k = Inr (k_pend_marker k, k\<lparr>k_pend_marker := False, k_msip := False\<rparr>)"
  by (simp add: clear_pend_def ipi_clear_def wiredD)

text \<open>Changing one queue changes the multiset of queued tasks by the difference.\<close>

lemma queued_change:
  fixes k k' :: "('b, 'c, 'a, 'd, 'g) kernel"
  assumes "e < n" and "\<And>e'. e' < n \<Longrightarrow> e' \<noteq> e \<Longrightarrow> queue L k' e' = queue L k e'"
    and "mset (queue L k' e) + A = mset (queue L k e) + B"
  shows "queued L n k' + A = queued L n k + B"
proof -
  let ?R = "\<lambda>h. \<Sum>i\<in>{..<n} - {e}. mset (queue L h i)"
  have split: "queued L n h = mset (queue L h e) + ?R h" for h :: "('b, 'c, 'a, 'd, 'g) kernel"
    unfolding queued_def using assms(1) by (subst sum.remove [of _ e]) auto
  have R: "?R k' = ?R k"
    using assms(2) by (intro sum.cong) auto
  have "queued L n k' + A = (mset (queue L k' e) + A) + ?R k'"
    by (simp add: split ac_simps)
  also have "\<dots> = (mset (queue L k e) + B) + ?R k"
    by (simp only: assms(3) R)
  finally show ?thesis
    by (simp add: split ac_simps)
qed

lemma in_queued: "t \<in># queued L n k \<longleftrightarrow> (\<exists>e<n. t \<in> set (queue L k e))"
  by (auto simp: queued_def set_mset_sum)

section \<open>The operations on the views\<close>

text \<open>What \<open>k'\<close> keeps of \<open>k\<close> when only queues, bits and tasks change.\<close>

definition same_sched :: "('f, 'o, 'q, 's, 'g) kernel \<Rightarrow> ('f, 'o, 'q, 's, 'g) kernel \<Rightarrow> bool" where
  "same_sched k k' \<longleftrightarrow> k_prio_stack k' = k_prio_stack k \<and> k_pend_marker k' = k_pend_marker k
     \<and> k_msip k' = k_msip k"

locale runtime = bounded_vec V n + intrusive_list L
  for V :: "(priority, 's) vec_api" and n :: nat and L :: "(tid, 'q) list_api"
begin

lemma enqueue_locked_ok:
  fixes k :: "('f, 'o, 'q, 's, 'g) kernel"
  assumes w: "wired n k" and e: "e < n" and t: "t \<notin> set (queue L k e)"
  obtains k' where "enqueue_locked L e t k = Inr k'" "wired n k'" "same_sched k k'"
    "queue L k' e = queue L k e @ [t]" "\<forall>e'. e' \<noteq> e \<longrightarrow> queue L k' e' = queue L k e'"
    "ready_bits k' = insert e (ready_bits k)"
    "k_tasks k' = (k_tasks k)(t := (k_tasks k t)\<lparr>ti_executor_ptr := Some e\<rparr>)"
proof -
  let ?k2 = "run_queue_enqueue L e t (upd_task t (\<lambda>i. i\<lparr>ti_executor_ptr := Some e\<rparr>) k)"
  have "e < 64 * 64" using e wiredD(2) [OF w] by linarith
  then obtain b where b: "bitmap_set (k_bitmap k) e = Inr b" "bitmap_wf 64 b"
      "members b = insert e (members (k_bitmap k))"
    by (rule bitmap_set_ok [OF wiredD(3) [OF w]])
  have ex: "e < length (k_executors k)" "ex_bitmap_ops (k_executors k ! e) = SpawnerOps"
      "ex_priority (k_executors k ! e) = e"
    using w e by (simp_all add: wiredD)
  show ?thesis
  proof (rule that [of "?k2\<lparr>k_bitmap := b\<rparr>"])
    show "enqueue_locked L e t k = Inr (?k2\<lparr>k_bitmap := b\<rparr>)"
      using ex b by (simp add: enqueue_locked_def run_queue_enqueue_def ops_set_def bm_set_def Let_def)
    show "wired n (?k2\<lparr>k_bitmap := b\<rparr>)"
      using w b ex by (auto simp: wired_def run_queue_enqueue_def nth_list_update)
    show "queue L (?k2\<lparr>k_bitmap := b\<rparr>) e = queue L k e @ [t]"
      using ex t by (simp add: queue_def run_queue_enqueue_def lpush_items)
  qed (use b in \<open>simp_all add: same_sched_def queue_def ready_bits_def run_queue_enqueue_def\<close>)
qed

lemma run_next_ok:
  fixes k :: "('f, 'o, 'q, 's, 'g) kernel"
  assumes w: "wired n k" and e: "e < n"
  obtains (task) t k' where "run_next L e k = Inr (Some t, k')" "queue L k e = t # queue L k' e"
      "wired n k'" "same_sched k k'" "\<forall>e'. e' \<noteq> e \<longrightarrow> queue L k' e' = queue L k e'"
      "ready_bits k' = ready_bits k"
      "k_tasks k' = (k_tasks k)(t := (k_tasks k t)\<lparr>ti_state := state_run_dequeue (ti_state (k_tasks k t))\<rparr>)"
  | (empty) k' where "run_next L e k = Inr (None, k')" "queue L k e = []" "queue L k' e = []"
      "wired n k'" "same_sched k k'" "\<forall>e'. e' \<noteq> e \<longrightarrow> queue L k' e' = queue L k e'"
      "ready_bits k' = ready_bits k - {e}" "k_tasks k' = k_tasks k"
proof -
  have ex: "e < length (k_executors k)" "ex_bitmap_ops (k_executors k ! e) = SpawnerOps"
      "ex_priority (k_executors k ! e) = e"
    using w e by (simp_all add: wiredD)
  have "e < 64 * 64" using e wiredD(2) [OF w] by linarith
  then obtain b where b: "bitmap_clear (k_bitmap k) e = Inr b" "bitmap_wf 64 b"
      "members b = members (k_bitmap k) - {e}"
    by (rule bitmap_clear_ok [OF wiredD(3) [OF w]])
  show ?thesis
  proof (cases rule: lpop_cases [of "ex_run_queue (k_executors k ! e)"])
    case (empty q')
    let ?k = "upd_exec e (\<lambda>x. x\<lparr>ex_run_queue := q'\<rparr>) k"
    show ?thesis
    proof (rule that(2) [of "?k\<lparr>k_bitmap := b\<rparr>"])
      show "run_next L e k = Inr (None, ?k\<lparr>k_bitmap := b\<rparr>)"
        using empty ex b by (simp add: run_next_def run_queue_dequeue_def ops_clear_def bm_clear_def Let_def)
      show "wired n (?k\<lparr>k_bitmap := b\<rparr>)"
        using w b ex by (auto simp: wired_def nth_list_update)
    qed (use empty ex b in \<open>simp_all add: same_sched_def queue_def ready_bits_def\<close>)
  next
    case (front t q')
    let ?k = "upd_task t (\<lambda>i. i\<lparr>ti_state := state_run_dequeue (ti_state i)\<rparr>)
      (upd_exec e (\<lambda>x. x\<lparr>ex_run_queue := q'\<rparr>) k)"
    show ?thesis
    proof (rule that(1) [of t ?k])
      show "run_next L e k = Inr (Some t, ?k)"
        using front by (simp add: run_next_def run_queue_dequeue_def Let_def)
      show "wired n ?k"
        using w ex by (auto simp: wired_def nth_list_update)
    qed (use front ex in \<open>simp_all add: same_sched_def queue_def ready_bits_def\<close>)
  qed
qed

lemma highest_wired:
  "wired n k \<Longrightarrow> bitmap_highest (k_bitmap k) =
     Inr (if ready_bits k = {} then None else Some (Min (ready_bits k)))"
  by (simp add: bitmap_highest_ok [OF wiredD(3)] ready_bits_def)

lemma finite_ready_bits: "wired n k \<Longrightarrow> finite (ready_bits k)"
  by (simp add: ready_bits_def finite_members [OF wiredD(3)])

end

text \<open>The list instances provide what the runtime needs of its two containers.\<close>

interpretation rt: runtime "list_vec n" n list_list
  by (intro runtime.intro list_vec_bounded list_list_intrusive)

end
