(* ===== verification/SchedInv.thy ===== *)
theory SchedInv
  imports KernelLemmas
begin

text \<open>
  The invariant of the scheduler and its preservation by every step of the machine.  It has
  six parts: the wiring of the executors, the priority stack against the activations on the
  call stack, the run-queued flags against the contents of the queues, the ready bits against
  the queues, the executor indices that calls in progress hold, and the rule that ready work of
  a higher priority than the running executor is attended to.
\<close>

section \<open>Functions of the activation stack\<close>

primrec actives :: "('f, 'o, 'g) frame list \<Rightarrow> nat list" where
  "actives [] = []"
| "actives (fr # rest) = (case active fr of None \<Rightarrow> actives rest | Some e \<Rightarrow> e # actives rest)"

text \<open>The executors whose loop has not yet found its queue empty.\<close>

definition loops :: "('f, 'o, 'g) frame \<Rightarrow> nat set" where
  "loops fr = (case fr of FRunEnd e \<Rightarrow> {} | FComplete e \<Rightarrow> {} | _ \<Rightarrow> set_option (active fr))"

definition looping :: "('f, 'o, 'g) frame list \<Rightarrow> nat set" where
  "looping stk = (\<Union>fr\<in>set stk. loops fr)"

text \<open>Tasks whose run-queued flag is set and whose push onto a queue is still to come.\<close>

fun pusher :: "stage option \<Rightarrow> tid multiset" where
  "pusher (Some (W_Push e t)) = {#t#}"
| "pusher (Some (D_Push e t)) = {#t#}"
| "pusher st = {#}"

primrec pushing :: "('f, 'o, 'g) frame list \<Rightarrow> tid multiset" where
  "pushing [] = {#}"
| "pushing (fr # rest) = pusher (frame_stage fr) + pushing rest"

fun stage_ok :: "nat \<Rightarrow> stage option \<Rightarrow> bool" where
  "stage_ok n (Some (W_Fetch e t)) = (e < n)"
| "stage_ok n (Some (W_Push e t)) = (e < n)"
| "stage_ok n (Some (D_Fetch e t)) = (e < n)"
| "stage_ok n (Some (D_Push e t)) = (e < n)"
| "stage_ok n st = True"

text \<open>The executor that owns the top of the stack, and what outranks it.\<close>

definition current :: "('f, 'o, 'g) frame list \<Rightarrow> nat option" where
  "current stk = (case actives stk of [] \<Rightarrow> None | e # es \<Rightarrow> Some e)"

fun outranks :: "nat \<Rightarrow> nat option \<Rightarrow> bool" where
  "outranks p None = True"
| "outranks p (Some e) = (p < e)"

text \<open>The calls in progress down to the newest activation of an executor, that one included.\<close>

primrec open_stages :: "('f, 'o, 'g) frame list \<Rightarrow> stage option set" where
  "open_stages [] = {}"
| "open_stages (fr # rest) =
     insert (frame_stage fr) (if active fr = None then open_stages rest else {})"

fun is_hook :: "('f, 'o, 'g) frame \<Rightarrow> bool" where
  "is_hook (FIrq KHook ops st) = True"
| "is_hook FClear = True"
| "is_hook fr = False"

fun is_sched :: "('f, 'o, 'g) frame \<Rightarrow> bool" where
  "is_sched FSched = True"
| "is_sched (FComplete e) = True"
| "is_sched fr = False"

text \<open>
  Something will look at the bitmap before the running code goes on for long: the scheduler loop
  is the running activation, or a call that made a task ready has yet to pend, or a pend is on
  its way to the scheduler.
\<close>

definition attended :: "('f, 'o, 'q, 's, 'g) kernel \<Rightarrow> ('f, 'o, 'g) frame list \<Rightarrow> bool" where
  "attended k stk \<longleftrightarrow>
     (\<exists>fr rest. stk = fr # rest \<and> is_sched fr)
   \<or> Some W_Mark \<in> open_stages stk \<or> Some D_Check \<in> open_stages stk
   \<or> k_pend_marker k \<and> (k_msip k \<or> (\<exists>fr rest. stk = fr # rest \<and> is_hook fr) \<or> Some W_Send \<in> open_stages stk)"

section \<open>The invariant\<close>

definition stack_inv :: "(priority, 's) vec_api \<Rightarrow> nat \<Rightarrow> 's \<Rightarrow> nat list \<Rightarrow> bool" where
  "stack_inv V n ps es \<longleftrightarrow> vec_items V ps = rev (map Priority es)
     \<and> sorted_wrt (<) es \<and> (\<forall>e\<in>set es. e < n)"

definition queue_inv :: "(tid, 'q) list_api \<Rightarrow> nat \<Rightarrow> ('f, 'o, 'q, 's, 'g) kernel \<Rightarrow> tid multiset \<Rightarrow> bool" where
  "queue_inv L n k ps \<longleftrightarrow> (\<forall>t. count (queued L n k + ps) t = (if flagged k t then 1 else 0))"

definition bits_inv :: "(tid, 'q) list_api \<Rightarrow> nat \<Rightarrow> ('f, 'o, 'q, 's, 'g) kernel \<Rightarrow> nat set \<Rightarrow> bool" where
  "bits_inv L n k ls \<longleftrightarrow> ready_bits k \<subseteq> {..<n}
     \<and> (\<forall>e<n. queue L k e \<noteq> [] \<longrightarrow> e \<in> ready_bits k)
     \<and> (\<forall>e\<in>ready_bits k. queue L k e \<noteq> [] \<or> e \<in> ls)"

definition ptr_inv :: "nat \<Rightarrow> ('f, 'o, 'q, 's, 'g) kernel \<Rightarrow> bool" where
  "ptr_inv n k \<longleftrightarrow> (\<forall>t e. ti_executor_ptr (k_tasks k t) = Some e \<longrightarrow> e < n)"

definition pend_inv :: "('f, 'o, 'q, 's, 'g) kernel \<Rightarrow> ('f, 'o, 'g) frame list \<Rightarrow> bool" where
  "pend_inv k stk \<longleftrightarrow> (\<forall>p\<in>ready_bits k. outranks p (current stk) \<longrightarrow> attended k stk)"

definition sched_inv ::
  "(priority, 's) vec_api \<Rightarrow> (tid, 'q) list_api \<Rightarrow> nat \<Rightarrow> ('f, 'o, 'q, 's, 'g) kernel \<Rightarrow> ('f, 'o, 'g) frame list \<Rightarrow> bool" where
  "sched_inv V L n k stk \<longleftrightarrow> wired n k \<and> stack_inv V n (k_prio_stack k) (actives stk)
     \<and> queue_inv L n k (pushing stk) \<and> bits_inv L n k (looping stk)
     \<and> ptr_inv n k \<and> (\<forall>fr\<in>set stk. stage_ok n (frame_stage fr)) \<and> pend_inv k stk"

lemma sched_invD:
  assumes "sched_inv V L n k stk"
  shows "wired n k" "stack_inv V n (k_prio_stack k) (actives stk)" "queue_inv L n k (pushing stk)"
    "bits_inv L n k (looping stk)" "ptr_inv n k" "\<forall>fr\<in>set stk. stage_ok n (frame_stage fr)" "pend_inv k stk"
  using assms by (simp_all add: sched_inv_def)

text \<open>
  Replacing the running activation by one of the same executor.  The tasks in the queues and
  on their way to one may change, together with the flags; for the last part it is enough that
  what attended before attends after, and that nothing new outranks the executor unattended.
\<close>

definition same_place :: "('f, 'o, 'g) frame \<Rightarrow> ('f, 'o, 'g) frame \<Rightarrow> bool" where
  "same_place fr fr' \<longleftrightarrow> active fr' = active fr \<and> loops fr' = loops fr"

lemma same_place_simps:
  assumes "same_place fr fr'"
  shows "actives (fr' # rest) = actives (fr # rest)" "looping (fr' # rest) = looping (fr # rest)"
    "current (fr' # rest) = current (fr # rest)"
    "open_stages (fr' # rest) = insert (frame_stage fr') (if active fr = None then open_stages rest else {})"
  using assms by (simp_all add: same_place_def looping_def current_def)

lemma sched_inv_replace:
  assumes inv: "sched_inv V L n k (fr # rest)" and place: "same_place fr fr'"
    and "wired n k'" "k_prio_stack k' = k_prio_stack k" "ptr_inv n k'" "stage_ok n (frame_stage fr')"
    and "queue_inv L n k' (pusher (frame_stage fr') + pushing rest)"
    and "bits_inv L n k' (looping (fr # rest))"
    and "\<And>p. p \<in> ready_bits k' \<Longrightarrow> outranks p (current (fr # rest)) \<Longrightarrow> attended k' (fr' # rest)"
  shows "sched_inv V L n k' (fr' # rest)"
proof -
  have act: "active fr' = active fr" using place by (simp add: same_place_def)
  show ?thesis
    using assms(3-9) sched_invD [OF inv]
    unfolding sched_inv_def pend_inv_def same_place_simps(2,3) [OF place] by (simp add: act)
qed

text \<open>Steps that leave queues, bits, flags and pending bits alone.\<close>

definition same_views :: "(tid, 'q) list_api \<Rightarrow> ('f, 'o, 'q, 's, 'g) kernel \<Rightarrow> ('f, 'o, 'q, 's, 'g) kernel \<Rightarrow> bool" where
  "same_views L k k' \<longleftrightarrow> k_executors k' = k_executors k \<and> k_bitmap k' = k_bitmap k \<and> k_ipi k' = k_ipi k
     \<and> same_sched k k' \<and> (\<forall>t. flagged k' t = flagged k t)
     \<and> (\<forall>t. ti_executor_ptr (k_tasks k' t) \<in> {None, ti_executor_ptr (k_tasks k t)})"

lemma same_views_refl [simp]: "same_views L k k"
  by (simp add: same_views_def same_sched_def)

lemma same_views_access [simp]: "same_views L k (k\<lparr>k_app := g\<rparr>)"
  by (simp add: same_views_def same_sched_def flagged_def)

lemma same_viewsD:
  assumes "same_views L k k'"
  shows "wired n k' = wired n k" "queue L k' e = queue L k e" "ready_bits k' = ready_bits k"
    "k_prio_stack k' = k_prio_stack k" "k_pend_marker k' = k_pend_marker k" "k_msip k' = k_msip k"
    "queue_inv L n k' ps = queue_inv L n k ps" "bits_inv L n k' ls = bits_inv L n k ls"
    "ptr_inv n k \<Longrightarrow> ptr_inv n k'"
proof -
  have ex: "k_executors k' = k_executors k" "k_bitmap k' = k_bitmap k" "k_ipi k' = k_ipi k"
    using assms by (simp_all add: same_views_def)
  note v = view_cong [OF ex]
  show "wired n k' = wired n k" "queue L k' e = queue L k e" "ready_bits k' = ready_bits k"
    "bits_inv L n k' ls = bits_inv L n k ls"
    by (simp_all add: v bits_inv_def)
  show "queue_inv L n k' ps = queue_inv L n k ps" "k_prio_stack k' = k_prio_stack k"
    "k_pend_marker k' = k_pend_marker k" "k_msip k' = k_msip k"
    using assms by (simp_all add: queue_inv_def v same_views_def same_sched_def)
  show "ptr_inv n k \<Longrightarrow> ptr_inv n k'"
    using assms unfolding ptr_inv_def same_views_def by (metis insertE option.distinct(1) singletonD)
qed

lemma attended_keep:
  assumes "attended k (fr # rest)" "same_place fr fr'" "is_hook fr \<longrightarrow> is_hook fr'" "\<not> is_sched fr"
    and "k_pend_marker k' = k_pend_marker k" "k_msip k' = k_msip k"
    and "frame_stage fr \<notin> {Some W_Mark, Some D_Check, Some W_Send} \<or> frame_stage fr' = frame_stage fr"
  shows "attended k' (fr' # rest)"
proof -
  have act: "active fr' = active fr" using assms(2) by (simp add: same_place_def)
  show ?thesis
    using assms(1,3-7) by (auto simp: attended_def act)
qed

lemma sched_inv_quiet:
  assumes inv: "sched_inv V L n k (fr # rest)" and place: "same_place fr fr'" "is_hook fr \<longrightarrow> is_hook fr'" "\<not> is_sched fr"
    and k: "same_views L k k'"
    and "frame_stage fr \<notin> {Some W_Mark, Some D_Check, Some W_Send} \<or> frame_stage fr' = frame_stage fr"
    and "pusher (frame_stage fr') = pusher (frame_stage fr)" "stage_ok n (frame_stage fr')"
  shows "sched_inv V L n k' (fr' # rest)"
proof (rule sched_inv_replace [OF inv place(1)])
  fix p assume "p \<in> ready_bits k'" "outranks p (current (fr # rest))"
  then have "attended k (fr # rest)"
    using sched_invD(7) [OF inv] unfolding pend_inv_def same_viewsD(3) [OF k] by blast
  then show "attended k' (fr' # rest)"
    using assms by (intro attended_keep [OF _ place]) (simp_all add: same_viewsD [OF k])
qed (use sched_invD [OF inv] assms in \<open>simp_all add: same_viewsD [OF k]\<close>)

end
