(* ===== verification/SchedStage.thy ===== *)
theory SchedStage
  imports SchedInv
begin

text \<open>
  The steps of a wake and of a spawn preserve the invariant of the scheduler: setting the
  run-queued flag, the push onto the run queue with the bit of the executor, the two stores of
  \<open>pend\<close> and the comparison of priorities of \<open>Spawner::spawn\<close>.
\<close>

lemma fetch_enqueue_eq:
  "fetch_enqueue t k = (\<not> flagged k t, put_state t (snd (state_run_enqueue (ti_state (k_tasks k t)))) k)"
  by (simp add: fetch_enqueue_def flagged_def case_prod_beta)

lemma executor_enqueue_eq:
  "executor_enqueue L e t k =
    (case fetch_enqueue t k of (first, k1) \<Rightarrow>
       if first then rbind (enqueue_locked L e t k1) (\<lambda>k2. Inr (True, k2)) else Inr (False, k1))"
  by (simp add: executor_enqueue_def run_enqueue_def fetch_enqueue_def split: prod.splits)

lemma flagged_fetch [simp]:
  "flagged (put_state t (snd (state_run_enqueue w)) k) u \<longleftrightarrow> u = t \<or> flagged k u"
  by (simp add: flagged_def)

lemma queue_inv_fetch:
  assumes "queue_inv L n k ps" "\<not> flagged k t"
  shows "queue_inv L n (put_state t (snd (state_run_enqueue w)) k) (add_mset t ps)"
  unfolding queue_inv_def
proof
  fix u
  have "count (queued L n k + ps) u = (if flagged k u then 1 else 0)"
    using assms(1) by (simp add: queue_inv_def)
  then show "count (queued L n (put_state t (snd (state_run_enqueue w)) k) + add_mset t ps) u =
      (if flagged (put_state t (snd (state_run_enqueue w)) k) u then 1 else 0)"
    using assms(2) by (cases "u = t") simp_all
qed

lemma same_views_fetch:
  "flagged k t \<Longrightarrow> same_views L k (put_state t (snd (state_run_enqueue w)) k)"
  by (auto simp: same_views_def same_sched_def)

lemma pushed_not_queued:
  assumes "queue_inv L n k (add_mset t ps)" "e < n"
  shows "t \<notin> set (queue L k e)" "flagged k t"
proof -
  have c: "count (queued L n k + add_mset t ps) t = (if flagged k t then 1 else 0)"
    using assms(1) unfolding queue_inv_def by (rule spec)
  show "flagged k t" using c by (simp split: if_splits)
  have "count (queued L n k) t = 0" using c by (simp split: if_splits)
  then show "t \<notin> set (queue L k e)" using assms(2) in_queued [of t L n k]
    by (auto simp: count_eq_zero_iff)
qed

lemma ptr_inv_set: "ptr_inv n k \<Longrightarrow> e < n \<Longrightarrow>
    k_tasks k' = (k_tasks k)(t := (k_tasks k t)\<lparr>ti_executor_ptr := Some e\<rparr>) \<Longrightarrow> ptr_inv n k'"
  by (auto simp: ptr_inv_def)

context runtime
begin

text \<open>A push: the queue gains the task that was on its way to it, and the bit of the executor is set.\<close>

lemma push_parts:
  fixes k :: "('f, 'o, 'q, 's, 'g) kernel"
  assumes w: "wired n k" and e: "e < n" and q: "queue_inv L n k (add_mset t ps)"
    and b: "bits_inv L n k ls" and p: "ptr_inv n k"
  obtains k' where "enqueue_locked L e t k = Inr k'" "wired n k'" "same_sched k k'"
    "queue_inv L n k' ps" "bits_inv L n k' ls" "ptr_inv n k'" "ready_bits k' = insert e (ready_bits k)"
    "queue L k' e = queue L k e @ [t]" "\<forall>e'. e' \<noteq> e \<longrightarrow> queue L k' e' = queue L k e'"
    "k_tasks k' = (k_tasks k)(t := (k_tasks k t)\<lparr>ti_executor_ptr := Some e\<rparr>)"
proof -
  have notin: "t \<notin> set (queue L k e)" using q e by (rule pushed_not_queued)
  obtain k' where k': "enqueue_locked L e t k = Inr k'" "wired n k'" "same_sched k k'"
      "queue L k' e = queue L k e @ [t]" "\<forall>e'. e' \<noteq> e \<longrightarrow> queue L k' e' = queue L k e'"
      "ready_bits k' = insert e (ready_bits k)"
      "k_tasks k' = (k_tasks k)(t := (k_tasks k t)\<lparr>ti_executor_ptr := Some e\<rparr>)"
    by (rule enqueue_locked_ok [OF w e notin])
  have "queued L n k' + {#} = queued L n k + {#t#}"
    using e k'(4,5) by (intro queued_change [of e]) simp_all
  then have "queue_inv L n k' ps"
    using q k'(7) by (simp add: queue_inv_def flagged_def)
  moreover have "bits_inv L n k' ls"
    unfolding bits_inv_def
  proof (intro conjI allI impI ballI)
    show "ready_bits k' \<subseteq> {..<n}" using b e k'(6) by (simp add: bits_inv_def)
    show "e' \<in> ready_bits k'" if "e' < n" "queue L k' e' \<noteq> []" for e'
      using b that k'(5) [rule_format, of e'] by (cases "e' = e") (simp_all add: bits_inv_def k'(6))
    show "queue L k' e' \<noteq> [] \<or> e' \<in> ls" if "e' \<in> ready_bits k'" for e'
      using b that k'(4) k'(5) [rule_format, of e'] by (cases "e' = e") (simp_all add: bits_inv_def k'(6))
  qed
  ultimately show ?thesis
    using that [OF k'(1-3)] ptr_inv_set [OF p e k'(7)] k' by blast
qed

lemma inv_fetch:
  assumes inv: "sched_inv V L n k (fr # rest)" and fr: "\<not> is_sched fr"
    and st: "frame_stage fr = Some (W_Fetch e t) \<or> frame_stage fr = Some (D_Fetch e t)"
    and place: "same_place fr fr'" "is_hook fr \<longrightarrow> is_hook fr'"
    and st': "if flagged k t then frame_stage fr' = None
      else frame_stage fr' = Some (W_Push e t) \<or> frame_stage fr' = Some (D_Push e t)"
  shows "sched_inv V L n (put_state t (snd (state_run_enqueue w)) k) (fr' # rest)"
proof (cases "flagged k t")
  case True
  show ?thesis
    by (rule sched_inv_quiet [OF inv place fr same_views_fetch [OF True]]) (use st st' True in auto)
next
  case False
  let ?k = "put_state t (snd (state_run_enqueue w)) k"
  note I = sched_invD [OF inv]
  have e: "e < n" using I(6) st by auto
  show ?thesis
  proof (rule sched_inv_replace [OF inv place(1)])
    fix p assume "p \<in> ready_bits ?k" "outranks p (current (fr # rest))"
    then have "attended k (fr # rest)" using I(7) by (auto simp: pend_inv_def)
    then show "attended ?k (fr' # rest)"
      by (rule attended_keep [OF _ place fr]) (use st in auto)
  next
    show "queue_inv L n ?k (pusher (frame_stage fr') + pushing rest)"
      using queue_inv_fetch [OF I(3) False] st st' False by auto
  qed (use I e st' False in \<open>auto simp: bits_inv_def ptr_inv_def\<close>)
qed

lemma inv_push:
  fixes k :: "('f, 'o, 'q, 's, 'g) kernel"
  assumes inv: "sched_inv V L n k (fr # rest)"
    and st: "frame_stage fr = Some (W_Push e t) \<or> frame_stage fr = Some (D_Push e t)"
  obtains k' where "enqueue_locked L e t k = Inr k'"
    "\<And>fr'. same_place fr fr' \<Longrightarrow> frame_stage fr' = Some W_Mark \<or> frame_stage fr' = Some D_Check \<Longrightarrow>
       sched_inv V L n k' (fr' # rest)"
proof -
  note I = sched_invD [OF inv]
  have e: "e < n" using I(6) st by auto
  have q: "queue_inv L n k (add_mset t (pushing rest))" using I(3) st by auto
  obtain k' where k': "enqueue_locked L e t k = Inr k'" "wired n k'" "same_sched k k'"
    "queue_inv L n k' (pushing rest)" "bits_inv L n k' (looping (fr # rest))" "ptr_inv n k'"
    by (rule push_parts [OF I(1) e q I(4,5)])
  show ?thesis
  proof (rule that [OF k'(1)])
    fix fr' assume place: "same_place fr fr'" and s: "frame_stage fr' = Some W_Mark \<or> frame_stage fr' = Some D_Check"
    show "sched_inv V L n k' (fr' # rest)"
    proof (rule sched_inv_replace [OF inv place])
      show "attended k' (fr' # rest)" using s by (auto simp: attended_def)
    qed (use k' s in \<open>auto simp: same_sched_def\<close>)
  qed
qed

text \<open>Setting the pending bits.\<close>

lemma sched_inv_bits:
  assumes inv: "sched_inv V L n k (fr # rest)" and place: "same_place fr fr'"
    and k': "k' = k\<lparr>k_pend_marker := a, k_msip := b\<rparr>"
    and st: "pusher (frame_stage fr') = pusher (frame_stage fr)" "stage_ok n (frame_stage fr')"
    and att: "\<And>p. p \<in> ready_bits k \<Longrightarrow> outranks p (current (fr # rest)) \<Longrightarrow> attended k' (fr' # rest)"
  shows "sched_inv V L n k' (fr' # rest)"
proof -
  note I = sched_invD [OF inv]
  have v: "queue L k' e = queue L k e" "ready_bits k' = ready_bits k" "queued L n k' = queued L n k"
      "wired n k' = wired n k" for e
    by (simp_all add: k')
  show ?thesis
    by (rule sched_inv_replace [OF inv place])
      (use I st att in \<open>simp_all add: v queue_inv_def bits_inv_def flagged_def ptr_inv_def k'\<close>)
qed

lemma current_stack:
  assumes "stack_inv V n (k_prio_stack k) (actives stk)"
  shows "vec_items V (k_prio_stack k) = [] \<longleftrightarrow> current stk = None"
    "vec_items V (k_prio_stack k) \<noteq> [] \<Longrightarrow> \<exists>e. current stk = Some e \<and> last (vec_items V (k_prio_stack k)) = Priority e"
  using assms by (auto simp: stack_inv_def current_def split: list.splits)

lemma spawn_check_eq:
  assumes "sched_inv V L n k stk"
  shows "spawn_check V k = Inr (if \<exists>p\<in>ready_bits k. outranks p (current stk)
    then k\<lparr>k_pend_marker := True, k_msip := True\<rparr> else k)"
proof -
  note I = sched_invD [OF assms]
  have fin: "finite (ready_bits k)" using I(1) by (rule finite_ready_bits)
  show ?thesis
  proof (cases "ready_bits k = {}")
    case True
    then show ?thesis by (simp add: spawn_check_def highest_wired [OF I(1)])
  next
    case False
    let ?m = "Min (ready_bits k)"
    have ex: "(\<exists>p\<in>ready_bits k. outranks p c) \<longleftrightarrow> outranks ?m c" for c
    proof (cases c)
      case (Some e)
      then show ?thesis using fin False by (simp add: Min_less_iff)
    qed (use False in auto)
    show ?thesis
    proof (cases "vec_items V (k_prio_stack k)")
      case Nil
      then have "current stk = None" using current_stack(1) [OF I(2)] by simp
      then show ?thesis
        using Nil False by (simp add: spawn_check_def highest_wired [OF I(1)] pend_wired [OF I(1)] ex)
    next
      case (Cons x xs)
      then obtain e where e: "current stk = Some e" "last (x # xs) = Priority e"
        using current_stack(2) [OF I(2)] by auto
      show ?thesis
        unfolding ex e(1)
        using Cons False e(2)
        by (simp add: spawn_check_def highest_wired [OF I(1)] pend_wired [OF I(1)] Let_def del: last.simps)
    qed
  qed
qed

end

end
