(* ===== verification/SchedStep.thy ===== *)
theory SchedStep
  imports SchedStage
begin

text \<open>Every step of the machine preserves the invariant of the scheduler.\<close>

lemma begin_spawn_eq:
  fixes k :: "('f, 'o, 'q, 's, 'g) kernel"
  shows "begin_spawn t f p k =
    (let k1 = put_state t (snd (state_spawn (ti_state (k_tasks k t)))) k in
     if spawned (ti_state (k_tasks k t)) then Inr (False, None, k1)
     else if to_usize p < length (k_executors k) then
       Inr (True, Some (D_Fetch (to_usize p) t),
         upd_task t (\<lambda>i. i\<lparr>js_result := None, js_waker := None, ti_poll_fn := Some PollStorage,
           ts_f := Init f\<rparr>) k1)
     else Inl PriorityOutOfRange)"
proof (cases "state_spawn (ti_state (k_tasks k t))")
  case (Pair ok w)
  moreover from Pair have "ok \<longleftrightarrow> \<not> spawned (ti_state (k_tasks k t))"
    by (metis fst_state_spawn fst_conv)
  ultimately show ?thesis
    by (simp add: begin_spawn_def storage_spawn_def Let_def)
qed

context runtime
begin

text \<open>The stages that set the pending bits.\<close>

lemma inv_mark:
  assumes inv: "sched_inv V L n k (fr # rest)" and st: "frame_stage fr = Some W_Mark"
    and fr': "same_place fr fr'" "frame_stage fr' = Some W_Send"
  shows "sched_inv V L n (pend_mark k) (fr' # rest)"
  using st fr' by (intro sched_inv_bits [OF inv, where a = True and b = "k_msip k"])
    (auto simp: pend_mark_def attended_def)

lemma inv_send:
  assumes inv: "sched_inv V L n k (fr # rest)" and st: "frame_stage fr = Some W_Send"
    and fr': "same_place fr fr'" "frame_stage fr' = None"
  shows "sched_inv V L n (k\<lparr>k_msip := True\<rparr>) (fr' # rest)"
proof -
  have "\<not> is_sched fr" using st by (cases fr) auto
  then have "attended (k\<lparr>k_msip := True\<rparr>) (fr' # rest)" if "attended k (fr # rest)"
    using that st fr' by (auto simp: attended_def same_place_def)
  then show ?thesis
    using st fr' sched_invD(7) [OF inv]
    by (intro sched_inv_bits [OF inv, where a = "k_pend_marker k" and b = True]) (auto simp: pend_inv_def)
qed

lemma inv_check:
  assumes inv: "sched_inv V L n k (fr # rest)" and st: "frame_stage fr = Some D_Check"
    and fr': "same_place fr fr'" "frame_stage fr' = None"
    and c: "c \<longleftrightarrow> (\<exists>p\<in>ready_bits k. outranks p (current (fr # rest)))"
  shows "sched_inv V L n (if c then k\<lparr>k_pend_marker := True, k_msip := True\<rparr> else k) (fr' # rest)"
proof -
  have "sched_inv V L n (k\<lparr>k_pend_marker := k_pend_marker k \<or> c, k_msip := k_msip k \<or> c\<rparr>) (fr' # rest)"
    using st fr' unfolding c by (intro sched_inv_bits [OF inv]) (auto simp: attended_def)
  then show ?thesis by (cases c) simp_all
qed

lemma step_stage_inv:
  fixes k :: "('f, 'o, 'q, 's, 'g) kernel"
  assumes inv: "sched_inv V L n k (fr # rest)" and st: "frame_stage fr = Some st"
  obtains st' k' where "step_stage V L st k = Inr (st', k')"
    "\<And>fr'. same_place fr fr' \<Longrightarrow> is_hook fr \<longrightarrow> is_hook fr' \<Longrightarrow> frame_stage fr' = st' \<Longrightarrow>
       sched_inv V L n k' (fr' # rest)"
proof -
  note I = sched_invD [OF inv]
  have ns: "\<not> is_sched fr" using st by (cases fr) auto
  have ok: "stage_ok n (Some st)" using I(6) st by simp
  show ?thesis
  proof (cases st)
    case (W_Load t)
    show ?thesis
    proof (cases "ti_executor_ptr (k_tasks k t)")
      case None
      show ?thesis
        by (rule that [of None k]) (use None W_Load st ns in \<open>auto intro!: sched_inv_quiet [OF inv]\<close>)
    next
      case (Some e)
      then have "e < n" using I(5) by (auto simp: ptr_inv_def)
      then show ?thesis
        by (intro that [of "Some (W_Fetch e t)" k])
          (use Some W_Load st ns in \<open>auto simp: wiredD(1) [OF I(1)] intro!: sched_inv_quiet [OF inv]\<close>)
    qed
  next
    case (J_Store t w)
    show ?thesis
      by (rule that [of None "join_store t w k"])
        (use J_Store st ns in \<open>auto intro!: sched_inv_quiet [OF inv] simp: join_store_def same_views_def same_sched_def flagged_def\<close>)
  next
    case W_Mark
    show ?thesis
      by (rule that [of "Some W_Send" "pend_mark k"]) (use inv_mark [OF inv] st W_Mark in simp_all)
  next
    case W_Send
    show ?thesis
      by (rule that [of None "k\<lparr>k_msip := True\<rparr>"])
        (use inv_send [OF inv] st W_Send in \<open>simp_all add: pend_send_wired [OF I(1)]\<close>)
  next
    case D_Check
    let ?c = "\<exists>p\<in>ready_bits k. outranks p (current (fr # rest))"
    show ?thesis
      by (rule that [of None "if ?c then k\<lparr>k_pend_marker := True, k_msip := True\<rparr> else k"])
        (use D_Check spawn_check_eq [OF inv] inv_check [OF inv st [unfolded D_Check] _ _ refl] in simp_all)
  next
    case (W_Push e t)
    obtain k' where "enqueue_locked L e t k = Inr k'"
      "\<And>fr'. same_place fr fr' \<Longrightarrow> frame_stage fr' = Some W_Mark \<or> frame_stage fr' = Some D_Check \<Longrightarrow>
       sched_inv V L n k' (fr' # rest)"
      using inv_push [OF inv] st W_Push by blast
    then show ?thesis by (intro that [of "Some W_Mark" k']) (simp_all add: W_Push)
  next
    case (D_Push e t)
    obtain k' where "enqueue_locked L e t k = Inr k'"
      "\<And>fr'. same_place fr fr' \<Longrightarrow> frame_stage fr' = Some W_Mark \<or> frame_stage fr' = Some D_Check \<Longrightarrow>
       sched_inv V L n k' (fr' # rest)"
      using inv_push [OF inv] st D_Push by blast
    then show ?thesis by (intro that [of "Some D_Check" k']) (simp_all add: D_Push)
  next
    case (W_Fetch e t)
    let ?k = "put_state t (snd (state_run_enqueue (ti_state (k_tasks k t)))) k"
    show ?thesis
      by (rule that [of "if flagged k t then None else Some (W_Push e t)" ?k])
        (use st W_Fetch in \<open>auto simp: fetch_enqueue_eq intro!: inv_fetch [OF inv ns, of e t]\<close>)
  next
    case (D_Fetch e t)
    let ?k = "put_state t (snd (state_run_enqueue (ti_state (k_tasks k t)))) k"
    show ?thesis
      by (rule that [of "if flagged k t then None else Some (D_Push e t)" ?k])
        (use st D_Fetch in \<open>auto simp: fetch_enqueue_eq intro!: inv_fetch [OF inv ns, of e t]\<close>)
  qed
qed

lemma step_stage_ex:
  fixes k :: "('f, 'o, 'q, 's, 'g) kernel"
  assumes inv: "sched_inv V L n k (fr # rest)" and st: "frame_stage fr = Some st"
  shows "\<exists>st' k'. step_stage V L st k = Inr (st', k') \<and>
    (\<forall>fr'. same_place fr fr' \<and> (is_hook fr \<longrightarrow> is_hook fr') \<and> frame_stage fr' = st' \<longrightarrow>
       sched_inv V L n k' (fr' # rest))"
proof (rule step_stage_inv [OF inv st])
  fix st' k'
  assume 1: "step_stage V L st k = Inr (st', k')"
    and 2: "\<And>fr'. same_place fr fr' \<Longrightarrow> is_hook fr \<longrightarrow> is_hook fr' \<Longrightarrow> frame_stage fr' = st' \<Longrightarrow>
       sched_inv V L n k' (fr' # rest)"
  show ?thesis
    by (rule exI [of _ st'], rule exI [of _ k']) (simp add: 1 2)
qed

lemma begin_spawn_views:
  assumes "begin_spawn t f p k = Inr (ok, st, k')" "wired n k"
  shows "same_views L k k' \<and> stage_ok n st \<and> pusher st = {#} \<and> st \<notin> {Some W_Mark, Some D_Check, Some W_Send}"
  using assms(1) unfolding begin_spawn_eq Let_def wiredD(1) [OF assms(2)]
  by (simp split: if_splits) (auto simp: same_views_def same_sched_def flagged_def split: if_splits)

lemma irq_end_inv:
  fixes k :: "('f, 'o, 'q, 's, 'g) kernel"
  assumes inv: "sched_inv V L n k (FIrq kind [] None # rest)"
    and step: "step_irq V L kind [] None k = Inr (frs, k')"
  shows "sched_inv V L n k' (frs @ rest)"
proof (cases kind)
  case KIsr
  note I = sched_invD [OF inv]
  have r: "frs = []" "k' = k" using step KIsr by simp_all
  have att: "attended k rest" if "attended k (FIrq KIsr [] None # rest)"
    using that by (auto simp: attended_def)
  have "current (FIrq KIsr [] None # rest) = current rest" by (simp add: current_def)
  then show ?thesis
    using I att KIsr unfolding r sched_inv_def pend_inv_def by (auto simp: looping_def loops_def)
qed (use step in \<open>auto simp: same_place_def loops_def intro!: sched_inv_quiet [OF inv]\<close>)

lemma step_irq_inv:
  fixes k :: "('f, 'o, 'q, 's, 'g) kernel"
  assumes inv: "sched_inv V L n k (FIrq kind ops st # rest)"
    and step: "step_irq V L kind ops st k = Inr (frs, k')"
  shows "sched_inv V L n k' (frs @ rest)"
proof (cases st)
  case (Some st0)
  let ?fr = "FIrq kind ops st :: ('f, 'o, 'g) frame"
  have fs: "frame_stage ?fr = Some st0" using Some by simp
  obtain st' k'' where k'': "step_stage V L st0 k = Inr (st', k'')"
    "\<forall>fr'. same_place ?fr fr' \<and> (is_hook ?fr \<longrightarrow> is_hook fr') \<and> frame_stage fr' = st' \<longrightarrow>
       sched_inv V L n k'' (fr' # rest)"
    using step_stage_ex [OF inv fs] by (elim exE conjE)
  then have "frs = [FIrq kind ops st']" "k' = k''" using step Some by simp_all
  then show ?thesis
    using k''(2) [rule_format, of "FIrq kind ops st'"] by (cases kind) (simp_all add: same_place_def loops_def)
next
  case None
  note I = sched_invD [OF inv]
  show ?thesis
  proof (cases ops)
    case (Cons op ops')
    show ?thesis
    proof (cases op)
      case (IsrWake w)
      then show ?thesis using step None Cons
        by (cases kind) (auto simp: same_place_def loops_def intro!: sched_inv_quiet [OF inv])
    next
      case (IsrSpawn t f p)
      then obtain ok st' where b: "begin_spawn t f p k = Inr (ok, st', k')" "frs = [FIrq kind ops' st']"
        using step None Cons by (auto simp: rbind_Inr_iff)
      show ?thesis
        using begin_spawn_views [OF b(1) I(1)] b(2) None
        by (cases kind) (auto simp: same_place_def loops_def intro!: sched_inv_quiet [OF inv])
    next
      case (IsrAccess u c)
      then show ?thesis using step None Cons
        by (cases kind) (auto simp: same_place_def loops_def intro!: sched_inv_quiet [OF inv])
    qed
  next
    case Nil
    then show ?thesis using irq_end_inv inv step None by simp
  qed
qed

lemma step_poll_inv:
  fixes k :: "('f, 'o, 'q, 's, 'g) kernel"
  assumes inv: "sched_inv V L n k (FPoll e t st p # rest)"
    and step: "step_poll V L e t st p k = Inr (frs, k')"
  shows "sched_inv V L n k' (frs @ rest)"
proof (cases st)
  case (Some st0)
  let ?fr = "FPoll e t st p :: ('f, 'o, 'g) frame"
  have fs: "frame_stage ?fr = Some st0" using Some by simp
  obtain st' k'' where k'': "step_stage V L st0 k = Inr (st', k'')"
    "\<forall>fr'. same_place ?fr fr' \<and> (is_hook ?fr \<longrightarrow> is_hook fr') \<and> frame_stage fr' = st' \<longrightarrow>
       sched_inv V L n k'' (fr' # rest)"
    using step_stage_ex [OF inv fs] by (elim exE conjE)
  then have "frs = [FPoll e t st' p]" "k' = k''" using step Some by simp_all
  then show ?thesis
    using k''(2) [rule_format, of "FPoll e t st' p"] by (simp add: same_place_def loops_def)
next
  case None
  note I = sched_invD [OF inv]
  show ?thesis
  proof (cases p)
    case (Spawn t' f prio c)
    then obtain ok st' where b: "begin_spawn t' f prio k = Inr (ok, st', k')" "frs = [FPoll e t st' (c ok)]"
      using step None by (auto simp: rbind_Inr_iff)
    show ?thesis
      using begin_spawn_views [OF b(1) I(1)] b(2) None
      by (auto simp: same_place_def loops_def intro!: sched_inv_quiet [OF inv])
  qed (use step None in \<open>auto simp: same_place_def loops_def same_views_def same_sched_def flagged_def
      join_take_def split: option.splits intro!: sched_inv_quiet [OF inv]\<close>)
qed

end

end
