(* ===== verification/SchedReach.thy ===== *)
theory SchedReach
  imports SchedStep
begin

text \<open>
  The steps of the interrupt handler, of the scheduler loop and of an executor's loop preserve
  the invariant, and so does taking an interrupt; with the boot state, every reachable state has
  it.
\<close>

section \<open>The priority stack\<close>

lemma sorted_bounded_length:
  assumes "sorted_wrt (<) es" "\<forall>e\<in>set es. e < (n :: nat)"
  shows "length es \<le> n"
proof -
  have "distinct es" using assms(1) by (simp add: strict_sorted_iff)
  then have "length es = card (set es)" by (simp add: distinct_card)
  also have "\<dots> \<le> card {..<n}" using assms(2) by (intro card_mono) auto
  finally show ?thesis by simp
qed

lemma current_simps:
  "active fr = None \<Longrightarrow> current (fr # rest) = current rest"
  "active fr = Some e \<Longrightarrow> current (fr # rest) = Some e"
  by (simp_all add: current_def)

lemma looping_Cons: "looping (fr # rest) = loops fr \<union> looping rest"
  by (simp add: looping_def)

context runtime
begin

text \<open>
  \<open>try_preempt\<close> starts the highest ready executor exactly if it outranks the running one; the
  push onto the priority stack always has room.
\<close>

lemma try_preempt_ok:
  assumes w: "wired n k" and st: "stack_inv V n (k_prio_stack k) (actives stk)"
    and sub: "ready_bits k \<subseteq> {..<n}"
  obtains (none) "try_preempt V k = Inr (None, k)" "\<forall>p\<in>ready_bits k. \<not> outranks p (current stk)"
  | (token) p ps where "try_preempt V k = Inr (Some (RunToken (Priority p)), k\<lparr>k_prio_stack := ps\<rparr>)"
      "p \<in> ready_bits k" "\<forall>q\<in>ready_bits k. p \<le> q" "outranks p (current stk)"
      "stack_inv V n ps (p # actives stk)"
proof (cases "ready_bits k = {}")
  case True
  then show ?thesis by (intro none) (simp_all add: try_preempt_def highest_wired [OF w])
next
  case False
  let ?m = "Min (ready_bits k)" and ?ps = "k_prio_stack k"
  have fin: "finite (ready_bits k)" using w by (rule finite_ready_bits)
  have m: "?m \<in> ready_bits k" "\<forall>q\<in>ready_bits k. ?m \<le> q" "?m < n"
    using Min_in [OF fin False] fin sub by auto
  note S = st [unfolded stack_inv_def]
  have push: "\<exists>ps. vec_push V ?ps (Priority ?m) = Some ps \<and> stack_inv V n ps (?m # actives stk)"
    if "outranks ?m (current stk)"
  proof -
    have less: "\<forall>e\<in>set (actives stk). ?m < e"
      using that S by (cases "actives stk") (auto simp: current_def)
    have "length (?m # actives stk) \<le> n"
      using less S m(3) by (intro sorted_bounded_length) auto
    then have "length (vec_items V ?ps) < n" using S by simp
    from push_room [OF this, of "Priority ?m"]
    obtain ps where "vec_push V ?ps (Priority ?m) = Some ps" "vec_items V ps = vec_items V ?ps @ [Priority ?m]"
      by blast
    then show ?thesis using S less m(3) by (simp add: stack_inv_def)
  qed
  show ?thesis
  proof (cases "outranks ?m (current stk)")
    case True
    then obtain ps where ps: "vec_push V ?ps (Priority ?m) = Some ps" "stack_inv V n ps (?m # actives stk)"
      using push by blast
    have "try_preempt V k = Inr (Some (RunToken (Priority ?m)), k\<lparr>k_prio_stack := ps\<rparr>)"
    proof (cases "vec_items V ?ps")
      case Nil
      then show ?thesis using False ps by (simp add: try_preempt_def highest_wired [OF w] Let_def)
    next
      case (Cons x xs)
      then obtain e where "current stk = Some e" "last (x # xs) = Priority e"
        using current_stack(2) [OF st] by auto
      then show ?thesis using Cons True False ps
        by (simp add: try_preempt_def highest_wired [OF w] Let_def del: last.simps)
    qed
    then show ?thesis using ps m True by (intro token)
  next
    case no: False
    then obtain e where e: "current stk = Some e" "e \<le> ?m" by (cases "current stk") auto
    then have ne: "vec_items V ?ps \<noteq> []" using current_stack(1) [OF st] by simp
    then obtain x xs where x: "vec_items V ?ps = x # xs" by (cases "vec_items V ?ps") auto
    have "last (x # xs) = Priority e" using current_stack(2) [OF st ne] e(1) x by simp
    then have "try_preempt V k = Inr (None, k)"
      using x e(2) False by (simp add: try_preempt_def highest_wired [OF w] Let_def del: last.simps)
    moreover have "\<forall>p\<in>ready_bits k. \<not> outranks p (current stk)"
      using m(2) e by auto
    ultimately show ?thesis by (rule none)
  qed
qed

lemma inv_sched:
  fixes k :: "('f, 'o, 'q, 's, 'g) kernel"
  assumes inv: "sched_inv V L n k (FSched # rest)"
    and step: "step_frame V L fpoll FSched k = Inr (frs, k')"
  shows "sched_inv V L n k' (frs @ rest)"
proof -
  note I = sched_invD [OF inv]
  have st: "stack_inv V n (k_prio_stack k) (actives rest)" using I(2) by simp
  have sub: "ready_bits k \<subseteq> {..<n}" using I(4) by (simp add: bits_inv_def)
  show ?thesis
  proof (cases rule: try_preempt_ok [OF I(1) st sub, case_names none token])
    case none
    then have r: "frs = []" "k' = k" using step by simp_all
    show ?thesis
      using I none(2) unfolding r sched_inv_def pend_inv_def
      by (simp add: current_simps looping_Cons loops_def)
  next
    case (token p ps)
    have p: "p < n" using token(2) sub by auto
    then have r: "frs = [FLoop p]" "k' = k\<lparr>k_prio_stack := ps\<rparr>"
      using step token(1) wiredD(1) [OF I(1)] by simp_all
    have "pend_inv k' ([FLoop p] @ rest)"
      using token(3) by (auto simp: pend_inv_def r current_simps)
    moreover have "bits_inv L n k' (looping ([FLoop p] @ rest))"
      using I(4) by (auto simp: bits_inv_def r looping_Cons loops_def)
    ultimately show ?thesis
      using I token(5) unfolding sched_inv_def by (simp add: r queue_inv_def ptr_inv_def)
  qed
qed

lemma inv_clear:
  fixes k :: "('f, 'o, 'q, 's, 'g) kernel"
  assumes inv: "sched_inv V L n k (FClear # rest)"
    and step: "step_frame V L fpoll FClear k = Inr (frs, k')"
  shows "sched_inv V L n k' (frs @ rest)"
proof -
  note I = sched_invD [OF inv]
  have r: "frs = (if k_pend_marker k then [FSched] else [])"
      "k' = k\<lparr>k_pend_marker := False, k_msip := False\<rparr>"
    using step by (simp_all add: clear_pend_wired [OF I(1)])
  have "pend_inv k' (frs @ rest)"
    using I(7) by (auto simp: pend_inv_def r current_simps attended_def)
  then show ?thesis
    using I unfolding sched_inv_def
    by (auto simp: r queue_inv_def ptr_inv_def bits_inv_def looping_Cons loops_def)
qed

lemma inv_complete:
  fixes k :: "('f, 'o, 'q, 's, 'g) kernel"
  assumes inv: "sched_inv V L n k (FComplete e # rest)"
  shows "sched_inv V L n (complete_executor V k) (FSched # rest)"
proof -
  note I = sched_invD [OF inv]
  have "stack_inv V n (k_prio_stack (complete_executor V k)) (actives rest)"
    using I(2) by (simp add: stack_inv_def complete_executor_def pop_items)
  then show ?thesis
    using I unfolding sched_inv_def
    by (simp add: complete_executor_def pend_inv_def attended_def bits_inv_def queue_inv_def ptr_inv_def
        looping_Cons loops_def)
qed

lemma attended_loop:
  "attended k (FLoop e # rest) \<Longrightarrow> same_sched k k2 \<Longrightarrow> active fr' = Some e \<Longrightarrow> attended k2 (fr' # rest)"
  by (auto simp: attended_def same_sched_def)

text \<open>The loop takes the next task; or it finds its queue empty, and clears the bit of its executor.\<close>

lemma inv_loop_got:
  fixes k :: "('f, 'o, 'q, 's, 'g) kernel"
  assumes inv: "sched_inv V L n k (FLoop e # rest)" and wired: "wired n k2" and same: "same_sched k k2"
    and q: "queue L k e = t # queue L k2 e" "\<forall>e'. e' \<noteq> e \<longrightarrow> queue L k2 e' = queue L k e'"
    and bits: "ready_bits k2 = ready_bits k"
    and k2: "k_tasks k2 = (k_tasks k)(t := (k_tasks k t)\<lparr>ti_state := state_run_dequeue (ti_state (k_tasks k t))\<rparr>)"
  shows "sched_inv V L n k2 (FGot e t # rest)"
proof -
  note I = sched_invD [OF inv]
  have e: "e < n" using I(2) by (simp add: stack_inv_def)
  have nf: "flagged k2 u \<longleftrightarrow> u \<noteq> t \<and> flagged k u" for u
    using k2 by (simp add: flagged_def)
  have "queued L n k2 + {#t#} = queued L n k + {#}"
    using e q by (intro queued_change [of e]) simp_all
  then have qd: "queued L n k = add_mset t (queued L n k2)" by simp
  have "count (queued L n k2 + pushing rest) u = (if flagged k2 u then 1 else 0)" for u
  proof -
    have "count (queued L n k + pushing rest) u = (if flagged k u then 1 else 0)"
      using I(3) by (simp add: queue_inv_def)
    then show ?thesis by (cases "u = t") (auto simp: nf qd split: if_splits)
  qed
  then have "queue_inv L n k2 (pushing rest)" by (simp add: queue_inv_def)
  moreover have "bits_inv L n k2 (looping (FGot e t # rest))"
    unfolding bits_inv_def
  proof (intro conjI allI impI ballI)
    show "ready_bits k2 \<subseteq> {..<n}" using I(4) bits by (simp add: bits_inv_def)
    show "e' \<in> ready_bits k2" if "e' < n" "queue L k2 e' \<noteq> []" for e'
      using I(4) that q(1) q(2) [rule_format, of e'] by (cases "e' = e") (simp_all add: bits_inv_def bits)
    show "queue L k2 e' \<noteq> [] \<or> e' \<in> looping (FGot e t # rest)" if "e' \<in> ready_bits k2" for e'
      using I(4) that q(2) [rule_format, of e']
      by (cases "e' = e") (auto simp: bits_inv_def bits looping_Cons loops_def)
  qed
  moreover have "ptr_inv n k2" using I(5) k2 by (simp add: ptr_inv_def)
  moreover have "pend_inv k2 (FGot e t # rest)"
    using I(7) attended_loop [OF _ same, of e rest "FGot e t"] by (auto simp: pend_inv_def bits current_simps)
  ultimately show ?thesis
    using I wired same unfolding sched_inv_def by (simp add: same_sched_def)
qed

lemma inv_loop_empty:
  fixes k :: "('f, 'o, 'q, 's, 'g) kernel"
  assumes inv: "sched_inv V L n k (FLoop e # rest)" and wired: "wired n k2" and same: "same_sched k k2"
    and q: "queue L k e = []" "queue L k2 e = []" "\<forall>e'. e' \<noteq> e \<longrightarrow> queue L k2 e' = queue L k e'"
    and bits: "ready_bits k2 = ready_bits k - {e}" and k2: "k_tasks k2 = k_tasks k"
  shows "sched_inv V L n k2 (FRunEnd e # rest)"
proof -
  note I = sched_invD [OF inv]
  have e: "e < n" using I(2) by (simp add: stack_inv_def)
  have "queued L n k2 + {#} = queued L n k + {#}"
    using e q by (intro queued_change [of e]) simp_all
  then have "queue_inv L n k2 (pushing rest)"
    using I(3) k2 by (simp add: queue_inv_def flagged_def)
  moreover have "bits_inv L n k2 (looping (FRunEnd e # rest))"
    unfolding bits_inv_def
  proof (intro conjI allI impI ballI)
    show "ready_bits k2 \<subseteq> {..<n}" using I(4) bits by (auto simp: bits_inv_def)
    show "e' \<in> ready_bits k2" if "e' < n" "queue L k2 e' \<noteq> []" for e'
      using I(4) that q(2) q(3) [rule_format, of e'] by (cases "e' = e") (simp_all add: bits_inv_def bits)
    show "queue L k2 e' \<noteq> [] \<or> e' \<in> looping (FRunEnd e # rest)" if "e' \<in> ready_bits k2" for e'
      using I(4) that q(3) [rule_format, of e']
      by (cases "e' = e") (auto simp: bits_inv_def bits looping_Cons loops_def)
  qed
  moreover have "ptr_inv n k2" using I(5) k2 by (simp add: ptr_inv_def)
  moreover have "pend_inv k2 (FRunEnd e # rest)"
    using I(7) attended_loop [OF _ same, of e rest "FRunEnd e"] by (auto simp: pend_inv_def bits current_simps)
  ultimately show ?thesis
    using I wired same unfolding sched_inv_def by (simp add: same_sched_def)
qed

lemma inv_loop:
  fixes k :: "('f, 'o, 'q, 's, 'g) kernel"
  assumes inv: "sched_inv V L n k (FLoop e # rest)"
    and step: "step_frame V L fpoll (FLoop e) k = Inr (frs, k')"
  shows "sched_inv V L n k' (frs @ rest)"
proof -
  note I = sched_invD [OF inv]
  have e: "e < n" using I(2) by (simp add: stack_inv_def)
  show ?thesis
  proof (cases rule: run_next_ok [OF I(1) e, case_names task empty])
    case (task t k2)
    then have r: "frs = [FGot e t]" "k' = k2" using step by simp_all
    show ?thesis unfolding r append.simps by (rule inv_loop_got [OF inv task(3,4,2,5,6,7)])
  next
    case (empty k2)
    then have r: "frs = [FRunEnd e]" "k' = k2" using step by simp_all
    show ?thesis unfolding r append.simps by (rule inv_loop_empty [OF inv empty(4,5,2,3,6,7,8)])
  qed
qed

text \<open>Waking a task in one step, as the despawning critical section does it.\<close>

lemma wake_queued_inv:
  fixes k :: "('f, 'o, 'q, 's, 'g) kernel"
  assumes inv: "sched_inv V L n k (fr # rest)" and fr: "frame_stage fr = None" "same_place fr fr'" "frame_stage fr' = None"
    and t: "ti_executor_ptr (k_tasks k t) = Some e" "\<not> flagged k t"
  obtains k' where "wake_task L t k = Inr k'" "sched_inv V L n k' (fr' # rest)"
proof -
  note I = sched_invD [OF inv]
  have e: "e < n" using I(5) t(1) by (auto simp: ptr_inv_def)
  let ?k = "put_state t (snd (state_run_enqueue (ti_state (k_tasks k t)))) k"
  have q: "queue_inv L n ?k (add_mset t (pushing rest))" using queue_inv_fetch [OF I(3) t(2)] fr(1) by simp
  have w: "wired n ?k" using I(1) by simp
  have b: "bits_inv L n ?k (looping (fr # rest))" using I(4) by (simp add: bits_inv_def)
  have p: "ptr_inv n ?k" using I(5) by (simp add: ptr_inv_def)
  obtain k' where k': "enqueue_locked L e t ?k = Inr k'" "wired n k'" "same_sched ?k k'"
      "queue_inv L n k' (pushing rest)" "bits_inv L n k' (looping (fr # rest))" "ptr_inv n k'"
    by (rule push_parts [OF w e q b p])
  let ?k' = "k'\<lparr>k_pend_marker := True, k_msip := True\<rparr>"
  have "wake_task L t k = Inr ?k'"
    using t e wiredD(1) [OF I(1)] k'(1) pend_wired [OF k'(2)]
    by (simp add: wake_task_def executor_enqueue_eq fetch_enqueue_eq)
  moreover have "sched_inv V L n ?k' (fr' # rest)"
  proof (rule sched_inv_replace [OF inv fr(2)])
    show "attended ?k' (fr' # rest)" by (simp add: attended_def)
    show "queue_inv L n ?k' (pusher (frame_stage fr') + pushing rest)"
      using k'(4) fr(3) by (simp add: queue_inv_def)
    show "bits_inv L n ?k' (looping (fr # rest))" using k'(5) by (simp add: bits_inv_def)
    show "ptr_inv n ?k'" using k'(6) by (simp add: ptr_inv_def)
    show "k_prio_stack ?k' = k_prio_stack k" using k'(3) by (simp add: same_sched_def)
  qed (simp_all add: k'(2) fr(3))
  ultimately show ?thesis by (rule that)
qed

lemma wake_task_inv:
  fixes k :: "('f, 'o, 'q, 's, 'g) kernel"
  assumes inv: "sched_inv V L n k (fr # rest)" and fr: "frame_stage fr = None" "\<not> is_hook fr" "\<not> is_sched fr"
    and fr': "same_place fr fr'" "frame_stage fr' = None"
  obtains k' where "wake_task L t k = Inr k'" "sched_inv V L n k' (fr' # rest)"
proof (cases "ti_executor_ptr (k_tasks k t)")
  case None
  then have "wake_task L t k = Inr k" by (simp add: wake_task_def)
  moreover have "sched_inv V L n k (fr' # rest)"
    by (rule sched_inv_quiet [OF inv fr'(1)]) (use fr fr' in simp_all)
  ultimately show ?thesis by (rule that)
next
  case (Some e)
  note I = sched_invD [OF inv]
  have e: "e < n" using I(5) Some by (auto simp: ptr_inv_def)
  let ?w = "snd (state_run_enqueue (ti_state (k_tasks k t)))"
  let ?k = "put_state t ?w k"
  have run: "executor_enqueue L e t k =
      (if flagged k t then Inr (False, ?k) else rbind (enqueue_locked L e t ?k) (\<lambda>k'. Inr (True, k')))"
    by (simp add: executor_enqueue_def run_enqueue_def case_prod_beta flagged_def)
  show ?thesis
  proof (cases "flagged k t")
    case True
    then have "wake_task L t k = Inr ?k"
      using Some e wiredD(1) [OF I(1)] by (simp add: wake_task_def run)
    moreover have "sched_inv V L n ?k (fr' # rest)"
      by (rule sched_inv_quiet [OF inv fr'(1) _ _ same_views_fetch [OF True]]) (use fr fr' in simp_all)
    ultimately show ?thesis by (rule that)
  next
    case False
    then show ?thesis by (rule wake_queued_inv [OF inv fr(1) fr' Some _ that])
  qed
qed

lemma inv_despawn:
  fixes k :: "('f, 'o, 'q, 's, 'g) kernel"
  assumes inv: "sched_inv V L n k (FDespawn e t # rest)"
  obtains k' where "poll_despawn L t k = Inr k'" "sched_inv V L n k' (FLoop e # rest)"
proof -
  let ?fr = "FDespawn e t :: ('f, 'o, 'g) frame" and ?fr' = "FLoop e :: ('f, 'o, 'g) frame"
  have pl: "same_place ?fr ?fr'" by (simp add: same_place_def loops_def)
  let ?k1 = "put_state t (state_despawn (ti_state (k_tasks k t))) k"
  show ?thesis
  proof (cases "js_waker (k_tasks k t)")
    case None
    then have "poll_despawn L t k = Inr ?k1" by (simp add: poll_despawn_def Let_def)
    moreover have "sched_inv V L n ?k1 (?fr' # rest)"
      by (rule sched_inv_quiet [OF inv pl]) (auto simp: same_views_def same_sched_def flagged_def)
    ultimately show ?thesis by (rule that)
  next
    case (Some w)
    let ?k2 = "upd_task t (\<lambda>i. i\<lparr>js_waker := None\<rparr>) ?k1"
    have "sched_inv V L n ?k2 (?fr # rest)"
      by (rule sched_inv_quiet [OF inv])
        (auto simp: same_place_def same_views_def same_sched_def flagged_def)
    then obtain k' where k': "wake_task L w ?k2 = Inr k'" "sched_inv V L n k' (?fr' # rest)"
      by (rule wake_task_inv [OF _ _ _ _ pl]) simp_all
    have "poll_despawn L t k = Inr k'"
      using Some k'(1) by (simp add: poll_despawn_def Let_def waker_wake_def)
    then show ?thesis using k'(2) by (rule that)
  qed
qed

section \<open>Every step\<close>

lemma step_frame_inv:
  fixes k :: "('f, 'o, 'q, 's, 'g) kernel"
  assumes inv: "sched_inv V L n k (fr # rest)" and step: "step_frame V L fpoll fr k = Inr (frs, k')"
  shows "sched_inv V L n k' (frs @ rest)"
proof (cases fr)
  case (FIrq kind ops st)
  then show ?thesis using step_irq_inv inv step by simp
next
  case (FPoll e t st p)
  then show ?thesis using step_poll_inv inv step by simp
next
  case FClear
  then show ?thesis using inv_clear inv step by blast
next
  case FSched
  then show ?thesis using inv_sched inv step by blast
next
  case (FLoop e)
  then show ?thesis using inv_loop inv step by blast
next
  case (FComplete e)
  then show ?thesis using inv_complete [of k e rest] inv step by auto
next
  case (FDespawn e t)
  show ?thesis
    by (rule inv_despawn [OF inv [unfolded FDespawn]]) (use step FDespawn in auto)
next
  case (FDrop e t)
  then show ?thesis using step
    by (auto simp: poll_drop_future_def rbind_Inr_iff same_place_def loops_def same_views_def
        same_sched_def flagged_def intro!: sched_inv_quiet [OF inv])
next
  case (FGot e t)
  then show ?thesis using step
    by (auto simp: rbind_Inr_iff same_place_def loops_def split: option.splits poll_fn.splits
        intro!: sched_inv_quiet [OF inv])
qed (use step in \<open>auto simp: same_place_def loops_def same_views_def same_sched_def flagged_def
  poll_store_result_def poll_clear_executor_def intro!: sched_inv_quiet [OF inv]\<close>)

lemma sched_inv_interrupt:
  assumes "sched_inv V L n k (fr # rest)" "frame_mie fr"
  shows "sched_inv V L n k (FIrq kind ops None # fr # rest)"
proof -
  note I = sched_invD [OF assms(1)]
  have "attended k (FIrq kind ops None # fr # rest)" if "attended k (fr # rest)"
    using that assms(2) by (cases fr) (auto simp: attended_def elim: is_hook.elims)
  then show ?thesis
    using I unfolding sched_inv_def pend_inv_def
    by (auto simp: current_simps looping_Cons [of "FIrq kind ops None"] loops_def)
qed

lemma sched_inv_raise:
  assumes "sched_inv V L n k stk"
  shows "sched_inv V L n (k\<lparr>k_msip := True\<rparr>) stk"
proof -
  note I = sched_invD [OF assms]
  have "attended (k\<lparr>k_msip := True\<rparr>) stk" if "attended k stk"
    using that by (auto simp: attended_def)
  then show ?thesis
    using I unfolding sched_inv_def pend_inv_def
    by (auto simp: queue_inv_def bits_inv_def ptr_inv_def)
qed

lemma exec_inv:
  assumes inv: "sched_inv V L n (m_kernel m) (m_stack m)" and step: "exec V L fpoll ev m = Some (Inr m')"
  shows "sched_inv V L n (m_kernel m') (m_stack m')"
proof (cases ev)
  case Step
  then obtain fr rest frs where "m_stack m = fr # rest" "m_stack m' = frs @ rest"
      "step_frame V L fpoll fr (m_kernel m) = Inr (frs, m_kernel m')"
    using step by (auto simp: rbind_Inr_iff split: list.splits)
  then show ?thesis using step_frame_inv inv by simp
next
  case (TakeIsr ops)
  then show ?thesis using step inv
    by (auto split: list.splits if_splits intro: sched_inv_interrupt)
next
  case (TakeMsi ops)
  then show ?thesis using step inv
    by (auto split: list.splits if_splits intro: sched_inv_interrupt)
next
  case RaiseMsi
  then show ?thesis using step sched_inv_raise [OF inv] by auto
qed

lemma boot_inv:
  assumes "boot_machine V L (ClintMsip True) n g ops = Inr m"
  shows "sched_inv V L n (m_kernel m) (m_stack m)"
proof -
  have n: "0 < n" "n \<le> 4096"
    using assms by (auto simp: boot_machine_def boot_kernel_def spawner_new_def split: if_splits)
  obtain b where b: "bitmap_new 64 = Inr b" "bitmap_wf 64 b" "members b = {}"
    by (rule bitmap_new_ok [of 64]) simp_all
  let ?k = "m_kernel m"
  have m: "m_stack m = [FIrq KBoot ops None]" "k_prio_stack ?k = vec_new V" "k_tasks ?k = (\<lambda>t. storage_new)"
      "k_executors ?k = map (set_bitmap_ops SpawnerOps) (map (executor_new L) [0..<n])"
      "k_bitmap ?k = b" "k_ipi ?k = Some (ClintMsip True)"
    using assms n b by (auto simp: boot_machine_def boot_kernel_def spawner_new_def spawner_init_def)
  have q: "queue L ?k e = []" if "e < n" for e
    using that by (simp add: queue_def m set_bitmap_ops_def executor_new_def)
  then have "queued L n ?k = {#}" by (simp add: queued_def)
  then show ?thesis
    using n b q
    by (auto simp: sched_inv_def wired_def stack_inv_def queue_inv_def bits_inv_def ptr_inv_def pend_inv_def
        m ready_bits_def flagged_def storage_new_def set_bitmap_ops_def executor_new_def)
qed

theorem reachable_inv:
  "reachable V L fpoll n m \<Longrightarrow> sched_inv V L n (m_kernel m) (m_stack m)"
  by (induction rule: reachable.induct) (fact boot_inv, rule exec_inv)

end

end
