(* ===== verification/SafeInv.thy ===== *)
theory SafeInv
  imports SchedReach
begin

text \<open>
  The invariant of task storage: the future cell is initialised exactly while the poll function
  is \<open>TaskStorage::poll\<close>, a task is polled by at most one activation, and every executor index
  that the running code or a queue holds for a task is the executor the task is polled on.
  It needs one discipline of the application, which the code does not enforce: a task must not
  be spawned while a preempted executor loop has already taken it from its queue
  (\<open>disciplined\<close>).  Under it no step of the machine panics.
\<close>

section \<open>Which activation holds which task\<close>

fun polled :: "('f, 'o, 'g) frame \<Rightarrow> (nat \<times> tid) option" where
  "polled (FGot e t) = Some (e, t)"
| "polled (FPoll e t st p) = Some (e, t)"
| "polled (FReady e t out) = Some (e, t)"
| "polled (FNull e t) = Some (e, t)"
| "polled (FDrop e t) = Some (e, t)"
| "polled (FDespawn e t) = Some (e, t)"
| "polled fr = None"

primrec polls :: "('f, 'o, 'g) frame list \<Rightarrow> (nat \<times> tid) list" where
  "polls [] = []"
| "polls (fr # rest) = (case polled fr of None \<Rightarrow> polls rest | Some x \<Rightarrow> x # polls rest)"

text \<open>The executor and task that a call in progress will use.\<close>

fun aims :: "stage option \<Rightarrow> (nat \<times> tid) set" where
  "aims (Some (W_Fetch e t)) = {(e, t)}"
| "aims (Some (W_Push e t)) = {(e, t)}"
| "aims (Some (D_Fetch e t)) = {(e, t)}"
| "aims (Some (D_Push e t)) = {(e, t)}"
| "aims st = {}"

text \<open>\<open>A\<close> and \<open>B\<close> agree on the executor of every task they both name.\<close>

definition agree :: "(nat \<times> tid) set \<Rightarrow> (nat \<times> tid) set \<Rightarrow> bool" where
  "agree A B \<longleftrightarrow> (\<forall>e t e'. (e, t) \<in> A \<longrightarrow> (e', t) \<in> B \<longrightarrow> e' = e)"

primrec located :: "('f, 'o, 'g) frame list \<Rightarrow> bool" where
  "located [] = True"
| "located (fr # rest) = (agree (aims (frame_stage fr)) (set (polls (fr # rest))) \<and> located rest)"

primrec aimed :: "('f, 'o, 'g) frame list \<Rightarrow> tid set" where
  "aimed [] = {}"
| "aimed (fr # rest) = snd ` aims (frame_stage fr) \<union> aimed rest"

definition ptr_set :: "('f, 'o, 'q, 's, 'g) kernel \<Rightarrow> (nat \<times> tid) set" where
  "ptr_set k = {(e, t). ti_executor_ptr (k_tasks k t) = Some e}"

definition queue_set :: "(tid, 'q) list_api \<Rightarrow> nat \<Rightarrow> ('f, 'o, 'q, 's, 'g) kernel \<Rightarrow> (nat \<times> tid) set" where
  "queue_set L n k = {(e, t). e < n \<and> t \<in> set (queue L k e)}"

section \<open>The state of one task\<close>

definition task_ok :: "('f, 'o) task_storage \<Rightarrow> bool" where
  "task_ok i \<longleftrightarrow> (ti_poll_fn i = Some PollStorage \<longrightarrow> ts_f i \<noteq> Uninit \<and> spawned (ti_state i))
     \<and> (run_queued (ti_state i) \<or> ti_executor_ptr i \<noteq> None \<longrightarrow> ti_poll_fn i \<noteq> None)"

text \<open>What an activation relies on of the task it polls.\<close>

fun frame_task_ok :: "('f, 'o, 'q, 's, 'g) kernel \<Rightarrow> ('f, 'o, 'g) frame \<Rightarrow> bool" where
  "frame_task_ok k (FGot e t) = (ti_poll_fn (k_tasks k t) \<noteq> None)"
| "frame_task_ok k (FPoll e t st p) = (ti_poll_fn (k_tasks k t) = Some PollStorage)"
| "frame_task_ok k (FReady e t out) = (ti_poll_fn (k_tasks k t) = Some PollStorage)"
| "frame_task_ok k (FNull e t) = (ti_poll_fn (k_tasks k t) = Some PollStorage)"
| "frame_task_ok k (FDrop e t) = (ti_poll_fn (k_tasks k t) = Some PollStorage)"
| "frame_task_ok k (FDespawn e t) =
    (ti_poll_fn (k_tasks k t) = Some PollExited \<and> spawned (ti_state (k_tasks k t)))"
| "frame_task_ok k fr = True"

section \<open>The discipline on spawns\<close>

text \<open>The spawn that the running activation is about to make.\<close>

fun spawn_target :: "('f, 'o, 'g) frame \<Rightarrow> (tid \<times> priority) option" where
  "spawn_target (FIrq kind (IsrSpawn t f p # ops) None) = Some (t, p)"
| "spawn_target (FPoll e t None (Spawn t' f p c)) = Some (t', p)"
| "spawn_target fr = None"

fun has_got :: "tid \<Rightarrow> ('f, 'o, 'g) frame \<Rightarrow> bool" where
  "has_got t (FGot e t') = (t' = t)"
| "has_got t fr = False"

definition disciplined :: "nat \<Rightarrow> ('f, 'o, 'q, 's, 'g) machine \<Rightarrow> bool" where
  "disciplined n m \<longleftrightarrow> (case m_stack m of [] \<Rightarrow> True | fr # rest \<Rightarrow>
     (case spawn_target fr of None \<Rightarrow> True
      | Some (t, p) \<Rightarrow> to_usize p < n \<and> (\<forall>fr'\<in>set rest. \<not> has_got t fr')))"

inductive reachable_disciplined ::
  "(priority, 's) vec_api \<Rightarrow> (tid, 'q) list_api \<Rightarrow> (tid \<Rightarrow> 'f \<Rightarrow> ('f, 'o, 'g) prog) \<Rightarrow> nat \<Rightarrow>
   ('f, 'o, 'q, 's, 'g) machine \<Rightarrow> bool"
  for V :: "(priority, 's) vec_api" and L :: "(tid, 'q) list_api"
    and fpoll :: "tid \<Rightarrow> 'f \<Rightarrow> ('f, 'o, 'g) prog" and n :: nat where
  disciplined_boot: "boot_machine V L (ClintMsip True) n g ops = Inr m \<Longrightarrow> reachable_disciplined V L fpoll n m"
| disciplined_step: "reachable_disciplined V L fpoll n m \<Longrightarrow> disciplined n m \<Longrightarrow>
    exec V L fpoll ev m = Some (Inr m') \<Longrightarrow> reachable_disciplined V L fpoll n m'"

lemma reachable_disciplined_reachable:
  "reachable_disciplined V L fpoll n m \<Longrightarrow> reachable V L fpoll n m"
  by (induction rule: reachable_disciplined.induct) (fact reach_boot, rule reach_step)

section \<open>The invariant\<close>

definition task_inv ::
  "(tid, 'q) list_api \<Rightarrow> nat \<Rightarrow> ('f, 'o, 'q, 's, 'g) kernel \<Rightarrow> ('f, 'o, 'g) frame list \<Rightarrow> bool" where
  "task_inv L n k stk \<longleftrightarrow> distinct (map snd (polls stk))
     \<and> agree (ptr_set k) (set (polls stk)) \<and> agree (queue_set L n k) (set (polls stk))
     \<and> agree (ptr_set k) (queue_set L n k) \<and> located stk
     \<and> (\<forall>t. task_ok (k_tasks k t)) \<and> (\<forall>t\<in>aimed stk. ti_poll_fn (k_tasks k t) \<noteq> None)
     \<and> (\<forall>fr\<in>set stk. frame_task_ok k fr)"

lemma task_invD:
  assumes "task_inv L n k stk"
  shows "distinct (map snd (polls stk))" "agree (ptr_set k) (set (polls stk))"
    "agree (queue_set L n k) (set (polls stk))" "agree (ptr_set k) (queue_set L n k)" "located stk"
    "task_ok (k_tasks k t)" "\<forall>t\<in>aimed stk. ti_poll_fn (k_tasks k t) \<noteq> None"
    "\<forall>fr\<in>set stk. frame_task_ok k fr"
  using assms by (simp_all add: task_inv_def)

lemma agree_simps [simp]:
  "agree {} B" "agree A {}"
  "agree {(e, t)} B \<longleftrightarrow> (\<forall>e'. (e', t) \<in> B \<longrightarrow> e' = e)"
  by (auto simp: agree_def)

lemma agreeD: "agree A B \<Longrightarrow> (e, t) \<in> A \<Longrightarrow> (e', t) \<in> B \<Longrightarrow> e' = e"
  by (auto simp: agree_def)

lemma agree_mono: "agree A B \<Longrightarrow> A' \<subseteq> A \<Longrightarrow> B' \<subseteq> B \<Longrightarrow> agree A' B'"
  unfolding agree_def by blast

lemma polls_Cons: "set (polls (fr # rest)) = set_option (polled fr) \<union> set (polls rest)"
  by (simp split: option.splits)

lemma polled_in_polls: "fr \<in> set stk \<Longrightarrow> polled fr = Some x \<Longrightarrow> x \<in> set (polls stk)"
  by (induction stk) (auto split: option.splits)

lemma polls_in_stack: "x \<in> set (polls stk) \<Longrightarrow> \<exists>fr\<in>set stk. polled fr = Some x"
  by (induction stk) (auto split: option.splits)

lemma polls_unique:
  assumes "distinct (map snd (polls (fr # rest)))" "polled fr = Some (e, t)" "(e', t') \<in> set (polls rest)"
  shows "t' \<noteq> t"
  using assms by (auto simp: image_iff)

lemma frame_task_ok_cong:
  assumes "frame_task_ok k fr"
    and "\<And>e t. polled fr = Some (e, t) \<Longrightarrow> ti_poll_fn (k_tasks k' t) = ti_poll_fn (k_tasks k t)
      \<and> (spawned (ti_state (k_tasks k t)) \<longrightarrow> spawned (ti_state (k_tasks k' t)))"
  shows "frame_task_ok k' fr"
  using assms by (cases fr) auto

section \<open>Replacing the running activation\<close>

lemma task_inv_replace:
  assumes inv: "task_inv L n k (fr # rest)" and pl: "polled fr' = polled fr"
    and "agree (aims (frame_stage fr')) (set (polls (fr # rest)))"
    and "agree (ptr_set k') (set (polls (fr # rest)))" "agree (queue_set L n k') (set (polls (fr # rest)))"
    and "agree (ptr_set k') (queue_set L n k')"
    and "\<And>t. task_ok (k_tasks k' t)" "\<And>t. ti_poll_fn (k_tasks k t) \<noteq> None \<Longrightarrow> ti_poll_fn (k_tasks k' t) \<noteq> None"
    and "\<And>t. t \<in> snd ` aims (frame_stage fr') \<Longrightarrow> ti_poll_fn (k_tasks k' t) \<noteq> None"
    and "\<And>f. f \<in> set rest \<Longrightarrow> frame_task_ok k f \<Longrightarrow> frame_task_ok k' f" "frame_task_ok k' fr'"
  shows "task_inv L n k' (fr' # rest)"
proof -
  have polls: "polls (fr' # rest) = polls (fr # rest)" using pl by simp
  have "\<forall>t\<in>aimed (fr' # rest). ti_poll_fn (k_tasks k' t) \<noteq> None"
    using task_invD(7) [OF inv] assms(8,9) unfolding aimed.simps by blast
  moreover have "\<forall>f\<in>set (fr' # rest). frame_task_ok k' f"
    using task_invD(8) [OF inv] assms(10,11) by simp
  moreover have "located (fr' # rest)"
    using task_invD(5) [OF inv] assms(3) polls by simp
  ultimately show ?thesis
    using task_invD(1) [OF inv] assms(4-7) unfolding task_inv_def polls by blast
qed

text \<open>Steps after which every pointer, queue entry and activation was there before.\<close>

lemma task_inv_quiet:
  assumes inv: "task_inv L n k (fr # rest)" and pl: "polled fr' = polled fr"
    and "agree (aims (frame_stage fr')) (set (polls (fr # rest)))"
    and sub: "ptr_set k' \<subseteq> ptr_set k" "queue_set L n k' \<subseteq> queue_set L n k"
    and "\<And>t. task_ok (k_tasks k' t)" "\<And>t. ti_poll_fn (k_tasks k t) \<noteq> None \<Longrightarrow> ti_poll_fn (k_tasks k' t) \<noteq> None"
    and "\<And>t. t \<in> snd ` aims (frame_stage fr') \<Longrightarrow> ti_poll_fn (k_tasks k' t) \<noteq> None"
    and "\<And>f. f \<in> set rest \<Longrightarrow> frame_task_ok k f \<Longrightarrow> frame_task_ok k' f" "frame_task_ok k' fr'"
  shows "task_inv L n k' (fr' # rest)"
proof -
  have "agree (ptr_set k') (set (polls (fr # rest)))"
    by (rule agree_mono [OF task_invD(2) [OF inv] sub(1) order.refl])
  moreover have "agree (queue_set L n k') (set (polls (fr # rest)))"
    by (rule agree_mono [OF task_invD(3) [OF inv] sub(2) order.refl])
  moreover have "agree (ptr_set k') (queue_set L n k')"
    by (rule agree_mono [OF task_invD(4) [OF inv] sub])
  ultimately show ?thesis
    using assms(3,6-10) by (intro task_inv_replace [OF inv pl])
qed

text \<open>Steps that touch nothing the invariant speaks of.\<close>

definition same_tasks :: "(tid, 'q) list_api \<Rightarrow> ('f, 'o, 'q, 's, 'g) kernel \<Rightarrow> ('f, 'o, 'q, 's, 'g) kernel \<Rightarrow> bool" where
  "same_tasks L k k' \<longleftrightarrow> (\<forall>e. queue L k' e = queue L k e)
     \<and> (\<forall>t. ti_poll_fn (k_tasks k' t) = ti_poll_fn (k_tasks k t)
          \<and> spawned (ti_state (k_tasks k' t)) = spawned (ti_state (k_tasks k t))
          \<and> (run_queued (ti_state (k_tasks k' t)) \<longrightarrow> run_queued (ti_state (k_tasks k t)))
          \<and> (ts_f (k_tasks k' t) = Uninit \<longleftrightarrow> ts_f (k_tasks k t) = Uninit)
          \<and> ti_executor_ptr (k_tasks k' t) \<in> {None, ti_executor_ptr (k_tasks k t)})"

lemma same_tasks_refl [simp]: "same_tasks L k k"
  by (simp add: same_tasks_def)

lemma same_tasks_access [simp]: "same_tasks L k (k\<lparr>k_app := g\<rparr>)"
  by (simp add: same_tasks_def queue_def)

lemma same_tasksD:
  assumes "same_tasks L k k'"
  shows "queue_set L n k' = queue_set L n k" "ptr_set k' \<subseteq> ptr_set k"
    "task_ok (k_tasks k t) \<Longrightarrow> task_ok (k_tasks k' t)"
    "ti_poll_fn (k_tasks k' t) = ti_poll_fn (k_tasks k t)"
    "frame_task_ok k fr \<Longrightarrow> frame_task_ok k' fr"
proof -
  show "queue_set L n k' = queue_set L n k" using assms by (simp add: same_tasks_def queue_set_def)
  show "ptr_set k' \<subseteq> ptr_set k"
  proof (rule subsetI)
    fix x assume "x \<in> ptr_set k'"
    then obtain e t where x: "x = (e, t)" "ti_executor_ptr (k_tasks k' t) = Some e" by (auto simp: ptr_set_def)
    moreover have "ti_executor_ptr (k_tasks k' t) \<in> {None, ti_executor_ptr (k_tasks k t)}"
      using assms unfolding same_tasks_def by blast
    ultimately show "x \<in> ptr_set k" by (simp add: ptr_set_def)
  qed
  show "ti_poll_fn (k_tasks k' t) = ti_poll_fn (k_tasks k t)" using assms by (simp add: same_tasks_def)
  show "task_ok (k_tasks k t) \<Longrightarrow> task_ok (k_tasks k' t)"
    using assms unfolding same_tasks_def task_ok_def by (metis empty_iff insert_iff)
  show "frame_task_ok k fr \<Longrightarrow> frame_task_ok k' fr"
    using assms by (elim frame_task_ok_cong) (simp add: same_tasks_def)
qed

lemma task_inv_same:
  assumes inv: "task_inv L n k (fr # rest)" and k: "same_tasks L k k'"
    and pl: "polled fr' = polled fr" and fr': "frame_task_ok k fr \<longrightarrow> frame_task_ok k fr'"
    and a: "aims (frame_stage fr') \<subseteq> aims (frame_stage fr)"
  shows "task_inv L n k' (fr' # rest)"
proof (rule task_inv_quiet [OF inv pl])
  show "agree (aims (frame_stage fr')) (set (polls (fr # rest)))"
    using task_invD(5) [OF inv] a by (auto intro: agree_mono)
  show "ti_poll_fn (k_tasks k' t) \<noteq> None" if "t \<in> snd ` aims (frame_stage fr')" for t
    using task_invD(7) [OF inv] that a same_tasksD(4) [OF k, of t] by auto
qed (use same_tasksD [OF k] task_invD [OF inv] fr' in auto)

end
