(* ===== verification/SafeStep.thy ===== *)
theory SafeStep
  imports SafeInv
begin

text \<open>Every disciplined step preserves the invariant of task storage, and none panics.\<close>

lemma same_tasks_bits [simp]:
  "same_tasks L k (k\<lparr>k_pend_marker := a\<rparr>)" "same_tasks L k (k\<lparr>k_msip := a\<rparr>)"
  "same_tasks L k (k\<lparr>k_pend_marker := a, k_msip := b\<rparr>)" "same_tasks L k (k\<lparr>k_prio_stack := ps\<rparr>)"
  by (simp_all add: same_tasks_def)

context runtime
begin

lemma fetch_task_inv:
  fixes k :: "('f, 'o, 'q, 's, 'g) kernel"
  assumes inv: "task_inv L n k (fr # rest)" and pl: "polled fr' = polled fr"
    and fr': "frame_task_ok k fr \<Longrightarrow> frame_task_ok (put_state t (snd (state_run_enqueue w)) k) fr'"
    and w: "w = ti_state (k_tasks k t)" and t: "aims (frame_stage fr) = {(e, t)}"
    and a: "aims (frame_stage fr') \<subseteq> {(e, t)}"
  shows "task_inv L n (put_state t (snd (state_run_enqueue w)) k) (fr' # rest)"
proof (rule task_inv_quiet [OF inv pl])
  have nn: "ti_poll_fn (k_tasks k t) \<noteq> None" using task_invD(7) [OF inv] t by simp
  show "task_ok (k_tasks (put_state t (snd (state_run_enqueue w)) k) u)" for u
    using task_invD(6) [OF inv, of u] nn by (auto simp: task_ok_def w)
  show "agree (aims (frame_stage fr')) (set (polls (fr # rest)))"
    using task_invD(5) [OF inv] t by (intro agree_mono [OF _ a order.refl]) simp
  show "ti_poll_fn (k_tasks (put_state t (snd (state_run_enqueue w)) k) u) \<noteq> None"
    if "u \<in> snd ` aims (frame_stage fr')" for u
    using that nn a by auto
  show "frame_task_ok (put_state t (snd (state_run_enqueue w)) k) f" if "frame_task_ok k f" for f
    using that by (rule frame_task_ok_cong) (simp add: w)
qed (use fr' task_invD(8) [OF inv] in \<open>auto simp: ptr_set_def queue_set_def split: if_splits\<close>)

lemma push_task_inv:
  fixes k :: "('f, 'o, 'q, 's, 'g) kernel"
  assumes sinv: "wired n k" "queue_inv L n k (add_mset t ps)" and inv: "task_inv L n k (fr # rest)"
    and e: "e < n" and nn: "ti_poll_fn (k_tasks k t) \<noteq> None"
    and here: "\<And>e'. (e', t) \<in> set (polls (fr # rest)) \<Longrightarrow> e' = e"
    and push: "enqueue_locked L e t k = Inr k'"
    and pl: "polled fr' = polled fr" and fr': "frame_task_ok k fr \<Longrightarrow> frame_task_ok k' fr'"
    and a: "aims (frame_stage fr') = {}"
  shows "task_inv L n k' (fr' # rest)"
proof -
  have notin: "t \<notin> set (queue L k e')" if "e' < n" for e'
    using sinv(2) that by (rule pushed_not_queued)
  obtain k2 where k2: "enqueue_locked L e t k = Inr k2" "wired n k2" "same_sched k k2"
    "queue L k2 e = queue L k e @ [t]" "\<forall>e'. e' \<noteq> e \<longrightarrow> queue L k2 e' = queue L k e'"
    "ready_bits k2 = insert e (ready_bits k)"
    "k_tasks k2 = (k_tasks k)(t := (k_tasks k t)\<lparr>ti_executor_ptr := Some e\<rparr>)"
    by (rule enqueue_locked_ok [OF sinv(1) e notin [OF e]])
  have k': "k' = k2" using push k2(1) by simp
  have ptr: "ptr_set k' = {(e', u). u \<noteq> t \<and> (e', u) \<in> ptr_set k} \<union> {(e, t)}"
    by (auto simp: ptr_set_def k' k2(7) split: if_splits)
  have que: "queue_set L n k' = insert (e, t) (queue_set L n k)"
  proof (rule set_eqI)
    fix x :: "nat \<times> tid"
    obtain e' u where x: "x = (e', u)" by (cases x)
    show "x \<in> queue_set L n k' \<longleftrightarrow> x \<in> insert (e, t) (queue_set L n k)"
      unfolding x queue_set_def k' using e k2(4) k2(5) [rule_format, of e'] by (cases "e' = e") auto
  qed
  note T = task_invD [OF inv]
  show ?thesis
  proof (rule task_inv_replace [OF inv pl])
    show "agree (ptr_set k') (set (polls (fr # rest)))"
      using T(2) here unfolding ptr agree_def by blast
    show "agree (queue_set L n k') (set (polls (fr # rest)))"
      using T(3) here unfolding que agree_def by blast
    have "\<And>e'. (e', t) \<notin> queue_set L n k" using notin by (auto simp: queue_set_def)
    then show "agree (ptr_set k') (queue_set L n k')"
      using T(4) unfolding ptr que agree_def by blast
    show "task_ok (k_tasks k' u)" for u
      using T(6) [of u] nn by (auto simp: k' k2(7) task_ok_def)
    show "frame_task_ok k' f" if "frame_task_ok k f" for f
      using that by (rule frame_task_ok_cong) (simp add: k' k2(7))
  qed (use a fr' T(8) in \<open>auto simp: k' k2(7)\<close>)
qed

lemma stage_fetch_task:
  fixes k :: "('f, 'o, 'q, 's, 'g) kernel"
  assumes inv: "task_inv L n k (fr # rest)" and st: "frame_stage fr = Some st"
    and k': "k' = put_state t (snd (state_run_enqueue (ti_state (k_tasks k t)))) k"
    and fr': "polled fr' = polled fr" "aims (frame_stage fr') \<subseteq> {(e, t)}" and aims: "aims (Some st) = {(e, t)}"
    and ok: "\<And>h :: ('f, 'o, 'q, 's, 'g) kernel. frame_task_ok h fr' = frame_task_ok h fr"
  shows "task_inv L n k' (fr' # rest)"
  unfolding k'
proof (rule fetch_task_inv [OF inv fr'(1) _ refl _ fr'(2)])
  show "aims (frame_stage fr) = {(e, t)}" using st aims by simp
  show "frame_task_ok (put_state t (snd (state_run_enqueue (ti_state (k_tasks k t)))) k) fr'"
    if "frame_task_ok k fr"
    unfolding ok by (rule frame_task_ok_cong [OF that]) simp
qed

lemma stage_push_task:
  fixes k :: "('f, 'o, 'q, 's, 'g) kernel"
  assumes sinv: "sched_inv V L n k (fr # rest)" and inv: "task_inv L n k (fr # rest)"
    and st: "frame_stage fr = Some st" "pusher (Some st) = {#t#}" "aims (Some st) = {(e, t)}" and e: "e < n"
    and push: "enqueue_locked L e t k = Inr k'"
    and fr': "polled fr' = polled fr" "aims (frame_stage fr') = {}"
    and ok: "\<And>h :: ('f, 'o, 'q, 's, 'g) kernel. frame_task_ok h fr' = frame_task_ok h fr"
  shows "task_inv L n k' (fr' # rest)"
proof -
  note I = sched_invD [OF sinv] and T = task_invD [OF inv]
  have q: "queue_inv L n k (add_mset t (pushing rest))" using I(3) st by simp
  have nn: "ti_poll_fn (k_tasks k t) \<noteq> None" using T(7) st by simp
  have here: "e' = e" if "(e', t) \<in> set (polls (fr # rest))" for e' using T(5) st that by simp
  have "t \<notin> set (queue L k e)" using I(3) st e pushed_not_queued [of L n k t "pushing rest" e] by simp
  from enqueue_locked_ok [OF I(1) e this]
  have k': "k_tasks k' = (k_tasks k)(t := (k_tasks k t)\<lparr>ti_executor_ptr := Some e\<rparr>)"
    using push by auto
  have "frame_task_ok k' fr'" if "frame_task_ok k fr"
    unfolding ok by (rule frame_task_ok_cong [OF that]) (simp add: k')
  then show ?thesis
    by (intro push_task_inv [OF I(1) q inv e nn here push fr'(1) _ fr'(2)]) simp_all
qed

lemma stage_load_task:
  fixes k :: "('f, 'o, 'q, 's, 'g) kernel"
  assumes inv: "task_inv L n k (fr # rest)" and e: "ti_executor_ptr (k_tasks k t) = Some e"
    and fr': "polled fr' = polled fr" "frame_stage fr' = Some (W_Fetch e t)"
    and ok: "\<And>h :: ('f, 'o, 'q, 's, 'g) kernel. frame_task_ok h fr' = frame_task_ok h fr"
  shows "task_inv L n k (fr' # rest)"
proof -
  note T = task_invD [OF inv]
  have "(e, t) \<in> ptr_set k" using e by (simp add: ptr_set_def)
  then have "agree {(e, t)} (set (polls (fr # rest)))" using T(2) unfolding agree_def by blast
  moreover have "ti_poll_fn (k_tasks k t) \<noteq> None" using T(6) [of t] e by (simp add: task_ok_def)
  ultimately show ?thesis
    by (intro task_inv_quiet [OF inv fr'(1)]) (use T(6,8) fr'(2) ok in auto)
qed

lemma step_stage_task:
  fixes k :: "('f, 'o, 'q, 's, 'g) kernel"
  assumes sinv: "sched_inv V L n k (fr # rest)" and inv: "task_inv L n k (fr # rest)"
    and st: "frame_stage fr = Some st" and step: "step_stage V L st k = Inr (st', k')"
    and fr': "polled fr' = polled fr" "frame_stage fr' = st'"
    and ok: "\<And>h :: ('f, 'o, 'q, 's, 'g) kernel. frame_task_ok h fr' = frame_task_ok h fr"
  shows "task_inv L n k' (fr' # rest)"
proof -
  note I = sched_invD [OF sinv]
  have same: "task_inv L n k' (fr' # rest)" if "same_tasks L k k'" "aims st' \<subseteq> aims (Some st)"
    by (rule task_inv_same [OF inv that(1) fr'(1)]) (use that(2) ok st fr'(2) in simp_all)
  have stn: "stage_ok n (Some st)" using I(6) st by simp
  show ?thesis
  proof (cases st)
    case (W_Load t)
    show ?thesis
    proof (cases "ti_executor_ptr (k_tasks k t)")
      case None
      then show ?thesis using step W_Load by (intro same) auto
    next
      case (Some e)
      then have r: "st' = Some (W_Fetch e t)" "k' = k" using step W_Load by (auto split: if_splits)
      show ?thesis unfolding r(2) by (rule stage_load_task [OF inv Some fr'(1) _ ok]) (simp add: fr' r)
    qed
  next
    case (W_Fetch e t)
    have "k' = put_state t (snd (state_run_enqueue (ti_state (k_tasks k t)))) k" "aims st' \<subseteq> {(e, t)}"
      using step unfolding W_Fetch step_stage.simps fetch_enqueue_eq prod.case by (cases "flagged k t"; force)+
    then show ?thesis using W_Fetch fr'(2)
      by (intro stage_fetch_task [OF inv st _ fr'(1) _ _ ok, where t = t and e = e]) simp_all
  next
    case (D_Fetch e t)
    have "k' = put_state t (snd (state_run_enqueue (ti_state (k_tasks k t)))) k" "aims st' \<subseteq> {(e, t)}"
      using step unfolding D_Fetch step_stage.simps fetch_enqueue_eq prod.case by (cases "flagged k t"; force)+
    then show ?thesis using D_Fetch fr'(2)
      by (intro stage_fetch_task [OF inv st _ fr'(1) _ _ ok, where t = t and e = e]) simp_all
  next
    case (W_Push e t)
    then have r: "st' = Some W_Mark" "enqueue_locked L e t k = Inr k'" "e < n"
      using step stn by (auto simp: rbind_Inr_iff)
    then show ?thesis
      by (intro stage_push_task [OF sinv inv st _ _ r(3,2) fr'(1) _ ok]) (simp_all add: W_Push fr'(2))
  next
    case (D_Push e t)
    then have r: "st' = Some D_Check" "enqueue_locked L e t k = Inr k'" "e < n"
      using step stn by (auto simp: rbind_Inr_iff)
    then show ?thesis
      by (intro stage_push_task [OF sinv inv st _ _ r(3,2) fr'(1) _ ok]) (simp_all add: D_Push fr'(2))
  next
    case D_Check
    then show ?thesis using step spawn_check_eq [OF sinv] by (intro same) (auto split: if_splits)
  next
    case W_Send
    then show ?thesis using step by (intro same) (auto simp: pend_send_wired [OF I(1)])
  qed (rule same; use step in \<open>auto simp: pend_mark_def join_store_def same_tasks_def split: if_splits\<close>)+
qed

text \<open>
  A spawn that succeeds writes a fresh future; no activation but a \<open>FGot\<close> can hold the task then,
  since every later one keeps it marked as spawned.
\<close>

lemma begin_spawn_task:
  fixes k :: "('f, 'o, 'q, 's, 'g) kernel"
  assumes inv: "task_inv L n k (fr # rest)" and fr: "polled fr' = polled fr" "\<not> has_got t fr"
    and got: "\<forall>f\<in>set rest. \<not> has_got t f"
    and spawn: "begin_spawn t f p k = Inr (ok, frame_stage fr', k')"
    and ok: "\<And>h :: ('f, 'o, 'q, 's, 'g) kernel. frame_task_ok h fr' = frame_task_ok h fr"
  shows "task_inv L n k' (fr' # rest)"
proof (cases "spawned (ti_state (k_tasks k t))")
  case True
  then have r: "frame_stage fr' = None" "k' = put_state t (snd (state_spawn (ti_state (k_tasks k t)))) k"
    using spawn by (simp_all add: begin_spawn_eq Let_def)
  have "same_tasks L k k'" using True by (simp add: r same_tasks_def)
  then show ?thesis by (intro task_inv_same [OF inv _ fr(1)]) (simp_all add: r ok)
next
  case False
  note T = task_invD [OF inv]
  let ?u = "\<lambda>i. i\<lparr>js_result := None, js_waker := None, ti_poll_fn := Some PollStorage, ts_f := Init f\<rparr>"
  have r: "frame_stage fr' = Some (D_Fetch (to_usize p) t)"
      "k' = upd_task t ?u (put_state t (snd (state_spawn (ti_state (k_tasks k t)))) k)"
    using spawn False by (auto simp: begin_spawn_eq Let_def split: if_splits)
  have free: "(e, t) \<notin> set (polls (fr # rest))" for e
  proof
    assume "(e, t) \<in> set (polls (fr # rest))"
    then obtain f where f: "f \<in> set (fr # rest)" "polled f = Some (e, t)"
      using polls_in_stack by blast
    have "frame_task_ok k f" "\<not> has_got t f" using T(8) f(1) got fr(2) by auto
    moreover have "task_ok (k_tasks k t)" by (rule T(6))
    ultimately show False using f(2) False by (cases f) (auto simp: task_ok_def)
  qed
  have keep: "frame_task_ok k' h" if "h \<in> set (fr # rest)" "frame_task_ok k h" for h
    using that(2)
  proof (rule frame_task_ok_cong)
    fix e u assume "polled h = Some (e, u)"
    then have "u \<noteq> t" using polled_in_polls [OF that(1)] free by blast
    then show "ti_poll_fn (k_tasks k' u) = ti_poll_fn (k_tasks k u)
        \<and> (spawned (ti_state (k_tasks k u)) \<longrightarrow> spawned (ti_state (k_tasks k' u)))"
      by (simp add: r)
  qed
  show ?thesis
  proof (rule task_inv_quiet [OF inv fr(1)])
    show "agree (aims (frame_stage fr')) (set (polls (fr # rest)))"
      unfolding r using free by simp
    show "task_ok (k_tasks k' u)" for u using T(6) [of u] by (simp add: r task_ok_def)
    show "frame_task_ok k' fr'" using keep [of fr] T(8) ok by simp
    show "frame_task_ok k' h" if "h \<in> set rest" "frame_task_ok k h" for h using keep that by simp
  qed (auto simp: r ptr_set_def queue_set_def split: if_splits)
qed

lemma begin_spawn_returns:
  "wired n k \<Longrightarrow> to_usize p < n \<Longrightarrow> \<exists>ok st k'. begin_spawn t f p k = Inr (ok, st, k')"
  by (auto simp: begin_spawn_eq Let_def wiredD(1))

end

end
