(* ===== verification/SafeReach.thy ===== *)
theory SafeReach
  imports SafeStep
begin

text \<open>The remaining steps, and the absence of panics in disciplined runs.\<close>

section \<open>Activations that come and go\<close>

lemma polls_actives: "(e, t) \<in> set (polls stk) \<Longrightarrow> e \<in> set (actives stk)"
proof (induction stk)
  case (Cons fr rest)
  then show ?case by (cases fr) auto
qed simp

text \<open>An activation that held a task is replaced by one that holds none, or is gone.\<close>

lemma task_inv_release:
  assumes inv: "task_inv L n k (fr # rest)" and k: "same_tasks L k k'"
    and fr': "polled fr' = None" "aims (frame_stage fr') = {}" "frame_task_ok k fr'"
  shows "task_inv L n k' (fr' # rest)" "task_inv L n k' rest"
proof -
  note T = task_invD [OF inv] and K = same_tasksD [OF k]
  have sub: "set (polls rest) \<subseteq> set (polls (fr # rest))" by (auto split: option.splits)
  have "agree (ptr_set k') (set (polls rest))" by (rule agree_mono [OF T(2) K(2) sub])
  moreover have "agree (queue_set L n k') (set (polls rest))"
    by (rule agree_mono [OF T(3) _ sub]) (simp add: K(1))
  moreover have "agree (ptr_set k') (queue_set L n k')"
    by (rule agree_mono [OF T(4) K(2)]) (simp add: K(1))
  moreover have "distinct (map snd (polls rest))" using T(1) by (simp split: option.splits)
  moreover have "\<forall>u. task_ok (k_tasks k' u)" using T(6) K(3) by blast
  moreover have "\<forall>u\<in>aimed rest. ti_poll_fn (k_tasks k' u) \<noteq> None" using T(7) by (simp add: K(4))
  moreover have "\<forall>f\<in>set rest. frame_task_ok k' f" using T(8) K(5) by simp
  moreover have "located rest" using T(5) by simp
  moreover have "frame_task_ok k' fr'" using fr'(3) by (rule K(5))
  ultimately show "task_inv L n k' (fr' # rest)" "task_inv L n k' rest"
    using fr'(1,2) by (simp_all add: task_inv_def)
qed

lemma task_inv_interrupt:
  "task_inv L n k stk \<Longrightarrow> task_inv L n k (FIrq kind ops None # stk)"
  by (simp add: task_inv_def)

text \<open>The task's own activation may change the task: nothing else holds it.\<close>

lemma task_inv_own:
  assumes inv: "task_inv L n k (fr # rest)" and fr: "polled fr = Some (e, t)"
    and k': "k_tasks k' = (k_tasks k)(t := i)" "\<And>e. queue L k' e = queue L k e"
    and i: "ti_executor_ptr i \<in> {None, ti_executor_ptr (k_tasks k t)}" "task_ok i" "ti_poll_fn i \<noteq> None"
    and fr': "polled fr' \<in> {None, polled fr}" "aims (frame_stage fr') = {}" "frame_task_ok k' fr'"
  shows "task_inv L n k' (fr' # rest)"
proof -
  note T = task_invD [OF inv]
  have sub: "set (polls (fr' # rest)) \<subseteq> set (polls (fr # rest))"
    using fr'(1) by (auto simp: fr split: option.splits)
  have ptr: "ptr_set k' \<subseteq> ptr_set k" using i(1) by (auto simp: ptr_set_def k' split: if_splits)
  have que: "queue_set L n k' = queue_set L n k" by (simp add: queue_set_def k')
  have "agree (ptr_set k') (set (polls (fr' # rest)))" by (rule agree_mono [OF T(2) ptr sub])
  moreover have "agree (queue_set L n k') (set (polls (fr' # rest)))"
    by (rule agree_mono [OF T(3) _ sub]) (simp add: que)
  moreover have "agree (ptr_set k') (queue_set L n k')"
    by (rule agree_mono [OF T(4) ptr]) (simp add: que)
  moreover have "distinct (map snd (polls (fr' # rest)))"
    using T(1) fr'(1) by (cases "polled fr'") (simp_all add: fr)
  moreover have "\<forall>u. task_ok (k_tasks k' u)" using T(6) i(2) by (simp add: k')
  moreover have "\<forall>u\<in>aimed (fr' # rest). ti_poll_fn (k_tasks k' u) \<noteq> None"
    using T(7) fr'(2) i(3) by (auto simp: k')
  moreover have "located (fr' # rest)" using T(5) fr'(2) by simp
  moreover have "frame_task_ok k' f" if f: "f \<in> set rest" for f
  proof (rule frame_task_ok_cong [of k])
    show "frame_task_ok k f" using T(8) f by simp
    fix e' u assume "polled f = Some (e', u)"
    then have "u \<noteq> t" using polls_unique [OF T(1) fr] polled_in_polls [OF f] by blast
    then show "ti_poll_fn (k_tasks k' u) = ti_poll_fn (k_tasks k u)
        \<and> (spawned (ti_state (k_tasks k u)) \<longrightarrow> spawned (ti_state (k_tasks k' u)))"
      by (simp add: k')
  qed
  ultimately show ?thesis using fr'(3) by (simp add: task_inv_def)
qed

context runtime
begin

section \<open>The steps of an executor's loop\<close>

text \<open>What holds of a task that the loop has just taken from its queue.\<close>

lemma queued_flagged:
  assumes "queue_inv L n k ps" "e < n" "t \<in> set (queue L k e)"
  shows "flagged k t"
proof -
  have "count (queued L n k + ps) t = (if flagged k t then 1 else 0)"
    using assms(1) unfolding queue_inv_def by (rule spec)
  moreover have "t \<in># queued L n k" using assms(2,3) by (auto simp: in_queued)
  ultimately show ?thesis by (metis add_is_0 count_eq_zero_iff count_union)
qed

lemma queued_not_polled:
  assumes "sched_inv V L n k (FLoop e # rest)" "task_inv L n k (FLoop e # rest)" "t \<in> set (queue L k e)"
  shows "t \<notin> snd ` set (polls rest)"
proof
  note I = sched_invD [OF assms(1)] and T = task_invD [OF assms(2)]
  assume "t \<in> snd ` set (polls rest)"
  then obtain e' where e': "(e', t) \<in> set (polls rest)" by auto
  then have "(e', t) \<in> set (polls (FLoop e # rest))" by simp
  moreover have "(e, t) \<in> queue_set L n k" using I(2) assms(3) by (simp add: queue_set_def stack_inv_def)
  ultimately have "e' = e" using agreeD [OF T(3)] by blast
  then show False using polls_actives [OF e'] I(2) by (auto simp: stack_inv_def)
qed

lemma task_loop_got:
  fixes k :: "('f, 'o, 'q, 's, 'g) kernel"
  assumes sinv: "sched_inv V L n k (FLoop e # rest)" and inv: "task_inv L n k (FLoop e # rest)"
    and q2: "queue_inv L n k2 (pushing (FGot e t # rest))"
    and q: "queue L k e = t # queue L k2 e" "\<forall>e'. e' \<noteq> e \<longrightarrow> queue L k2 e' = queue L k e'"
    and k2: "k_tasks k2 = (k_tasks k)(t := (k_tasks k t)\<lparr>ti_state := state_run_dequeue (ti_state (k_tasks k t))\<rparr>)"
  shows "task_inv L n k2 (FGot e t # rest)"
proof -
  note I = sched_invD [OF sinv] and T = task_invD [OF inv]
  have e: "e < n" using I(2) by (simp add: stack_inv_def)
  have none: "t \<notin> set (queue L k2 e')" if "e' < n" for e'
    using queued_flagged [OF q2 that, of t] by (auto simp: flagged_def k2)
  have inq: "(e, t) \<in> queue_set L n k" using e q(1) by (simp add: queue_set_def)
  have "set (queue L k2 e') \<subseteq> set (queue L k e')" for e'
    using q(1) q(2) [rule_format, of e'] by (cases "e' = e") auto
  then have sub: "queue_set L n k2 \<subseteq> queue_set L n k" by (auto simp: queue_set_def)
  have ptr: "ptr_set k2 = ptr_set k" by (auto simp: ptr_set_def k2 split: if_splits)
  have nn: "ti_poll_fn (k_tasks k t) \<noteq> None"
    using T(6) [of t] queued_flagged [OF I(3) e, of t] q(1) by (simp add: task_ok_def flagged_def)
  have "agree (ptr_set k2) (set (polls (FGot e t # rest)))"
    using T(2) agreeD [OF T(4) _ inq] unfolding agree_def ptr by auto
  moreover have "agree (queue_set L n k2) (set (polls (FGot e t # rest)))"
    unfolding agree_def
  proof (intro allI impI)
    fix a u b assume u: "(a, u) \<in> queue_set L n k2" and p: "(b, u) \<in> set (polls (FGot e t # rest))"
    have "u \<noteq> t" using u none by (auto simp: queue_set_def)
    then have "(b, u) \<in> set (polls (FLoop e # rest))" using p by simp
    moreover have "(a, u) \<in> queue_set L n k" using u sub by blast
    ultimately show "b = a" using agreeD [OF T(3)] by blast
  qed
  moreover have "agree (ptr_set k2) (queue_set L n k2)"
    by (rule agree_mono [OF T(4) _ sub]) (simp add: ptr)
  moreover have "\<forall>u. task_ok (k_tasks k2 u)" using T(6) nn by (simp add: k2 task_ok_def)
  moreover have "\<forall>u\<in>aimed (FGot e t # rest). ti_poll_fn (k_tasks k2 u) \<noteq> None" using T(7) by (simp add: k2)
  moreover have "frame_task_ok k2 f" if "f \<in> set rest" for f
    using T(8) that by (intro frame_task_ok_cong [of k f k2]) (simp_all add: k2)
  ultimately show ?thesis
    using T(1,5) queued_not_polled [OF sinv inv, of t] q(1) nn by (simp add: task_inv_def k2)
qed

lemma task_loop:
  fixes k :: "('f, 'o, 'q, 's, 'g) kernel"
  assumes sinv: "sched_inv V L n k (FLoop e # rest)" and inv: "task_inv L n k (FLoop e # rest)"
    and step: "step_frame V L fpoll (FLoop e) k = Inr (frs, k')"
  shows "task_inv L n k' (frs @ rest)"
proof -
  note I = sched_invD [OF sinv]
  have e: "e < n" using I(2) by (simp add: stack_inv_def)
  show ?thesis
  proof (cases rule: run_next_ok [OF I(1) e, case_names task empty])
    case (task t k2)
    have r: "frs = [FGot e t]" "k' = k2" using step task(1) by simp_all
    have "queue_inv L n k2 (pushing (FGot e t # rest))"
      using sched_invD(3) [OF inv_loop [OF sinv step]] by (simp add: r)
    then show ?thesis
      unfolding r append.simps by (rule task_loop_got [OF sinv inv]) (use task in simp_all)
  next
    case (empty k2)
    have r: "frs = [FRunEnd e]" "k' = k2" using step empty(1) by simp_all
    have "queue L k2 e' = queue L k e'" for e'
      using empty(2,3) empty(6) [rule_format, of e'] by (cases "e' = e") simp_all
    then have "same_tasks L k k2" by (simp add: same_tasks_def empty(8))
    then show ?thesis unfolding r by (simp add: task_inv_release(1) [OF inv])
  qed
qed

lemma wake_task_task:
  fixes k :: "('f, 'o, 'q, 's, 'g) kernel"
  assumes sinv: "wired n k" "queue_inv L n k ps" and inv: "task_inv L n k (fr # rest)"
    and fr: "polled fr = None" "aims (frame_stage fr) = {}" "\<And>h :: ('f, 'o, 'q, 's, 'g) kernel. frame_task_ok h fr"
    and wake: "wake_task L t k = Inr k'"
  shows "task_inv L n k' (fr # rest)"
proof (cases "ti_executor_ptr (k_tasks k t)")
  case None
  then show ?thesis using wake inv by (simp add: wake_task_def)
next
  case (Some e)
  note T = task_invD [OF inv]
  let ?k = "put_state t (snd (state_run_enqueue (ti_state (k_tasks k t)))) k"
  have nn: "ti_poll_fn (k_tasks k t) \<noteq> None" using T(6) [of t] Some by (simp add: task_ok_def)
  have e: "e < n" using wake Some wiredD(1) [OF sinv(1)] by (auto simp: wake_task_def split: if_splits)
  have run: "executor_enqueue L e t k =
      (if flagged k t then Inr (False, ?k) else rbind (enqueue_locked L e t ?k) (\<lambda>k'. Inr (True, k')))"
    by (simp add: executor_enqueue_def run_enqueue_def case_prod_beta flagged_def)
  have inv1: "task_inv L n ?k (fr # rest)"
  proof (rule task_inv_quiet [OF inv refl])
    show "task_ok (k_tasks ?k u)" for u using T(6) [of u] nn by (auto simp: task_ok_def)
    show "frame_task_ok ?k f" if "frame_task_ok k f" for f
      by (rule frame_task_ok_cong [OF that]) simp
  qed (use fr in \<open>auto simp: ptr_set_def queue_set_def split: if_splits\<close>)
  show ?thesis
  proof (cases "flagged k t")
    case True
    then show ?thesis
      using wake Some e wiredD(1) [OF sinv(1)] inv1 by (simp add: wake_task_def run)
  next
    case False
    then obtain k2 where k2: "enqueue_locked L e t ?k = Inr k2" "pend k2 = Inr k'"
      using wake Some e wiredD(1) [OF sinv(1)] by (auto simp: wake_task_def run rbind_Inr_iff)
    have q: "queue_inv L n ?k (add_mset t ps)" using queue_inv_fetch [OF sinv(2) False] .
    have here: "e' = e" if "(e', t) \<in> set (polls (fr # rest))" for e'
      using agreeD [OF T(2) _ that, of e] Some by (simp add: ptr_set_def)
    have inv2: "task_inv L n k2 (fr # rest)"
      by (rule push_task_inv [OF _ q inv1 e _ here k2(1)]) (use sinv(1) nn fr in simp_all)
    have "k' = k2\<lparr>k_pend_marker := True, k_msip := k_msip k'\<rparr>"
      using k2(2) by (auto simp: pend_def pend_send_def pend_mark_def ipi_send_def
          split: option.splits ipi_dev.splits if_splits)
    then have "same_tasks L k2 k'" by (metis same_tasks_bits(3))
    then show ?thesis by (intro task_inv_same [OF inv2]) (simp_all add: fr)
  qed
qed

section \<open>Every disciplined step\<close>

lemma despawn_task:
  fixes k :: "('f, 'o, 'q, 's, 'g) kernel"
  assumes sinv: "sched_inv V L n k (FDespawn e t # rest)" and inv: "task_inv L n k (FDespawn e t # rest)"
    and step: "poll_despawn L t k = Inr k'"
  shows "task_inv L n k' (FLoop e # rest)"
proof -
  note I = sched_invD [OF sinv] and T = task_invD [OF inv]
  let ?i = "k_tasks k t" let ?fr = "FLoop e :: ('f, 'o, 'g) frame"
  let ?k1 = "put_state t (state_despawn (ti_state ?i)) k"
  have ex: "ti_poll_fn ?i = Some PollExited" using T(8) by simp
  have q: "queue_inv L n ?k1 (pushing rest)"
    using I(3) by (simp add: queue_inv_def flagged_def)
  have inv1: "task_inv L n ?k1 (?fr # rest)"
    by (rule task_inv_own [OF inv, where i = "?i\<lparr>ti_state := state_despawn (ti_state ?i)\<rparr>"])
      (use ex T(6) [of t] in \<open>auto simp: task_ok_def\<close>)
  show ?thesis
  proof (cases "js_waker ?i")
    case None
    then show ?thesis using step inv1 by (simp add: poll_despawn_def Let_def)
  next
    case (Some w)
    let ?k2 = "upd_task t (\<lambda>i. i\<lparr>js_waker := None\<rparr>) ?k1"
    have wake: "wake_task L w ?k2 = Inr k'"
      using step Some by (simp add: poll_despawn_def Let_def waker_wake_def)
    have q2: "queue_inv L n ?k2 (pushing rest)" using q by (simp add: queue_inv_def flagged_def)
    have "task_inv L n ?k2 (?fr # rest)"
      by (rule task_inv_same [OF inv1]) (auto simp: same_tasks_def split: if_splits)
    moreover have "wired n ?k2" using I(1) by simp
    ultimately show ?thesis
      by (intro wake_task_task [OF _ q2 _ _ _ _ wake]) simp_all
  qed
qed

lemma step_irq_task:
  fixes k :: "('f, 'o, 'q, 's, 'g) kernel"
  assumes sinv: "sched_inv V L n k (FIrq kind ops st # rest)"
    and inv: "task_inv L n k (FIrq kind ops st # rest)"
    and d: "disciplined n \<lparr>m_kernel = k, m_stack = FIrq kind ops st # rest\<rparr>"
    and step: "step_irq V L kind ops st k = Inr (frs, k')"
  shows "task_inv L n k' (frs @ rest)"
proof (cases st)
  case (Some st0)
  then obtain st' where r: "frs = [FIrq kind ops st']" "step_stage V L st0 k = Inr (st', k')"
    using step by (auto simp: rbind_Inr_iff)
  show ?thesis
    unfolding r(1) append.simps by (rule step_stage_task [OF sinv inv _ r(2)]) (simp_all add: Some)
next
  case None
  show ?thesis
  proof (cases ops)
    case Nil
    then show ?thesis
      using step None task_inv_release [OF inv same_tasks_refl, of FClear]
        task_inv_release(1) [OF inv same_tasks_refl, of FIdle]
      by (cases kind) auto
  next
    case (Cons op ops')
    show ?thesis
    proof (cases op)
      case (IsrWake w)
      then show ?thesis using step None Cons
          task_inv_release(1) [OF inv same_tasks_refl, of "FIrq kind ops' (Some (W_Load w))"]
        by auto
    next
      case (IsrSpawn t f p)
      then obtain ok st' where r: "frs = [FIrq kind ops' st']" "begin_spawn t f p k = Inr (ok, st', k')"
        using step None Cons by (auto simp: rbind_Inr_iff)
      have "\<forall>f\<in>set rest. \<not> has_got t f" using d IsrSpawn Cons None by (simp add: disciplined_def)
      then show ?thesis
        unfolding r(1) append.simps
        by (intro begin_spawn_task [OF inv, where ok = ok and f = f and p = p and t = t]) (simp_all add: r(2))
    next
      case (IsrAccess u c)
      then show ?thesis using step None Cons
          task_inv_release(1) [OF inv same_tasks_access, of "FIrq kind (c (k_app k) @ ops') None"]
        by auto
    qed
  qed
qed

lemma step_poll_task:
  fixes k :: "('f, 'o, 'q, 's, 'g) kernel"
  assumes sinv: "sched_inv V L n k (FPoll e t st p # rest)"
    and inv: "task_inv L n k (FPoll e t st p # rest)"
    and d: "disciplined n \<lparr>m_kernel = k, m_stack = FPoll e t st p # rest\<rparr>"
    and step: "step_poll V L e t st p k = Inr (frs, k')"
  shows "task_inv L n k' (frs @ rest)"
proof (cases st)
  case (Some st0)
  then obtain st' where r: "frs = [FPoll e t st' p]" "step_stage V L st0 k = Inr (st', k')"
    using step by (auto simp: rbind_Inr_iff)
  show ?thesis
    unfolding r(1) append.simps by (rule step_stage_task [OF sinv inv _ r(2)]) (simp_all add: Some)
next
  case None
  note T = task_invD [OF inv]
  have pf: "ti_poll_fn (k_tasks k t) = Some PollStorage" using T(8) by simp
  have same: "task_inv L n h (fr' # rest)"
    if "same_tasks L k h" "polled fr' = Some (e, t)" "aims (frame_stage fr') = {}" "frame_task_ok k fr'"
    for h :: "('f, 'o, 'q, 's, 'g) kernel" and fr'
    by (rule task_inv_same [OF inv that(1)]) (use that in simp_all)
  show ?thesis
  proof (cases p)
    case (Ready out)
    then show ?thesis using step None pf same [of k "FReady e t out"] by auto
  next
    case (Pending f)
    have "same_tasks L k (upd_task t (\<lambda>i. i\<lparr>ts_f := Init f\<rparr>) k)"
      using pf T(6) [of t] by (simp add: same_tasks_def task_ok_def)
    from task_inv_release(1) [OF inv this, of "FLoop e"]
    show ?thesis using step None Pending by auto
  next
    case (Wake w p')
    then show ?thesis using step None pf same [of k "FPoll e t (Some (W_Load w)) p'"] by auto
  next
    case (Join t' c)
    have js: "same_tasks L k (snd (join_take t' k))"
      by (auto simp: same_tasks_def join_take_def split: if_splits)
    show ?thesis
      using step None Join pf js by (auto split: prod.splits option.splits intro!: same)
  next
    case (Spawn t' f prio c)
    then obtain ok st' where r: "frs = [FPoll e t st' (c ok)]" "begin_spawn t' f prio k = Inr (ok, st', k')"
      using step None by (auto simp: rbind_Inr_iff)
    have "\<forall>f\<in>set rest. \<not> has_got t' f" using d Spawn None by (simp add: disciplined_def)
    then show ?thesis
      unfolding r(1) append.simps
      by (intro begin_spawn_task [OF inv, where ok = ok and f = f and p = prio and t = t']) (simp_all add: r(2))
  next
    case (Access u c)
    then show ?thesis using step None pf
        same [of "k\<lparr>k_app := u (k_app k)\<rparr>" "FPoll e t None (c (k_app k))"] by auto
  qed
qed

lemma got_task:
  fixes k :: "('f, 'o, 'q, 's, 'g) kernel"
  assumes inv: "task_inv L n k (FGot e t # rest)" and step: "step_frame V L fpoll (FGot e t) k = Inr (frs, k')"
  shows "task_inv L n k' (frs @ rest)"
proof -
  obtain pf where pf: "ti_poll_fn (k_tasks k t) = Some pf" using step by (cases "ti_poll_fn (k_tasks k t)") simp_all
  show ?thesis
  proof (cases pf)
    case PollExited
    then show ?thesis using step pf task_inv_release(1) [OF inv, of k "FLoop e"] by auto
  next
    case PollStorage
    then obtain f where "frs = [FPoll e t None (fpoll t f)]" "k' = k"
      using step pf by (auto simp: rbind_Inr_iff)
    then show ?thesis using pf PollStorage by (auto intro: task_inv_same [OF inv same_tasks_refl])
  qed
qed

lemma drop_task:
  fixes k :: "('f, 'o, 'q, 's, 'g) kernel"
  assumes inv: "task_inv L n k (FDrop e t # rest)" and step: "step_frame V L fpoll (FDrop e t) k = Inr (frs, k')"
  shows "task_inv L n k' (frs @ rest)"
proof -
  note T = task_invD [OF inv]
  have pf: "ti_poll_fn (k_tasks k t) = Some PollStorage" using T(8) by simp
  obtain f where f: "ts_f (k_tasks k t) = Init f"
    using T(6) [of t] pf by (cases "ts_f (k_tasks k t)") (auto simp: task_ok_def)
  let ?i = "(k_tasks k t)\<lparr>ts_f := Uninit, ti_poll_fn := Some PollExited\<rparr>"
  have r: "frs = [FDespawn e t]" "k' = upd_task t (\<lambda>i. ?i) k"
    using step f by (simp_all add: poll_drop_future_def upd_task_def)
  show ?thesis unfolding r(1) append.simps
    by (rule task_inv_own [OF inv, where i = ?i and e = e and t = t])
      (use T(6) [of t] pf in \<open>simp_all add: r task_ok_def\<close>)
qed

lemma sched_task:
  fixes k :: "('f, 'o, 'q, 's, 'g) kernel"
  assumes sinv: "sched_inv V L n k (FSched # rest)" and inv: "task_inv L n k (FSched # rest)"
    and step: "step_frame V L fpoll FSched k = Inr (frs, k')"
  shows "task_inv L n k' (frs @ rest)"
proof -
  note I = sched_invD [OF sinv]
  have st: "stack_inv V n (k_prio_stack k) (actives rest)" using I(2) by simp
  have sub: "ready_bits k \<subseteq> {..<n}" using I(4) by (simp add: bits_inv_def)
  show ?thesis
  proof (cases rule: try_preempt_ok [OF I(1) st sub, case_names none token])
    case none
    then show ?thesis using step task_inv_release(2) [OF inv same_tasks_refl, of FSched] by simp
  next
    case (token p ps)
    then show ?thesis using step task_inv_release(1) [OF inv, of _ "FLoop p"] by (auto split: if_splits)
  qed
qed

lemma step_frame_task:
  fixes k :: "('f, 'o, 'q, 's, 'g) kernel"
  assumes sinv: "sched_inv V L n k (fr # rest)" and inv: "task_inv L n k (fr # rest)"
    and d: "disciplined n \<lparr>m_kernel = k, m_stack = fr # rest\<rparr>"
    and step: "step_frame V L fpoll fr k = Inr (frs, k')"
  shows "task_inv L n k' (frs @ rest)"
proof -
  note I = sched_invD [OF sinv]
  show ?thesis
  proof (cases fr)
    case (FIrq kind ops st)
    then show ?thesis using step_irq_task sinv inv d step by simp
  next
    case (FPoll e t st p)
    then show ?thesis using step_poll_task sinv inv d step by simp
  next
    case (FLoop e)
    then show ?thesis using task_loop sinv inv step by blast
  next
    case (FDespawn e t)
    then show ?thesis using despawn_task sinv inv step by (auto simp: rbind_Inr_iff)
  next
    case FIdle
    then show ?thesis using inv step by auto
  next
    case FClear
    then show ?thesis using step task_inv_release [OF inv, where fr' = FSched]
      by (auto simp: clear_pend_wired [OF I(1)] split: if_splits)
  next
    case FSched
    then show ?thesis using sched_task sinv inv step by blast
  next
    case (FRunEnd e)
    then show ?thesis using step task_inv_release(1) [OF inv same_tasks_refl, of "FComplete e"] by auto
  next
    case (FComplete e)
    then show ?thesis using step task_inv_release(1) [OF inv, of _ FSched]
      by (simp add: complete_executor_def) (metis append_Cons append_Nil same_tasks_bits(4))
  next
    case (FGot e t)
    then show ?thesis using got_task inv step by blast
  next
    case (FReady e t out)
    then have r: "frs = [FNull e t]" "k' = poll_store_result t out k" using step by simp_all
    have "same_tasks L k k'" by (auto simp: r poll_store_result_def same_tasks_def split: if_splits)
    then show ?thesis unfolding r(1) append.simps
      by (rule task_inv_same [OF inv]) (simp_all add: FReady)
  next
    case (FNull e t)
    then have r: "frs = [FDrop e t]" "k' = poll_clear_executor t k" using step by simp_all
    have "same_tasks L k k'" by (auto simp: r poll_clear_executor_def same_tasks_def split: if_splits)
    then show ?thesis unfolding r(1) append.simps
      by (rule task_inv_same [OF inv]) (simp_all add: FNull)
  next
    case (FDrop e t)
    then show ?thesis using drop_task inv step by blast
  qed
qed

section \<open>Reachable states\<close>

lemma exec_task_inv:
  assumes sinv: "sched_inv V L n (m_kernel m) (m_stack m)" and inv: "task_inv L n (m_kernel m) (m_stack m)"
    and d: "disciplined n m" and step: "exec V L fpoll ev m = Some (Inr m')"
  shows "task_inv L n (m_kernel m') (m_stack m')"
proof (cases ev)
  case Step
  then obtain fr rest frs where s: "m_stack m = fr # rest" "m_stack m' = frs @ rest"
      "step_frame V L fpoll fr (m_kernel m) = Inr (frs, m_kernel m')"
    using step by (auto simp: rbind_Inr_iff split: list.splits)
  have "disciplined n \<lparr>m_kernel = m_kernel m, m_stack = fr # rest\<rparr>"
    using d s(1) by (simp add: disciplined_def)
  then show ?thesis using step_frame_task [OF _ _ _ s(3)] sinv inv s by simp
next
  case RaiseMsi
  then have m': "m_kernel m' = (m_kernel m)\<lparr>k_msip := True\<rparr>" "m_stack m' = m_stack m"
    using step by auto
  have "queue_set L n (m_kernel m') = queue_set L n (m_kernel m)" "ptr_set (m_kernel m') = ptr_set (m_kernel m)"
    by (simp_all add: m' queue_set_def ptr_set_def)
  moreover have "frame_task_ok (m_kernel m') fr" if "frame_task_ok (m_kernel m) fr" for fr
    by (rule frame_task_ok_cong [OF that]) (simp add: m')
  ultimately show ?thesis using inv by (simp add: task_inv_def m')
qed (use step inv in \<open>auto split: list.splits if_splits intro: task_inv_interrupt\<close>)

lemma boot_task_inv:
  assumes "boot_machine V L (ClintMsip True) n g ops = Inr m"
  shows "task_inv L n (m_kernel m) (m_stack m)"
proof -
  have "0 < n" "n \<le> 4096"
    using assms by (auto simp: boot_machine_def boot_kernel_def spawner_new_def split: if_splits)
  moreover obtain b where "bitmap_new 64 = Inr b"
    by (rule bitmap_new_ok [of 64]) simp_all
  ultimately have m: "m_stack m = [FIrq KBoot ops None]" "k_tasks (m_kernel m) = (\<lambda>t. storage_new)"
    using assms by (auto simp: boot_machine_def boot_kernel_def spawner_new_def spawner_init_def)
  show ?thesis
    by (simp add: task_inv_def m ptr_set_def storage_new_def task_ok_def cell_uninit_def)
qed

lemma disciplined_inv:
  "reachable_disciplined V L fpoll n m \<Longrightarrow> task_inv L n (m_kernel m) (m_stack m)"
proof (induction rule: reachable_disciplined.induct)
  case (disciplined_step m ev m')
  then show ?case
    using exec_task_inv reachable_inv [OF reachable_disciplined_reachable] by blast
qed (fact boot_task_inv)

section \<open>Progress\<close>

lemma irq_returns:
  fixes k :: "('f, 'o, 'q, 's, 'g) kernel"
  assumes "wired n k" "disciplined n \<lparr>m_kernel = k, m_stack = FIrq kind ops None # rest\<rparr>"
  shows "\<exists>frs k'. step_irq V L kind ops None k = Inr (frs, k')"
proof (cases ops)
  case Nil
  then show ?thesis by (cases kind) simp_all
next
  case (Cons op ops')
  show ?thesis
  proof (cases op)
    case (IsrSpawn t f p)
    then have "to_usize p < n" using assms(2) Cons by (simp add: disciplined_def)
    then obtain ok st' k' where "begin_spawn t f p k = Inr (ok, st', k')"
      using begin_spawn_returns [OF assms(1)] by blast
    then show ?thesis using Cons IsrSpawn by simp
  qed (use Cons in simp_all)
qed

lemma poll_returns:
  fixes k :: "('f, 'o, 'q, 's, 'g) kernel"
  assumes "wired n k" "disciplined n \<lparr>m_kernel = k, m_stack = FPoll e t None p # rest\<rparr>"
  shows "\<exists>frs k'. step_poll V L e t None p k = Inr (frs, k')"
proof (cases p)
  case (Spawn t' f prio c)
  then have "to_usize prio < n" using assms(2) by (simp add: disciplined_def)
  then obtain ok st' k' where "begin_spawn t' f prio k = Inr (ok, st', k')"
    using begin_spawn_returns [OF assms(1)] by blast
  then show ?thesis using Spawn by simp
qed (auto split: prod.splits option.splits)

lemma task_init:
  assumes "task_ok i" "ti_poll_fn i = Some PollStorage"
  obtains f where "ts_f i = Init f"
  using assms by (cases "ts_f i") (auto simp: task_ok_def)

lemma step_frame_returns:
  fixes k :: "('f, 'o, 'q, 's, 'g) kernel"
  assumes sinv: "sched_inv V L n k (fr # rest)" and inv: "task_inv L n k (fr # rest)"
    and d: "disciplined n \<lparr>m_kernel = k, m_stack = fr # rest\<rparr>"
  shows "\<exists>frs k'. step_frame V L fpoll fr k = Inr (frs, k')"
proof -
  note I = sched_invD [OF sinv] and T = task_invD [OF inv]
  have stage: "\<exists>st' k'. step_stage V L st k = Inr (st', k')" if "frame_stage fr = Some st" for st
    using step_stage_ex [OF sinv that] by blast
  show ?thesis
  proof (cases fr)
    case (FIrq kind ops st)
    then show ?thesis using irq_returns [OF I(1)] d stage by (cases st) force+
  next
    case (FPoll e t st p)
    then show ?thesis using poll_returns [OF I(1)] d stage by (cases st) force+
  next
    case FClear
    then show ?thesis by (simp add: clear_pend_wired [OF I(1)])
  next
    case FSched
    have st: "stack_inv V n (k_prio_stack k) (actives rest)" using I(2) FSched by simp
    have sub: "ready_bits k \<subseteq> {..<n}" using I(4) by (simp add: bits_inv_def)
    show ?thesis
    proof (cases rule: try_preempt_ok [OF I(1) st sub, case_names none token])
      case (token p ps)
      then have "p < n" using sub by auto
      then show ?thesis using token(1) FSched wiredD(1) [OF I(1)] by simp
    qed (simp add: FSched)
  next
    case (FLoop e)
    then have e: "e < n" using I(2) by (simp add: stack_inv_def)
    show ?thesis
      by (cases rule: run_next_ok [OF I(1) e, case_names task empty]) (simp_all add: FLoop)
  next
    case (FGot e t)
    then obtain pf where pf: "ti_poll_fn (k_tasks k t) = Some pf" using T(8) by auto
    then show ?thesis
      using FGot T(6) [of t] by (cases pf) (auto elim: task_init)
  next
    case (FDrop e t)
    then have "ti_poll_fn (k_tasks k t) = Some PollStorage" using T(8) by simp
    with T(6) [of t] obtain f where "ts_f (k_tasks k t) = Init f" by (rule task_init)
    then show ?thesis using FDrop by (simp add: poll_drop_future_def)
  next
    case (FDespawn e t)
    show ?thesis by (rule inv_despawn [OF sinv [unfolded FDespawn]]) (simp add: FDespawn)
  qed simp_all
qed

lemma disciplined_progress:
  assumes "reachable_disciplined V L fpoll n m" "disciplined n m"
  shows "exec V L fpoll ev m \<noteq> Some (Inl err)"
proof (cases ev)
  case Step
  show ?thesis
  proof (cases "m_stack m")
    case (Cons fr rest)
    have "disciplined n \<lparr>m_kernel = m_kernel m, m_stack = fr # rest\<rparr>"
      using assms(2) Cons by (simp add: disciplined_def)
    then obtain frs k' where "step_frame V L fpoll fr (m_kernel m) = Inr (frs, k')"
      using step_frame_returns [of "m_kernel m" fr rest] Cons disciplined_inv [OF assms(1)]
        reachable_inv [OF reachable_disciplined_reachable [OF assms(1)]] by simp blast
    then show ?thesis by (simp add: Step Cons)
  qed (simp add: Step)
qed (auto split: list.splits)

end

end
