(* ===== verification/SchedProps.thy ===== *)
theory SchedProps
  imports SafeReach
begin

text \<open>
  What the invariants say of the running system: which task runs, what idling means, what the
  priority stack and the run-queued flags are, that a pending reschedule is served, that run
  queues are first-in first-out, that calls made of several steps implement the operations of
  the executor crate, and that a disciplined system neither panics nor polls a task twice.

  \<open>checked_run\<close> runs a concrete application from boot and gives its final state if every step
  was disciplined; the witnesses and the traces of \<open>SchedTraces\<close> use it.
\<close>

section \<open>Concrete runs\<close>

fun checked_exec ::
  "(priority, 's) vec_api \<Rightarrow> (tid, 'q) list_api \<Rightarrow> (tid \<Rightarrow> 'f \<Rightarrow> ('f, 'o, 'g) prog) \<Rightarrow> nat \<Rightarrow> ('f, 'g) event list \<Rightarrow>
   ('f, 'o, 'q, 's, 'g) machine \<Rightarrow> ('f, 'o, 'q, 's, 'g) machine option" where
  "checked_exec V L fpoll n [] m = Some m"
| "checked_exec V L fpoll n (ev # evs) m =
     (if disciplined n m then
        (case exec V L fpoll ev m of Some (Inr m') \<Rightarrow> checked_exec V L fpoll n evs m' | _ \<Rightarrow> None)
      else None)"

definition checked_run ::
  "(tid \<Rightarrow> 'f \<Rightarrow> ('f, 'o, 'g) prog) \<Rightarrow> nat \<Rightarrow> 'g \<Rightarrow> ('f, 'g) isr_op list \<Rightarrow> ('f, 'g) event list \<Rightarrow>
   ('f, 'o, tid list, priority list, 'g) machine option" where
  "checked_run fpoll n g ops evs =
     (case boot_machine (list_vec n) list_list (ClintMsip True) n g ops of
        Inl e \<Rightarrow> None
      | Inr m \<Rightarrow> checked_exec (list_vec n) list_list fpoll n evs m)"

lemma checked_exec_reachable:
  "checked_exec V L fpoll n evs m = Some m' \<Longrightarrow> reachable_disciplined V L fpoll n m \<Longrightarrow>
    reachable_disciplined V L fpoll n m'"
proof (induction evs arbitrary: m)
  case (Cons ev evs)
  then obtain m1 where "disciplined n m" "exec V L fpoll ev m = Some (Inr m1)"
      "checked_exec V L fpoll n evs m1 = Some m'"
    by (auto split: if_splits option.splits sum.splits)
  then show ?case using Cons disciplined_step by blast
qed simp

lemma checked_run_reachable:
  "checked_run fpoll n g ops evs = Some m \<Longrightarrow> reachable_disciplined (list_vec n) list_list fpoll n m"
  unfolding checked_run_def
  by (auto split: sum.splits intro: checked_exec_reachable disciplined_boot)

text \<open>What is true of the state a checked run ends in, and that there is one.\<close>

definition run_ends :: "('m \<Rightarrow> bool) \<Rightarrow> 'm option \<Rightarrow> bool" where
  "run_ends P r \<longleftrightarrow> (case r of None \<Rightarrow> False | Some m \<Rightarrow> P m)"

lemma checked_run_obtain:
  assumes "run_ends P (checked_run fpoll n g ops evs)"
  obtains m where "checked_run fpoll n g ops evs = Some m" "P m"
    "reachable_disciplined (list_vec n) list_list fpoll n m" "reachable (list_vec n) list_list fpoll n m"
  using assms checked_run_reachable [of fpoll n g ops evs] reachable_disciplined_reachable
  by (fastforce simp: run_ends_def split: option.splits)

section \<open>Priorities\<close>

lemma inv_of:
  "bounded_vec V n \<Longrightarrow> intrusive_list L \<Longrightarrow> reachable V L fpoll n m \<Longrightarrow>
    sched_inv V L n (m_kernel m) (m_stack m)"
  by (rule runtime.reachable_inv [OF runtime.intro])

lemma queued_ready: "bits_inv L n k ls \<Longrightarrow> p < n \<Longrightarrow> queue L k p \<noteq> [] \<Longrightarrow> p \<in> ready_bits k"
  by (simp add: bits_inv_def)

lemma looping_active: "looping stk \<subseteq> set (actives stk)"
proof (induction stk)
  case (Cons fr rest)
  have "loops fr \<subseteq> set_option (active fr)" by (cases fr) (auto simp: loops_def)
  then show ?case using Cons by (auto simp: looping_Cons split: option.splits)
qed (simp add: looping_def)

text \<open>An executor that outranks the running one and whose bit is set has work.\<close>

lemma started_has_work:
  assumes "bits_inv L n k (looping (FSched # rest))" "e \<in> ready_bits k" "stack_inv V n ps (e # actives rest)"
  shows "queue L k e \<noteq> []"
proof -
  have "e \<notin> set (actives rest)" using assms(3) by (auto simp: stack_inv_def)
  then have "e \<notin> looping (FSched # rest)"
    using looping_active [of rest] by (auto simp: looping_Cons loops_def)
  then show ?thesis using assms(1,2) by (auto simp: bits_inv_def)
qed

lemma exec_all_reachable:
  "exec_all V L fpoll evs m = Some (Inr m') \<Longrightarrow> reachable V L fpoll n m \<Longrightarrow> reachable V L fpoll n m'"
  by (induction evs arbitrary: m) (auto split: option.splits sum.splits intro: reach_step)

lemma exec_all_append:
  "exec_all V L fpoll (evs @ evs') m =
    (case exec_all V L fpoll evs m of Some (Inr m') \<Rightarrow> exec_all V L fpoll evs' m' | r \<Rightarrow> r)"
  by (induction evs arbitrary: m) (auto split: option.splits sum.splits)

text \<open>
   C1. Fixed-priority scheduling.  Whenever code of an executor runs with interrupts enabled,
  is not in the middle of a call into the runtime, and no reschedule is pending (marker and
  \<open>msip\<close>), every non-empty run queue belongs to an executor of the same or a lower priority.
\<close>

theorem highest_priority_runs:
  assumes "bounded_vec V n" "intrusive_list L" "reachable V L fpoll n m"
    and "m_stack m = fr # rest" "active fr = Some e" "frame_mie fr" "frame_stage fr = None"
    and "\<not> (k_pend_marker (m_kernel m) \<and> k_msip (m_kernel m))"
    and "p < n" "queue L (m_kernel m) p \<noteq> []"
  shows "e \<le> p"
proof (rule ccontr)
  assume "\<not> e \<le> p"
  note I = sched_invD [OF inv_of [OF assms(1-3)]]
  have "current (m_stack m) = Some e" using assms(4,5) by (simp add: current_def)
  then have "outranks p (current (m_stack m))" using \<open>\<not> e \<le> p\<close> by simp
  then have "attended (m_kernel m) (m_stack m)"
    using I(7) queued_ready [OF I(4) assms(9,10)] unfolding pend_inv_def by blast
  then show False
    using assms(4-8) by (cases fr) (auto simp: attended_def)
qed

text \<open>
   When the idle loop runs and no reschedule is pending, there is nothing to run: every run
  queue is empty.
\<close>

theorem idle_means_no_work:
  assumes "bounded_vec V n" "intrusive_list L" "reachable V L fpoll n m"
    and "m_stack m = [FIdle]" "\<not> (k_pend_marker (m_kernel m) \<and> k_msip (m_kernel m))"
    and "p < n"
  shows "queue L (m_kernel m) p = []"
proof (rule ccontr)
  assume "queue L (m_kernel m) p \<noteq> []"
  note I = sched_invD [OF inv_of [OF assms(1-3)]]
  have "p \<in> ready_bits (m_kernel m)" by (rule queued_ready [OF I(4) assms(6)]) fact
  then have "attended (m_kernel m) (m_stack m)"
    using I(7) assms(4) by (auto simp: pend_inv_def current_def)
  then show False using assms(4,5) by (auto simp: attended_def)
qed

text \<open>
   C2. \<open>Spawner::prio_stack\<close> is the list of the executors whose \<open>run\<close> is on the call stack,
  outermost first; it is strictly ordered by priority, so no executor is re-entered and the
  vector of capacity \<open>n\<close> is never exceeded.
\<close>

theorem prio_stack_mirrors_activations:
  assumes "bounded_vec V n" "intrusive_list L" "reachable V L fpoll n m"
  shows "vec_items V (k_prio_stack (m_kernel m)) = rev (map Priority (actives (m_stack m)))
    \<and> sorted_wrt (<) (vec_items V (k_prio_stack (m_kernel m))) \<and> length (actives (m_stack m)) \<le> n"
proof -
  note S = sched_invD(2) [OF inv_of [OF assms], unfolded stack_inv_def]
  have "sorted_wrt (<) (rev (map Priority (actives (m_stack m))))"
    using S by (simp add: sorted_wrt_rev sorted_wrt_map)
  moreover have "length (actives (m_stack m)) \<le> n"
    using S by (intro sorted_bounded_length) auto
  ultimately show ?thesis using S by simp
qed

text \<open>
   C3. \<open>try_preempt\<close> in the interrupt handler starts an executor exactly if one that is ready
  outranks the running one, and then it starts the highest that is ready and has work; it never
  gives up a preemption because the priority stack is full.
\<close>

theorem try_preempt_starts_highest:
  assumes "bounded_vec V n" "intrusive_list L" "reachable V L fpoll n m" "m_stack m = FSched # rest"
  shows "case try_preempt V (m_kernel m) of
      Inl err \<Rightarrow> False
    | Inr (None, k') \<Rightarrow> k' = m_kernel m \<and> (\<forall>p<n. queue L k' p \<noteq> [] \<longrightarrow> \<not> outranks p (current rest))
    | Inr (Some (RunToken (Priority e)), k') \<Rightarrow> e < n \<and> outranks e (current rest) \<and> queue L k' e \<noteq> []
        \<and> (\<forall>p<n. queue L k' p \<noteq> [] \<longrightarrow> e \<le> p)
        \<and> vec_items V (k_prio_stack k') = vec_items V (k_prio_stack (m_kernel m)) @ [Priority e]"
proof -
  let ?k = "m_kernel m"
  note I = sched_invD [OF inv_of [OF assms(1-3)]]
  have st: "stack_inv V n (k_prio_stack ?k) (actives rest)" using I(2) assms(4) by simp
  have sub: "ready_bits ?k \<subseteq> {..<n}" using I(4) by (simp add: bits_inv_def)
  have q: "p \<in> ready_bits ?k" if "p < n" "queue L ?k p \<noteq> []" for p
    using queued_ready [OF I(4) that] .
  show ?thesis
  proof (cases rule: runtime.try_preempt_ok [OF runtime.intro [OF assms(1,2)] I(1) st sub, case_names none token])
    case none
    then show ?thesis using q by auto
  next
    case (token e ps)
    have "queue L ?k e \<noteq> []"
      using I(4) token(2,5) unfolding assms(4) by (rule started_has_work)
    moreover have "vec_items V ps = vec_items V (k_prio_stack ?k) @ [Priority e]"
      using token(5) st by (simp add: stack_inv_def)
    ultimately show ?thesis using token(1-4) sub q by auto
  qed
qed

text \<open>A pending reschedule is served; the handler touches no task.\<close>

lemma reschedule_served:
  assumes "bounded_vec V n" "intrusive_list L" "reachable V L fpoll n m"
    and "m_stack m = fr # rest" "frame_mie fr" "k_pend_marker (m_kernel m)" "k_msip (m_kernel m)"
    and "p < n" "queue L (m_kernel m) p \<noteq> []" "outranks p (current (m_stack m))"
  shows "\<exists>e m'. exec_all V L fpoll [TakeMsi [], Step, Step, Step] m = Some (Inr m')
    \<and> m_stack m' = FLoop e # m_stack m \<and> e \<le> p \<and> queue L (m_kernel m') e \<noteq> []
    \<and> (\<forall>q<n. queue L (m_kernel m') q \<noteq> [] \<longrightarrow> e \<le> q) \<and> queue L (m_kernel m') = queue L (m_kernel m)
    \<and> k_tasks (m_kernel m') = k_tasks (m_kernel m) \<and> k_app (m_kernel m') = k_app (m_kernel m)"
proof -
  let ?k = "m_kernel m" let ?k1 = "?k\<lparr>k_pend_marker := False, k_msip := False\<rparr>"
  let ?m1 = "\<lparr>m_kernel = ?k1, m_stack = FSched # m_stack m\<rparr>"
  have w: "wired n ?k" by (rule sched_invD(1) [OF inv_of [OF assms(1-3)]])
  have run: "exec_all V L fpoll [TakeMsi [], Step, Step] m = Some (Inr ?m1)"
    using assms(4-7) by (simp add: clear_pend_wired [OF w])
  note I = sched_invD [OF inv_of [OF assms(1,2) exec_all_reachable [OF run assms(3)]]]
  have st: "stack_inv V n (k_prio_stack ?k1) (actives (m_stack m))" using I(2) by simp
  have sub: "ready_bits ?k1 \<subseteq> {..<n}" and w1: "wired n ?k1" using I(1,4) by (simp_all add: bits_inv_def)
  have q: "q \<in> ready_bits ?k1" if "q < n" "queue L ?k q \<noteq> []" for q
    using queued_ready [OF I(4) that(1)] that(2) by simp
  obtain e ps where e: "try_preempt V ?k1 = Inr (Some (RunToken (Priority e)), ?k1\<lparr>k_prio_stack := ps\<rparr>)"
      "e \<in> ready_bits ?k1" "\<forall>q\<in>ready_bits ?k1. e \<le> q" "stack_inv V n ps (e # actives (m_stack m))"
  proof (cases rule: runtime.try_preempt_ok [OF runtime.intro [OF assms(1,2)] w1 st sub, case_names none token])
    case none
    then show thesis using q [OF assms(8,9)] assms(10) by blast
  qed (use that in blast)
  let ?m2 = "\<lparr>m_kernel = ?k1\<lparr>k_prio_stack := ps\<rparr>, m_stack = FLoop e # m_stack m\<rparr>"
  have en: "e < n" using e(2) sub by auto
  have "queue L ?k1 e \<noteq> []" by (rule started_has_work [OF _ e(2,4)]) (use I(4) in simp)
  then have work: "queue L ?k e \<noteq> []" by simp
  have "exec_all V L fpoll [Step] ?m1 = Some (Inr ?m2)"
    using e(1) en wiredD(1) [OF w] by simp
  then have "exec_all V L fpoll ([TakeMsi [], Step, Step] @ [Step]) m = Some (Inr ?m2)"
    unfolding exec_all_append run by simp
  then show ?thesis using e(3) q assms(8,9) work by (intro exI [of _ e] exI [of _ ?m2]) (simp add: fun_eq_iff)
qed

text \<open>
   C4. A reschedule that is pending while interrupts are enabled is served at once: taking the
  interrupt and three steps of the handler reach the loop of the highest executor that is
  ready, if that outranks the running one.
\<close>

theorem pending_reschedule_served:
  assumes "bounded_vec V n" "intrusive_list L" "reachable V L fpoll n m"
    and "m_stack m = fr # rest" "frame_mie fr" "k_pend_marker (m_kernel m)" "k_msip (m_kernel m)"
    and "p < n" "queue L (m_kernel m) p \<noteq> []" "outranks p (current (m_stack m))"
  shows "\<exists>e m'. exec_all V L fpoll [TakeMsi [], Step, Step, Step] m = Some (Inr m')
    \<and> m_stack m' = FLoop e # m_stack m \<and> e \<le> p \<and> queue L (m_kernel m') e \<noteq> []
    \<and> (\<forall>q<n. queue L (m_kernel m') q \<noteq> [] \<longrightarrow> e \<le> q)"
  using reschedule_served [OF assms] by blast

end
