(* ===== verification/SchedCalls.thy ===== *)
theory SchedCalls
  imports SchedProps
begin

text \<open>
  The calls of the executor crate against the invariants: flags and queues, what a wake and a
  spawn do, that the calls made of several steps implement the operations, the order of run
  queues, and what the discipline of spawns buys.
\<close>

text \<open>
   C9. The run-queued flag of a task is exact: it is set if and only if the task is once in one
  run queue, or one call is on its way to put it there.  So a task is never linked twice, and
  every push of the code meets the precondition of the intrusive list.
\<close>

theorem run_queued_exact:
  assumes "bounded_vec V n" "intrusive_list L" "reachable V L fpoll n m"
  shows "count (queued L n (m_kernel m)) t + count (pushing (m_stack m)) t
    = (if run_queued (ti_state (k_tasks (m_kernel m) t)) then 1 else 0)"
  using sched_invD(3) [OF inv_of [OF assms]] by (simp add: queue_inv_def flagged_def)

text \<open>
   The bitmap against the queues: a non-empty queue has its bit set, and a set bit whose
  queue is empty belongs to an executor whose loop is active and will clear it.
\<close>

theorem bitmap_matches_queues:
  assumes "bounded_vec V n" "intrusive_list L" "reachable V L fpoll n m"
  shows "{e. e < n \<and> queue L (m_kernel m) e \<noteq> []} \<subseteq> members (k_bitmap (m_kernel m))
    \<and> members (k_bitmap (m_kernel m)) \<subseteq>
        {e. e < n \<and> queue L (m_kernel m) e \<noteq> []} \<union> looping (m_stack m)"
  using sched_invD(4) [OF inv_of [OF assms]] by (auto simp: bits_inv_def ready_bits_def)

section \<open>Calls made of several steps\<close>

fun run_stages ::
  "(priority, 's) vec_api \<Rightarrow> (tid, 'q) list_api \<Rightarrow> nat \<Rightarrow> stage option \<Rightarrow> ('f, 'o, 'q, 's, 'g) kernel \<Rightarrow>
   (stage option \<times> ('f, 'o, 'q, 's, 'g) kernel) result" where
  "run_stages V L 0 st k = Inr (st, k)"
| "run_stages V L (Suc j) None k = Inr (None, k)"
| "run_stages V L (Suc j) (Some st) k = rbind (step_stage V L st k) (\<lambda>(st', k'). run_stages V L j st' k')"

lemma run_stages_None [simp]: "run_stages V L j None k = Inr (None, k)"
  by (cases j) simp_all

lemma wake_steps:
  "run_stages V L 5 (Some (W_Load t)) k = rbind (wake_task L t k) (\<lambda>k'. Inr (None, k'))"
proof (cases "ti_executor_ptr (k_tasks k t)")
  case (Some e)
  show ?thesis
  proof (cases "fetch_enqueue t k")
    case (Pair first k1)
    show ?thesis
      using Some Pair
      by (cases "enqueue_locked L e t k1")
        (auto simp: numeral_eq_Suc wake_task_def executor_enqueue_eq pend_def pend_send_def
          split: option.splits)
  qed
qed (simp add: numeral_eq_Suc wake_task_def)

text \<open>
   \<open>wake_task\<close>: the five steps of an interruptible wake (loading the executor pointer, the
  \<open>fetch_or\<close>, the push, the pend marker, the IPI), run without interruption, are the operation
  \<open>wake_task\<close>, panics included.
\<close>

theorem wake_steps_refine:
  "run_stages V L 5 (Some (W_Load t)) k = rbind (wake_task L t k) (\<lambda>k'. Inr (None, k'))"
  by (rule wake_steps)

text \<open>
   \<open>Spawner::spawn\<close>: the three steps of an interruptible spawn that passed the range check
  are the operation \<open>spawn\<close>.
\<close>

theorem spawn_steps_refine:
  assumes "to_usize p < length (k_executors k)"
  shows "rbind (run_stages V L 3 (Some (D_Fetch (to_usize p) t)) k) (\<lambda>(st, k'). Inr (JoinHandle t, st, k'))
    = rbind (spawner_spawn V L p (SpawnToken t) k) (\<lambda>(h, k'). Inr (h, None, k'))"
proof (cases "fetch_enqueue t k")
  case (Pair first k1)
  show ?thesis
  proof (cases "enqueue_locked L (to_usize p) t k1")
    case (Inr k2)
    then show ?thesis using assms Pair
      by (cases "spawn_check V k2") (auto simp: numeral_eq_Suc spawner_spawn_def executor_enqueue_eq)
  qed (use assms Pair in \<open>auto simp: numeral_eq_Suc spawner_spawn_def executor_enqueue_eq\<close>)
qed

text \<open>The effect of a wake in a state with the invariant.\<close>

definition wake_effect ::
  "(tid, 'q) list_api \<Rightarrow> tid \<Rightarrow> ('f, 'o, 'q, 's, 'g) kernel \<Rightarrow> ('f, 'o, 'q, 's, 'g) kernel \<Rightarrow> bool" where
  "wake_effect L t k k' \<longleftrightarrow> (case ti_executor_ptr (k_tasks k t) of
      None \<Rightarrow> k' = k
    | Some e \<Rightarrow> run_queued (ti_state (k_tasks k' t))
        \<and> (if run_queued (ti_state (k_tasks k t))
           then k' = k
           else queue L k' = (queue L k)(e := queue L k e @ [t])
             \<and> members (k_bitmap k') = insert e (members (k_bitmap k)) \<and> k_pend_marker k' \<and> k_msip k'))"

lemma put_state_id:
  "run_queued (ti_state (k_tasks k t)) \<Longrightarrow> put_state t (snd (state_run_enqueue (ti_state (k_tasks k t)))) k = k"
  by (simp add: put_state_def upd_task_def state_run_enqueue_again)

lemma wake_task_ok:
  fixes V :: "(priority, 's) vec_api" and k :: "('f, 'o, 'q, 's, 'g) kernel"
  assumes rt: "bounded_vec V n" "intrusive_list L"
    and I: "wired n k" "queue_inv L n k ps" "ptr_inv n k"
  shows "\<exists>k'. wake_task L t k = Inr k' \<and> wake_effect L t k k'"
proof (cases "ti_executor_ptr (k_tasks k t)")
  case None
  then show ?thesis by (simp add: wake_task_def wake_effect_def)
next
  case (Some e)
  have e: "e < n" using I(3) Some by (auto simp: ptr_inv_def)
  let ?k = "put_state t (snd (state_run_enqueue (ti_state (k_tasks k t)))) k"
  show ?thesis
  proof (cases "flagged k t")
    case True
    then have "wake_task L t k = Inr ?k"
      using Some e wiredD(1) [OF I(1)] by (simp add: wake_task_def executor_enqueue_eq fetch_enqueue_eq)
    moreover have "?k = k" using True by (simp add: flagged_def put_state_id)
    ultimately show ?thesis using Some True by (simp add: flagged_def wake_effect_def)
  next
    case False
    have q: "queue_inv L n ?k (add_mset t ps)" using queue_inv_fetch [OF I(2) False] .
    have w: "wired n ?k" using I(1) by simp
    obtain k2 where k2: "enqueue_locked L e t ?k = Inr k2" "wired n k2" "same_sched ?k k2"
      "queue L k2 e = queue L ?k e @ [t]" "\<forall>e'. e' \<noteq> e \<longrightarrow> queue L k2 e' = queue L ?k e'"
      "ready_bits k2 = insert e (ready_bits ?k)"
      "k_tasks k2 = (k_tasks ?k)(t := (k_tasks ?k t)\<lparr>ti_executor_ptr := Some e\<rparr>)"
      by (rule runtime.enqueue_locked_ok [OF runtime.intro [OF rt] w e pushed_not_queued(1) [OF q e]])
    let ?k' = "k2\<lparr>k_pend_marker := True, k_msip := True\<rparr>"
    have "wake_task L t k = Inr ?k'"
      using Some e wiredD(1) [OF I(1)] False k2(1) pend_wired [OF k2(2)]
      by (simp add: wake_task_def executor_enqueue_eq fetch_enqueue_eq)
    moreover have "queue L ?k' = (queue L k)(e := queue L k e @ [t])" using k2(4,5) by (auto simp: fun_eq_iff)
    moreover have "members (k_bitmap k2) = insert e (members (k_bitmap k))"
      using k2(6) by (simp add: ready_bits_def)
    ultimately show ?thesis using Some False k2(7) by (simp add: flagged_def wake_effect_def)
  qed
qed

text \<open>
   C15. What a wake does, on every branch, in a reachable state: nothing for a task that has no
  executor, nothing for one that is run-queued already, and otherwise the task goes to the end
  of its executor's queue, the bit is set and the scheduler is pended.
\<close>

theorem wake_task_effect:
  assumes "bounded_vec V n" "intrusive_list L" "reachable V L fpoll n m" "m_kernel m = k"
  shows "\<exists>k'. wake_task L t k = Inr k' \<and> wake_effect L t k k'"
proof -
  note I = sched_invD [OF inv_of [OF assms(1-3)], unfolded assms(4)]
  show ?thesis by (rule wake_task_ok [OF assms(1,2) I(1,3,5)])
qed

section \<open>First-in first-out\<close>

definition queues_grow :: "(tid, 'q) list_api \<Rightarrow> ('f, 'o, 'q, 's, 'g) kernel \<Rightarrow> ('f, 'o, 'q, 's, 'g) kernel \<Rightarrow> bool" where
  "queues_grow L k k' \<longleftrightarrow>
     (\<forall>e. queue L k' e = queue L k e \<or> (\<exists>t. queue L k' e = queue L k e @ [t]))"

lemma queues_grow_same: "(\<And>e. queue L k' e = queue L k e) \<Longrightarrow> queues_grow L k k'"
  by (simp add: queues_grow_def)

lemma same_views_grow: "same_views L k k' \<Longrightarrow> queues_grow L k k'"
  by (simp add: queues_grow_def same_viewsD)

context runtime
begin

lemma step_stage_grows:
  fixes k :: "('f, 'o, 'q, 's, 'g) kernel"
  assumes inv: "sched_inv V L n k (fr # rest)" and st: "frame_stage fr = Some st"
    and step: "step_stage V L st k = Inr (st', k')"
  shows "queues_grow L k k'"
proof -
  note I = sched_invD [OF inv]
  have push: "queues_grow L k k'"
    if "pusher (Some st) = {#t#}" "e < n" "enqueue_locked L e t k = Inr k'" for e t
  proof -
    note hyps = that
    have q: "queue_inv L n k (add_mset t (pushing rest))" using I(3) st hyps(1) by simp
    obtain k2 where "enqueue_locked L e t k = Inr k2" "queue L k2 e = queue L k e @ [t]"
      "\<forall>e'. e' \<noteq> e \<longrightarrow> queue L k2 e' = queue L k e'"
      by (rule enqueue_locked_ok [OF I(1) hyps(2) pushed_not_queued(1) [OF q hyps(2)]])
    then show ?thesis using hyps(3) unfolding queues_grow_def by (metis Inr_inject)
  qed
  have stn: "stage_ok n (Some st)" using I(6) st by simp
  show ?thesis
  proof (cases st)
    case (W_Push e t)
    then show ?thesis using step stn by (intro push) (auto simp: rbind_Inr_iff)
  next
    case (D_Push e t)
    then show ?thesis using step stn by (intro push) (auto simp: rbind_Inr_iff)
  next
    case D_Check
    then show ?thesis using step spawn_check_eq [OF inv] by (auto simp: queues_grow_def split: if_splits)
  qed (use step in \<open>auto intro!: queues_grow_same simp: pend_send_wired [OF I(1)] pend_mark_def
    join_store_def fetch_enqueue_eq split: option.splits if_splits\<close>)
qed

lemma irq_grows:
  fixes k :: "('f, 'o, 'q, 's, 'g) kernel"
  assumes inv: "sched_inv V L n k (FIrq kind ops st # rest)" and step: "step_irq V L kind ops st k = Inr (frs, k')"
  shows "queues_grow L k k'"
proof (cases st)
  case (Some st0)
  then show ?thesis using step_stage_grows [OF inv, of st0] step by (auto simp: rbind_Inr_iff)
next
  case None
  show ?thesis
  proof (cases ops)
    case Nil
    then show ?thesis using None step by (cases kind) (auto simp: queues_grow_def)
  next
    case (Cons op ops')
    then show ?thesis using None step begin_spawn_views [OF _ sched_invD(1) [OF inv]]
      by (cases op) (auto simp: rbind_Inr_iff intro!: same_views_grow)
  qed
qed

lemma poll_grows:
  fixes k :: "('f, 'o, 'q, 's, 'g) kernel"
  assumes inv: "sched_inv V L n k (FPoll e t st p # rest)" and step: "step_poll V L e t st p k = Inr (frs, k')"
  shows "queues_grow L k k'"
proof (cases st)
  case (Some st0)
  then show ?thesis using step_stage_grows [OF inv, of st0] step by (auto simp: rbind_Inr_iff)
next
  case None
  show ?thesis
  proof (cases p)
    case (Spawn t' f prio c)
    then obtain ok st' where "begin_spawn t' f prio k = Inr (ok, st', k')"
      using step None by (auto simp: rbind_Inr_iff)
    then show ?thesis using begin_spawn_views [OF _ sched_invD(1) [OF inv]] same_views_grow by blast
  qed (use step None in \<open>auto simp: join_take_def queues_grow_def split: option.splits\<close>)
qed

lemma despawn_grows:
  fixes k :: "('f, 'o, 'q, 's, 'g) kernel"
  assumes inv: "sched_inv V L n k (FDespawn e t # rest)" and step: "poll_despawn L t k = Inr k'"
  shows "queues_grow L k k'"
proof (cases "js_waker (k_tasks k t)")
  case None
  then show ?thesis using step by (auto simp: poll_despawn_def Let_def queues_grow_def)
next
  case (Some w)
  note I = sched_invD [OF inv]
  let ?k2 = "upd_task t (\<lambda>i. i\<lparr>js_waker := None\<rparr>) (put_state t (state_despawn (ti_state (k_tasks k t))) k)"
  have "queue_inv L n ?k2 (pushing (FDespawn e t # rest))" using I(3) by (simp add: queue_inv_def flagged_def)
  moreover have "ptr_inv n ?k2" using I(5) by (simp add: ptr_inv_def)
  ultimately obtain k2 where "wake_task L w ?k2 = Inr k2" "wake_effect L w ?k2 k2"
    using wake_task_ok [of V n L ?k2] I(1) bounded_vec_axioms intrusive_list_axioms by fastforce
  then show ?thesis using step Some
    by (auto simp: poll_despawn_def Let_def waker_wake_def rbind_Inr_iff wake_effect_def queues_grow_def
        split: option.splits if_splits)
qed

lemma step_frame_grows:
  fixes k :: "('f, 'o, 'q, 's, 'g) kernel"
  assumes inv: "sched_inv V L n k (fr # rest)" and step: "step_frame V L fpoll fr k = Inr (frs, k')"
    and "\<And>e. fr \<noteq> FLoop e"
  shows "queues_grow L k k'"
proof -
  note I = sched_invD [OF inv]
  show ?thesis
  proof (cases fr)
    case (FIrq kind ops st)
    then show ?thesis using irq_grows inv step by simp
  next
    case (FPoll e t st p)
    then show ?thesis using poll_grows inv step by simp
  next
    case FSched
    have st: "stack_inv V n (k_prio_stack k) (actives rest)" using I(2) FSched by simp
    have sub: "ready_bits k \<subseteq> {..<n}" using I(4) by (simp add: bits_inv_def)
    show ?thesis
      by (cases rule: try_preempt_ok [OF I(1) st sub, case_names none token])
        (use step FSched in \<open>auto simp: queues_grow_def split: if_splits\<close>)
  next
    case (FDespawn e t)
    then show ?thesis using despawn_grows inv step by (auto simp: rbind_Inr_iff)
  next
    case (FGot e t)
    then show ?thesis using step by (auto simp: queues_grow_def rbind_Inr_iff split: option.splits poll_fn.splits)
  next
    case (FLoop e)
    then show ?thesis using assms(3) by simp
  qed (use step in \<open>auto simp: clear_pend_wired [OF I(1)] poll_store_result_def poll_clear_executor_def
    poll_drop_future_def rbind_Inr_iff complete_executor_def queues_grow_def\<close>)
qed

end

text \<open>
   C14. Run queues are first-in first-out.  An event of the machine leaves every queue as it is
  or appends one task to it, or it is the loop of the queue's executor taking the task at the
  front, which it will poll next.
\<close>

theorem run_queues_fifo:
  assumes "bounded_vec V n" "intrusive_list L" "reachable V L fpoll n m" "exec V L fpoll ev m = Some (Inr m')"
    and "queue L (m_kernel m') e \<noteq> queue L (m_kernel m) e"
  shows "(\<exists>t. queue L (m_kernel m') e = queue L (m_kernel m) e @ [t])
    \<or> (\<exists>t rest. queue L (m_kernel m) e = t # queue L (m_kernel m') e
         \<and> m_stack m = FLoop e # rest \<and> m_stack m' = FGot e t # rest)"
proof (cases ev)
  case Step
  note inv = inv_of [OF assms(1-3)]
  note rt = runtime.intro [OF assms(1,2)]
  obtain fr rest frs where s: "m_stack m = fr # rest" "m_stack m' = frs @ rest"
      "step_frame V L fpoll fr (m_kernel m) = Inr (frs, m_kernel m')"
    using assms(4) Step by (auto simp: rbind_Inr_iff split: list.splits)
  show ?thesis
  proof (cases "\<exists>e'. fr = FLoop e'")
    case False
    then show ?thesis
      using runtime.step_frame_grows [OF rt inv [unfolded s(1)] s(3)] assms(5) by (auto simp: queues_grow_def)
  next
    case True
    then obtain e' where fr: "fr = FLoop e'" by blast
    note I = sched_invD [OF inv [unfolded s(1) fr]]
    have e': "e' < n" using I(2) by (simp add: stack_inv_def)
    show ?thesis
    proof (cases rule: runtime.run_next_ok [OF rt I(1) e', case_names task empty])
      case (task t k2)
      then show ?thesis using s fr assms(5) by (cases "e = e'") auto
    next
      case (empty k2)
      then show ?thesis using s fr assms(5) by (cases "e = e'") auto
    qed
  qed
qed (use assms(4,5) in \<open>auto split: list.splits if_splits\<close>)

section \<open>Disciplined runs\<close>

text \<open>
   C8. Absence of panics and undefined behaviour.  In a run in which no task is spawned at a
  priority out of range or while an executor loop that has taken the same task from its queue is
  preempted just there, no step panics: no index is out of range, no executor pointer dangles,
  no poll function is missing, and a future is polled and dropped only while it is initialised.
\<close>

theorem disciplined_never_panics:
  assumes "bounded_vec V n" "intrusive_list L" "reachable_disciplined V L fpoll n m" "disciplined n m"
  shows "exec V L fpoll ev m \<noteq> Some (Inl err)"
  by (rule runtime.disciplined_progress [OF runtime.intro [OF assms(1,2)] assms(3,4)])

text \<open>
   C11. In such a run a task is in the hands of at most one activation on the call stack, so a
  future is never polled re-entrantly.
\<close>

theorem one_poll_per_task:
  assumes "bounded_vec V n" "intrusive_list L" "reachable_disciplined V L fpoll n m"
  shows "distinct (map snd (polls (m_stack m)))"
  by (rule task_invD(1) [OF runtime.disciplined_inv [OF runtime.intro [OF assms(1,2)] assms(3)]])

text \<open>
  C12. The types of the data of the executor crate, in such a run.  The spawner has its \<open>n\<close> executors,
  each knows its own index and is bound to the spawner's bitmap; the slots of the tasks hold what
  their tags say: a task whose poll function is that of its storage has an initialised future and
  its spawned flag; a task that is queued or has an executor has a poll function; an
  executor pointer is an executor of the spawner, and a task in a queue that has one is in the queue
  of that executor.
\<close>

theorem kernel_well_typed:
  assumes "bounded_vec V n" "intrusive_list L" "reachable_disciplined V L fpoll n m"
  shows "length (k_executors (m_kernel m)) = n
    \<and> (\<forall>e<n. ex_priority (k_executors (m_kernel m) ! e) = e
        \<and> ex_bitmap_ops (k_executors (m_kernel m) ! e) = SpawnerOps)
    \<and> (\<forall>t i. i = k_tasks (m_kernel m) t \<longrightarrow>
          (ti_poll_fn i = Some PollStorage \<longrightarrow> ts_f i \<noteq> Uninit \<and> spawned (ti_state i))
        \<and> (run_queued (ti_state i) \<or> ti_executor_ptr i \<noteq> None \<longrightarrow> ti_poll_fn i \<noteq> None)
        \<and> (\<forall>e. ti_executor_ptr i = Some e \<longrightarrow> e < n)
        \<and> (\<forall>e<n. t \<in> set (queue L (m_kernel m) e) \<longrightarrow> ti_executor_ptr i \<in> {None, Some e}))"
proof -
  have rt: "runtime V n L" using assms(1,2) by (rule runtime.intro)
  note I = sched_invD [OF inv_of [OF assms(1,2) reachable_disciplined_reachable [OF assms(3)]]]
    and T = task_invD [OF runtime.disciplined_inv [OF rt assms(3)]]
  have "ti_executor_ptr (k_tasks (m_kernel m) t) \<in> {None, Some e}"
    if "e < n" "t \<in> set (queue L (m_kernel m) e)" for t e
    using agreeD [OF T(4)] that by (cases "ti_executor_ptr (k_tasks (m_kernel m) t)") (auto simp: ptr_set_def queue_set_def)
  then show ?thesis
    using wiredD(1) [OF I(1)] I(1) I(5) T(6) by (auto simp: wired_def ptr_inv_def task_ok_def)
qed

end
