(* ===== verification/SchedLive.thy ===== *)
theory SchedLive
  imports SchedCalls
begin

text \<open>
  Progress of a poll and the life of a task: a poll that is not interrupted comes back to the
  executor's loop, and a task that is spawned, polled to completion and joined delivers its
  result once.
\<close>

section \<open>Undisturbed polls return\<close>

text \<open>The spawns that a poll may still make.\<close>

primrec spawns_ok :: "(tid \<Rightarrow> priority \<Rightarrow> bool) \<Rightarrow> ('f, 'o, 'g) prog \<Rightarrow> bool" where
  "spawns_ok P (Ready out) = True"
| "spawns_ok P (Pending f) = True"
| "spawns_ok P (Wake w p) = spawns_ok P p"
| "spawns_ok P (Spawn t f prio c) = (P t prio \<and> (\<forall>ok. spawns_ok P (c ok)))"
| "spawns_ok P (Join t c) = (\<forall>r. spawns_ok P (c r))"
| "spawns_ok P (Access u c) = (\<forall>g. spawns_ok P (c g))"

definition steps_to ::
  "(priority, 's) vec_api \<Rightarrow> (tid, 'q) list_api \<Rightarrow> (tid \<Rightarrow> 'f \<Rightarrow> ('f, 'o, 'g) prog) \<Rightarrow> nat \<Rightarrow>
   ('f, 'o, 'q, 's, 'g) machine \<Rightarrow> (('f, 'o, 'q, 's, 'g) machine \<Rightarrow> bool) \<Rightarrow> bool" where
  "steps_to V L fpoll n m P \<longleftrightarrow> (\<exists>j m'. exec_all V L fpoll (replicate j Step) m = Some (Inr m')
     \<and> reachable_disciplined V L fpoll n m' \<and> P m')"

lemma steps_to_done: "reachable_disciplined V L fpoll n m \<Longrightarrow> P m \<Longrightarrow> steps_to V L fpoll n m P"
  unfolding steps_to_def by (rule exI [of _ 0]) simp

lemma steps_to_step:
  assumes "exec V L fpoll Step m = Some (Inr m1)" "steps_to V L fpoll n m1 P"
  shows "steps_to V L fpoll n m P"
proof -
  obtain j m' where "exec_all V L fpoll (replicate j Step) m1 = Some (Inr m')"
      "reachable_disciplined V L fpoll n m'" "P m'"
    using assms(2) by (auto simp: steps_to_def)
  then show ?thesis using assms(1) unfolding steps_to_def by (intro exI [of _ "Suc j"]) simp
qed

text \<open>How many steps a call in progress has left, at most.\<close>

primrec stage_left :: "stage \<Rightarrow> nat" where
  "stage_left (W_Load t) = 5" | "stage_left (W_Fetch e t) = 4" | "stage_left (W_Push e t) = 3"
| "stage_left W_Mark = 2" | "stage_left W_Send = 1"
| "stage_left (D_Fetch e t) = 3" | "stage_left (D_Push e t) = 2" | "stage_left D_Check = 1"
| "stage_left (J_Store t w) = 1"

lemma stage_left_pos [simp]: "0 < stage_left st"
  by (cases st) simp_all

lemma step_stage_left:
  "step_stage V L st k = Inr (Some st', k') \<Longrightarrow> stage_left st' < stage_left st"
  by (cases st) (auto simp: rbind_Inr_iff fetch_enqueue_eq split: option.splits if_splits)

context runtime
begin

text \<open>One step of the running activation, which a disciplined state allows.\<close>

lemma next_step:
  assumes "reachable_disciplined V L fpoll n m" "disciplined n m" "m_stack m = fr # rest"
  obtains frs k' where "step_frame V L fpoll fr (m_kernel m) = Inr (frs, k')"
    "exec V L fpoll Step m = Some (Inr \<lparr>m_kernel = k', m_stack = frs @ rest\<rparr>)"
    "reachable_disciplined V L fpoll n \<lparr>m_kernel = k', m_stack = frs @ rest\<rparr>"
proof (cases "step_frame V L fpoll fr (m_kernel m)")
  case (Inl err)
  then have "exec V L fpoll Step m = Some (Inl err)" using assms(3) by simp
  then show ?thesis using disciplined_progress [OF assms(1,2)] by blast
next
  case (Inr r)
  obtain frs k' where r: "r = (frs, k')" by (cases r)
  have step: "exec V L fpoll Step m = Some (Inr \<lparr>m_kernel = k', m_stack = frs @ rest\<rparr>)"
    using Inr assms(3) by (simp add: r)
  show ?thesis
    by (rule that [OF _ step disciplined_step [OF assms(1,2) step]]) (use Inr r in simp)
qed

lemma stages_return:
  assumes "reachable_disciplined V L fpoll n m" "m_stack m = FPoll e t st p # rest"
    and "\<And>m'. reachable_disciplined V L fpoll n m' \<Longrightarrow> m_stack m' = FPoll e t None p # rest \<Longrightarrow>
      steps_to V L fpoll n m' P"
  shows "steps_to V L fpoll n m P"
  using assms(1,2)
proof (induction "case st of None \<Rightarrow> 0 | Some s \<Rightarrow> stage_left s" arbitrary: m st rule: less_induct)
  case less
  show ?case
  proof (cases st)
    case None
    then show ?thesis using assms(3) less.prems by simp
  next
    case (Some s)
    have d: "disciplined n m" using less.prems(2) Some by (simp add: disciplined_def)
    obtain frs k' where n: "step_frame V L fpoll (FPoll e t st p) (m_kernel m) = Inr (frs, k')"
      "exec V L fpoll Step m = Some (Inr \<lparr>m_kernel = k', m_stack = frs @ rest\<rparr>)"
      "reachable_disciplined V L fpoll n \<lparr>m_kernel = k', m_stack = frs @ rest\<rparr>"
      by (rule next_step [OF less.prems(1) d less.prems(2)])
    then obtain st' where st': "frs = [FPoll e t st' p]" "step_stage V L s (m_kernel m) = Inr (st', k')"
      using Some by (auto simp: rbind_Inr_iff)
    have "steps_to V L fpoll n \<lparr>m_kernel = k', m_stack = frs @ rest\<rparr> P"
      using st' step_stage_left [of V L s "m_kernel m" _ k'] Some n(3)
      by (intro less.hyps [of st']) (auto split: option.splits)
    then show ?thesis by (rule steps_to_step [OF n(2)])
  qed
qed

lemma steps_one:
  assumes "reachable_disciplined V L fpoll n m" "disciplined n m" "m_stack m = fr # rest"
    and "\<And>frs k' m'. step_frame V L fpoll fr (m_kernel m) = Inr (frs, k') \<Longrightarrow> reachable_disciplined V L fpoll n m' \<Longrightarrow>
      m_kernel m' = k' \<Longrightarrow> m_stack m' = frs @ rest \<Longrightarrow> steps_to V L fpoll n m' Q"
  shows "steps_to V L fpoll n m Q"
  by (rule next_step [OF assms(1-3)]) (rule steps_to_step, assumption, rule assms(4), auto)

text \<open>The tail of a poll that is ready.\<close>

lemma ready_finishes:
  assumes "reachable_disciplined V L fpoll n m"
    and "m_stack m = fr # rest" "fr \<in> {FReady e t out, FNull e t, FDrop e t, FDespawn e t, FLoop e}"
  shows "steps_to V L fpoll n m (\<lambda>m'. m_stack m' = FLoop e # rest)"
proof -
  have d: "disciplined n m'" if "m_stack m' = f # rest" "spawn_target f = None"
    for m' :: "('a, 'b, 'q, 's, 'c) machine" and f
    using that by (simp add: disciplined_def)
  have loop: "steps_to V L fpoll n m' (\<lambda>m'. m_stack m' = FLoop e # rest)"
    if "reachable_disciplined V L fpoll n m'" "m_stack m' = FLoop e # rest" for m'
    using that by (rule steps_to_done)
  have desp: "steps_to V L fpoll n m' (\<lambda>m'. m_stack m' = FLoop e # rest)"
    if "reachable_disciplined V L fpoll n m'" "m_stack m' = FDespawn e t # rest" for m'
    by (rule steps_one [OF that(1) d [OF that(2)] that(2)]) (auto simp: rbind_Inr_iff intro!: loop)
  have dropf: "steps_to V L fpoll n m' (\<lambda>m'. m_stack m' = FLoop e # rest)"
    if "reachable_disciplined V L fpoll n m'" "m_stack m' = FDrop e t # rest" for m'
    by (rule steps_one [OF that(1) d [OF that(2)] that(2)]) (auto simp: rbind_Inr_iff intro!: desp)
  have null: "steps_to V L fpoll n m' (\<lambda>m'. m_stack m' = FLoop e # rest)"
    if "reachable_disciplined V L fpoll n m'" "m_stack m' = FNull e t # rest" for m'
    by (rule steps_one [OF that(1) d [OF that(2)] that(2)]) (auto intro!: dropf)
  have ready: "steps_to V L fpoll n m' (\<lambda>m'. m_stack m' = FLoop e # rest)"
    if "reachable_disciplined V L fpoll n m'" "m_stack m' = FReady e t out # rest" for m'
    by (rule steps_one [OF that(1) d [OF that(2)] that(2)]) (auto intro!: null)
  show ?thesis using assms ready null dropf desp loop by blast
qed

text \<open>One call of a future: the stages of the last one, then the step that begins it.\<close>

lemma poll_one:
  assumes "reachable_disciplined V L fpoll n m" "m_stack m = FPoll e t st p # rest"
    and "\<And>m1. m_stack m1 = FPoll e t None p # rest \<Longrightarrow> disciplined n (m1 :: ('f, 'o, 'q, 's, 'g) machine)"
    and "\<And>frs k k' m'. step_poll V L e t None p k = Inr (frs, k') \<Longrightarrow> reachable_disciplined V L fpoll n m' \<Longrightarrow>
      m_stack m' = frs @ rest \<Longrightarrow> steps_to V L fpoll n m' Q"
  shows "steps_to V L fpoll n m Q"
proof (rule stages_return [OF assms(1,2)])
  fix m1 assume m1: "reachable_disciplined V L fpoll n m1" "m_stack m1 = FPoll e t None p # rest"
  show "steps_to V L fpoll n m1 Q"
    by (rule steps_one [OF m1(1) assms(3) [OF m1(2)] m1(2)]) (rule assms(4), simp_all)
qed

lemma poll_finishes:
  fixes m :: "('f, 'o, 'q, 's, 'g) machine"
  assumes "reachable_disciplined V L fpoll n m" "m_stack m = FPoll e t st p # rest"
    and "spawns_ok (\<lambda>t prio. to_usize prio < n \<and> (\<forall>fr\<in>set rest. \<not> has_got t fr)) p"
  shows "steps_to V L fpoll n m (\<lambda>m'. m_stack m' = FLoop e # rest)"
  using assms
proof (induction p arbitrary: m st)
  case (Ready out)
  then show ?case
    by (intro poll_one [OF Ready(1,2)]) (auto simp: disciplined_def intro!: ready_finishes)
next
  case (Pending f)
  then show ?case
    by (intro poll_one [OF Pending(1,2)]) (auto simp: disciplined_def intro!: steps_to_done)
next
  case (Wake w p)
  then show ?case
    by (intro poll_one [OF Wake.prems(1,2)]) (auto simp: disciplined_def intro!: Wake.IH)
next
  case (Spawn t' f prio c)
  then show ?case
    by (intro poll_one [OF Spawn.prems(1,2)]) (auto simp: disciplined_def rbind_Inr_iff intro!: Spawn.IH)
next
  case (Join t' c)
  then show ?case
    by (intro poll_one [OF Join.prems(1,2)])
      (auto simp: disciplined_def split: prod.splits option.splits intro!: Join.IH)
next
  case (Access u c)
  then show ?case
    by (intro poll_one [OF Access.prems(1,2)]) (auto simp: disciplined_def intro!: Access.IH)
qed

end


end
