(* ===== verification/SchedTraces.thy ===== *)
theory SchedTraces
  imports SchedLive
begin

text \<open>
  Join handles, and four runs of concrete applications that show behaviour the crate does not
  intend.
\<close>

section \<open>Join handles\<close>

text \<open>A wake leaves everything of a task alone but its flag and its executor pointer.\<close>

definition task_core :: "('f, 'o) task_storage \<Rightarrow> bool \<times> poll_fn option \<times> 'o option \<times> waker option \<times> 'f cell" where
  "task_core i = (spawned (ti_state i), ti_poll_fn i, js_result i, js_waker i, ts_f i)"

lemma enqueue_locked_tasks:
  assumes "enqueue_locked L e t k = Inr k'"
  shows "k_tasks k' = (k_tasks k)(t := (k_tasks k t)\<lparr>ti_executor_ptr := Some e\<rparr>)"
  using assms
  by (auto simp: enqueue_locked_def run_queue_enqueue_def ops_set_def bm_set_def Let_def rbind_Inr_iff
      split: bitmap_ops.splits)

lemma pend_tasks: "pend k = Inr k' \<Longrightarrow> k_tasks k' = k_tasks k"
  by (auto simp: pend_def pend_send_def pend_mark_def ipi_send_def split: option.splits ipi_dev.splits if_splits)

lemma wake_task_core:
  assumes "wake_task L w k = Inr k'"
  shows "task_core (k_tasks k' t) = task_core (k_tasks k t)
    \<and> (ti_executor_ptr (k_tasks k t) = None \<longrightarrow> ti_executor_ptr (k_tasks k' t) = None)"
proof (cases "ti_executor_ptr (k_tasks k w)")
  case None
  then show ?thesis using assms by (simp add: wake_task_def)
next
  case (Some e)
  let ?k = "put_state w (snd (state_run_enqueue (ti_state (k_tasks k w)))) k"
  consider "k' = ?k" | k2 where "enqueue_locked L e w ?k = Inr k2" "pend k2 = Inr k'"
    using assms Some
    by (auto simp: wake_task_def executor_enqueue_eq fetch_enqueue_eq rbind_Inr_iff split: if_splits)
  then show ?thesis
  proof cases
    case 2
    then have "k_tasks k' = (k_tasks ?k)(w := (k_tasks ?k w)\<lparr>ti_executor_ptr := Some e\<rparr>)"
      using enqueue_locked_tasks pend_tasks by metis
    then show ?thesis using Some by (simp add: task_core_def)
  qed (simp add: task_core_def)
qed

lemma poll_ready_cases:
  assumes "poll_ready L t out k = Inr k'"
  obtains k1 where "task_core (k_tasks k1 t) = (False, Some PollExited, Some out, None, Uninit)"
    "ti_executor_ptr (k_tasks k1 t) = None"
    "k' = k1 \<or> (\<exists>w. wake_task L w k1 = Inr k')"
proof -
  let ?k2 = "put_state t (state_despawn (ti_state (k_tasks k t)))
    (upd_task t (\<lambda>i. i\<lparr>ts_f := Uninit, ti_poll_fn := Some PollExited\<rparr>)
      (poll_clear_executor t (poll_store_result t out k)))"
  let ?k3 = "upd_task t (\<lambda>i. i\<lparr>js_waker := None\<rparr>) ?k2"
  obtain f where f: "ts_f (k_tasks k t) = Init f"
    using assms by (cases "ts_f (k_tasks k t)")
      (simp_all add: poll_ready_def poll_drop_future_def poll_clear_executor_def poll_store_result_def)
  show ?thesis
  proof (cases "js_waker (k_tasks k t)")
    case None
    then have "k' = ?k2"
      using assms f by (simp add: poll_ready_def poll_drop_future_def poll_despawn_def
          poll_clear_executor_def poll_store_result_def Let_def)
    then show ?thesis using None
      by (intro that [of ?k2]) (simp_all add: task_core_def poll_clear_executor_def poll_store_result_def)
  next
    case (Some w)
    then have "wake_task L w ?k3 = Inr k'"
      using assms f by (simp add: poll_ready_def poll_drop_future_def poll_despawn_def waker_wake_def
          poll_clear_executor_def poll_store_result_def Let_def)
    then show ?thesis
      by (intro that [of ?k3]) (auto simp: task_core_def poll_clear_executor_def poll_store_result_def)
  qed
qed

lemma poll_ready_core:
  assumes "poll_ready L t out k = Inr k'"
  shows "task_core (k_tasks k' t) = (False, Some PollExited, Some out, None, Uninit)
    \<and> ti_executor_ptr (k_tasks k' t) = None"
  by (rule poll_ready_cases [OF assms]) (use wake_task_core in fastforce)

text \<open>
   C17. A task that is ready delivers its output to its join handle exactly once: the first
  poll of the handle takes it, the next finds nothing; the slot is free again, its future is
  dropped and its executor pointer is null.
\<close>

theorem join_delivers_once:
  assumes "poll_ready L t out k = Inr k'"
  shows "(\<exists>k2. join_poll (JoinHandle t) w k' = (Some out, k2) \<and> fst (join_poll (JoinHandle t) w k2) = None)
    \<and> \<not> spawned (ti_state (k_tasks k' t)) \<and> ts_f (k_tasks k' t) = Uninit
    \<and> ti_executor_ptr (k_tasks k' t) = None"
proof -
  have c: "js_result (k_tasks k' t) = Some out" "\<not> spawned (ti_state (k_tasks k' t))"
      "ts_f (k_tasks k' t) = Uninit" "ti_executor_ptr (k_tasks k' t) = None"
    using poll_ready_core [OF assms] by (simp_all add: task_core_def)
  then show ?thesis by (simp add: join_poll_def join_take_def)
qed

lemma despawn_wakes_joiner:
  assumes rt: "bounded_vec V n" "intrusive_list L" and inv: "sched_inv V L n k stk" and w: "js_waker (k_tasks k t) = Some w"
  obtains k' where "poll_despawn L t k = Inr k'"
    "wake_task L w (upd_task t (\<lambda>i. i\<lparr>js_waker := None\<rparr>) (put_state t (state_despawn (ti_state (k_tasks k t))) k)) = Inr k'"
    "wake_effect L w (upd_task t (\<lambda>i. i\<lparr>js_waker := None\<rparr>) (put_state t (state_despawn (ti_state (k_tasks k t))) k)) k'"
proof -
  note I = sched_invD [OF inv]
  let ?k2 = "upd_task t (\<lambda>i. i\<lparr>js_waker := None\<rparr>) (put_state t (state_despawn (ti_state (k_tasks k t))) k)"
  have "wired n ?k2" "queue_inv L n ?k2 (pushing stk)" "ptr_inv n ?k2"
    using I(1,3,5) by (simp_all add: queue_inv_def flagged_def ptr_inv_def)
  then obtain k2 where "wake_task L w ?k2 = Inr k2" "wake_effect L w ?k2 k2"
    using wake_task_ok [OF rt] by blast
  then show ?thesis using that w by (simp add: poll_despawn_def Let_def waker_wake_def)
qed

text \<open>
   C18. A task whose waker is stored in the slot of a task it joins is woken when that task
  completes.  In every reachable state of the running machine: the two steps of a poll of the join
  handle, run without an interrupt between them, leave the waker in the slot if there is no result
  yet; and at the end of the poll that completes the joined task, whatever happened in between, its
  slot is freed, the stored waker is taken, and the waiting task, if it has an executor, is appended
  to that executor's run queue, with the executor's bit set and the scheduler pended.  If the
  waiting task was run-queued already, the queues stay as they are and it is in one of them, once,
  or in a call below that is about to push it.  (If the joined task completes between the two
  steps of the poll, there is no waker to take: a run below shows it.)
\<close>

theorem join_wakes_waiter:
  assumes "bounded_vec V n" "intrusive_list L" "reachable V L fpoll n m" "m_kernel m = k"
  shows "(\<forall>p w c rest. m_stack m = FPoll p w None (Join t c) # rest \<and> js_result (k_tasks k t) = None \<longrightarrow>
      (\<exists>m'. exec_all V L fpoll [Step, Step] m = Some (Inr m') \<and> m_stack m' = FPoll p w None (c None) # rest
        \<and> js_waker (k_tasks (m_kernel m') t) = Some w))
    \<and> (\<forall>p w e rest. m_stack m = FDespawn p t # rest \<and> js_waker (k_tasks k t) = Some w
        \<and> ti_executor_ptr (k_tasks k w) = Some e \<longrightarrow>
      (\<exists>m' k'. exec V L fpoll Step m = Some (Inr m') \<and> m_stack m' = FLoop p # rest \<and> m_kernel m' = k'
        \<and> \<not> spawned (ti_state (k_tasks k' t)) \<and> js_waker (k_tasks k' t) = None \<and> run_queued (ti_state (k_tasks k' w))
        \<and> (if run_queued (ti_state (k_tasks k w))
           then queue L k' = queue L k \<and> count (queued L n k') w + count (pushing rest) w = 1
           else queue L k' = (queue L k)(e := queue L k e @ [w]) \<and> e \<in> members (k_bitmap k')
             \<and> k_pend_marker k' \<and> k_msip k')))"
proof (intro conjI allI impI; elim conjE)
  fix p w c rest
  assume "m_stack m = FPoll p w None (Join t c) # rest" "js_result (k_tasks k t) = None"
  then show "\<exists>m'. exec_all V L fpoll [Step, Step] m = Some (Inr m') \<and> m_stack m' = FPoll p w None (c None) # rest
      \<and> js_waker (k_tasks (m_kernel m') t) = Some w"
    using assms(4) by (simp add: join_take_def join_store_def waker_clone_def waker_from_task_def)
next
  fix p w e rest
  assume stk: "m_stack m = FDespawn p t # rest" and w: "js_waker (k_tasks k t) = Some w" "ti_executor_ptr (k_tasks k w) = Some e"
  have inv: "sched_inv V L n k (FDespawn p t # rest)" using inv_of [OF assms(1-3)] assms(4) stk by simp
  let ?k2 = "upd_task t (\<lambda>i. i\<lparr>js_waker := None\<rparr>) (put_state t (state_despawn (ti_state (k_tasks k t))) k)"
  obtain k' where k': "poll_despawn L t k = Inr k'" "wake_task L w ?k2 = Inr k'" "wake_effect L w ?k2 k'"
    by (rule despawn_wakes_joiner [OF assms(1,2) inv w(1)])
  have woken: "run_queued (ti_state (k_tasks k' w))"
      "if run_queued (ti_state (k_tasks k w)) then queue L k' = queue L k
       else queue L k' = (queue L k)(e := queue L k e @ [w]) \<and> e \<in> members (k_bitmap k') \<and> k_pend_marker k' \<and> k_msip k'"
    using k'(3) w(2) by (auto simp: wake_effect_def fun_eq_iff split: if_splits)
  have "exec V L fpoll Step m = Some (Inr \<lparr>m_kernel = k', m_stack = FLoop p # rest\<rparr>)"
    using assms(4) stk k'(1) by simp
  moreover have "\<not> spawned (ti_state (k_tasks k' t))" "js_waker (k_tasks k' t) = None"
    using wake_task_core [OF k'(2), of t] by (simp_all add: task_core_def)
  moreover have "count (queued L n k) w + count (pushing rest) w = 1" if "run_queued (ti_state (k_tasks k w))"
    using sched_invD(3) [OF inv] that by (simp add: queue_inv_def flagged_def)
  ultimately show "\<exists>m' k'. exec V L fpoll Step m = Some (Inr m') \<and> m_stack m' = FLoop p # rest \<and> m_kernel m' = k'
        \<and> \<not> spawned (ti_state (k_tasks k' t)) \<and> js_waker (k_tasks k' t) = None \<and> run_queued (ti_state (k_tasks k' w))
        \<and> (if run_queued (ti_state (k_tasks k w))
           then queue L k' = queue L k \<and> count (queued L n k') w + count (pushing rest) w = 1
           else queue L k' = (queue L k)(e := queue L k e @ [w]) \<and> e \<in> members (k_bitmap k')
             \<and> k_pend_marker k' \<and> k_msip k')"
    using woken by (intro exI [of _ "\<lparr>m_kernel = k', m_stack = FLoop p # rest\<rparr>"] exI [of _ k'])
      (simp add: queued_def split: if_splits)
qed

text \<open>
   The slot is free before the joiner has run, so the result can be lost: a task spawned
  again into the slot after completion discards the result that was not taken yet.
\<close>

theorem respawn_discards_result:
  assumes "poll_ready L t out k = Inr k'"
  shows "\<exists>k2. storage_spawn t f k' = (Inr (SpawnToken t), k2) \<and> fst (join_poll (JoinHandle t) w k2) = None"
proof -
  have "fst (state_spawn (ti_state (k_tasks k' t)))"
    using poll_ready_core [OF assms] by (simp add: task_core_def)
  then show ?thesis
    by (simp add: storage_spawn_def join_poll_def join_take_def join_store_def case_prod_beta)
qed

section \<open>Runs that go wrong\<close>

definition plain_run ::
  "(tid \<Rightarrow> 'f \<Rightarrow> ('f, 'o, 'g) prog) \<Rightarrow> nat \<Rightarrow> 'g \<Rightarrow> ('f, 'g) isr_op list \<Rightarrow> ('f, 'g) event list \<Rightarrow>
   ('f, 'o, tid list, priority list, 'g) machine result option" where
  "plain_run fpoll n g ops evs =
     (case boot_machine (list_vec n) list_list (ClintMsip True) n g ops of
        Inl e \<Rightarrow> Some (Inl e)
      | Inr m \<Rightarrow> exec_all (list_vec n) list_list fpoll evs m)"

definition ends_in :: "('m \<Rightarrow> bool) \<Rightarrow> 'm result option \<Rightarrow> bool" where
  "ends_in P r \<longleftrightarrow> (case r of Some (Inr m) \<Rightarrow> P m | _ \<Rightarrow> False)"

text \<open>The idle loop with nothing to do, now or later, unless an interrupt brings work.\<close>

definition at_rest :: "nat \<Rightarrow> ('f, 'o, tid list, 's, 'g) machine \<Rightarrow> bool" where
  "at_rest n m \<longleftrightarrow> (case m_stack m of [fr] \<Rightarrow> active fr = None | _ \<Rightarrow> False)
     \<and> list_all (\<lambda>e. queue list_list (m_kernel m) e = []) [0..<n]
     \<and> \<not> k_pend_marker (m_kernel m) \<and> \<not> k_msip (m_kernel m)"

text \<open>
  Task 0 spawns task 1 at a higher priority and joins it; task 1 waits for an interrupt and then
  returns 42.
\<close>

definition joiner :: "tid \<Rightarrow> nat \<Rightarrow> (nat, nat, unit) prog" where
  "joiner t f =
     (if t = 0 then
        let join = Join 1 (\<lambda>r. case r of None \<Rightarrow> Pending 1 | Some v \<Rightarrow> Ready v) in
        if f = 0 then Spawn 1 0 (Priority 0) (\<lambda>ok. join) else join
      else if f = 0 then Pending 1 else Ready 42)"

definition joiner_start :: "(nat, unit) event list" where
  "joiner_start = replicate 5 Step @ TakeMsi [] # replicate 5 Step
     @ replicate 4 Step @ TakeMsi [] # replicate 5 Step @ replicate 5 Step @ [Step]"


definition joiner_race :: "(nat, unit) event list" where
  "joiner_race = TakeIsr [IsrWake 1] # replicate 7 Step @ TakeMsi [] # replicate 5 Step
     @ replicate 9 Step @ replicate 6 Step"

definition self_waker :: "tid \<Rightarrow> nat \<Rightarrow> (nat, nat, unit) prog" where
  "self_waker t f = (if f = 5 then Wake 0 (Ready 5) else Ready f)"

definition self_waker_done :: "(nat, unit) event list" where
  "self_waker_done = replicate 5 Step @ TakeMsi [] # replicate 5 Step
     @ replicate 6 Step @ TakeMsi [] # replicate 3 Step @ replicate 5 Step"

text \<open>
   A wake of a joining task can be lost.  \<open>JoinHandle::poll\<close> looks for the result and stores
  its waker in two steps; if the joined task is woken by an interrupt between the two and runs at
  a higher priority, it completes before there is a waker to wake.  The run ends in the idle loop
  with the result available, the joining task still spawned and waiting, and nothing to run.
\<close>

theorem join_wakeup_lost:
  "ends_in (\<lambda>m. at_rest 2 m \<and> js_result (k_tasks (m_kernel m) 1) = Some 42
       \<and> js_waker (k_tasks (m_kernel m) 1) = Some 0
       \<and> spawned (ti_state (k_tasks (m_kernel m) 0)) \<and> \<not> spawned (ti_state (k_tasks (m_kernel m) 1)))
     (plain_run joiner 2 () [IsrSpawn 0 0 (Priority 1)] (joiner_start @ joiner_race))"
  by code_simp

text \<open>
   A task spawned again while it is still in the run queue of its last life (it woke itself
  in the poll that completed it) is not moved to the new priority, and gets no executor pointer:
  spawned at priority 0, it is polled by the executor of priority 1, and waking it does nothing.
\<close>

theorem respawn_keeps_old_executor:
  "ends_in (\<lambda>m. map polled (m_stack m) = [Some (1, 0), None] \<and> spawned (ti_state (k_tasks (m_kernel m) 0))
       \<and> ti_executor_ptr (k_tasks (m_kernel m) 0) = None
       \<and> (case wake_task list_list 0 (m_kernel m) of Inl err \<Rightarrow> False
           | Inr k \<Rightarrow> queue list_list k 0 = [] \<and> queue list_list k 1 = [] \<and> \<not> k_pend_marker k))
     (plain_run self_waker 2 () [IsrSpawn 0 5 (Priority 1)]
       (self_waker_done @ TakeIsr [IsrSpawn 0 9 (Priority 0)] # replicate 5 Step))"
  by code_simp

definition double_poll :: "(nat, unit) event list" where
  "double_poll = self_waker_done @ Step # TakeIsr [IsrSpawn 0 9 (Priority 0)] # replicate 5 Step
     @ Step # TakeMsi [] # replicate 5 Step"

text \<open>
   Without that discipline a future can be polled while it is being polled, and be
  dropped twice: an interrupt spawns the task at a higher priority between the point where the
  executor has taken it from the queue and the point where it reads its poll function.
\<close>

theorem undisciplined_spawn_polls_twice:
  "ends_in (\<lambda>m. map polled (m_stack m) = [Some (0, 0), Some (1, 0), None])
       (plain_run self_waker 2 () [IsrSpawn 0 5 (Priority 1)] double_poll)
   \<and> (case plain_run self_waker 2 () [IsrSpawn 0 5 (Priority 1)] (double_poll @ replicate 13 Step) of
        Some (Inl err) \<Rightarrow> err = UndefinedBehaviour | _ \<Rightarrow> False)"
  by (rule conjI) code_simp+

section \<open>The properties on a concrete run\<close>

text \<open>
  Three priorities; tasks 0 and 1 are spawned at priorities 2 and 1, both ready at once.
  \<open>demo_busy\<close> ends in the poll of task 1 while task 0 is queued, \<open>demo_pending\<close> in the idle loop
  before the scheduler's interrupt, \<open>demo_sched\<close> in the handler, \<open>demo_done\<close> in the idle loop.
\<close>

definition demo_app :: "tid \<Rightarrow> nat \<Rightarrow> (nat, nat, unit) prog" where
  "demo_app t f = Ready f"

definition demo_ops :: "(nat, unit) isr_op list" where
  "demo_ops = [IsrSpawn 0 5 (Priority 2), IsrSpawn 1 6 (Priority 1)]"

definition demo_pending :: "(nat, unit) event list" where
  "demo_pending = replicate 9 Step"

definition demo_sched :: "(nat, unit) event list" where
  "demo_sched = demo_pending @ TakeMsi [] # replicate 2 Step"

definition demo_loop :: "(nat, unit) event list" where
  "demo_loop = demo_sched @ [Step]"

definition demo_busy :: "(nat, unit) event list" where
  "demo_busy = demo_loop @ replicate 2 Step"

definition demo_done :: "(nat, unit) event list" where
  "demo_done = demo_busy @ replicate 16 Step @ replicate 4 Step"

lemma demo_busy_ends:
  "run_ends (\<lambda>m. (case m_stack m of [] \<Rightarrow> False | fr # rest \<Rightarrow>
       active fr = Some 1 \<and> frame_mie fr \<and> frame_stage fr = None)
     \<and> \<not> (k_pend_marker (m_kernel m) \<and> k_msip (m_kernel m)) \<and> queue list_list (m_kernel m) 2 = [0]
     \<and> map active (m_stack m) = [Some 1, None])
   (checked_run demo_app 3 () demo_ops demo_busy)"
  by code_simp

lemma demo_busy_poll:
  "run_ends (\<lambda>m. (case m_stack m of FPoll e t st p # rest \<Rightarrow>
       e = 1 \<and> t = 1 \<and> st = None \<and> (case p of Ready v \<Rightarrow> v = 6 | _ \<Rightarrow> False) \<and> map polled rest = [None]
     | _ \<Rightarrow> False) \<and> disciplined 3 m)
   (checked_run demo_app 3 () demo_ops demo_busy)"
  by code_simp

lemma demo_pending_ends:
  "run_ends (\<lambda>m. (case m_stack m of [] \<Rightarrow> False | fr # rest \<Rightarrow> frame_mie fr)
     \<and> current (m_stack m) = None \<and> k_pend_marker (m_kernel m) \<and> k_msip (m_kernel m)
     \<and> queue list_list (m_kernel m) 2 = [0])
   (checked_run demo_app 3 () demo_ops demo_pending)"
  by code_simp

lemma demo_sched_ends:
  "run_ends (\<lambda>m. (case m_stack m of FSched # rest \<Rightarrow> True | _ \<Rightarrow> False)
     \<and> queue list_list (m_kernel m) 2 = [0])
   (checked_run demo_app 3 () demo_ops demo_sched)"
  by code_simp

lemma demo_loop_ends:
  "run_ends (\<lambda>m. (case exec (list_vec 3) list_list demo_app Step m of
       Some (Inr m') \<Rightarrow> queue list_list (m_kernel m) 1 = [1] \<and> queue list_list (m_kernel m') 1 = []
     | _ \<Rightarrow> False))
   (checked_run demo_app 3 () demo_ops demo_loop)"
  by code_simp

lemma demo_done_ends:
  "run_ends (\<lambda>m. (case m_stack m of [FIdle] \<Rightarrow> True | _ \<Rightarrow> False)
     \<and> \<not> (k_pend_marker (m_kernel m) \<and> k_msip (m_kernel m)))
   (checked_run demo_app 3 () demo_ops demo_done)"
  by code_simp

lemma demo_done_results:
  "run_ends (\<lambda>m. js_result (k_tasks (m_kernel m) 0) = Some 5 \<and> js_result (k_tasks (m_kernel m) 1) = Some 6)
   (checked_run demo_app 3 () demo_ops demo_done)"
  by code_simp

lemmas lists_ok = list_vec_bounded list_list_intrusive

theorem highest_priority_runs_witness:
  "\<exists>m. reachable (list_vec 3) list_list demo_app 3 m \<and> map active (m_stack m) = [Some 1, None]
     \<and> queue list_list (m_kernel m) 2 = [0] \<and> (1 :: nat) \<le> 2"
proof -
  obtain m where r: "reachable (list_vec 3) list_list demo_app 3 m" "map active (m_stack m) = [Some 1, None]"
      "queue list_list (m_kernel m) 2 = [0]" "\<not> (k_pend_marker (m_kernel m) \<and> k_msip (m_kernel m))"
      "case m_stack m of [] \<Rightarrow> False | fr # rest \<Rightarrow> active fr = Some 1 \<and> frame_mie fr \<and> frame_stage fr = None"
    by (rule checked_run_obtain [OF demo_busy_ends]) iprover
  obtain fr rest where m: "m_stack m = fr # rest" "active fr = Some 1" "frame_mie fr" "frame_stage fr = None"
    using r(5) by (cases "m_stack m") auto
  have "(1 :: nat) \<le> 2"
    by (rule highest_priority_runs [OF lists_ok r(1) m r(4), of 2]) (simp_all add: r(3))
  then show ?thesis using r(1-3) by iprover
qed

theorem idle_means_no_work_witness:
  "\<exists>m. reachable (list_vec 3) list_list demo_app 3 m \<and> m_stack m = [FIdle]
     \<and> queue list_list (m_kernel m) 2 = []"
proof -
  obtain m where m: "m_stack m = [FIdle]" "\<not> (k_pend_marker (m_kernel m) \<and> k_msip (m_kernel m))"
      "reachable (list_vec 3) list_list demo_app 3 m"
    by (rule checked_run_obtain [OF demo_done_ends]) (auto split: list.splits frame.splits)
  have "queue list_list (m_kernel m) 2 = []"
    by (rule idle_means_no_work [OF lists_ok m(3,1,2)]) simp
  then show ?thesis using m by blast
qed

theorem prio_stack_mirrors_activations_witness:
  "\<exists>m. reachable (list_vec 3) list_list demo_app 3 m \<and> actives (m_stack m) = [1]
     \<and> vec_items (list_vec 3) (k_prio_stack (m_kernel m)) = [Priority 1]"
proof -
  have "run_ends (\<lambda>m. actives (m_stack m) = [1]) (checked_run demo_app 3 () demo_ops demo_busy)"
    by code_simp
  then obtain m where m: "actives (m_stack m) = [1]" "reachable (list_vec 3) list_list demo_app 3 m"
    by (rule checked_run_obtain)
  then show ?thesis
    using prio_stack_mirrors_activations [OF lists_ok m(2)] by (intro exI [of _ m]) simp
qed

theorem try_preempt_starts_highest_witness:
  "\<exists>m k'. reachable (list_vec 3) list_list demo_app 3 m \<and> queue list_list (m_kernel m) 2 = [0]
     \<and> (\<exists>e\<le>2. try_preempt (list_vec 3) (m_kernel m) = Inr (Some (RunToken (Priority e)), k')
          \<and> queue list_list k' e \<noteq> [])"
proof -
  obtain m rest where m: "m_stack m = FSched # rest" "queue list_list (m_kernel m) 2 = [0]"
      "reachable (list_vec 3) list_list demo_app 3 m" "current (m_stack m) = None"
  proof -
    have "run_ends (\<lambda>m. (case m_stack m of FSched # rest \<Rightarrow> True | _ \<Rightarrow> False) \<and> current (m_stack m) = None
        \<and> queue list_list (m_kernel m) 2 = [0]) (checked_run demo_app 3 () demo_ops demo_sched)" by code_simp
    then show thesis
      by (rule checked_run_obtain) (use that in \<open>auto split: list.splits frame.splits\<close>)
  qed
  have c: "current rest = None" using m(1,4) by (simp add: current_simps)
  have "\<exists>e k'. e \<le> 2 \<and> try_preempt (list_vec 3) (m_kernel m) = Inr (Some (RunToken (Priority e)), k')
      \<and> queue list_list k' e \<noteq> []"
    using try_preempt_starts_highest [OF lists_ok m(3,1)] m(2) c
    by (auto split: sum.splits prod.splits option.splits run_token.splits priority.splits)
  then show ?thesis using m by blast
qed

theorem pending_reschedule_served_witness:
  "\<exists>m e m'. reachable (list_vec 3) list_list demo_app 3 m
     \<and> exec_all (list_vec 3) list_list demo_app [TakeMsi [], Step, Step, Step] m = Some (Inr m')
     \<and> m_stack m' = FLoop e # m_stack m \<and> e \<le> 2"
proof -
  obtain m fr rest where m: "m_stack m = fr # rest" "frame_mie fr" "k_pend_marker (m_kernel m)"
      "k_msip (m_kernel m)" "current (m_stack m) = None" "queue list_list (m_kernel m) 2 = [0]"
      "reachable (list_vec 3) list_list demo_app 3 m"
    by (rule checked_run_obtain [OF demo_pending_ends]) (auto split: list.splits)
  then show ?thesis
    using pending_reschedule_served [OF lists_ok m(7,1-4), of 2] by fastforce
qed

theorem run_queued_exact_witness:
  "\<exists>m. reachable (list_vec 3) list_list demo_app 3 m
     \<and> count (queued list_list 3 (m_kernel m)) 0 + count (pushing (m_stack m)) 0 = 1"
proof -
  have "run_ends (\<lambda>m. run_queued (ti_state (k_tasks (m_kernel m) 0))) (checked_run demo_app 3 () demo_ops demo_busy)"
    by code_simp
  then obtain m where m: "run_queued (ti_state (k_tasks (m_kernel m) 0))" "reachable (list_vec 3) list_list demo_app 3 m"
    by (rule checked_run_obtain)
  then show ?thesis using run_queued_exact [OF lists_ok m(2), of 0] by auto
qed

theorem bitmap_matches_queues_witness:
  "\<exists>m. reachable (list_vec 3) list_list demo_app 3 m \<and> 2 \<in> members (k_bitmap (m_kernel m))"
proof -
  obtain m where m: "queue list_list (m_kernel m) 2 = [0]" "reachable (list_vec 3) list_list demo_app 3 m"
    by (rule checked_run_obtain [OF demo_busy_ends]) auto
  then show ?thesis using bitmap_matches_queues [OF lists_ok m(2)] by force
qed

theorem wake_task_effect_witness:
  "\<exists>m k'. reachable (list_vec 3) list_list demo_app 3 m
     \<and> wake_task list_list 1 (m_kernel m) = Inr k' \<and> queue list_list k' 1 = [1]"
proof -
  have "run_ends (\<lambda>m. ti_executor_ptr (k_tasks (m_kernel m) 1) = Some 1 \<and> queue list_list (m_kernel m) 1 = []
      \<and> \<not> run_queued (ti_state (k_tasks (m_kernel m) 1))) (checked_run demo_app 3 () demo_ops demo_busy)"
    by code_simp
  then obtain m where m: "ti_executor_ptr (k_tasks (m_kernel m) 1) = Some 1" "queue list_list (m_kernel m) 1 = []"
      "\<not> run_queued (ti_state (k_tasks (m_kernel m) 1))" "reachable (list_vec 3) list_list demo_app 3 m"
    by (rule checked_run_obtain) auto
  obtain k' where "wake_task list_list 1 (m_kernel m) = Inr k'" "wake_effect list_list 1 (m_kernel m) k'"
    using wake_task_effect [OF lists_ok m(4) refl, of 1] by blast
  then show ?thesis using m by (intro exI [of _ m] exI [of _ k']) (simp add: wake_effect_def)
qed

theorem run_queues_fifo_witness:
  "\<exists>m m' rest. reachable (list_vec 3) list_list demo_app 3 m
     \<and> exec (list_vec 3) list_list demo_app Step m = Some (Inr m') \<and> m_stack m' = FGot 1 1 # rest"
proof -
  obtain m m' where m: "exec (list_vec 3) list_list demo_app Step m = Some (Inr m')"
      "queue list_list (m_kernel m) 1 = [1]" "queue list_list (m_kernel m') 1 = []"
      "reachable (list_vec 3) list_list demo_app 3 m"
    by (rule checked_run_obtain [OF demo_loop_ends]) (auto split: option.splits sum.splits)
  then show ?thesis
    using run_queues_fifo [OF lists_ok m(4,1), of 1] by fastforce
qed

theorem disciplined_never_panics_witness:
  "\<exists>m. reachable_disciplined (list_vec 3) list_list demo_app 3 m \<and> map active (m_stack m) = [Some 1, None]
     \<and> exec (list_vec 3) list_list demo_app Step m \<noteq> Some (Inl UndefinedBehaviour)"
proof -
  have "run_ends (\<lambda>m. map active (m_stack m) = [Some 1, None] \<and> disciplined 3 m) (checked_run demo_app 3 () demo_ops demo_busy)"
    by code_simp
  then obtain m where m: "map active (m_stack m) = [Some 1, None]" "disciplined 3 m"
      "reachable_disciplined (list_vec 3) list_list demo_app 3 m"
    by (rule checked_run_obtain) iprover
  show ?thesis
    by (intro exI [of _ m] conjI m disciplined_never_panics [OF lists_ok m(3,2)])
qed

theorem one_poll_per_task_witness:
  "\<exists>m. reachable_disciplined (list_vec 3) list_list demo_app 3 m \<and> polls (m_stack m) = [(1, 1)]
     \<and> distinct (map snd (polls (m_stack m)))"
proof -
  have "run_ends (\<lambda>m. polls (m_stack m) = [(1, 1)]) (checked_run demo_app 3 () demo_ops demo_busy)"
    by code_simp
  then obtain m where m: "polls (m_stack m) = [(1, 1)]" "reachable_disciplined (list_vec 3) list_list demo_app 3 m"
    by (rule checked_run_obtain)
  then show ?thesis using one_poll_per_task [OF lists_ok m(2)] by blast
qed

theorem kernel_well_typed_witness:
  "\<exists>m. reachable_disciplined (list_vec 3) list_list demo_app 3 m \<and> length (k_executors (m_kernel m)) = 3
     \<and> ti_poll_fn (k_tasks (m_kernel m) 1) = Some PollStorage \<and> ts_f (k_tasks (m_kernel m) 1) \<noteq> Uninit"
proof -
  have "run_ends (\<lambda>m. ti_poll_fn (k_tasks (m_kernel m) 1) = Some PollStorage)
    (checked_run demo_app 3 () demo_ops demo_busy)" by code_simp
  then obtain m where m: "ti_poll_fn (k_tasks (m_kernel m) 1) = Some PollStorage"
      "reachable_disciplined (list_vec 3) list_list demo_app 3 m" by (rule checked_run_obtain)
  then show ?thesis using kernel_well_typed [OF lists_ok m(2)] by blast
qed

theorem spawn_steps_refine_witness:
  "ends_in (\<lambda>m. True) (plain_run demo_app 3 () demo_ops demo_pending)
   \<and> (\<exists>k :: (nat, nat, tid list, priority list, unit) kernel. length (k_executors k) = 3 \<and>
     rbind (run_stages (list_vec 3) list_list 3 (Some (D_Fetch 2 0)) k) (\<lambda>(st, k'). Inr (JoinHandle 0, st, k'))
     = rbind (spawner_spawn (list_vec 3) list_list (Priority 2) (SpawnToken 0) k) (\<lambda>(h, k'). Inr (h, None, k')))"
proof
  show "ends_in (\<lambda>m. True) (plain_run demo_app 3 () demo_ops demo_pending)" by code_simp
  obtain m where "reachable (list_vec 3) list_list demo_app 3 m"
    by (rule checked_run_obtain [OF demo_pending_ends])
  then have "length (k_executors (m_kernel m)) = 3"
    using wiredD(1) [OF sched_invD(1) [OF inv_of [OF lists_ok]]] by blast
  then show "\<exists>k :: (nat, nat, tid list, priority list, unit) kernel. length (k_executors k) = 3 \<and>
     rbind (run_stages (list_vec 3) list_list 3 (Some (D_Fetch 2 0)) k) (\<lambda>(st, k'). Inr (JoinHandle 0, st, k'))
     = rbind (spawner_spawn (list_vec 3) list_list (Priority 2) (SpawnToken 0) k) (\<lambda>(h, k'). Inr (h, None, k'))"
    using spawn_steps_refine [of "Priority 2" "m_kernel m" "list_vec 3" list_list 0]
    by (intro exI [of _ "m_kernel m"]) simp
qed


lemma demo_busy_ready:
  "run_ends (\<lambda>m. case poll_ready list_list 1 6 (m_kernel m) of Inl err \<Rightarrow> False | Inr k' \<Rightarrow> True)
   (checked_run demo_app 3 () demo_ops demo_busy)"
  by code_simp

theorem join_delivers_once_witness:
  "\<exists>m k' k2. reachable (list_vec 3) list_list demo_app 3 m \<and> poll_ready list_list 1 6 (m_kernel m) = Inr k'
     \<and> join_poll (JoinHandle 1) 0 k' = (Some 6, k2) \<and> fst (join_poll (JoinHandle 1) 0 k2) = None"
proof -
  obtain m k' where m: "poll_ready list_list 1 6 (m_kernel m) = Inr k'" "reachable (list_vec 3) list_list demo_app 3 m"
    by (rule checked_run_obtain [OF demo_busy_ready]) (auto split: sum.splits)
  then show ?thesis using join_delivers_once [OF m(1), of 0] by blast
qed

theorem respawn_discards_result_witness:
  "\<exists>m k' k2. reachable (list_vec 3) list_list demo_app 3 m \<and> poll_ready list_list 1 6 (m_kernel m) = Inr k'
     \<and> storage_spawn 1 9 k' = (Inr (SpawnToken 1), k2) \<and> fst (join_poll (JoinHandle 1) 0 k2) = None"
proof -
  obtain m k' where m: "poll_ready list_list 1 6 (m_kernel m) = Inr k'" "reachable (list_vec 3) list_list demo_app 3 m"
    by (rule checked_run_obtain [OF demo_busy_ready]) (auto split: sum.splits)
  then show ?thesis using respawn_discards_result [OF m(1), of 9 0] by blast
qed

text \<open>The waiter is polled, and then its joined task completes above it, after the interrupt.\<close>

definition joiner_meets :: "(nat, unit) event list" where
  "joiner_meets = joiner_start @ Step # TakeIsr [IsrWake 1] # replicate 7 Step @ TakeMsi [] # replicate 9 Step"

theorem join_wakes_waiter_witness:
  "\<exists>m m'. reachable (list_vec 2) list_list joiner 2 m \<and> queue list_list (m_kernel m) 1 = []
     \<and> exec (list_vec 2) list_list joiner Step m = Some (Inr m') \<and> m_stack m' = FLoop 0 # tl (m_stack m)
     \<and> queue list_list (m_kernel m') 1 = [0] \<and> k_msip (m_kernel m')"
proof -
  have "run_ends (\<lambda>m. (case m_stack m of FDespawn p t # rest \<Rightarrow> p = 0 \<and> t = 1 | _ \<Rightarrow> False)
      \<and> js_waker (k_tasks (m_kernel m) 1) = Some 0 \<and> ti_executor_ptr (k_tasks (m_kernel m) 0) = Some 1
      \<and> \<not> run_queued (ti_state (k_tasks (m_kernel m) 0)) \<and> queue list_list (m_kernel m) 1 = [])
    (checked_run joiner 2 () [IsrSpawn 0 0 (Priority 1)] joiner_meets)" by code_simp
  then obtain m rest where m: "m_stack m = FDespawn 0 1 # rest" "js_waker (k_tasks (m_kernel m) 1) = Some 0"
      "ti_executor_ptr (k_tasks (m_kernel m) 0) = Some 1" "\<not> run_queued (ti_state (k_tasks (m_kernel m) 0))"
      "queue list_list (m_kernel m) 1 = []" "reachable (list_vec 2) list_list joiner 2 m"
    by (rule checked_run_obtain) (auto split: list.splits frame.splits)
  have "\<exists>m' k'. exec (list_vec 2) list_list joiner Step m = Some (Inr m') \<and> m_stack m' = FLoop 0 # rest \<and> m_kernel m' = k'
        \<and> queue list_list k' 1 = [0] \<and> k_msip k'"
    using conjunct2 [OF join_wakes_waiter [OF lists_ok m(6) refl, of 1]] m(1-5) by fastforce
  then show ?thesis using m(1,5,6) by auto
qed

end
