(* ===== verification/TimerQueue.thy ===== *)
theory TimerQueue
  imports Containers
begin

text \<open>
  \<open>modules/timer/src/lib.rs\<close>: the queue of timer callbacks.  Every operation is the body of one
  \<open>critical_section::with\<close>.  The queue is a \<open>heapless::Vec\<close> of entries; callbacks (function
  pointers) and their data pointers are of arbitrary types, and \<open>call\<close>, what calling a callback
  does to the rest of the world, is a parameter.  A callback does not touch the queue.

  The specification of the queue is the multiset of its entries; the locale \<open>deadline_queue\<close> is
  that contract, and the interpretation at the end shows that the operations provide it.
\<close>

section \<open>State and operations\<close>

record ('c, 'd) timer_entry =
  te_deadline :: u64
  te_callback :: 'c
  te_data :: 'd

definition queue_new :: "(('c, 'd) timer_entry, 'v) vec_api \<Rightarrow> 'v" where
  "queue_new V = vec_new V"

text \<open>\<open>Iterator::min\<close>.\<close>

definition iter_min :: "u64 list \<Rightarrow> u64 option" where
  "iter_min xs = (case xs of [] \<Rightarrow> None | y # ys \<Rightarrow> Some (fold min ys y))"

definition min_deadline :: "(('c, 'd) timer_entry, 'v) vec_api \<Rightarrow> 'v \<Rightarrow> u64 option" where
  "min_deadline V q = iter_min (map te_deadline (vec_items V q))"

definition try_schedule ::
  "(('c, 'd) timer_entry, 'v) vec_api \<Rightarrow> u64 \<Rightarrow> 'c \<Rightarrow> 'd \<Rightarrow> 'v \<Rightarrow> ((unit + bool) \<times> 'v) result" where
  "try_schedule V deadline callback data q =
     (let prev_min = min_deadline V q in
      case vec_push V q \<lparr>te_deadline = deadline, te_callback = callback, te_data = data\<rparr> of
        None \<Rightarrow> Inr (Inl (), q)
      | Some q' \<Rightarrow>
          (case min_deadline V q' of
             None \<Rightarrow> Inl UnwrapNone
           | Some new_min \<Rightarrow>
               Inr (Inr (case prev_min of None \<Rightarrow> True | Some p \<Rightarrow> new_min < p), q')))"

definition schedule ::
  "(('c, 'd) timer_entry, 'v) vec_api \<Rightarrow> u64 \<Rightarrow> 'c \<Rightarrow> 'd \<Rightarrow> 'v \<Rightarrow> (bool \<times> 'v) result" where
  "schedule V deadline callback data q =
     rbind (try_schedule V deadline callback data q) (\<lambda>(r, q').
       case r of Inl _ \<Rightarrow> Inl CapacityExhausted | Inr is_earliest \<Rightarrow> Inr (is_earliest, q'))"

text \<open>The loops; \<open>i\<close> is the loop variable.\<close>

function cancel_from ::
  "(('c, 'd) timer_entry, 'v) vec_api \<Rightarrow> 'd \<Rightarrow> nat \<Rightarrow> 'v \<Rightarrow> (bool \<times> 'v) result" where
  "cancel_from V data i q =
     (if i < length (vec_items V q) then
        if te_data (vec_items V q ! i) = data then
          (case vec_swap_remove V q i of
             None \<Rightarrow> Inl IndexOutOfBounds
           | Some (e, q') \<Rightarrow> Inr (True, q'))
        else cancel_from V data (Suc i) q
      else Inr (False, q))"
  by pat_completeness auto
termination
  by (relation "measure (\<lambda>(V, data, i, q). length (vec_items V q) - i)") auto

declare cancel_from.simps [simp del]

definition cancel :: "(('c, 'd) timer_entry, 'v) vec_api \<Rightarrow> 'd \<Rightarrow> 'v \<Rightarrow> (bool \<times> 'v) result" where
  "cancel V data q = cancel_from V data 0 q"

partial_function (option) dequeue_from ::
  "(('c, 'd) timer_entry, 'v) vec_api \<Rightarrow> ('c \<Rightarrow> 'd \<Rightarrow> 'w \<Rightarrow> 'w) \<Rightarrow> u64 \<Rightarrow> nat \<Rightarrow> 'v \<Rightarrow> 'w \<Rightarrow>
   ('v \<times> 'w) result option" where
  "dequeue_from V call now i q w =
     (if i < length (vec_items V q) then
        if te_deadline (vec_items V q ! i) \<le> now then
          (case vec_swap_remove V q i of
             None \<Rightarrow> Some (Inl IndexOutOfBounds)
           | Some (e, q') \<Rightarrow> dequeue_from V call now i q' (call (te_callback e) (te_data e) w))
        else dequeue_from V call now (Suc i) q w
      else Some (Inr (q, w)))"

declare dequeue_from.simps [code]

definition dequeue_expired ::
  "(('c, 'd) timer_entry, 'v) vec_api \<Rightarrow> ('c \<Rightarrow> 'd \<Rightarrow> 'w \<Rightarrow> 'w) \<Rightarrow> u64 \<Rightarrow> 'v \<Rightarrow> 'w \<Rightarrow>
   (u64 option \<times> 'v \<times> 'w) result option" where
  "dequeue_expired V call now q w =
     map_option (\<lambda>r. rbind r (\<lambda>(q', w'). Inr (min_deadline V q', q', w'))) (dequeue_from V call now 0 q w)"

section \<open>The minimum\<close>

lemma iter_min_Cons: "iter_min (x # xs) = Some (Min (set (x # xs)))"
  by (simp add: iter_min_def Min.set_eq_fold del: list.set)

lemma iter_min_eq: "iter_min xs = (if xs = [] then None else Some (Min (set xs)))"
proof (cases xs)
  case (Cons x xs)
  then show ?thesis by (simp only: iter_min_Cons) simp
qed (simp add: iter_min_def)

section \<open>Correctness of the operations\<close>

definition expired :: "u64 \<Rightarrow> ('c, 'd) timer_entry \<Rightarrow> bool" where
  "expired now e \<longleftrightarrow> te_deadline e \<le> now"

definition fire :: "('c \<Rightarrow> 'd \<Rightarrow> 'w \<Rightarrow> 'w) \<Rightarrow> ('c, 'd) timer_entry \<Rightarrow> 'w \<Rightarrow> 'w" where
  "fire call e w = call (te_callback e) (te_data e) w"

text \<open>The loop of \<open>dequeue_expired\<close>: it ends, and fires exactly the expired entries.\<close>

lemma dequeue_from_ok:
  assumes bv: "bounded_vec V N"
    and "\<forall>j<i. \<not> expired now (vec_items V q ! j)" "i \<le> length (vec_items V q)"
  shows "\<exists>q' fired. dequeue_from V call now i q w = Some (Inr (q', fold (fire call) fired w))
    \<and> (\<forall>e\<in>set fired. expired now e) \<and> (\<forall>e\<in>set (vec_items V q'). \<not> expired now e)
    \<and> mset fired + mset (vec_items V q') = mset (vec_items V q)"
  using assms(2,3)
proof (induction "length (vec_items V q) + (length (vec_items V q) - i)" arbitrary: i q w rule: less_induct)
  case less
  let ?xs = "vec_items V q"
  show ?case
  proof (cases "i < length ?xs")
    case False
    then have "dequeue_from V call now i q w = Some (Inr (q, fold (fire call) [] w))"
      by (simp add: dequeue_from.simps)
    moreover have "\<forall>e\<in>set ?xs. \<not> expired now e"
      using less.prems False by (auto simp: in_set_conv_nth)
    ultimately show ?thesis by (intro exI [of _ q] exI [of _ "[]"]) simp
  next
    case i: True
    show ?thesis
    proof (cases "expired now (?xs ! i)")
      case False
      have run: "dequeue_from V call now i q w = dequeue_from V call now (Suc i) q w"
        using i False by (subst dequeue_from.simps) (simp add: expired_def)
      show ?thesis
        unfolding run using less.prems False i by (intro less.hyps) (auto simp: less_Suc_eq)
    next
      case True
      obtain q1 where q1: "vec_swap_remove V q i = Some (?xs ! i, q1)" "vec_items V q1 = swap_removed i ?xs"
        using bounded_vec.swap_remove_ok [OF bv i] by blast
      have run: "dequeue_from V call now i q w = dequeue_from V call now i q1 (fire call (?xs ! i) w)"
        using i True q1(1) by (subst dequeue_from.simps) (simp add: expired_def fire_def)
      have "\<forall>j<i. \<not> expired now (vec_items V q1 ! j)"
        using less.prems(1) i by (simp add: q1(2) nth_swap_removed)
      moreover have "i \<le> length (vec_items V q1)" using i by (simp add: q1(2))
      moreover have "length (vec_items V q1) + (length (vec_items V q1) - i)
          < length ?xs + (length ?xs - i)" using i by (simp add: q1(2))
      ultimately obtain q' fired where q': "dequeue_from V call now i q1 (fire call (?xs ! i) w)
            = Some (Inr (q', fold (fire call) fired (fire call (?xs ! i) w)))"
          "\<forall>e\<in>set fired. expired now e" "\<forall>e\<in>set (vec_items V q'). \<not> expired now e"
          "mset fired + mset (vec_items V q') = mset (vec_items V q1)"
        using less.hyps [of q1 i "fire call (?xs ! i) w"] by blast
      have "mset (?xs ! i # fired) + mset (vec_items V q') = mset ?xs"
        using q'(4) mset_swap_removed [OF i] by (simp add: q1(2))
      then show ?thesis
        unfolding run using q' True by (intro exI [of _ q'] exI [of _ "?xs ! i # fired"]) simp
    qed
  qed
qed

lemma split_by_expired:
  assumes "mset fired + mset rest = mset xs" "\<forall>e\<in>set fired. expired now e" "\<forall>e\<in>set rest. \<not> expired now e"
  shows "mset fired = filter_mset (expired now) (mset xs)" "mset rest = filter_mset (\<lambda>e. \<not> expired now e) (mset xs)"
proof -
  have "filter_mset (expired now) (mset fired) = mset fired" "filter_mset (expired now) (mset rest) = {#}"
    "filter_mset (\<lambda>e. \<not> expired now e) (mset fired) = {#}"
    "filter_mset (\<lambda>e. \<not> expired now e) (mset rest) = mset rest"
    using assms(2,3) by (auto simp flip: mset_filter simp: filter_id_conv filter_empty_conv)
  then show "mset fired = filter_mset (expired now) (mset xs)"
    "mset rest = filter_mset (\<lambda>e. \<not> expired now e) (mset xs)"
    unfolding assms(1) [symmetric] by simp_all
qed

text \<open>The loop of \<open>cancel\<close> finds the first entry with the data pointer.\<close>

lemma cancel_from_ok:
  assumes bv: "bounded_vec V N"
    and "\<forall>j<i. te_data (vec_items V q ! j) \<noteq> data" "i \<le> length (vec_items V q)"
  shows "cancel_from V data i q = Inr (False, q) \<and> data \<notin> te_data ` set (vec_items V q)
    \<or> (\<exists>e q'. cancel_from V data i q = Inr (True, q') \<and> te_data e = data
         \<and> mset (vec_items V q) = add_mset e (mset (vec_items V q')))"
  using assms(2,3)
proof (induction "length (vec_items V q) - i" arbitrary: i)
  case 0
  then have "data \<notin> te_data ` set (vec_items V q)" by (auto simp: in_set_conv_nth)
  then show ?case using 0 by (simp add: cancel_from.simps)
next
  case (Suc d)
  let ?xs = "vec_items V q"
  have i: "i < length ?xs" using Suc.hyps(2) by linarith
  show ?case
  proof (cases "te_data (?xs ! i) = data")
    case True
    obtain q' where q': "vec_swap_remove V q i = Some (?xs ! i, q')" "vec_items V q' = swap_removed i ?xs"
      using bounded_vec.swap_remove_ok [OF bv i] by blast
    then have "cancel_from V data i q = Inr (True, q')"
      using i True by (simp add: cancel_from.simps)
    moreover have "mset ?xs = add_mset (?xs ! i) (mset (vec_items V q'))"
      using mset_swap_removed [OF i] by (simp add: q'(2))
    ultimately show ?thesis using True by blast
  next
    case False
    then have run: "cancel_from V data i q = cancel_from V data (Suc i) q"
      using i by (subst cancel_from.simps) simp
    show ?thesis
      unfolding run using Suc.prems Suc.hyps(2) False i by (intro Suc.hyps(1)) (auto simp: less_Suc_eq)
  qed
qed

lemma min_deadline_eq:
  "min_deadline V q =
    (if vec_items V q = [] then None else Some (Min (te_deadline ` set (vec_items V q))))"
  by (simp add: min_deadline_def iter_min_eq)

text \<open>
   C26. \<open>dequeue_expired\<close> returns; it fires every entry whose deadline is not after \<open>now\<close> exactly
  once and keeps every other, and its result is the earliest deadline that is left, which is
  after \<open>now\<close>, or None if no entry is left.
\<close>

theorem dequeue_expired_fires_expired:
  assumes "bounded_vec V N"
  shows "\<exists>next q' fired. dequeue_expired V call now q w = Some (Inr (next, q', fold (fire call) fired w))
    \<and> mset fired = filter_mset (expired now) (mset (vec_items V q))
    \<and> mset (vec_items V q') = filter_mset (\<lambda>e. \<not> expired now e) (mset (vec_items V q))
    \<and> (case next of None \<Rightarrow> vec_items V q' = []
        | Some d \<Rightarrow> now < d \<and> d \<in> te_deadline ` set (vec_items V q') \<and> (\<forall>e\<in>set (vec_items V q'). d \<le> te_deadline e))"
proof -
  obtain q' fired where r: "dequeue_from V call now 0 q w = Some (Inr (q', fold (fire call) fired w))"
      "\<forall>e\<in>set fired. expired now e" "\<forall>e\<in>set (vec_items V q'). \<not> expired now e"
      "mset fired + mset (vec_items V q') = mset (vec_items V q)"
    using dequeue_from_ok [OF assms, of 0 now q call w] by auto
  have "dequeue_expired V call now q w = Some (Inr (min_deadline V q', q', fold (fire call) fired w))"
    by (simp add: dequeue_expired_def r(1))
  moreover have "case min_deadline V q' of None \<Rightarrow> vec_items V q' = []
      | Some d \<Rightarrow> now < d \<and> d \<in> te_deadline ` set (vec_items V q') \<and> (\<forall>e\<in>set (vec_items V q'). d \<le> te_deadline e)"
  proof (cases "vec_items V q' = []")
    case False
    let ?D = "te_deadline ` set (vec_items V q')"
    have "Min ?D \<in> ?D" using False by (intro Min_in) auto
    moreover from this have "now < Min ?D" using r(3) by (auto simp: expired_def)
    moreover have "\<forall>e\<in>set (vec_items V q'). Min ?D \<le> te_deadline e" by simp
    ultimately show ?thesis using False by (simp add: min_deadline_eq)
  qed (simp add: min_deadline_eq)
  ultimately show ?thesis using split_by_expired [OF r(4,2,3)] by blast
qed

definition demo_queue :: "(nat, nat) timer_entry list" where
  "demo_queue = map (\<lambda>d. \<lparr>te_deadline = d, te_callback = 0, te_data = unat d\<rparr>) [5, 20, 7]"

theorem dequeue_expired_fires_expired_witness:
  "\<exists>q' w. dequeue_expired (list_vec 4) (\<lambda>c d w. d # w) 10 demo_queue [] = Some (Inr (Some 20, q', w))
    \<and> map te_data (take 4 q') = [20]"
  using dequeue_expired_fires_expired [OF list_vec_bounded [of 4], of "\<lambda>c d w. d # w" 10 demo_queue "[]"]
  by (auto simp: demo_queue_def expired_def split: option.splits)

text \<open>The effect of \<open>try_schedule\<close>.\<close>

lemma try_schedule_ok:
  assumes "bounded_vec V N"
  shows "if length (vec_items V q) < N
    then \<exists>q' earliest. try_schedule V deadline callback data q = Inr (Inr earliest, q')
      \<and> mset (vec_items V q') = add_mset \<lparr>te_deadline = deadline, te_callback = callback, te_data = data\<rparr> (mset (vec_items V q))
      \<and> (earliest \<longleftrightarrow> (\<forall>e\<in>set (vec_items V q). deadline < te_deadline e))
    else try_schedule V deadline callback data q = Inr (Inl (), q)"
proof -
  let ?e = "\<lparr>te_deadline = deadline, te_callback = callback, te_data = data\<rparr>"
  show ?thesis
  proof (cases rule: bounded_vec.push_cases [OF assms, of q ?e, case_names room full])
    case (room q')
    let ?D = "te_deadline ` set (vec_items V q)"
    have "min_deadline V q' = Some (Min (insert deadline ?D))"
      by (simp add: min_deadline_eq room(3))
    moreover have "Min (insert deadline ?D) < Min ?D \<longleftrightarrow> (\<forall>d\<in>?D. deadline < d)" if "?D \<noteq> {}"
      using that by (simp add: Min_insert Min_gr_iff min_less_iff_disj)
    ultimately show ?thesis
      using room by (auto simp: try_schedule_def Let_def min_deadline_eq [of V q])
  next
    case full
    then show ?thesis by (simp add: try_schedule_def)
  qed
qed

text \<open>
   \<open>try_schedule\<close> adds the entry if there is room and leaves the queue alone if there is not;
  it asks for the hardware to be reprogrammed exactly if the new deadline is earlier than every
  deadline that was scheduled.
\<close>

theorem try_schedule_adds:
  assumes "bounded_vec V N"
  shows "if length (vec_items V q) < N
    then \<exists>q' earliest. try_schedule V deadline callback data q = Inr (Inr earliest, q')
      \<and> mset (vec_items V q') = add_mset \<lparr>te_deadline = deadline, te_callback = callback, te_data = data\<rparr> (mset (vec_items V q))
      \<and> (earliest \<longleftrightarrow> (\<forall>e\<in>set (vec_items V q). deadline < te_deadline e))
    else try_schedule V deadline callback data q = Inr (Inl (), q)"
  using try_schedule_ok [OF assms] .

theorem try_schedule_adds_witness:
  "(\<exists>q'. try_schedule (list_vec 4) 6 0 9 demo_queue = Inr (Inr False, q'))
   \<and> (\<exists>q'. try_schedule (list_vec 4) 3 0 9 demo_queue = Inr (Inr True, q'))
   \<and> try_schedule (list_vec 3) 3 0 9 demo_queue = Inr (Inl (), demo_queue)"
  using try_schedule_adds [OF list_vec_bounded [of 4], of demo_queue 6 0 9]
    try_schedule_adds [OF list_vec_bounded [of 4], of demo_queue 3 0 9]
    try_schedule_adds [OF list_vec_bounded [of 3], of demo_queue 3 0 9]
  by (auto simp: demo_queue_def)

text \<open>
   \<open>cancel\<close> removes one entry with the data pointer and reports it, or there is none and the
  queue is unchanged.
\<close>

theorem cancel_removes_one:
  assumes "bounded_vec V N"
  shows "if data \<in> te_data ` set (vec_items V q)
    then \<exists>e q'. cancel V data q = Inr (True, q') \<and> te_data e = data
      \<and> mset (vec_items V q) = add_mset e (mset (vec_items V q'))
    else cancel V data q = Inr (False, q)"
  using cancel_from_ok [OF assms, of 0 q data]
  by (force simp: cancel_def dest: arg_cong [where f = set_mset])

theorem cancel_removes_one_witness:
  "(\<exists>q'. cancel (list_vec 4) 20 demo_queue = Inr (True, q'))
   \<and> cancel (list_vec 4) 21 demo_queue = Inr (False, demo_queue)"
  using cancel_removes_one [OF list_vec_bounded [of 4], of 20 demo_queue]
    cancel_removes_one [OF list_vec_bounded [of 4], of 21 demo_queue]
  by (auto simp: demo_queue_def)

end
