(* ===== verification/DelayFuture.thy ===== *)
theory DelayFuture
  imports TimerQueue
begin

text \<open>
  \<open>modules/futures/src/timer.rs\<close>: delays on the global timer queue.  A delay lives at an address
  while its future is pinned; \<open>td_waker\<close> is the memory that the data pointer of its queue entry
  points to, and reading it after the delay is gone is undefined behaviour.  The timer device is
  its compare register, and the value of its counter is an argument of each operation
  (\<open>now\<close>).  The operations are stated for any queue of entries; the locale \<open>deadline_queue\<close> is
  what they need of it.
\<close>

section \<open>State\<close>

datatype timer_callback = WakeTrampoline

type_synonym waker_id = nat

record delay =
  td_deadline :: u64
  td_registered :: bool
  td_waker :: "waker_id option"

record 'v timer_sys =
  sys_queue :: 'v
  sys_compare :: u64
  sys_delays :: "nat \<Rightarrow> delay option"

type_synonym 'v entry_api = "((timer_callback, nat) timer_entry, 'v) vec_api"

section \<open>Operations\<close>

text \<open>\<open>after\<close>: the product is taken in \<open>u128\<close>, the quotient truncated to \<open>u64\<close>.\<close>

definition after :: "u32 \<Rightarrow> u64 \<Rightarrow> u64 \<Rightarrow> delay" where
  "after freq_hz now duration =
     (let hw_freq = (ucast freq_hz :: 128 word);
          ticks = (ucast ((ucast duration * hw_freq) div 1000000000) :: u64);
          deadline = saturating_add now ticks
      in \<lparr>td_deadline = deadline, td_registered = False, td_waker = None\<rparr>)"

definition set_deadline :: "u64 \<Rightarrow> 'v timer_sys \<Rightarrow> 'v timer_sys" where
  "set_deadline d s = s\<lparr>sys_compare := d\<rparr>"

definition put_delay :: "nat \<Rightarrow> delay \<Rightarrow> 'v timer_sys \<Rightarrow> 'v timer_sys" where
  "put_delay a d s = s\<lparr>sys_delays := (sys_delays s)(a \<mapsto> d)\<rparr>"

text \<open>
  \<open>TimerDelay::poll\<close>.  Its three effects (storing the waker and scheduling; programming the
  compare register; setting \<open>registered\<close>) are separate, since an interrupt may be taken between
  them: \<open>delay_schedule\<close>, \<open>delay_arm\<close> and \<open>delay_mark\<close>.
\<close>

definition delay_schedule ::
  "'v entry_api \<Rightarrow> nat \<Rightarrow> delay \<Rightarrow> waker_id \<Rightarrow> 'v timer_sys \<Rightarrow> (bool \<times> 'v timer_sys) result" where
  "delay_schedule V a d w s =
     rbind (schedule V (td_deadline d) WakeTrampoline a (sys_queue s)) (\<lambda>(is_earliest, q).
       Inr (is_earliest, (put_delay a (d\<lparr>td_waker := Some w\<rparr>) s)\<lparr>sys_queue := q\<rparr>))"

definition delay_arm :: "bool \<Rightarrow> delay \<Rightarrow> 'v timer_sys \<Rightarrow> 'v timer_sys" where
  "delay_arm is_earliest d s = (if is_earliest then set_deadline (td_deadline d) s else s)"

definition delay_mark :: "nat \<Rightarrow> delay \<Rightarrow> waker_id \<Rightarrow> 'v timer_sys \<Rightarrow> 'v timer_sys" where
  "delay_mark a d w s = put_delay a (d\<lparr>td_waker := Some w, td_registered := True\<rparr>) s"

definition delay_poll ::
  "'v entry_api \<Rightarrow> nat \<Rightarrow> u64 \<Rightarrow> waker_id \<Rightarrow> 'v timer_sys \<Rightarrow> (bool \<times> 'v timer_sys) result" where
  "delay_poll V a now w s =
     (case sys_delays s a of
        None \<Rightarrow> Inl UndefinedBehaviour
      | Some d \<Rightarrow>
          if td_deadline d \<le> now then Inr (True, put_delay a (d\<lparr>td_registered := False\<rparr>) s)
          else if \<not> td_registered d then
            rbind (delay_schedule V a d w s) (\<lambda>(is_earliest, s').
              Inr (False, delay_mark a d w (delay_arm is_earliest d s')))
          else Inr (False, s))"

text \<open>\<open>TimerDelay::drop\<close>; the memory is gone afterwards.\<close>

definition delay_drop ::
  "'v entry_api \<Rightarrow> nat \<Rightarrow> 'v timer_sys \<Rightarrow> 'v timer_sys result" where
  "delay_drop V a s =
     (case sys_delays s a of
        None \<Rightarrow> Inl UndefinedBehaviour
      | Some d \<Rightarrow>
          rbind (if td_registered d then cancel V a (sys_queue s) else Inr (False, sys_queue s))
            (\<lambda>(found, q). Inr (s\<lparr>sys_queue := q, sys_delays := (sys_delays s)(a := None)\<rparr>)))"

text \<open>The world a callback acts on: the wakers it woke, in order.\<close>

definition wake_trampoline ::
  "(nat \<Rightarrow> delay option) \<Rightarrow> timer_callback \<Rightarrow> nat \<Rightarrow> waker_id list result \<Rightarrow> waker_id list result" where
  "wake_trampoline delays cb a woken =
     rbind woken (\<lambda>ws. case delays a of
       None \<Rightarrow> Inl UndefinedBehaviour
     | Some d \<Rightarrow> (case td_waker d of None \<Rightarrow> Inr ws | Some w \<Rightarrow> Inr (ws @ [w])))"

definition handle_timer_isr ::
  "'v entry_api \<Rightarrow> u64 \<Rightarrow> 'v timer_sys \<Rightarrow> (waker_id list \<times> 'v timer_sys) result option" where
  "handle_timer_isr V now s =
     (let s1 = set_deadline (- 1) s in
      map_option (\<lambda>r. rbind r (\<lambda>(next, q, woken). rbind woken (\<lambda>ws.
          let s2 = s1\<lparr>sys_queue := q\<rparr> in
          Inr (ws, case next of None \<Rightarrow> s2 | Some d \<Rightarrow> set_deadline d s2))))
        (dequeue_expired V (wake_trampoline (sys_delays s1)) now (sys_queue s1) (Inr [])))"

section \<open>Invariants\<close>

text \<open>
  The timer is armed: the compare register is not after any deadline in the queue, so the
  interrupt comes in time.  The queue is linked to the delays: every entry belongs to a delay
  that is alive and registered, with the entry's deadline and a waker.
\<close>

definition armed :: "'v entry_api \<Rightarrow> 'v timer_sys \<Rightarrow> bool" where
  "armed V s \<longleftrightarrow> (\<forall>x\<in>set (vec_items V (sys_queue s)). sys_compare s \<le> te_deadline x)"

definition entry_linked :: "(nat \<Rightarrow> delay option) \<Rightarrow> (timer_callback, nat) timer_entry \<Rightarrow> bool" where
  "entry_linked delays x \<longleftrightarrow> (case delays (te_data x) of None \<Rightarrow> False
     | Some d \<Rightarrow> td_registered d \<and> td_deadline d = te_deadline x \<and> td_waker d \<noteq> None)"

definition linked :: "'v entry_api \<Rightarrow> 'v timer_sys \<Rightarrow> bool" where
  "linked V s \<longleftrightarrow> distinct (map te_data (vec_items V (sys_queue s)))
     \<and> (\<forall>x\<in>set (vec_items V (sys_queue s)). entry_linked (sys_delays s) x)"

definition entry_waker :: "(nat \<Rightarrow> delay option) \<Rightarrow> (timer_callback, nat) timer_entry \<Rightarrow> waker_id" where
  "entry_waker delays x = the (td_waker (the (delays (te_data x))))"

text \<open>What the interrupt handler reads: the memory is there, and has a waker in it.\<close>

definition entry_alive :: "(nat \<Rightarrow> delay option) \<Rightarrow> (timer_callback, nat) timer_entry \<Rightarrow> bool" where
  "entry_alive delays x \<longleftrightarrow> (case delays (te_data x) of None \<Rightarrow> False | Some d \<Rightarrow> td_waker d \<noteq> None)"

lemma linked_alive: "entry_linked delays x \<Longrightarrow> entry_alive delays x"
  by (simp add: entry_linked_def entry_alive_def split: option.splits)

lemma wake_all:
  "\<forall>x\<in>set fired. entry_alive delays x \<Longrightarrow>
    fold (fire (wake_trampoline delays)) fired (Inr ws) = Inr (ws @ map (entry_waker delays) fired)"
proof (induction fired arbitrary: ws)
  case (Cons x xs)
  then have "fire (wake_trampoline delays) x (Inr ws) = Inr (ws @ [entry_waker delays x])"
    by (auto simp: fire_def wake_trampoline_def entry_alive_def entry_waker_def split: option.splits)
  then show ?case using Cons by simp
qed simp

lemma distinct_map_mset:
  assumes "mset xs = mset ys" "distinct (map f ys)"
  shows "distinct (map f xs)"
proof -
  have "mset (map f xs) = mset (map f ys)" using assms(1) by simp
  then show ?thesis using assms(2) by (metis mset_eq_imp_distinct_iff)
qed

section \<open>What the delays need of the queue\<close>

text \<open>The contract of a deadline queue over the multiset of its entries.\<close>

locale deadline_queue =
  fixes V :: "'v entry_api" and room :: "'v \<Rightarrow> bool"
  assumes schedule_law: "room q \<Longrightarrow> \<exists>q' e. schedule V d WakeTrampoline a q = Inr (e, q')
      \<and> mset (vec_items V q') = add_mset \<lparr>te_deadline = d, te_callback = WakeTrampoline, te_data = a\<rparr> (mset (vec_items V q))
      \<and> (e \<longleftrightarrow> (\<forall>x\<in>set (vec_items V q). d < te_deadline x))"
    and cancel_law: "(a \<notin> te_data ` set (vec_items V q) \<and> cancel V a q = Inr (False, q))
      \<or> (\<exists>x q'. cancel V a q = Inr (True, q') \<and> te_data x = a
          \<and> mset (vec_items V q) = add_mset x (mset (vec_items V q')))"
    and dequeue_law: "\<exists>q' fired. dequeue_expired V (wake_trampoline delays) now q (Inr [])
        = Some (Inr (min_deadline V q', q', fold (fire (wake_trampoline delays)) fired (Inr ([] :: waker_id list))))
      \<and> mset fired = filter_mset (expired now) (mset (vec_items V q))
      \<and> mset (vec_items V q') = filter_mset (\<lambda>x. \<not> expired now x) (mset (vec_items V q))"
begin

lemma isr_fires:
  fixes s :: "'v timer_sys"
  assumes alive: "\<forall>x\<in>set (vec_items V (sys_queue s)). entry_alive (sys_delays s) x"
  shows "\<exists>ws s'. handle_timer_isr V now s = Some (Inr (ws, s')) \<and> armed V s' \<and> sys_delays s' = sys_delays s
    \<and> mset ws = image_mset (entry_waker (sys_delays s)) (filter_mset (expired now) (mset (vec_items V (sys_queue s))))
    \<and> mset (vec_items V (sys_queue s')) = filter_mset (\<lambda>x. \<not> expired now x) (mset (vec_items V (sys_queue s)))"
proof -
  let ?D = "sys_delays s"
  obtain q' fired where q': "dequeue_expired V (wake_trampoline ?D) now (sys_queue s) (Inr [])
        = Some (Inr (min_deadline V q', q', fold (fire (wake_trampoline ?D)) fired (Inr [])))"
      "mset fired = filter_mset (expired now) (mset (vec_items V (sys_queue s)))"
      "mset (vec_items V q') = filter_mset (\<lambda>x. \<not> expired now x) (mset (vec_items V (sys_queue s)))"
    using dequeue_law by blast
  have "\<forall>x\<in>set fired. entry_alive ?D x" using alive arg_cong [OF q'(2), of set_mset] by auto
  then have wake: "fold (fire (wake_trampoline ?D)) fired (Inr []) = Inr (map (entry_waker ?D) fired)"
    by (simp add: wake_all)
  define s' where "s' = (set_deadline (- 1) s)\<lparr>sys_queue := q',
    sys_compare := (case min_deadline V q' of None \<Rightarrow> - 1 | Some d \<Rightarrow> d)\<rparr>"
  have run: "handle_timer_isr V now s = Some (Inr (map (entry_waker ?D) fired, s'))"
    by (simp add: handle_timer_isr_def q'(1) wake s'_def set_deadline_def Let_def split: option.splits)
  have "armed V s'"
    by (auto simp: armed_def s'_def min_deadline_eq)
  moreover have "sys_delays s' = ?D" "sys_queue s' = q'" by (simp_all add: s'_def set_deadline_def)
  ultimately show ?thesis using run q'(2,3) by auto
qed

lemma isr_wakes:
  fixes s :: "'v timer_sys"
  assumes "linked V s"
  shows "\<exists>ws s'. handle_timer_isr V now s = Some (Inr (ws, s')) \<and> armed V s' \<and> linked V s'
    \<and> mset ws = image_mset (entry_waker (sys_delays s)) (filter_mset (expired now) (mset (vec_items V (sys_queue s))))
    \<and> mset (vec_items V (sys_queue s')) = filter_mset (\<lambda>x. \<not> expired now x) (mset (vec_items V (sys_queue s)))"
proof -
  have "\<forall>x\<in>set (vec_items V (sys_queue s)). entry_alive (sys_delays s) x"
    using assms by (auto simp: linked_def intro: linked_alive)
  from isr_fires [OF this, of now]
  obtain ws s' where r: "handle_timer_isr V now s = Some (Inr (ws, s'))" "armed V s'" "sys_delays s' = sys_delays s"
      "mset ws = image_mset (entry_waker (sys_delays s)) (filter_mset (expired now) (mset (vec_items V (sys_queue s))))"
      "mset (vec_items V (sys_queue s')) = filter_mset (\<lambda>x. \<not> expired now x) (mset (vec_items V (sys_queue s)))"
    by blast
  have "mset (vec_items V (sys_queue s')) = mset (filter (\<lambda>x. \<not> expired now x) (vec_items V (sys_queue s)))"
    using r(5) by simp
  then have "distinct (map te_data (vec_items V (sys_queue s')))"
    by (rule distinct_map_mset) (use assms in \<open>simp add: linked_def distinct_map_filter\<close>)
  moreover have "set (vec_items V (sys_queue s')) \<subseteq> set (vec_items V (sys_queue s))"
    using arg_cong [OF r(5), of set_mset] by auto
  ultimately have "linked V s'" using assms r(3) by (auto simp: linked_def)
  then show ?thesis using r by blast
qed

lemma poll_keeps_armed:
  fixes s :: "'v timer_sys"
  assumes "armed V s" "linked V s" "room (sys_queue s)"
    and "sys_delays s a = Some d" "\<not> td_registered d" "now < td_deadline d"
  shows "\<exists>s'. delay_poll V a now w s = Inr (False, s') \<and> armed V s' \<and> linked V s'
    \<and> mset (vec_items V (sys_queue s')) = add_mset \<lparr>te_deadline = td_deadline d, te_callback = WakeTrampoline,
        te_data = a\<rparr> (mset (vec_items V (sys_queue s)))
    \<and> sys_delays s' a = Some (d\<lparr>td_waker := Some w, td_registered := True\<rparr>)"
proof -
  let ?e = "\<lparr>te_deadline = td_deadline d, te_callback = WakeTrampoline, te_data = a\<rparr>"
  obtain q' e where q': "schedule V (td_deadline d) WakeTrampoline a (sys_queue s) = Inr (e, q')"
      "mset (vec_items V q') = add_mset ?e (mset (vec_items V (sys_queue s)))"
      "e \<longleftrightarrow> (\<forall>x\<in>set (vec_items V (sys_queue s)). td_deadline d < te_deadline x)"
    using schedule_law [OF assms(3), of "td_deadline d" a] by blast
  let ?d = "d\<lparr>td_waker := Some w, td_registered := True\<rparr>"
  define s' where "s' = delay_mark a d w (delay_arm e d ((put_delay a (d\<lparr>td_waker := Some w\<rparr>) s)\<lparr>sys_queue := q'\<rparr>))"
  have s': "sys_queue s' = q'" "sys_delays s' = (sys_delays s)(a \<mapsto> ?d)"
      "sys_compare s' = (if e then td_deadline d else sys_compare s)"
    by (simp_all add: s'_def delay_mark_def delay_arm_def put_delay_def set_deadline_def)
  have run: "delay_poll V a now w s = Inr (False, s')"
    using assms(4-6) q'(1) by (simp add: delay_poll_def delay_schedule_def s'_def)
  have set: "set (vec_items V q') = insert ?e (set (vec_items V (sys_queue s)))"
    using arg_cong [OF q'(2), of set_mset] by simp
  have fresh: "a \<notin> te_data ` set (vec_items V (sys_queue s))"
    using assms(2,4,5) by (auto simp: linked_def entry_linked_def)
  have "armed V s'"
  proof (cases e)
    case True
    then show ?thesis using q'(3) by (auto simp: armed_def s' set intro: less_imp_le)
  next
    case False
    then obtain x where "x \<in> set (vec_items V (sys_queue s))" "te_deadline x \<le> td_deadline d"
      using q'(3) by (auto simp: not_less)
    then have "sys_compare s \<le> td_deadline d" using assms(1) by (auto simp: armed_def intro: order.trans)
    then show ?thesis using assms(1) False by (auto simp: armed_def s' set)
  qed
  moreover have "distinct (map te_data (vec_items V q'))"
    using assms(2) fresh distinct_map_mset [of "vec_items V q'" "?e # vec_items V (sys_queue s)" te_data] q'(2)
    by (simp add: linked_def)
  then have "linked V s'"
    using assms(2) fresh by (auto simp: linked_def s' set entry_linked_def image_iff)
  ultimately show ?thesis using run s' q'(2) by auto
qed

lemma drop_unlinks:
  fixes s :: "'v timer_sys"
  assumes "armed V s" "linked V s" "sys_delays s a = Some d"
  shows "\<exists>s'. delay_drop V a s = Inr s' \<and> armed V s' \<and> linked V s' \<and> sys_delays s' a = None
    \<and> a \<notin> te_data ` set (vec_items V (sys_queue s'))"
proof -
  consider (none) "a \<notin> te_data ` set (vec_items V (sys_queue s))" "cancel V a (sys_queue s) = Inr (False, sys_queue s)"
    | (one) x q' where "cancel V a (sys_queue s) = Inr (True, q')" "te_data x = a"
        "mset (vec_items V (sys_queue s)) = add_mset x (mset (vec_items V q'))"
    using cancel_law [of a "sys_queue s"] by blast
  then show ?thesis
  proof cases
    case none
    define s' where "s' = s\<lparr>sys_queue := sys_queue s, sys_delays := (sys_delays s)(a := None)\<rparr>"
    have "delay_drop V a s = Inr s'" using assms(3) none(2) by (simp add: delay_drop_def s'_def)
    then show ?thesis
      using assms none(1) by (intro exI [of _ s']) (auto simp: s'_def armed_def linked_def entry_linked_def image_iff)
  next
    case (one x q')
    define s' where "s' = s\<lparr>sys_queue := q', sys_delays := (sys_delays s)(a := None)\<rparr>"
    have set: "set (vec_items V (sys_queue s)) = insert x (set (vec_items V q'))"
      using arg_cong [OF one(3), of set_mset] by simp
    then have "td_registered d" using assms(2,3) one(2) by (auto simp: linked_def entry_linked_def)
    then have run: "delay_drop V a s = Inr s'" using assms(3) one(1) by (simp add: delay_drop_def s'_def)
    have "distinct (map te_data (x # vec_items V q'))"
      using assms(2) one(3) distinct_map_mset [of "x # vec_items V q'" "vec_items V (sys_queue s)" te_data]
      by (simp add: linked_def)
    then have d: "distinct (map te_data (vec_items V q'))" "a \<notin> te_data ` set (vec_items V q')"
      using one(2) by simp_all
    have "linked V s'"
      using assms(2) d set by (auto simp: linked_def s'_def entry_linked_def image_iff)
    moreover have "armed V s'" using assms(1) set by (simp add: armed_def s'_def)
    ultimately show ?thesis using run d by (intro exI [of _ s']) (simp add: s'_def)
  qed
qed

end

text \<open>A queue on a bounded vector provides the contract.\<close>

lemma vec_deadline_queue:
  assumes bv: "bounded_vec V N"
  shows "deadline_queue V (\<lambda>q. length (vec_items V q) < N)"
proof
  fix q d and a :: nat
  let ?e = "\<lparr>te_deadline = d, te_callback = WakeTrampoline, te_data = a\<rparr>"
  assume "length (vec_items V q) < N"
  with try_schedule_ok [OF bv, of q d WakeTrampoline a]
  show "\<exists>q' e. schedule V d WakeTrampoline a q = Inr (e, q')
      \<and> mset (vec_items V q') = add_mset ?e (mset (vec_items V q))
      \<and> (e \<longleftrightarrow> (\<forall>x\<in>set (vec_items V q). d < te_deadline x))"
    by (auto simp: schedule_def)
next
  fix a :: nat and q
  show "(a \<notin> te_data ` set (vec_items V q) \<and> cancel V a q = Inr (False, q))
      \<or> (\<exists>x q'. cancel V a q = Inr (True, q') \<and> te_data x = a
          \<and> mset (vec_items V q) = add_mset x (mset (vec_items V q')))"
    using cancel_from_ok [OF bv, of 0 q a] by (auto simp: cancel_def)
next
  fix delays :: "nat \<Rightarrow> delay option" and now q
  let ?call = "wake_trampoline delays" and ?w = "Inr ([] :: waker_id list)"
  obtain q' fired where r: "dequeue_from V ?call now 0 q ?w = Some (Inr (q', fold (fire ?call) fired ?w))"
      "\<forall>e\<in>set fired. expired now e" "\<forall>e\<in>set (vec_items V q'). \<not> expired now e"
      "mset fired + mset (vec_items V q') = mset (vec_items V q)"
    using dequeue_from_ok [OF bv, of 0 now q ?call ?w] by auto
  show "\<exists>q' fired. dequeue_expired V ?call now q ?w = Some (Inr (min_deadline V q', q', fold (fire ?call) fired ?w))
      \<and> mset fired = filter_mset (expired now) (mset (vec_items V q))
      \<and> mset (vec_items V q') = filter_mset (\<lambda>x. \<not> expired now x) (mset (vec_items V q))"
    using split_by_expired [OF r(4,2,3)] r(1) by (auto simp: dequeue_expired_def)
qed

interpretation dq: deadline_queue "list_vec n" "\<lambda>q. length (take n q) < n"
  using vec_deadline_queue [OF list_vec_bounded] by simp

section \<open>Properties\<close>

text \<open>
   A delay is as long as its duration rounded down to ticks: for a product that has a
  quotient of 64 bits, the deadline is the current tick plus duration times frequency over
  10^9, capped at the largest tick.
\<close>

theorem after_deadline:
  assumes "unat duration * unat freq_hz div 1000000000 < 2 ^ 64"
  shows "unat (td_deadline (after freq_hz now duration))
    = min (unat now + unat duration * unat freq_hz div 1000000000) (2 ^ 64 - 1)"
proof -
  let ?a = "ucast duration :: 128 word" and ?b = "ucast freq_hz :: 128 word"
  have less: "unat duration < 2 ^ 64" "unat freq_hz < 2 ^ 32"
    using unsigned_less [of duration, where ?'a = nat] unsigned_less [of freq_hz, where ?'a = nat] by simp_all
  then have ab: "unat ?a = unat duration" "unat ?b = unat freq_hz"
    by (simp_all add: unsigned_ucast_eq take_bit_nat_eq_self)
  from less have "unat duration * unat freq_hz < 2 ^ 64 * 2 ^ 32"
    by (intro mult_strict_mono) auto
  then have prod: "unat (?a * ?b) = unat duration * unat freq_hz"
    by (simp add: unat_mult_lem [THEN iffD1] ab)
  have "unat ((?a * ?b) div 1000000000) = unat duration * unat freq_hz div 1000000000"
    by (simp add: unat_div_distrib prod)
  then have "unat (ucast ((?a * ?b) div 1000000000) :: u64) = unat duration * unat freq_hz div 1000000000"
    using assms by (simp add: unsigned_ucast_eq take_bit_nat_eq_self)
  then show ?thesis by (simp add: after_def Let_def unat_saturating_add)
qed

theorem after_deadline_witness:
  "unat (td_deadline (after 10000000 500 1000000)) = 10500"
  using after_deadline [of 1000000 10000000 500] by simp

text \<open>
   C19. In every state in which each entry of the queue belongs to a delay of its own that is still there,
  registered, with the entry's deadline and a waker (\<open>linked\<close>), and with any number of tasks: the timer interrupt returns and wakes exactly
  the delays that are due, each once; the entries that are not due are kept, each belongs to its
  delay still, and the compare register is at or before every deadline that is left.
\<close>

theorem timer_isr_wakes_due:
  assumes "bounded_vec V N" "linked V s"
  shows "\<exists>ws s'. handle_timer_isr V now s = Some (Inr (ws, s')) \<and> armed V s' \<and> linked V s'
    \<and> mset ws = image_mset (entry_waker (sys_delays s)) (filter_mset (expired now) (mset (vec_items V (sys_queue s))))
    \<and> mset (vec_items V (sys_queue s')) = filter_mset (\<lambda>x. \<not> expired now x) (mset (vec_items V (sys_queue s)))"
  by (rule deadline_queue.isr_wakes [OF vec_deadline_queue [OF assms(1)] assms(2)])

text \<open>
   The first poll of a delay that is not due registers it and leaves the timer armed: an
  uninterrupted poll never loses a deadline, its own or an earlier one.
\<close>

theorem delay_poll_keeps_armed:
  assumes "bounded_vec V N" "armed V s" "linked V s" "length (vec_items V (sys_queue s)) < N"
    and "sys_delays s a = Some d" "\<not> td_registered d" "now < td_deadline d"
  shows "\<exists>s'. delay_poll V a now w s = Inr (False, s') \<and> armed V s' \<and> linked V s'
    \<and> mset (vec_items V (sys_queue s')) = add_mset \<lparr>te_deadline = td_deadline d, te_callback = WakeTrampoline,
        te_data = a\<rparr> (mset (vec_items V (sys_queue s)))
    \<and> sys_delays s' a = Some (d\<lparr>td_waker := Some w, td_registered := True\<rparr>)"
  by (rule deadline_queue.poll_keeps_armed [OF vec_deadline_queue [OF assms(1)] assms(2-7)])

text \<open>
   Dropping a delay while the queue is linked to the delays takes its entry out of the queue,
  so no data pointer dangles.
\<close>

theorem delay_drop_cancels:
  assumes "bounded_vec V N" "armed V s" "linked V s" "sys_delays s a = Some d"
  shows "\<exists>s'. delay_drop V a s = Inr s' \<and> armed V s' \<and> linked V s' \<and> sys_delays s' a = None
    \<and> a \<notin> te_data ` set (vec_items V (sys_queue s'))"
  by (rule deadline_queue.drop_unlinks [OF vec_deadline_queue [OF assms(1)] assms(2-4)])

text \<open>One registered delay, due at 50, and an unregistered one.\<close>

definition fresh_delay :: "u64 \<Rightarrow> delay" where
  "fresh_delay d = \<lparr>td_deadline = d, td_registered = False, td_waker = None\<rparr>"

definition demo_sys :: "(timer_callback, nat) timer_entry list timer_sys" where
  "demo_sys = \<lparr>sys_queue = [\<lparr>te_deadline = 50, te_callback = WakeTrampoline, te_data = 2\<rparr>], sys_compare = 50,
     sys_delays = [1 \<mapsto> fresh_delay 100, 2 \<mapsto> \<lparr>td_deadline = 50, td_registered = True, td_waker = Some 8\<rparr>]\<rparr>"

lemma demo_sys_ok: "armed (list_vec 16) demo_sys" "linked (list_vec 16) demo_sys"
  by (simp_all add: demo_sys_def armed_def linked_def entry_linked_def)

theorem timer_isr_wakes_due_witness:
  "\<exists>s'. handle_timer_isr (list_vec 16) 60 demo_sys = Some (Inr ([8], s')) \<and> sys_queue s' = []"
  using timer_isr_wakes_due [OF list_vec_bounded demo_sys_ok(2), of 60]
  by (auto simp: demo_sys_def expired_def entry_waker_def)

theorem delay_poll_keeps_armed_witness:
  "\<exists>s'. delay_poll (list_vec 16) 1 10 7 demo_sys = Inr (False, s') \<and> armed (list_vec 16) s'"
  using delay_poll_keeps_armed [OF list_vec_bounded demo_sys_ok, of 1 "fresh_delay 100" 10 7]
  by (auto simp: demo_sys_def fresh_delay_def)

theorem delay_drop_cancels_witness:
  "\<exists>s'. delay_drop (list_vec 16) 2 demo_sys = Inr s' \<and> 2 \<notin> te_data ` set (vec_items (list_vec 16) (sys_queue s'))"
  using delay_drop_cancels [OF list_vec_bounded demo_sys_ok, of 2 "\<lparr>td_deadline = 50, td_registered = True, td_waker = Some 8\<rparr>"]
  by (auto simp: demo_sys_def)

section \<open>Two runs that go wrong\<close>

definition two_delays :: "(timer_callback, nat) timer_entry list timer_sys" where
  "two_delays = \<lparr>sys_queue = [], sys_compare = - 1,
     sys_delays = [1 \<mapsto> fresh_delay 100, 2 \<mapsto> fresh_delay 50]\<rparr>"

text \<open>
   Scheduling an entry and programming the compare register are not atomic.  If the poll of
  delay 1 (deadline 100) is preempted between the two by the poll of delay 2 (deadline 50), it
  overwrites the compare register with the later deadline: the interrupt for deadline 50 comes
  at 100.
\<close>

theorem preempted_poll_disarms:
  "(case delay_schedule (list_vec 16) 1 (fresh_delay 100) 7 two_delays of
      Inl err \<Rightarrow> False
    | Inr (e1, s1) \<Rightarrow>
        (case delay_poll (list_vec 16) 2 10 8 s1 of
           Inl err \<Rightarrow> False
         | Inr (r, s2) \<Rightarrow> sys_compare s2 = 50 \<and> armed (list_vec 16) s2 \<and>
             (let s3 = delay_mark 1 (fresh_delay 100) 7 (delay_arm e1 (fresh_delay 100) s2)
              in sys_compare s3 = 100 \<and> \<not> armed (list_vec 16) s3 \<and> linked (list_vec 16) s3)))"
  by code_simp

text \<open>
   A delay that finds itself due while its entry is still queued (the interrupt has not been
  served yet) marks itself unregistered, so dropping it does not cancel the entry: the interrupt
  then reads the waker of a future that is gone.
\<close>

theorem due_poll_leaves_dangling_entry:
  "(case delay_poll (list_vec 16) 2 10 8 two_delays of
      Inl err \<Rightarrow> False
    | Inr (r1, s1) \<Rightarrow> linked (list_vec 16) s1 \<and>
        (case delay_poll (list_vec 16) 2 50 8 s1 of
           Inl err \<Rightarrow> False
         | Inr (r2, s2) \<Rightarrow> r2 \<and>
             (case delay_drop (list_vec 16) 2 s2 of
                Inl err \<Rightarrow> False
              | Inr s3 \<Rightarrow> map te_data (sys_queue s3) = [2] \<and> sys_delays s3 2 = None
                  \<and> (case handle_timer_isr (list_vec 16) 60 s3 of
                       Some (Inl err) \<Rightarrow> err = UndefinedBehaviour | _ \<Rightarrow> False))))"
  by code_simp

end
