(* ===== verification/AsyncMutex.thy ===== *)
theory AsyncMutex
  imports Containers
begin

text \<open>
  \<open>modules/futures/src/mutex.rs\<close>: the async mutex.  Waiters are pointers to the \<open>waker\<close> field of
  pinned lock futures, here the addresses of the futures; reading a waker through the address of
  a future that is gone is undefined behaviour.  Each operation is the body of one
  \<open>critical_section::with\<close>.  \<open>ms_woken\<close> records the wakers that were woken, \<open>ms_guards\<close> counts
  the guards that are alive; the code has neither.
\<close>

section \<open>State and operations\<close>

record ('a, 'v) mutex_inner =
  mi_locked :: bool
  mi_value :: 'a
  mi_waiters :: 'v

record lock_future =
  lf_queued :: bool
  lf_waker :: "nat option"

record ('a, 'v) mutex_sys =
  ms_inner :: "('a, 'v) mutex_inner"
  ms_futures :: "nat \<Rightarrow> lock_future option"
  ms_woken :: "nat list"
  ms_guards :: nat

definition mutex_new :: "(nat, 'v) vec_api \<Rightarrow> 'a \<Rightarrow> ('a, 'v) mutex_inner" where
  "mutex_new V value = \<lparr>mi_locked = False, mi_value = value, mi_waiters = vec_new V\<rparr>"

definition mutex_lock :: lock_future where
  "mutex_lock = \<lparr>lf_queued = False, lf_waker = None\<rparr>"

text \<open>The result is whether the future is ready, and the new states of the mutex and the future.\<close>

definition lock_poll ::
  "(nat, 'v) vec_api \<Rightarrow> nat \<Rightarrow> nat \<Rightarrow> lock_future \<Rightarrow> ('a, 'v) mutex_inner \<Rightarrow>
   (bool \<times> lock_future \<times> ('a, 'v) mutex_inner) result" where
  "lock_poll V this cx f inner =
     (if \<not> mi_locked inner then
        let inner1 = inner\<lparr>mi_locked := True\<rparr> in
        if lf_queued f then
          Inr (True, f\<lparr>lf_waker := None\<rparr>,
               inner1\<lparr>mi_waiters := vec_retain V (mi_waiters inner1) (\<lambda>p. p \<noteq> this)\<rparr>)
        else Inr (True, f, inner1)
      else
        let f1 = f\<lparr>lf_waker := Some cx\<rparr> in
        if \<not> lf_queued f1 then
          (case vec_push V (mi_waiters inner) this of
             None \<Rightarrow> Inl CapacityExhausted
           | Some ws \<Rightarrow> Inr (False, f1\<lparr>lf_queued := True\<rparr>, inner\<lparr>mi_waiters := ws\<rparr>))
        else Inr (False, f1, inner))"

definition lock_future_drop ::
  "(nat, 'v) vec_api \<Rightarrow> nat \<Rightarrow> lock_future \<Rightarrow> ('a, 'v) mutex_inner \<Rightarrow> ('a, 'v) mutex_inner" where
  "lock_future_drop V self f inner =
     (if lf_queued f
      then inner\<lparr>mi_waiters := vec_retain V (mi_waiters inner) (\<lambda>p. p \<noteq> self)\<rparr>
      else inner)"

definition guard_deref :: "('a, 'v) mutex_inner \<Rightarrow> 'a" where
  "guard_deref inner = mi_value inner"

definition guard_deref_mut :: "('a \<Rightarrow> 'a) \<Rightarrow> ('a, 'v) mutex_inner \<Rightarrow> ('a, 'v) mutex_inner" where
  "guard_deref_mut g inner = inner\<lparr>mi_value := g (mi_value inner)\<rparr>"

text \<open>The result is the waker that is woken, if any.\<close>

definition guard_drop ::
  "(nat, 'v) vec_api \<Rightarrow> (nat \<Rightarrow> lock_future option) \<Rightarrow> ('a, 'v) mutex_inner \<Rightarrow>
   (nat option \<times> ('a, 'v) mutex_inner) result" where
  "guard_drop V futures inner =
     (let inner1 = inner\<lparr>mi_locked := False\<rparr> in
      if vec_items V (mi_waiters inner1) \<noteq> [] then
        (case vec_remove V (mi_waiters inner1) 0 of
           None \<Rightarrow> Inl IndexOutOfBounds
         | Some (ptr, ws) \<Rightarrow>
             (case futures ptr of
                None \<Rightarrow> Inl UndefinedBehaviour
              | Some f \<Rightarrow> Inr (lf_waker f, inner1\<lparr>mi_waiters := ws\<rparr>)))
      else Inr (None, inner1))"

section \<open>Runs\<close>

text \<open>
  Users of the mutex: create a lock future at a free address, poll one, drop one, drop a guard,
  or change the value through a guard.  An event that cannot happen gives None.
\<close>

datatype 'a mutex_event =
    Lock nat
  | PollLock nat nat
  | DropLock nat
  | DropGuard
  | Mutate "'a \<Rightarrow> 'a"

fun mutex_exec ::
  "(nat, 'v) vec_api \<Rightarrow> 'a mutex_event \<Rightarrow> ('a, 'v) mutex_sys \<Rightarrow> ('a, 'v) mutex_sys result option" where
  "mutex_exec V (Lock a) s =
     (case ms_futures s a of
        None \<Rightarrow> Some (Inr (s\<lparr>ms_futures := (ms_futures s)(a \<mapsto> mutex_lock)\<rparr>))
      | Some f \<Rightarrow> None)"
| "mutex_exec V (PollLock a w) s =
     (case ms_futures s a of
        None \<Rightarrow> None
      | Some f \<Rightarrow> Some (rbind (lock_poll V a w f (ms_inner s)) (\<lambda>(ready, f', inner).
          Inr (s\<lparr>ms_inner := inner, ms_futures := (ms_futures s)(a \<mapsto> f'),
                 ms_guards := (if ready then ms_guards s + 1 else ms_guards s)\<rparr>))))"
| "mutex_exec V (DropLock a) s =
     (case ms_futures s a of
        None \<Rightarrow> None
      | Some f \<Rightarrow> Some (Inr (s\<lparr>ms_inner := lock_future_drop V a f (ms_inner s),
          ms_futures := (ms_futures s)(a := None)\<rparr>)))"
| "mutex_exec V DropGuard s =
     (if ms_guards s = 0 then None
      else Some (rbind (guard_drop V (ms_futures s) (ms_inner s)) (\<lambda>(woken, inner).
        Inr (s\<lparr>ms_inner := inner, ms_guards := ms_guards s - 1,
               ms_woken := ms_woken s @ (case woken of None \<Rightarrow> [] | Some w \<Rightarrow> [w])\<rparr>))))"
| "mutex_exec V (Mutate g) s =
     (if ms_guards s = 0 then None
      else Some (Inr (s\<lparr>ms_inner := guard_deref_mut g (ms_inner s)\<rparr>)))"

definition mutex_start :: "(nat, 'v) vec_api \<Rightarrow> 'a \<Rightarrow> ('a, 'v) mutex_sys" where
  "mutex_start V value =
     \<lparr>ms_inner = mutex_new V value, ms_futures = (\<lambda>a. None), ms_woken = [], ms_guards = 0\<rparr>"

inductive mutex_reachable :: "(nat, 'v) vec_api \<Rightarrow> ('a, 'v) mutex_sys \<Rightarrow> bool"
  for V :: "(nat, 'v) vec_api" where
  mutex_reach_start: "mutex_reachable V (mutex_start V value)"
| mutex_reach_step: "mutex_reachable V s \<Longrightarrow> mutex_exec V ev s = Some (Inr s') \<Longrightarrow> mutex_reachable V s'"

section \<open>The invariant\<close>

definition waiter_ok :: "(nat \<Rightarrow> lock_future option) \<Rightarrow> nat \<Rightarrow> bool" where
  "waiter_ok futures a \<longleftrightarrow> (case futures a of None \<Rightarrow> False | Some f \<Rightarrow> lf_queued f \<and> lf_waker f \<noteq> None)"

definition mutex_inv :: "(nat, 'v) vec_api \<Rightarrow> ('a, 'v) mutex_sys \<Rightarrow> bool" where
  "mutex_inv V s \<longleftrightarrow> ms_guards s = (if mi_locked (ms_inner s) then 1 else 0)
     \<and> distinct (vec_items V (mi_waiters (ms_inner s)))
     \<and> (\<forall>a\<in>set (vec_items V (mi_waiters (ms_inner s))). waiter_ok (ms_futures s) a)"

lemma waiter_ok_upd: "waiter_ok futures a \<Longrightarrow> a \<noteq> b \<Longrightarrow> waiter_ok (futures(b := x)) a"
  by (simp add: waiter_ok_def)

lemma removed_0: "removed 0 (x # xs) = xs"
  by (simp add: removed_def)

lemma guard_drop_ok:
  assumes bv: "bounded_vec V N" and inv: "mutex_inv V s"
  shows "\<exists>ws. vec_items V ws = tl (vec_items V (mi_waiters (ms_inner s)))
    \<and> guard_drop V (ms_futures s) (ms_inner s) = Inr (case vec_items V (mi_waiters (ms_inner s)) of
         [] \<Rightarrow> None | a # as \<Rightarrow> lf_waker (the (ms_futures s a)), (ms_inner s)\<lparr>mi_locked := False, mi_waiters := ws\<rparr>)"
proof (cases "vec_items V (mi_waiters (ms_inner s))")
  case Nil
  then show ?thesis by (intro exI [of _ "mi_waiters (ms_inner s)"]) (simp add: guard_drop_def Let_def)
next
  case (Cons a as)
  then obtain ws where ws: "vec_remove V (mi_waiters (ms_inner s)) 0 = Some (a, ws)" "vec_items V ws = as"
    using bounded_vec.remove_first [OF bv Cons] by blast
  have "waiter_ok (ms_futures s) a" using inv Cons by (simp add: mutex_inv_def)
  then obtain f where "ms_futures s a = Some f" by (auto simp: waiter_ok_def split: option.splits)
  then show ?thesis using ws Cons by (intro exI [of _ ws]) (simp add: guard_drop_def Let_def)
qed

lemma lock_poll_inv:
  assumes bv: "bounded_vec V N" and inv: "mutex_inv V s"
    and f: "ms_futures s a = Some f" "lock_poll V a w f (ms_inner s) = Inr (ready, f', inner)"
      "s' = s\<lparr>ms_inner := inner, ms_futures := (ms_futures s)(a \<mapsto> f'),
                 ms_guards := (if ready then ms_guards s + 1 else ms_guards s)\<rparr>"
  shows "mutex_inv V s'"
proof -
  have q: "lf_queued f" if "a \<in> set (vec_items V (mi_waiters (ms_inner s)))"
    using that inv f(1) by (auto simp: mutex_inv_def waiter_ok_def)
  show ?thesis
  proof (cases "mi_locked (ms_inner s)")
    case False
    then show ?thesis using f inv q bounded_vec.retain_items [OF bv]
      by (auto simp: mutex_inv_def lock_poll_def Let_def waiter_ok_def split: if_splits)
  next
    case locked: True
    show ?thesis
    proof (cases "lf_queued f")
      case True
      then show ?thesis using f inv locked
        by (auto simp: mutex_inv_def lock_poll_def Let_def waiter_ok_def split: option.splits)
    next
      case False
      then have fresh: "a \<notin> set (vec_items V (mi_waiters (ms_inner s)))"
        using inv f(1) by (auto simp: mutex_inv_def waiter_ok_def)
      obtain ws where ws: "vec_push V (mi_waiters (ms_inner s)) a = Some ws"
        "f' = f\<lparr>lf_waker := Some w, lf_queued := True\<rparr>" "inner = (ms_inner s)\<lparr>mi_waiters := ws\<rparr>" "\<not> ready"
        using f(2) locked False by (auto simp: lock_poll_def Let_def split: option.splits)
      then show ?thesis
        using f(3) inv locked fresh bounded_vec.push_Some_items [OF bv ws(1)]
        by (auto simp: mutex_inv_def waiter_ok_def)
    qed
  qed
qed

lemma mutex_exec_inv:
  assumes bv: "bounded_vec V N" and inv: "mutex_inv V s" and step: "mutex_exec V ev s = Some (Inr s')"
  shows "mutex_inv V s'"
proof (cases ev)
  case (Lock a)
  then have a: "ms_futures s a = None" "s' = s\<lparr>ms_futures := (ms_futures s)(a \<mapsto> mutex_lock)\<rparr>"
    using step by (auto split: option.splits)
  have "a \<notin> set (vec_items V (mi_waiters (ms_inner s)))"
    using inv a(1) by (auto simp: mutex_inv_def waiter_ok_def)
  then show ?thesis using inv by (auto simp: a(2) mutex_inv_def intro!: waiter_ok_upd)
next
  case (DropLock a)
  then obtain f where f: "ms_futures s a = Some f"
      "s' = s\<lparr>ms_inner := lock_future_drop V a f (ms_inner s), ms_futures := (ms_futures s)(a := None)\<rparr>"
    using step by (auto split: option.splits)
  have "lf_queued f" if "a \<in> set (vec_items V (mi_waiters (ms_inner s)))"
    using that inv f(1) by (auto simp: mutex_inv_def waiter_ok_def)
  then show ?thesis using inv bounded_vec.retain_items [OF bv]
    by (auto simp: f(2) mutex_inv_def lock_future_drop_def waiter_ok_def)
next
  case DropGuard
  obtain ws where ws: "vec_items V ws = tl (vec_items V (mi_waiters (ms_inner s)))"
    "guard_drop V (ms_futures s) (ms_inner s) = Inr (case vec_items V (mi_waiters (ms_inner s)) of
         [] \<Rightarrow> None | a # as \<Rightarrow> lf_waker (the (ms_futures s a)), (ms_inner s)\<lparr>mi_locked := False, mi_waiters := ws\<rparr>)"
    using guard_drop_ok [OF bv inv] by blast
  then show ?thesis using step DropGuard inv
    by (cases "vec_items V (mi_waiters (ms_inner s))") (auto simp: mutex_inv_def split: if_splits)
next
  case (Mutate g)
  then show ?thesis using step inv by (auto simp: mutex_inv_def guard_deref_mut_def split: if_splits)
next
  case (PollLock a w)
  then obtain f ready f' inner where f: "ms_futures s a = Some f"
      "lock_poll V a w f (ms_inner s) = Inr (ready, f', inner)"
      "s' = s\<lparr>ms_inner := inner, ms_futures := (ms_futures s)(a \<mapsto> f'),
                 ms_guards := (if ready then ms_guards s + 1 else ms_guards s)\<rparr>"
    using step by (auto simp: rbind_Inr_iff split: option.splits)
  then show ?thesis by (rule lock_poll_inv [OF bv inv])
qed

lemma mutex_reachable_inv:
  assumes "bounded_vec V N" "mutex_reachable V s"
  shows "mutex_inv V s"
  using assms(2)
proof (induction rule: mutex_reachable.induct)
  case (mutex_reach_start v)
  then show ?case
    by (simp add: mutex_inv_def mutex_start_def mutex_new_def bounded_vec.new_items [OF assms(1)])
next
  case (mutex_reach_step s ev s')
  then show ?case using mutex_exec_inv [OF assms(1)] by blast
qed

lemma lock_poll_panics:
  assumes "bounded_vec V N"
  shows "lock_poll V a w f inner = Inl err \<longleftrightarrow> err = CapacityExhausted \<and> \<not> lf_queued f \<and> mi_locked inner
    \<and> length (vec_items V (mi_waiters inner)) = N"
  using bounded_vec.push_None_iff [OF assms, of "mi_waiters inner" a]
  by (auto simp: lock_poll_def Let_def split: option.splits)

section \<open>Properties\<close>

text \<open>
   C30. Mutual exclusion: in every run at most one guard is alive, and one is alive exactly if
  the mutex is locked.  No waiter pointer dangles: every pointer in the queue, each there once,
  points to a lock future that is alive and has stored a waker.
\<close>

theorem mutex_exclusive:
  assumes "bounded_vec V N" "mutex_reachable V s"
  shows "ms_guards s = (if mi_locked (ms_inner s) then 1 else 0)
    \<and> distinct (vec_items V (mi_waiters (ms_inner s)))
    \<and> (\<forall>a\<in>set (vec_items V (mi_waiters (ms_inner s))). waiter_ok (ms_futures s) a)"
  using mutex_reachable_inv [OF assms] by (simp add: mutex_inv_def)

text \<open>
   C32. In every reachable state with a guard, dropping it unlocks the mutex, takes the oldest waiter out
  of the queue, if there is one, and wakes it, and does not fail.
\<close>

theorem mutex_hands_over_in_order:
  assumes "bounded_vec V N" "mutex_reachable V s" "ms_guards s \<noteq> 0"
  shows "\<exists>s'. mutex_exec V DropGuard s = Some (Inr s') \<and> \<not> mi_locked (ms_inner s')
    \<and> vec_items V (mi_waiters (ms_inner s')) = tl (vec_items V (mi_waiters (ms_inner s)))
    \<and> ms_woken s' = ms_woken s @ (case vec_items V (mi_waiters (ms_inner s)) of [] \<Rightarrow> []
        | a # as \<Rightarrow> [the (lf_waker (the (ms_futures s a)))])"
proof -
  note inv = mutex_reachable_inv [OF assms(1,2)]
  obtain ws where ws: "vec_items V ws = tl (vec_items V (mi_waiters (ms_inner s)))"
    "guard_drop V (ms_futures s) (ms_inner s) = Inr (case vec_items V (mi_waiters (ms_inner s)) of
         [] \<Rightarrow> None | a # as \<Rightarrow> lf_waker (the (ms_futures s a)), (ms_inner s)\<lparr>mi_locked := False, mi_waiters := ws\<rparr>)"
    using guard_drop_ok [OF assms(1) inv] by blast
  show ?thesis
  proof (cases "vec_items V (mi_waiters (ms_inner s))")
    case Nil
    then show ?thesis using ws assms(3) by simp
  next
    case (Cons a as)
    then have "waiter_ok (ms_futures s) a" using inv by (simp add: mutex_inv_def)
    then obtain f w where "ms_futures s a = Some f" "lf_waker f = Some w"
      by (auto simp: waiter_ok_def split: option.splits)
    then show ?thesis using ws assms(3) Cons by simp
  qed
qed

text \<open>
  C39. When the mutex panics.  In every reachable state, whatever comes next, a lock, the poll or drop of a
  lock future, the drop of a guard or an access through one: it panics if and only if it is the poll of
  a lock future that is not queued yet, while the mutex is locked and its waiter queue is full; and
  then the panic is that of the full queue.
\<close>

theorem mutex_panics_only_when_full:
  assumes "bounded_vec V N" "mutex_reachable V s"
  shows "mutex_exec V ev s = Some (Inl err) \<longleftrightarrow> err = CapacityExhausted
    \<and> (\<exists>a w f. ev = PollLock a w \<and> ms_futures s a = Some f \<and> \<not> lf_queued f
        \<and> mi_locked (ms_inner s) \<and> length (vec_items V (mi_waiters (ms_inner s))) = N)"
proof (cases ev)
  case (PollLock a w)
  have "mutex_exec V ev s = Some (Inl err) \<longleftrightarrow> (\<exists>f. ms_futures s a = Some f \<and> lock_poll V a w f (ms_inner s) = Inl err)"
    by (auto simp: PollLock rbind_def split: option.splits sum.splits)
  then show ?thesis by (auto simp: PollLock lock_poll_panics [OF assms(1)])
next
  case DropGuard
  then show ?thesis
    using guard_drop_ok [OF assms(1) mutex_reachable_inv [OF assms]] by (auto split: if_splits)
qed (auto split: option.splits if_splits)

section \<open>Concrete runs\<close>

fun mutex_run :: "(nat, 'v) vec_api \<Rightarrow> 'a mutex_event list \<Rightarrow> ('a, 'v) mutex_sys \<Rightarrow> ('a, 'v) mutex_sys option" where
  "mutex_run V [] s = Some s"
| "mutex_run V (ev # evs) s =
     (case mutex_exec V ev s of Some (Inr s') \<Rightarrow> mutex_run V evs s' | _ \<Rightarrow> None)"

lemma mutex_run_reachable:
  "mutex_run V evs s = Some s' \<Longrightarrow> mutex_reachable V s \<Longrightarrow> mutex_reachable V s'"
  by (induction evs arbitrary: s) (auto split: option.splits sum.splits intro: mutex_reach_step)

definition mutex_demo :: "nat \<Rightarrow> nat mutex_event list \<Rightarrow> (nat, nat list) mutex_sys option" where
  "mutex_demo n evs = mutex_run (list_vec n) evs (mutex_start (list_vec n) 0)"

definition mutex_ends :: "('s \<Rightarrow> bool) \<Rightarrow> 's option \<Rightarrow> bool" where
  "mutex_ends P r \<longleftrightarrow> (case r of None \<Rightarrow> False | Some s \<Rightarrow> P s)"

lemma mutex_demo_obtain:
  assumes "mutex_ends P (mutex_demo n evs)"
  obtains s where "P s" "mutex_reachable (list_vec n) s"
  using assms mutex_run_reachable [OF _ mutex_reach_start, of "list_vec n" evs 0]
  by (auto simp: mutex_ends_def mutex_demo_def split: option.splits)

text \<open>Future 1 has the lock, futures 2 and 3 wait.\<close>

definition contended :: "nat mutex_event list" where
  "contended = [Lock 1, PollLock 1 10, Lock 2, PollLock 2 20, Lock 3, PollLock 3 30]"

theorem mutex_exclusive_witness:
  "\<exists>s :: (nat, nat list) mutex_sys. mutex_reachable (list_vec 4) s \<and> mi_locked (ms_inner s) \<and> ms_guards s = 1
     \<and> waiter_ok (ms_futures s) 2"
proof -
  have "mutex_ends (\<lambda>s. mi_locked (ms_inner s) \<and> vec_items (list_vec 4) (mi_waiters (ms_inner s)) = [2, 3])
    (mutex_demo 4 contended)" by code_simp
  then obtain s :: "(nat, nat list) mutex_sys" where s: "mi_locked (ms_inner s)"
      "vec_items (list_vec 4) (mi_waiters (ms_inner s)) = [2, 3]" "mutex_reachable (list_vec 4) s"
    by (rule mutex_demo_obtain) iprover
  then show ?thesis using mutex_exclusive [OF list_vec_bounded s(3)] by (intro exI [of _ s]) simp
qed

theorem mutex_hands_over_in_order_witness:
  "\<exists>s s' :: (nat, nat list) mutex_sys. mutex_reachable (list_vec 4) s \<and> ms_woken s = []
     \<and> mutex_exec (list_vec 4) DropGuard s = Some (Inr s') \<and> ms_woken s' = [20]"
proof -
  have "mutex_ends (\<lambda>s. ms_guards s \<noteq> 0 \<and> ms_woken s = [] \<and> vec_items (list_vec 4) (mi_waiters (ms_inner s)) = [2, 3]
      \<and> ms_futures s 2 = Some \<lparr>lf_queued = True, lf_waker = Some 20\<rparr>)
    (mutex_demo 4 contended)" by code_simp
  then obtain s :: "(nat, nat list) mutex_sys" where s: "ms_guards s \<noteq> 0" "ms_woken s = []"
      "vec_items (list_vec 4) (mi_waiters (ms_inner s)) = [2, 3]"
      "ms_futures s 2 = Some \<lparr>lf_queued = True, lf_waker = Some 20\<rparr>" "mutex_reachable (list_vec 4) s"
    by (rule mutex_demo_obtain) iprover
  then show ?thesis using mutex_hands_over_in_order [OF list_vec_bounded s(5,1)] by fastforce
qed

theorem mutex_panics_only_when_full_witness:
  "\<exists>s :: (nat, nat list) mutex_sys. mutex_reachable (list_vec 1) s
     \<and> mutex_exec (list_vec 1) (PollLock 3 30) s = Some (Inl CapacityExhausted)
     \<and> (\<forall>err. mutex_exec (list_vec 1) DropGuard s \<noteq> Some (Inl err))"
proof -
  have "mutex_ends (\<lambda>s. mi_locked (ms_inner s) \<and> length (vec_items (list_vec 1) (mi_waiters (ms_inner s))) = 1
      \<and> (case ms_futures s 3 of None \<Rightarrow> False | Some f \<Rightarrow> \<not> lf_queued f))
    (mutex_demo 1 [Lock 1, PollLock 1 10, Lock 2, PollLock 2 20, Lock 3])" by code_simp
  then obtain s :: "(nat, nat list) mutex_sys" and f where
      s: "mi_locked (ms_inner s)" "length (vec_items (list_vec 1) (mi_waiters (ms_inner s))) = 1"
        "ms_futures s 3 = Some f" "\<not> lf_queued f" "mutex_reachable (list_vec 1) s"
    by (rule mutex_demo_obtain) (auto split: option.splits)
  show ?thesis using mutex_panics_only_when_full [OF list_vec_bounded s(5)] s by blast
qed

text \<open>
   A waiter can be lost.  The guard's drop takes the waiter out of the queue, but the waiter's
  \<open>queued\<close> stays set; if another future takes the lock before the woken one polls, the woken
  one waits again without going back into the queue, and no later unlock wakes it.
\<close>

theorem barging_loses_waiter:
  "mutex_ends (\<lambda>s. \<not> mi_locked (ms_inner s) \<and> vec_items (list_vec 4) (mi_waiters (ms_inner s)) = []
       \<and> ms_futures s 2 = Some \<lparr>lf_queued = True, lf_waker = Some 21\<rparr> \<and> ms_woken s = [20])
     (mutex_demo 4 [Lock 1, PollLock 1 10, Lock 2, PollLock 2 20, DropGuard,
       Lock 3, PollLock 3 30, PollLock 2 21, DropGuard])"
  by code_simp

text \<open>
   A wake-up dies with a waiter that is dropped after it was woken: the mutex is unlocked,
  another future waits in the queue, and nobody wakes it.
\<close>

theorem dropped_waiter_loses_wake:
  "mutex_ends (\<lambda>s. \<not> mi_locked (ms_inner s) \<and> vec_items (list_vec 4) (mi_waiters (ms_inner s)) = [3]
       \<and> ms_guards s = 0 \<and> ms_woken s = [20] \<and> ms_futures s 2 = None)
     (mutex_demo 4 (contended @ [DropGuard, DropLock 2]))"
  by code_simp

end
