(* ===== verification/Trap.thy ===== *)
theory Trap
  imports Prelude
begin

text \<open>
  The trap path of \<open>archs/riscv64-rt/src\<close>: the assembly entry point \<open>trap/entry.rs\<close>, the frame
  of \<open>trap/frame.rs\<close>, the dispatch of \<open>trap/handler.rs\<close> and \<open>handlers/\<close>, and the mask
  operations of \<open>lib.rs\<close>.

  The processor is the integer registers, the three CSRs the entry uses, the program counter and
  memory in 8-byte words.  The instructions have the meaning the RISC-V manual gives them, and so
  have taking a trap (direct mode) and \<open>mret\<close>.
\<close>

section \<open>The processor\<close>

record cpu =
  cpu_x :: "nat \<Rightarrow> u64"
  cpu_pc :: u64
  cpu_mepc :: u64
  cpu_mstatus :: u64
  cpu_mcause :: u64
  cpu_mem :: "u64 \<Rightarrow> u64"

datatype csr = Mepc | Mstatus

datatype instr =
    Mv nat nat
  | Addi nat nat u64
  | Andi nat nat u64
  | Sd nat u64 nat
  | Ld nat u64 nat
  | Csrr nat csr
  | Csrw csr nat
  | CallHandler
  | Mret

text \<open>The bits \<open>MIE\<close> (3) and \<open>MPIE\<close> (7) of \<open>mstatus\<close>.\<close>

definition put_bit :: "nat \<Rightarrow> bool \<Rightarrow> u64 \<Rightarrow> u64" where
  "put_bit i b w = (if b then w OR push_bit i 1 else w AND NOT (push_bit i 1))"

definition set_mie :: "u64 \<Rightarrow> u64" where
  "set_mie w = put_bit 3 True w"

definition clear_mie :: "u64 \<Rightarrow> u64" where
  "clear_mie w = put_bit 3 False w"

definition take_trap :: "u64 \<Rightarrow> u64 \<Rightarrow> cpu \<Rightarrow> cpu" where
  "take_trap entry cause s =
     s\<lparr>cpu_mepc := cpu_pc s, cpu_mcause := cause, cpu_pc := entry,
       cpu_mstatus := clear_mie (put_bit 7 (bit (cpu_mstatus s) 3) (cpu_mstatus s))\<rparr>"

definition mret :: "cpu \<Rightarrow> cpu" where
  "mret s = s\<lparr>cpu_pc := cpu_mepc s,
     cpu_mstatus := put_bit 7 True (put_bit 3 (bit (cpu_mstatus s) 7) (cpu_mstatus s))\<rparr>"

definition read_csr :: "csr \<Rightarrow> cpu \<Rightarrow> u64" where
  "read_csr c s = (case c of Mepc \<Rightarrow> cpu_mepc s | Mstatus \<Rightarrow> cpu_mstatus s)"

definition write_csr :: "csr \<Rightarrow> u64 \<Rightarrow> cpu \<Rightarrow> cpu" where
  "write_csr c v s = (case c of Mepc \<Rightarrow> s\<lparr>cpu_mepc := v\<rparr> | Mstatus \<Rightarrow> s\<lparr>cpu_mstatus := v\<rparr>)"

definition set_x :: "nat \<Rightarrow> u64 \<Rightarrow> cpu \<Rightarrow> cpu" where
  "set_x r v s = (if r = 0 then s else s\<lparr>cpu_x := (cpu_x s)(r := v)\<rparr>)"

text \<open>The Rust function \<open>trap_handler\<close>, which the entry calls, is the parameter \<open>h\<close>.\<close>

fun exec_instr :: "(cpu \<Rightarrow> cpu) \<Rightarrow> instr \<Rightarrow> cpu \<Rightarrow> cpu" where
  "exec_instr h (Mv rd rs) s = set_x rd (cpu_x s rs) s"
| "exec_instr h (Addi rd rs imm) s = set_x rd (cpu_x s rs + imm) s"
| "exec_instr h (Andi rd rs imm) s = set_x rd (cpu_x s rs AND imm) s"
| "exec_instr h (Sd rs off base) s = s\<lparr>cpu_mem := (cpu_mem s)(cpu_x s base + off := cpu_x s rs)\<rparr>"
| "exec_instr h (Ld rd off base) s = set_x rd (cpu_mem s (cpu_x s base + off)) s"
| "exec_instr h (Csrr rd c) s = set_x rd (read_csr c s) s"
| "exec_instr h (Csrw c rs) s = write_csr c (cpu_x s rs) s"
| "exec_instr h CallHandler s = h s"
| "exec_instr h Mret s = mret s"

definition exec_code :: "(cpu \<Rightarrow> cpu) \<Rightarrow> instr list \<Rightarrow> cpu \<Rightarrow> cpu" where
  "exec_code h is s = fold (exec_instr h) is s"

section \<open>The entry point\<close>

text \<open>
  The general registers of the frame with their offsets, as the stores and the loads of the code
  list them, and as the fields of \<open>TrapFrame\<close> are laid out (\<open>mepc\<close> at 240, \<open>mstatus\<close> at 248).
\<close>

definition frame_regs :: "(nat \<times> u64) list" where
  "frame_regs =
     [(1, 0), (3, 8), (4, 16), (5, 24), (6, 32), (7, 40), (8, 48), (9, 56), (10, 64), (11, 72),
      (12, 80), (13, 88), (14, 96), (15, 104), (16, 112), (17, 120), (18, 128), (19, 136),
      (20, 144), (21, 152), (22, 160), (23, 168), (24, 176), (25, 184), (26, 192), (27, 200),
      (28, 208), (29, 216), (30, 224), (31, 232)]"

definition trap_save :: "instr list" where
  "trap_save =
     [Mv 5 2, Addi 2 2 (- 272), Andi 2 2 (- 16), Sd 5 256 2]
     @ map (\<lambda>(r, off). Sd r off 2) frame_regs
     @ [Csrr 5 Mepc, Sd 5 240 2, Csrr 5 Mstatus, Sd 5 248 2]"

definition trap_restore :: "instr list" where
  "trap_restore =
     [Ld 5 240 2, Csrw Mepc 5, Ld 5 248 2, Csrw Mstatus 5]
     @ map (\<lambda>(r, off). Ld r off 2) frame_regs
     @ [Ld 2 256 2, Mret]"

definition trap_entry :: "instr list" where
  "trap_entry = trap_save @ [Mv 10 2, CallHandler] @ trap_restore"

section \<open>Dispatch\<close>

datatype interrupt =
    SupervisorSoft | MachineSoft | SupervisorTimer | MachineTimer | SupervisorExternal | MachineExternal

datatype except =
    InstructionMisaligned | InstructionFault | IllegalInstruction | Breakpoint | LoadMisaligned
  | LoadFault | StoreMisaligned | StoreFault | UserEnvCall | SupervisorEnvCall | MachineEnvCall
  | InstructionPageFault | LoadPageFault | StorePageFault

text \<open>
  The numbering of interrupts and exceptions is the \<open>riscv\<close> crate's: \<open>irq_of\<close> and \<open>exc_of\<close>.
  Handlers are the symbols the application or the linker script provides; each works on a state
  of type \<open>'s\<close>.  The top bit of \<open>mcause\<close> tells the two kinds of trap apart.
\<close>

definition dispatch_interrupt ::
  "(nat \<Rightarrow> interrupt option) \<Rightarrow> (interrupt \<Rightarrow> 's \<Rightarrow> 's result) \<Rightarrow> nat \<Rightarrow> 's \<Rightarrow> 's result" where
  "dispatch_interrupt irq_of handler code s =
     (case irq_of code of None \<Rightarrow> Inl UnhandledTrap | Some i \<Rightarrow> handler i s)"

definition dispatch_exception ::
  "(nat \<Rightarrow> except option) \<Rightarrow> (except \<Rightarrow> 's \<Rightarrow> 's result) \<Rightarrow> nat \<Rightarrow> 's \<Rightarrow> 's result" where
  "dispatch_exception exc_of handler code s =
     (case exc_of code of None \<Rightarrow> Inl UnhandledTrap | Some e \<Rightarrow> handler e s)"

text \<open>\<open>ExceptionHandler\<close>, the default, panics on every cause.\<close>

definition exception_handler :: "(nat \<Rightarrow> except option) \<Rightarrow> u64 \<Rightarrow> 's \<Rightarrow> 's result" where
  "exception_handler exc_of mcause s =
     (let is_interrupt = mcause AND push_bit 63 1 \<noteq> 0;
          exception_code = mcause AND NOT (push_bit 63 1) in
      if is_interrupt then Inl UnhandledTrap
      else (case exc_of (unat exception_code) of None \<Rightarrow> Inl UnhandledTrap | Some e \<Rightarrow> Inl UnhandledTrap))"

definition trap_handler ::
  "(nat \<Rightarrow> interrupt option) \<Rightarrow> (nat \<Rightarrow> except option) \<Rightarrow> (interrupt \<Rightarrow> 's \<Rightarrow> 's result) \<Rightarrow>
   (except \<Rightarrow> 's \<Rightarrow> 's result) \<Rightarrow> u64 \<Rightarrow> 's \<Rightarrow> 's result" where
  "trap_handler irq_of exc_of ih eh mcause s =
     (let code = unat (mcause AND NOT (push_bit 63 1)) in
      if bit mcause 63 then dispatch_interrupt irq_of ih code s
      else dispatch_exception exc_of eh code s)"

section \<open>Straight-line stores and loads\<close>

lemma exec_code_simps [simp]:
  "exec_code h [] s = s"
  "exec_code h (i # is) s = exec_code h is (exec_instr h i s)"
  "exec_code h (is @ js) s = exec_code h js (exec_code h is s)"
  by (simp_all add: exec_code_def)

lemma set_x_simps [simp]:
  "cpu_mem (set_x r v s) = cpu_mem s" "cpu_mepc (set_x r v s) = cpu_mepc s"
  "cpu_mstatus (set_x r v s) = cpu_mstatus s" "cpu_pc (set_x r v s) = cpu_pc s"
  "cpu_mcause (set_x r v s) = cpu_mcause s"
  "cpu_x (set_x r v s) q = (if q = r \<and> r \<noteq> 0 then v else cpu_x s q)"
  by (simp_all add: set_x_def)

text \<open>A run of stores at distinct offsets from the stack pointer.\<close>

definition with_mem :: "(u64 \<Rightarrow> u64) \<Rightarrow> cpu \<Rightarrow> cpu" where
  "with_mem m s = s\<lparr>cpu_mem := m\<rparr>"

definition stores :: "u64 \<Rightarrow> (nat \<Rightarrow> u64) \<Rightarrow> (nat \<times> u64) list \<Rightarrow> (u64 \<Rightarrow> u64) \<Rightarrow> u64 \<Rightarrow> u64" where
  "stores b x rs m = fold (\<lambda>(r, off) m. m(b + off := x r)) rs m"

lemma exec_stores:
  "exec_code h (map (\<lambda>(r, off). Sd r off 2) rs) s
    = s\<lparr>cpu_mem := stores (cpu_x s 2) (cpu_x s) rs (cpu_mem s)\<rparr>"
  by (induction rs arbitrary: s) (auto simp: stores_def)

lemma stores_other:
  "\<forall>(r, off)\<in>set rs. a \<noteq> b + off \<Longrightarrow> stores b x rs m a = m a"
  by (induction rs arbitrary: m) (auto simp: stores_def)

lemma stores_Cons: "stores b x (p # rs) m = stores b x rs (m(b + snd p := x (fst p)))"
  by (simp add: stores_def case_prod_beta)

lemma stores_at:
  "distinct (map snd rs) \<Longrightarrow> (r, off) \<in> set rs \<Longrightarrow> stores b x rs m (b + off) = x r"
proof (induction rs arbitrary: m)
  case (Cons p rs)
  show ?case
  proof (cases "(r, off) = p")
    case True
    then have "\<forall>(r', off')\<in>set rs. b + off \<noteq> b + off'"
      using Cons.prems(1) by (auto simp: image_iff)
    then show ?thesis using True by (auto simp: stores_Cons stores_other)
  next
    case False
    then have "(r, off) \<in> set rs" using Cons.prems(2) by auto
    then show ?thesis using Cons.IH Cons.prems(1) by (simp add: stores_Cons)
  qed
qed simp

text \<open>A run of loads that leaves the stack pointer alone.\<close>

definition loads :: "(nat \<times> u64) list \<Rightarrow> instr list" where
  "loads rs = map (\<lambda>(r, off). Ld r off 2) rs"

lemma exec_loads_rest [simp]:
  "cpu_mem (exec_code h (loads rs) s) = cpu_mem s"
  "cpu_mepc (exec_code h (loads rs) s) = cpu_mepc s"
  "cpu_mstatus (exec_code h (loads rs) s) = cpu_mstatus s"
  by (induction rs arbitrary: s) (auto simp: loads_def)

lemma exec_loads_other:
  "\<forall>(r, off)\<in>set rs. r \<noteq> q \<Longrightarrow> cpu_x (exec_code h (loads rs) s) q = cpu_x s q"
  by (induction rs arbitrary: s) (auto simp: loads_def)

lemma exec_loads_at:
  "distinct (map fst rs) \<Longrightarrow> \<forall>(r, off)\<in>set rs. r \<noteq> 2 \<and> r \<noteq> 0 \<Longrightarrow> (r, off) \<in> set rs
    \<Longrightarrow> cpu_x (exec_code h (loads rs) s) r = cpu_mem s (cpu_x s 2 + off)"
proof (induction rs arbitrary: s)
  case (Cons p rs)
  obtain r' off' where p: "p = (r', off')" by (cases p)
  have eq: "exec_code h (loads ((r', off') # rs)) s = exec_code h (loads rs) (set_x r' (cpu_mem s (cpu_x s 2 + off')) s)"
    by (simp add: loads_def)
  show ?case
  proof (cases "(r, off) = p")
    case True
    then have "\<forall>(r'', off'')\<in>set rs. r'' \<noteq> r"
      using Cons.prems(1) by (auto simp: image_iff)
    then show ?thesis using True p Cons.prems(2) by (simp add: p eq exec_loads_other)
  next
    case False
    then have "(r, off) \<in> set rs" using Cons.prems(3) by auto
    then show ?thesis using Cons.IH Cons.prems(1,2) p by (simp add: eq)
  qed
qed simp


section \<open>The entry and its frame\<close>

lemma frame_regs_facts:
  "distinct (map fst frame_regs)" "distinct (map snd frame_regs)"
  "\<forall>(r, off)\<in>set frame_regs. r \<noteq> 2 \<and> r \<noteq> 0"
  "\<forall>(r, off)\<in>set frame_regs. off \<noteq> 240 \<and> off \<noteq> 248 \<and> off \<noteq> 256"
  "\<forall>(r, off)\<in>set frame_regs. unat off < 240"
  by (simp_all add: frame_regs_def)

lemma frame_regs_cover:
  assumes "0 < r" "r < 32" "r \<noteq> 2"
  obtains off where "(r, off) \<in> set frame_regs"
proof -
  have all: "\<forall>r\<in>set [1..<32]. r = 2 \<or> r \<in> set (map fst frame_regs)"
    by (simp add: frame_regs_def upt_rec)
  have "r \<in> set [1..<32]" using assms by simp
  then have "r \<in> set (map fst frame_regs)" using all assms(3) by blast
  then show ?thesis using that by auto
qed

definition frame_base :: "u64 \<Rightarrow> u64" where
  "frame_base sp = (sp + - 272) AND - 16"

definition saved_mem :: "cpu \<Rightarrow> u64 \<Rightarrow> u64" where
  "saved_mem s = (let b = frame_base (cpu_x s 2) in
     (stores b ((cpu_x s)(5 := cpu_x s 2, 2 := b)) frame_regs ((cpu_mem s)(b + 256 := cpu_x s 2)))
       (b + 240 := cpu_mepc s, b + 248 := cpu_mstatus s))"

lemma save_prefix:
  "exec_code h [Mv 5 2, Addi 2 2 (- 272), Andi 2 2 (- 16), Sd 5 256 2] s
    = s\<lparr>cpu_x := (cpu_x s)(5 := cpu_x s 2, 2 := frame_base (cpu_x s 2)),
        cpu_mem := (cpu_mem s)(frame_base (cpu_x s 2) + 256 := cpu_x s 2)\<rparr>"
  by (simp add: set_x_def frame_base_def fun_upd_twist)

lemma save_suffix:
  "cpu_mem (exec_code h [Csrr 5 Mepc, Sd 5 240 2, Csrr 5 Mstatus, Sd 5 248 2] s)
    = (cpu_mem s)(cpu_x s 2 + 240 := cpu_mepc s, cpu_x s 2 + 248 := cpu_mstatus s)"
  "cpu_x (exec_code h [Csrr 5 Mepc, Sd 5 240 2, Csrr 5 Mstatus, Sd 5 248 2] s) 2 = cpu_x s 2"
  by (simp_all add: read_csr_def)

lemma trap_save_effect:
  "cpu_mem (exec_code h trap_save s) = saved_mem s"
  "cpu_x (exec_code h trap_save s) 2 = frame_base (cpu_x s 2)"
  unfolding trap_save_def exec_code_simps(3) save_prefix exec_stores saved_mem_def Let_def
  by (simp_all add: save_suffix del: exec_code_simps)

definition frame_slots :: "u64 set" where
  "frame_slots = insert 240 (insert 248 (insert 256 (snd ` set frame_regs)))"

lemma saved_at:
  assumes "(r, off) \<in> set frame_regs"
  shows "saved_mem s (frame_base (cpu_x s 2) + off) = (if r = 5 then cpu_x s 2 else cpu_x s r)"
proof -
  have "off \<noteq> 240" "off \<noteq> 248" "r \<noteq> 2" using assms frame_regs_facts(3,4) by auto
  then show ?thesis using stores_at [OF frame_regs_facts(2) assms] by (simp add: saved_mem_def Let_def)
qed

lemma saved_rest:
  "saved_mem s (frame_base (cpu_x s 2) + 240) = cpu_mepc s"
  "saved_mem s (frame_base (cpu_x s 2) + 248) = cpu_mstatus s"
  "saved_mem s (frame_base (cpu_x s 2) + 256) = cpu_x s 2"
proof -
  have "\<forall>(r, off)\<in>set frame_regs. frame_base (cpu_x s 2) + 256 \<noteq> frame_base (cpu_x s 2) + off"
    using frame_regs_facts(4) by auto
  then show "saved_mem s (frame_base (cpu_x s 2) + 256) = cpu_x s 2"
    by (simp add: saved_mem_def Let_def stores_other)
qed (simp_all add: saved_mem_def Let_def)

lemma saved_outside:
  assumes "\<forall>off\<in>frame_slots. a \<noteq> frame_base (cpu_x s 2) + off"
  shows "saved_mem s a = cpu_mem s a"
  using assms by (auto simp: saved_mem_def Let_def frame_slots_def intro!: trans [OF stores_other])

text \<open>What the entry expects of \<open>trap_handler\<close>: it returns with the frame and the stack pointer intact.\<close>

definition keeps_frame :: "(cpu \<Rightarrow> cpu) \<Rightarrow> bool" where
  "keeps_frame h \<longleftrightarrow> (\<forall>s. cpu_x (h s) 2 = cpu_x s 2
     \<and> (\<forall>off\<in>frame_slots. cpu_mem (h s) (cpu_x s 2 + off) = cpu_mem s (cpu_x s 2 + off)))"

lemma restore_csrs:
  "exec_code h [Ld 5 240 2, Csrw Mepc 5, Ld 5 248 2, Csrw Mstatus 5] s
    = (set_x 5 (cpu_mem s (cpu_x s 2 + 248)) s)
        \<lparr>cpu_mepc := cpu_mem s (cpu_x s 2 + 240), cpu_mstatus := cpu_mem s (cpu_x s 2 + 248)\<rparr>"
  by (simp add: set_x_def write_csr_def)

lemma restore_tail:
  "exec_code h [Ld 2 256 2, Mret] s = mret (set_x 2 (cpu_mem s (cpu_x s 2 + 256)) s)"
  by simp

text \<open>The state after the whole entry, field by field.\<close>

lemma entry_run:
  assumes "keeps_frame h" and s': "s' = exec_code h trap_entry s"
  shows "cpu_pc s' = cpu_mepc s"
    and "cpu_mstatus s' = put_bit 7 True (put_bit 3 (bit (cpu_mstatus s) 7) (cpu_mstatus s))"
    and "0 < r \<Longrightarrow> r < 32 \<Longrightarrow> cpu_x s' r = (if r = 5 then cpu_x s 2 else cpu_x s r)"
proof -
  define b where "b = frame_base (cpu_x s 2)"
  define t where "t = exec_code h [Mv 10 2, CallHandler] (exec_code h trap_save s)"
  define c where "c = set_x 10 b (exec_code h trap_save s)"
  have t: "t = h c" by (simp add: t_def c_def b_def trap_save_effect)
  have c: "cpu_x c 2 = b" "cpu_mem c = saved_mem s"
    by (simp_all add: c_def b_def trap_save_effect)
  have kept: "cpu_x (h c) 2 = b \<and> (\<forall>off\<in>frame_slots. cpu_mem (h c) (b + off) = saved_mem s (b + off))"
    using assms(1) [unfolded keeps_frame_def, THEN spec [of _ c]] unfolding c .
  have t2: "cpu_x t 2 = b" using kept by (simp add: t)
  have frame: "cpu_mem t (b + off) = saved_mem s (b + off)" if "off \<in> frame_slots" for off
    using kept that by (simp add: t)
  have slots: "240 \<in> frame_slots" "248 \<in> frame_slots" "256 \<in> frame_slots"
    "(r, off) \<in> set frame_regs \<Longrightarrow> off \<in> frame_slots" for r off
    by (simp_all add: frame_slots_def) force
  define u where "u = (set_x 5 (cpu_mem t (b + 248)) t)
    \<lparr>cpu_mepc := cpu_mem t (b + 240), cpu_mstatus := cpu_mem t (b + 248)\<rparr>"
  define v where "v = exec_code h (loads frame_regs) u"
  have run: "s' = mret (set_x 2 (cpu_mem v (cpu_x v 2 + 256)) v)"
    unfolding s' trap_entry_def trap_restore_def exec_code_simps(3) t_def [symmetric] v_def u_def
      restore_csrs restore_tail loads_def t2 ..
  have u2: "cpu_x u 2 = b" and umem: "cpu_mem u = cpu_mem t" by (simp_all add: u_def t2)
  have v2: "cpu_x v 2 = b"
    unfolding v_def using frame_regs_facts(3) by (subst exec_loads_other) (auto simp: u2)
  show "cpu_pc s' = cpu_mepc s"
    "cpu_mstatus s' = put_bit 7 True (put_bit 3 (bit (cpu_mstatus s) 7) (cpu_mstatus s))"
    by (simp_all add: run mret_def v_def u_def frame slots saved_rest [of s, folded b_def])
  show "cpu_x s' r = (if r = 5 then cpu_x s 2 else cpu_x s r)" if r: "0 < r" "r < 32"
  proof (cases "r = 2")
    case True
    then show ?thesis
      by (simp add: run mret_def v2) (simp add: v_def umem frame slots saved_rest [of s, folded b_def])
  next
    case False
    then obtain off where off: "(r, off) \<in> set frame_regs" using frame_regs_cover r by blast
    then have "cpu_x v r = cpu_mem t (b + off)"
      unfolding v_def using exec_loads_at [OF frame_regs_facts(1,3) off, of h u] by (simp add: u2 umem)
    then show ?thesis
      using False off by (simp add: run mret_def frame slots saved_at [of r off s, folded b_def])
  qed
qed

lemma bit_put_bit: "i < 64 \<Longrightarrow> bit (put_bit i b w) j \<longleftrightarrow> (if j = i then b else bit w j)"
  by (auto simp: put_bit_def bit_simps dest: bit_imp_le_length)

text \<open>
  C20. The trap path gives the interrupted code back its registers, its program counter and its
  interrupt enable, whatever the handler did to the registers and the CSRs, as long as it keeps
  the stack pointer and the frame, except for one register: \<open>t0\<close> (\<open>x5\<close>) is overwritten with
  the stack pointer before it is saved, so the interrupted code finds its stack pointer in it.
  (Of \<open>mstatus\<close> the model has \<open>MIE\<close> and \<open>MPIE\<close> change on a trap and on \<open>mret\<close>; the previous
  privilege \<open>MPP\<close>, which hardware writes too, is not followed: all code runs in machine mode.)
\<close>

theorem trap_restores_context:
  assumes "keeps_frame h"
  shows "let s' = exec_code h trap_entry (take_trap entry cause s) in
    cpu_pc s' = cpu_pc s
    \<and> cpu_x s' 5 = cpu_x s 2
    \<and> (\<forall>r. 0 < r \<longrightarrow> r < 32 \<longrightarrow> r \<noteq> 5 \<longrightarrow> cpu_x s' r = cpu_x s r)
    \<and> (\<forall>i. i \<noteq> 7 \<longrightarrow> bit (cpu_mstatus s') i = bit (cpu_mstatus s) i)"
  unfolding Let_def
  using entry_run [OF assms refl, where s = "take_trap entry cause s"]
  by (auto simp: take_trap_def clear_mie_def bit_put_bit)

lemma keeps_frame_id: "keeps_frame (\<lambda>s. s)"
  by (simp add: keeps_frame_def)

lemma u64_bound: "unat (w :: u64) < 2 ^ 64"
  using unsigned_less [of w, where ?'a = nat] by simp

lemma frame_base_unat:
  assumes "272 \<le> unat sp"
  shows "unat (frame_base sp) = unat sp - 272 - (unat sp - 272) mod 16"
proof -
  define w where "w = sp - 272"
  have "272 \<le> sp" using assms by (simp add: word_le_nat_alt)
  then have w: "unat w = unat sp - 272" by (simp add: w_def unat_sub)
  have "(- 16 :: u64) = NOT (mask 4)" by (simp add: mask_eq_exp_minus_1 not_eq_complement)
  then have "frame_base sp = w AND NOT (mask 4)" by (simp add: frame_base_def w_def)
  also have "w AND NOT (mask 4) = w AND NOT (take_bit 4 w)"
    by (rule bit_eqI) (auto simp: bit_simps)
  also have "w AND NOT (take_bit 4 w) = w - take_bit 4 w"
    by (rule disjunctive_diff_eq_and_not [symmetric]) (rule bit_eqI, simp add: bit_simps)
  finally have "frame_base sp = w - take_bit 4 w" .
  moreover have "unat (take_bit 4 w) = unat w mod 16" by (subst unsigned_take_bit_eq) (simp add: take_bit_eq_mod)
  moreover have "take_bit 4 w \<le> w"
    using calculation(2) by (simp add: word_le_nat_alt)
  ultimately show ?thesis by (simp add: unat_sub w)
qed

text \<open>
  C21. The frame lies on the stack of the interrupted code: its address is aligned to 16, it ends at
  or below the old stack pointer and at most 15 bytes of alignment apart from it, and saving the
  context writes to nothing outside of it.
\<close>

theorem trap_frame_on_stack:
  assumes "287 \<le> unat (cpu_x s 2)"
  shows "let s' = exec_code h trap_save s; b = cpu_x s' 2 in
    16 dvd unat b \<and> unat b + 272 \<le> unat (cpu_x s 2) \<and> unat (cpu_x s 2) \<le> unat b + 287
    \<and> (\<forall>a. cpu_mem s' a \<noteq> cpu_mem s a \<longrightarrow> unat b \<le> unat a \<and> unat a + 8 \<le> unat b + 264)"
proof -
  let ?sp = "unat (cpu_x s 2)" and ?b = "frame_base (cpu_x s 2)"
  have b: "unat ?b = ?sp - 272 - (?sp - 272) mod 16" using assms by (simp add: frame_base_unat)
  have m: "(?sp - 272) mod 16 < 16" by simp
  have dv: "16 dvd unat ?b" unfolding b by (rule dvd_minus_mod)
  have up: "unat ?b + 272 \<le> ?sp" "?sp \<le> unat ?b + 287" using b m assms by linarith+
  have slot: "unat off \<le> 256" if "off \<in> frame_slots" for off
    using that frame_regs_facts(5) by (auto simp: frame_slots_def)
  have "unat ?b \<le> unat a \<and> unat a + 8 \<le> unat ?b + 264" if ne: "saved_mem s a \<noteq> cpu_mem s a" for a
  proof -
    obtain off where off: "off \<in> frame_slots" "a = ?b + off"
      using ne saved_outside by blast
    have "unat ?b + unat off < 2 ^ 64"
      using up slot [OF off(1)] u64_bound [of "cpu_x s 2"] by simp
    then have "unat a = unat ?b + unat off" using off(2) by (simp add: unat_plus_if')
    then show ?thesis using slot [OF off(1)] by simp
  qed
  then show ?thesis using dv up by (simp add: Let_def trap_save_effect)
qed

text \<open>A processor to run the entry on: register \<open>r\<close> holds \<open>1000 + r\<close>, the stack pointer 8192.\<close>

definition demo_cpu :: cpu where
  "demo_cpu = \<lparr>cpu_x = (\<lambda>r. if r = 2 then 8192 else 1000 + of_nat r), cpu_pc = 4096, cpu_mepc = 0,
     cpu_mstatus = 8, cpu_mcause = 0, cpu_mem = (\<lambda>a. 0)\<rparr>"

theorem trap_restores_context_witness:
  "cpu_x (exec_code (\<lambda>s. s) trap_entry (take_trap 64 7 demo_cpu)) 5 = 8192
   \<and> cpu_x (exec_code (\<lambda>s. s) trap_entry (take_trap 64 7 demo_cpu)) 6 = 1006
   \<and> cpu_pc (exec_code (\<lambda>s. s) trap_entry (take_trap 64 7 demo_cpu)) = 4096"
  using trap_restores_context [OF keeps_frame_id, of 64 7 demo_cpu]
  by (simp add: Let_def demo_cpu_def)

theorem trap_frame_on_stack_witness:
  "16 dvd unat (cpu_x (exec_code (\<lambda>s. s) trap_save demo_cpu) 2)
   \<and> unat (cpu_x (exec_code (\<lambda>s. s) trap_save demo_cpu) 2) + 272 \<le> 8192"
  using trap_frame_on_stack [of demo_cpu "\<lambda>s. s"] by (simp add: Let_def demo_cpu_def)

end
