(* ===== verification/AwaitIrq.thy ===== *)
theory AwaitIrq
  imports TaskState
begin

text \<open>
  Waiting for an interrupt in a future: the protocol that \<open>IrqLatch\<close> of \<open>platform/src/irq.rs\<close>
  and the receive side of \<open>platform/src/drivers/serial_ns16550a.rs\<close> share.

  A waker slot (\<open>has_waker\<close> and a \<open>MaybeUninit<Waker>\<close>) stands beside a source of events: the
  pending flag of the latch, the ring buffer of the serial port.  A poll looks for an event,
  masks interrupts, registers its waker, looks again, and unmasks; the interrupt handler posts
  the event and consumes the waker.  The source is a parameter of the protocol: \<open>tk\<close> takes an
  event out of it and \<open>post\<close> is what the handler does to it.  The locale states what the protocol
  needs of the two, and both sources of the repository are interpretations of it.
\<close>

section \<open>The waker slot\<close>

record 's chan =
  ch_src :: 's
  ch_has :: u8
  ch_slot :: "nat cell"

text \<open>The first critical section of a poll: drop the old waker, if any, and write the new one.\<close>

definition slot_register :: "nat \<Rightarrow> 's chan \<Rightarrow> 's chan result" where
  "slot_register w c =
     rbind (if ch_has c \<noteq> 0 then cell_drop_in_place (ch_slot c) else Inr (ch_slot c))
       (\<lambda>s. Inr (c\<lparr>ch_slot := cell_write_in_place s w, ch_has := 1\<rparr>))"

definition slot_cancel :: "'s chan \<Rightarrow> 's chan result" where
  "slot_cancel c =
     rbind (cell_drop_in_place (ch_slot c)) (\<lambda>s. Inr (c\<lparr>ch_has := 0, ch_slot := s\<rparr>))"

text \<open>The handler's side: take the flag, move the waker out of the slot and wake it.\<close>

definition slot_wake :: "'s chan \<Rightarrow> (nat option \<times> 's chan) result" where
  "slot_wake c =
     (if ch_has c \<noteq> 0
      then rbind (cell_as_mut (ch_slot c)) (\<lambda>w. Inr (Some w, c\<lparr>ch_has := 0, ch_slot := Uninit\<rparr>))
      else Inr (None, c))"

definition chan_take :: "('s \<Rightarrow> ('v option \<times> 's) result) \<Rightarrow> 's chan \<Rightarrow> ('v option \<times> 's chan) result" where
  "chan_take tk c = rbind (tk (ch_src c)) (\<lambda>(v, s). Inr (v, c\<lparr>ch_src := s\<rparr>))"

definition chan_notify :: "('e \<Rightarrow> 's \<Rightarrow> 's result) \<Rightarrow> 'e \<Rightarrow> 's chan \<Rightarrow> (nat option \<times> 's chan) result" where
  "chan_notify post e c = rbind (post e (ch_src c)) (\<lambda>s. slot_wake (c\<lparr>ch_src := s\<rparr>))"

text \<open>The whole poll, when no interrupt comes between the fast path and the masking.\<close>

definition await_poll ::
  "('s \<Rightarrow> ('v option \<times> 's) result) \<Rightarrow> nat \<Rightarrow> 's chan \<Rightarrow> ('v option \<times> 's chan) result" where
  "await_poll tk w c =
     rbind (chan_take tk c) (\<lambda>(v, c1).
       case v of
         Some x \<Rightarrow> Inr (Some x, c1)
       | None \<Rightarrow>
           rbind (slot_register w c1) (\<lambda>c2.
           rbind (chan_take tk c2) (\<lambda>(v', c3).
             case v' of
               Some x \<Rightarrow> rbind (slot_cancel c3) (\<lambda>c4. Inr (Some x, c4))
             | None \<Rightarrow> Inr (None, c3))))"

section \<open>Task and interrupt\<close>

text \<open>
  Where the waiting task stands.  \<open>W_Parked\<close> is a poll that returned \<open>Pending\<close> and whose task
  was not woken since, \<open>W_Woken\<close> one whose task was.
\<close>

datatype 'v waiter =
    W_Idle
  | W_Fast nat
  | W_Mask nat
  | W_Register nat
  | W_Recheck nat
  | W_Cancel nat 'v
  | W_Unmask nat "'v option"
  | W_Parked nat
  | W_Woken nat

record ('s, 'v) await =
  aw_chan :: "'s chan"
  aw_mie :: bool
  aw_waiter :: "'v waiter"
  aw_got :: "'v list"
  aw_woken :: "nat list"

datatype 'e await_event = AwPoll nat | AwStep | AwIrq 'e | AwDrop

fun await_step ::
  "('s \<Rightarrow> ('v option \<times> 's) result) \<Rightarrow> 'v waiter \<Rightarrow> ('s, 'v) await \<Rightarrow> ('s, 'v) await result option" where
  "await_step tk (W_Fast w) s =
     Some (rbind (chan_take tk (aw_chan s)) (\<lambda>(v, c).
       Inr (case v of
         Some x \<Rightarrow> s\<lparr>aw_chan := c, aw_waiter := W_Idle, aw_got := aw_got s @ [x]\<rparr>
       | None \<Rightarrow> s\<lparr>aw_chan := c, aw_waiter := W_Mask w\<rparr>)))"
| "await_step tk (W_Mask w) s = Some (Inr (s\<lparr>aw_mie := False, aw_waiter := W_Register w\<rparr>))"
| "await_step tk (W_Register w) s =
     Some (rbind (slot_register w (aw_chan s)) (\<lambda>c. Inr (s\<lparr>aw_chan := c, aw_waiter := W_Recheck w\<rparr>)))"
| "await_step tk (W_Recheck w) s =
     Some (rbind (chan_take tk (aw_chan s)) (\<lambda>(v, c).
       Inr (s\<lparr>aw_chan := c, aw_waiter := (case v of Some x \<Rightarrow> W_Cancel w x | None \<Rightarrow> W_Unmask w None)\<rparr>)))"
| "await_step tk (W_Cancel w x) s =
     Some (rbind (slot_cancel (aw_chan s)) (\<lambda>c. Inr (s\<lparr>aw_chan := c, aw_waiter := W_Unmask w (Some x)\<rparr>)))"
| "await_step tk (W_Unmask w None) s = Some (Inr (s\<lparr>aw_mie := True, aw_waiter := W_Parked w\<rparr>))"
| "await_step tk (W_Unmask w (Some x)) s =
     Some (Inr (s\<lparr>aw_mie := True, aw_waiter := W_Idle, aw_got := aw_got s @ [x]\<rparr>))"
| "await_step tk v s = None"

fun await_resting :: "'v waiter \<Rightarrow> bool" where
  "await_resting W_Idle = True"
| "await_resting (W_Parked w) = True"
| "await_resting (W_Woken w) = True"
| "await_resting v = False"

text \<open>
  An executor may poll a future at any time, woken or not, and its owner may drop it; an
  interrupt is taken whenever interrupts are enabled.
\<close>

fun await_exec ::
  "('s \<Rightarrow> ('v option \<times> 's) result) \<Rightarrow> ('e \<Rightarrow> 's \<Rightarrow> 's result) \<Rightarrow> 'e await_event \<Rightarrow> ('s, 'v) await \<Rightarrow>
   ('s, 'v) await result option" where
  "await_exec tk post (AwPoll w) s =
     (if await_resting (aw_waiter s) then Some (Inr (s\<lparr>aw_waiter := W_Fast w\<rparr>)) else None)"
| "await_exec tk post AwStep s = await_step tk (aw_waiter s) s"
| "await_exec tk post (AwIrq e) s =
     (if aw_mie s then
        Some (rbind (chan_notify post e (aw_chan s)) (\<lambda>(wk, c).
          Inr (case wk of
            None \<Rightarrow> s\<lparr>aw_chan := c\<rparr>
          | Some w \<Rightarrow> s\<lparr>aw_chan := c, aw_woken := aw_woken s @ [w],
              aw_waiter := (if aw_waiter s = W_Parked w then W_Woken w else aw_waiter s)\<rparr>)))
      else None)"
| "await_exec tk post AwDrop s =
     (if await_resting (aw_waiter s) then Some (Inr (s\<lparr>aw_waiter := W_Idle\<rparr>)) else None)"

definition await_start :: "'s \<Rightarrow> ('s, 'v) await" where
  "await_start src = \<lparr>aw_chan = \<lparr>ch_src = src, ch_has = 0, ch_slot = Uninit\<rparr>, aw_mie = True,
     aw_waiter = W_Idle, aw_got = [], aw_woken = []\<rparr>"

inductive await_reachable ::
  "('s \<Rightarrow> ('v option \<times> 's) result) \<Rightarrow> ('e \<Rightarrow> 's \<Rightarrow> 's result) \<Rightarrow> 's \<Rightarrow> ('s, 'v) await \<Rightarrow> bool"
  for tk :: "'s \<Rightarrow> ('v option \<times> 's) result" and post :: "'e \<Rightarrow> 's \<Rightarrow> 's result" and src :: 's where
  await_init: "await_reachable tk post src (await_start src)"
| await_next: "await_reachable tk post src s \<Longrightarrow> await_exec tk post ev s = Some (Inr s')
    \<Longrightarrow> await_reachable tk post src s'"

section \<open>The invariant\<close>

fun waiter_inv :: "('s \<Rightarrow> bool) \<Rightarrow> 'v waiter \<Rightarrow> bool \<Rightarrow> 's chan \<Rightarrow> bool" where
  "waiter_inv ready (W_Register w) mie c \<longleftrightarrow> \<not> mie"
| "waiter_inv ready (W_Recheck w) mie c \<longleftrightarrow> \<not> mie \<and> ch_slot c = Init w"
| "waiter_inv ready (W_Cancel w x) mie c \<longleftrightarrow> \<not> mie \<and> ch_slot c = Init w"
| "waiter_inv ready (W_Unmask w None) mie c \<longleftrightarrow> \<not> mie \<and> ch_slot c = Init w \<and> \<not> ready (ch_src c)"
| "waiter_inv ready (W_Unmask w (Some x)) mie c \<longleftrightarrow> \<not> mie"
| "waiter_inv ready (W_Parked w) mie c \<longleftrightarrow> mie \<and> ch_slot c = Init w \<and> \<not> ready (ch_src c)"
| "waiter_inv ready v mie c \<longleftrightarrow> mie"

definition await_inv :: "('s \<Rightarrow> bool) \<Rightarrow> ('s \<Rightarrow> bool) \<Rightarrow> ('s, 'v) await \<Rightarrow> bool" where
  "await_inv good ready s \<longleftrightarrow>
     good (ch_src (aw_chan s))
     \<and> (ch_has (aw_chan s) = 0 \<longleftrightarrow> ch_slot (aw_chan s) = Uninit)
     \<and> waiter_inv ready (aw_waiter s) (aw_mie s) (aw_chan s)"

lemma slot_register_ok:
  assumes "ch_has c = 0 \<longleftrightarrow> ch_slot c = Uninit"
  shows "slot_register w c = Inr (c\<lparr>ch_slot := Init w, ch_has := 1\<rparr>)"
  using assms by (cases "ch_slot c") (simp_all add: slot_register_def)

lemma slot_cancel_ok: "ch_slot c \<noteq> Uninit \<Longrightarrow> slot_cancel c = Inr (c\<lparr>ch_has := 0, ch_slot := Uninit\<rparr>)"
  by (cases "ch_slot c") (simp_all add: slot_cancel_def)

lemma slot_wake_ok:
  assumes "ch_has c = 0 \<longleftrightarrow> ch_slot c = Uninit"
  shows "slot_wake c = Inr (case ch_slot c of
      Uninit \<Rightarrow> (None, c) | Init w \<Rightarrow> (Some w, c\<lparr>ch_has := 0, ch_slot := Uninit\<rparr>))"
  using assms by (cases "ch_slot c") (simp_all add: slot_wake_def)

section \<open>The contract of an event source\<close>

locale event_source =
  fixes tk :: "'s \<Rightarrow> ('v option \<times> 's) result" and post :: "'e \<Rightarrow> 's \<Rightarrow> 's result"
    and good :: "'s \<Rightarrow> bool" and ready :: "'s \<Rightarrow> bool" and real :: "'e \<Rightarrow> bool"
  assumes take_ready: "good s \<Longrightarrow> ready s \<Longrightarrow> \<exists>v s'. tk s = Inr (Some v, s') \<and> good s'"
    and take_empty: "good s \<Longrightarrow> \<not> ready s \<Longrightarrow> \<exists>s'. tk s = Inr (None, s') \<and> good s' \<and> \<not> ready s'"
    and post_ok: "good s \<Longrightarrow> \<exists>s'. post e s = Inr s' \<and> good s' \<and> (real e \<longrightarrow> ready s')"
begin

lemma chan_take_cases:
  assumes "good (ch_src c)"
  obtains (some) v s' where "ready (ch_src c)" "chan_take tk c = Inr (Some v, c\<lparr>ch_src := s'\<rparr>)" "good s'"
  | (none) s' where "\<not> ready (ch_src c)" "chan_take tk c = Inr (None, c\<lparr>ch_src := s'\<rparr>)" "good s'" "\<not> ready s'"
  using take_ready [OF assms] take_empty [OF assms] that by (force simp: chan_take_def)

lemma notify_ok:
  assumes "good (ch_src c)" "ch_has c = 0 \<longleftrightarrow> ch_slot c = Uninit"
  obtains s' where "good s'" "real e \<longrightarrow> ready s'"
    "chan_notify post e c = Inr (case ch_slot c of
      Uninit \<Rightarrow> (None, c\<lparr>ch_src := s'\<rparr>)
    | Init w \<Rightarrow> (Some w, c\<lparr>ch_src := s', ch_has := 0, ch_slot := Uninit\<rparr>))"
proof -
  obtain s' where s': "post e (ch_src c) = Inr s'" "good s'" "real e \<longrightarrow> ready s'"
    using post_ok [OF assms(1)] by blast
  show ?thesis
    using that [OF s'(2,3)] s'(1) slot_wake_ok [of "c\<lparr>ch_src := s'\<rparr>"] assms(2)
    by (simp add: chan_notify_def)
qed

lemma step_inv:
  assumes "await_inv good ready s" "await_step tk (aw_waiter s) s = Some r"
  shows "\<exists>s'. r = Inr s' \<and> await_inv good ready s'"
proof -
  have good: "good (ch_src (aw_chan s))"
    and slot: "ch_has (aw_chan s) = 0 \<longleftrightarrow> ch_slot (aw_chan s) = Uninit"
    and w: "waiter_inv ready (aw_waiter s) (aw_mie s) (aw_chan s)"
    using assms(1) by (simp_all add: await_inv_def)
  note reg = slot_register_ok [OF slot]
  show ?thesis
  proof (cases "aw_waiter s")
    case (W_Fast w)
    then show ?thesis using assms slot w
      by (cases rule: chan_take_cases [OF good]) (auto simp: await_inv_def)
  next
    case (W_Recheck w)
    then show ?thesis using assms slot w
      by (cases rule: chan_take_cases [OF good]) (auto simp: await_inv_def)
  next
    case (W_Unmask w r)
    then show ?thesis using assms slot w good by (cases r) (auto simp: await_inv_def)
  qed (use assms slot w good in \<open>auto simp: await_inv_def reg slot_cancel_ok\<close>)
qed

lemma exec_inv:
  assumes "await_inv good ready s" "await_exec tk post ev s = Some r"
  shows "\<exists>s'. r = Inr s' \<and> await_inv good ready s'"
proof (cases ev)
  case (AwPoll w)
  then show ?thesis using assms
    by (cases "aw_waiter s") (auto simp: await_inv_def split: if_splits)
next
  case AwStep
  then show ?thesis using assms step_inv by simp
next
  case (AwIrq e)
  have mie: "aw_mie s" using assms(2) AwIrq by (simp split: if_splits)
  have good: "good (ch_src (aw_chan s))"
    and slot: "ch_has (aw_chan s) = 0 \<longleftrightarrow> ch_slot (aw_chan s) = Uninit"
    and w: "waiter_inv ready (aw_waiter s) (aw_mie s) (aw_chan s)"
    using assms(1) by (simp_all add: await_inv_def)
  obtain s' where n: "good s'" "chan_notify post e (aw_chan s) = Inr (case ch_slot (aw_chan s) of
      Uninit \<Rightarrow> (None, aw_chan s\<lparr>ch_src := s'\<rparr>)
    | Init w \<Rightarrow> (Some w, aw_chan s\<lparr>ch_src := s', ch_has := 0, ch_slot := Uninit\<rparr>))"
    by (rule notify_ok [OF good slot, of e])
  show ?thesis
  proof (cases "ch_slot (aw_chan s)")
    case Uninit
    then show ?thesis using n assms(2) AwIrq mie slot w
      by (cases "aw_waiter s" rule: await_resting.cases) (auto simp: await_inv_def elim: waiter_inv.elims)
  next
    case (Init wk)
    then show ?thesis using n assms(2) AwIrq mie slot w
      by (cases "aw_waiter s" rule: await_resting.cases) (auto simp: await_inv_def elim: waiter_inv.elims)
  qed
next
  case AwDrop
  then show ?thesis using assms
    by (cases "aw_waiter s") (auto simp: await_inv_def split: if_splits)
qed

lemma reachable_inv:
  assumes "good src" "await_reachable tk post src s"
  shows "await_inv good ready s"
  using assms(2)
proof induction
  case await_init
  then show ?case using assms(1) by (simp add: await_start_def await_inv_def)
next
  case (await_next s ev s')
  then show ?case using exec_inv by blast
qed

lemma never_panics:
  assumes "good src" "await_reachable tk post src s"
  shows "await_exec tk post ev s \<noteq> Some (Inl err)"
  using exec_inv [OF reachable_inv [OF assms]] by blast

lemma parked_armed:
  assumes "good src" "await_reachable tk post src s" "aw_waiter s = W_Parked w"
  shows "\<not> ready (ch_src (aw_chan s)) \<and> ch_has (aw_chan s) \<noteq> 0 \<and> ch_slot (aw_chan s) = Init w \<and> aw_mie s"
  using reachable_inv [OF assms(1,2)] assms(3) by (auto simp: await_inv_def)

lemma parked_woken:
  assumes "good src" "await_reachable tk post src s" "aw_waiter s = W_Parked w" "real e"
  shows "\<exists>s1 s2 s3 v. await_exec tk post (AwIrq e) s = Some (Inr s1)
    \<and> aw_waiter s1 = W_Woken w \<and> aw_woken s1 = aw_woken s @ [w]
    \<and> await_exec tk post (AwPoll w) s1 = Some (Inr s2)
    \<and> await_exec tk post AwStep s2 = Some (Inr s3)
    \<and> aw_waiter s3 = W_Idle \<and> aw_got s3 = aw_got s @ [v]"
proof -
  let ?c = "aw_chan s"
  have inv: "await_inv good ready s" by (rule reachable_inv [OF assms(1,2)])
  then have good: "good (ch_src ?c)" and slot: "ch_has ?c = 0 \<longleftrightarrow> ch_slot ?c = Uninit"
    by (simp_all add: await_inv_def)
  have p: "ch_slot ?c = Init w" "aw_mie s" using parked_armed [OF assms(1-3)] by simp_all
  obtain s' where s': "good s'" "real e \<longrightarrow> ready s'"
    "chan_notify post e ?c = Inr (case ch_slot ?c of Uninit \<Rightarrow> (None, ?c\<lparr>ch_src := s'\<rparr>)
      | Init w \<Rightarrow> (Some w, ?c\<lparr>ch_src := s', ch_has := 0, ch_slot := Uninit\<rparr>))"
    by (rule notify_ok [OF good slot, of e])
  have n: "chan_notify post e ?c = Inr (Some w, ?c\<lparr>ch_src := s', ch_has := 0, ch_slot := Uninit\<rparr>)"
    using s'(3) by (simp only: p(1) cell.case)
  obtain v s'' where t: "tk s' = Inr (Some v, s'')" using take_ready [OF s'(1)] s'(2) assms(4) by blast
  let ?d = "?c\<lparr>ch_src := s', ch_has := 0, ch_slot := Uninit\<rparr>"
  let ?s1 = "s\<lparr>aw_chan := ?d, aw_woken := aw_woken s @ [w], aw_waiter := W_Woken w\<rparr>"
  let ?s2 = "?s1\<lparr>aw_waiter := W_Fast w\<rparr>"
  let ?s3 = "?s2\<lparr>aw_chan := ?d\<lparr>ch_src := s''\<rparr>, aw_waiter := W_Idle, aw_got := aw_got s @ [v]\<rparr>"
  have "await_exec tk post (AwIrq e) s = Some (Inr ?s1)" using p n assms(3) by simp
  moreover have "await_exec tk post (AwPoll w) ?s1 = Some (Inr ?s2)" by simp
  moreover have "await_exec tk post AwStep ?s2 = Some (Inr ?s3)" by (simp add: chan_take_def t)
  moreover have "aw_waiter ?s1 = W_Woken w" "aw_woken ?s1 = aw_woken s @ [w]"
    "aw_waiter ?s3 = W_Idle" "aw_got ?s3 = aw_got s @ [v]" by simp_all
  ultimately show ?thesis by blast
qed

end

end
