(* ===== verification/Irq.thy ===== *)
theory Irq
  imports AwaitIrq
begin

text \<open>
  External interrupts: the handler table, the dispatcher and \<open>IrqLatch\<close> of
  \<open>platform/src/irq.rs\<close>, and the interrupt controller \<open>platform/src/drivers/plic_sifive.rs\<close>.
\<close>

section \<open>The latch\<close>

text \<open>The event source of the latch is its \<open>pending\<close> flag; taking it is \<open>swap(0)\<close>.\<close>

definition latch_take :: "u8 \<Rightarrow> (unit option \<times> u8) result" where
  "latch_take pending = Inr (if pending \<noteq> 0 then Some () else None, 0)"

definition latch_post :: "unit \<Rightarrow> u8 \<Rightarrow> u8 result" where
  "latch_post e pending = Inr 1"

definition latch_new :: "u8 chan" where
  "latch_new = \<lparr>ch_src = 0, ch_has = 0, ch_slot = Uninit\<rparr>"

definition latch_notify :: "u8 chan \<Rightarrow> (nat option \<times> u8 chan) result" where
  "latch_notify c = chan_notify latch_post () c"

definition latch_poll :: "nat \<Rightarrow> u8 chan \<Rightarrow> (unit option \<times> u8 chan) result" where
  "latch_poll w c = await_poll latch_take w c"

definition irq_future_poll :: "nat \<Rightarrow> u8 chan \<Rightarrow> (unit option \<times> u8 chan) result" where
  "irq_future_poll w c = latch_poll w c"

interpretation latch: event_source latch_take latch_post "\<lambda>p. True" "\<lambda>p. p \<noteq> 0" "\<lambda>e. True"
  by unfold_locales (auto simp: latch_take_def latch_post_def)

text \<open>
  C22. No interrupt is slept through.  For a latch with one waiter, which is what its waker slot has
  room for, however notifications and the steps of polls interleave, a task
  whose poll returned \<open>Pending\<close> and that was not woken since faces a clear latch in which it is
  registered, so the next notification wakes it and its next poll is \<open>Ready\<close>; nothing in a run
  reads an uninitialised waker or drops one twice.
\<close>

theorem irq_latch_not_lost:
  assumes "await_reachable latch_take latch_post 0 s"
  shows "await_exec latch_take latch_post ev s \<noteq> Some (Inl err)
    \<and> (aw_waiter s = W_Parked w \<longrightarrow> ch_src (aw_chan s) = 0
        \<and> (\<exists>s1 s2 s3. await_exec latch_take latch_post (AwIrq ()) s = Some (Inr s1)
            \<and> aw_waiter s1 = W_Woken w \<and> aw_woken s1 = aw_woken s @ [w]
            \<and> await_exec latch_take latch_post (AwPoll w) s1 = Some (Inr s2)
            \<and> await_exec latch_take latch_post AwStep s2 = Some (Inr s3)
            \<and> aw_waiter s3 = W_Idle \<and> aw_got s3 = aw_got s @ [()]))"
  using latch.never_panics [OF TrueI assms] latch.parked_armed [OF TrueI assms]
    latch.parked_woken [OF TrueI assms _ TrueI, of w "()"]
  by simp

definition latch_demo :: "(u8, unit) await" where
  "latch_demo = (await_start 0)\<lparr>aw_chan := \<lparr>ch_src = 0, ch_has = 1, ch_slot = Init 7\<rparr>,
     aw_waiter := W_Parked 7\<rparr>"

lemma latch_demo_reachable: "await_reachable latch_take latch_post 0 latch_demo"
proof -
  let ?go = "\<lambda>wt mie c. (await_start 0)\<lparr>aw_chan := c, aw_mie := mie, aw_waiter := wt\<rparr> :: (u8, unit) await"
  let ?c0 = "\<lparr>ch_src = 0, ch_has = 0, ch_slot = Uninit\<rparr>"
  let ?c1 = "\<lparr>ch_src = 0, ch_has = 1, ch_slot = Init 7\<rparr>"
  have r0: "await_reachable latch_take latch_post 0 (await_start 0)" by (rule await_init)
  have r1: "await_reachable latch_take latch_post 0 (?go (W_Fast 7) True ?c0)"
    by (rule await_next [OF r0, of "AwPoll 7"]) (simp add: await_start_def)
  have r2: "await_reachable latch_take latch_post 0 (?go (W_Mask 7) True ?c0)"
    by (rule await_next [OF r1, of AwStep]) (simp add: await_start_def chan_take_def latch_take_def)
  have r3: "await_reachable latch_take latch_post 0 (?go (W_Register 7) False ?c0)"
    by (rule await_next [OF r2, of AwStep]) (simp add: await_start_def)
  have r4: "await_reachable latch_take latch_post 0 (?go (W_Recheck 7) False ?c1)"
    by (rule await_next [OF r3, of AwStep]) (simp add: await_start_def slot_register_def)
  have r5: "await_reachable latch_take latch_post 0 (?go (W_Unmask 7 None) False ?c1)"
    by (rule await_next [OF r4, of AwStep]) (simp add: await_start_def chan_take_def latch_take_def)
  show ?thesis unfolding latch_demo_def
    by (rule await_next [OF r5, of AwStep]) (simp add: await_start_def)
qed

theorem irq_latch_not_lost_witness:
  "\<exists>s1. await_exec latch_take latch_post (AwIrq ()) latch_demo = Some (Inr s1) \<and> aw_woken s1 = [7]"
proof -
  have w: "aw_waiter latch_demo = W_Parked 7" "aw_woken latch_demo = []"
    by (simp_all add: latch_demo_def await_start_def)
  show ?thesis
    using irq_latch_not_lost [OF latch_demo_reachable, of AwStep undefined 7] w by force
qed

section \<open>Handler table and dispatch\<close>

definition MAX_IRQ :: nat where
  "MAX_IRQ = 96"

text \<open>A zero entry of \<open>IRQ_TABLE\<close> is None; a handler is any value of type \<open>'h\<close>.\<close>

definition irq_table_new :: "'h option list" where
  "irq_table_new = replicate MAX_IRQ None"

definition register_irq :: "u32 \<Rightarrow> 'h \<Rightarrow> 'h option list \<Rightarrow> 'h option list result" where
  "register_irq irq handler table =
     (if unat irq < length table then Inr (table[unat irq := Some handler]) else Inl IndexOutOfBounds)"

text \<open>
  The interrupt controller and the handlers work on a state of type \<open>'s\<close>; \<open>intctl\<close> tells
  whether a controller is registered.
\<close>

definition dispatch_external ::
  "bool \<Rightarrow> ('s \<Rightarrow> u32 \<times> 's) \<Rightarrow> (u32 \<Rightarrow> 's \<Rightarrow> 's) \<Rightarrow> ('h \<Rightarrow> u32 \<Rightarrow> 's \<Rightarrow> 's result) \<Rightarrow> 'h option list \<Rightarrow> 's \<Rightarrow>
   's result" where
  "dispatch_external intctl claim complete call table s =
     (if \<not> intctl then Inl NotRegistered
      else case claim s of (irq, s1) \<Rightarrow>
        if irq = 0 then Inr (complete 0 s1)
        else if unat irq < length table then
          rbind (case table ! unat irq of None \<Rightarrow> Inr s1 | Some handler \<Rightarrow> call handler irq s1)
            (\<lambda>s2. Inr (complete irq s2))
        else Inl IndexOutOfBounds)"

fun register_all :: "(u32 \<times> 'h) list \<Rightarrow> 'h option list \<Rightarrow> 'h option list result" where
  "register_all [] table = Inr table"
| "register_all ((irq, h) # regs) table = rbind (register_irq irq h table) (register_all regs)"

lemma register_all_table:
  assumes "\<forall>(irq, h)\<in>set regs. unat irq < length table"
  shows "\<exists>table'. register_all regs table = Inr table' \<and> length table' = length table
    \<and> (\<forall>irq. unat irq < length table \<longrightarrow> table' ! unat irq
        = (case map_of (rev regs) irq of None \<Rightarrow> table ! unat irq | Some h \<Rightarrow> Some h))"
  using assms
proof (induction regs arbitrary: table)
  case (Cons p regs)
  obtain i h where p: "p = (i, h)" by (cases p)
  let ?t = "table[unat i := Some h]"
  have "\<forall>(irq, h)\<in>set regs. unat irq < length ?t" using Cons.prems by auto
  from Cons.IH [OF this] obtain t' where t': "register_all regs ?t = Inr t'" "length t' = length ?t"
    "\<forall>irq. unat irq < length ?t \<longrightarrow> t' ! unat irq
        = (case map_of (rev regs) irq of None \<Rightarrow> ?t ! unat irq | Some h \<Rightarrow> Some h)" by blast
  have "register_all (p # regs) table = Inr t'" using Cons.prems t'(1) by (simp add: p register_irq_def)
  moreover have "t' ! unat irq = (case map_of (rev (p # regs)) irq of
      None \<Rightarrow> table ! unat irq | Some h \<Rightarrow> Some h)" if "unat irq < length table" for irq
    using t'(3) that by (auto simp: p map_add_def nth_list_update word_unat_eq_iff split: option.splits)
  ultimately show ?case using t'(2) by auto
qed simp

text \<open>
  C36. If all registered interrupts and the claimed one are below \<open>MAX_IRQ\<close>, the size of the table, then
  registering succeeds, and the dispatcher calls the handler that was registered last for the claimed
  interrupt, with that interrupt, and completes the claim after it returns; a claimed interrupt without
  a handler is completed at once, and so is a spurious one (a claim of 0).  (A claim of \<open>MAX_IRQ\<close> or
  above panics: a lemma below.)
\<close>

theorem dispatch_calls_registered:
  assumes "\<forall>(irq, h)\<in>set regs. unat irq < MAX_IRQ" "claim s = (irq, s1)" "unat irq < MAX_IRQ"
  shows "\<exists>table. register_all regs irq_table_new = Inr table
    \<and> dispatch_external True claim complete call table s
      = (case if irq = 0 then None else map_of (rev regs) irq of
           None \<Rightarrow> Inr (complete irq s1)
         | Some h \<Rightarrow> rbind (call h irq s1) (\<lambda>s2. Inr (complete irq s2)))"
proof -
  obtain t where t: "register_all regs irq_table_new = Inr t" "length t = MAX_IRQ"
    "t ! unat irq = (case map_of (rev regs) irq of None \<Rightarrow> None | Some h \<Rightarrow> Some h)"
  proof -
    have new: "length irq_table_new = MAX_IRQ" "irq_table_new ! unat irq = None"
      using assms(3) by (simp_all add: irq_table_new_def)
    then show ?thesis
      using register_all_table [of regs irq_table_new, unfolded new(1), OF assms(1)] assms(3) that new(2)
      by metis
  qed
  show ?thesis
    using t assms(2,3) by (auto simp: dispatch_external_def split: option.splits)
qed

theorem dispatch_calls_registered_witness:
  "\<exists>table. register_all [(10, ''uart''), (11, ''rtc''), (10, ''uart1'')] irq_table_new = Inr table
    \<and> dispatch_external True (\<lambda>s. (10, s)) (\<lambda>i s. s @ [(''complete'', i)])
        (\<lambda>h i s. Inr (s @ [(h, i)])) table [] = Inr [(''uart1'', 10), (''complete'', 10)]"
  using dispatch_calls_registered [of "[(10, ''uart''), (11, ''rtc''), (10, ''uart1'')]"
    "\<lambda>s. (10, s)" "[]" 10 "[]" "\<lambda>i s. s @ [(''complete'', i)]" "\<lambda>h i s. Inr (s @ [(h, i)])"]
  by (simp add: MAX_IRQ_def)

text \<open>The table has no bounds check of its own: a claim of interrupt 96 or above panics.\<close>

lemma dispatch_out_of_range:
  "claim s = (irq, s1) \<Longrightarrow> MAX_IRQ \<le> unat irq \<Longrightarrow> length table = MAX_IRQ
    \<Longrightarrow> dispatch_external True claim complete call table s = Inl IndexOutOfBounds"
  by (auto simp: dispatch_external_def MAX_IRQ_def)

section \<open>The PLIC\<close>

text \<open>Its registers are 32-bit words of a memory; \<open>pl_base\<close> and \<open>pl_ctx\<close> are what \<open>probe\<close> stores.\<close>

record plic =
  pl_base :: u64
  pl_ctx :: u64

type_synonym mem32 = "u64 \<Rightarrow> u32"

definition PRIORITY_BASE :: u64 where "PRIORITY_BASE = 0"
definition ENABLE_BASE :: u64 where "ENABLE_BASE = 0x2000"
definition THRESHOLD_OFFSET :: u64 where "THRESHOLD_OFFSET = 0x200000"

definition ctx_regs :: "plic \<Rightarrow> u64" where
  "ctx_regs p = pl_base p + THRESHOLD_OFFSET + pl_ctx p * 0x1000"

definition priority_regs :: "plic \<Rightarrow> u32 \<Rightarrow> u64" where
  "priority_regs p irq = pl_base p + PRIORITY_BASE + of_nat (unat irq) * 4"

definition enable_regs :: "plic \<Rightarrow> u32 \<Rightarrow> u64" where
  "enable_regs p irq = pl_base p + ENABLE_BASE + pl_ctx p * 0x80 + of_nat (unat irq div 32) * 4"

definition enable_irq :: "u32 \<Rightarrow> plic \<Rightarrow> mem32 \<Rightarrow> mem32" where
  "enable_irq irq p m = (let b = push_bit (unat (irq mod 32)) 1; r = enable_regs p irq in m(r := m r OR b))"

definition disable_irq :: "u32 \<Rightarrow> plic \<Rightarrow> mem32 \<Rightarrow> mem32" where
  "disable_irq irq p m =
     (let b = push_bit (unat (irq mod 32)) 1; r = enable_regs p irq in m(r := m r AND NOT b))"

definition set_irq_priority :: "u32 \<Rightarrow> u32 \<Rightarrow> plic \<Rightarrow> mem32 \<Rightarrow> mem32" where
  "set_irq_priority irq prio p m = m(priority_regs p irq := prio)"

definition set_threshold :: "u32 \<Rightarrow> plic \<Rightarrow> mem32 \<Rightarrow> mem32" where
  "set_threshold thr p m = m(ctx_regs p := thr)"

definition plic_claim :: "plic \<Rightarrow> mem32 \<Rightarrow> u32" where
  "plic_claim p m = m (ctx_regs p + 4)"

definition plic_complete :: "u32 \<Rightarrow> plic \<Rightarrow> mem32 \<Rightarrow> mem32" where
  "plic_complete irq p m = m(ctx_regs p + 4 := irq)"

definition irq_enabled :: "plic \<Rightarrow> mem32 \<Rightarrow> u32 \<Rightarrow> bool" where
  "irq_enabled p m irq = bit (m (enable_regs p irq)) (unat irq mod 32)"

lemma unat_mod_32: "unat ((irq :: u32) mod 32) = unat irq mod 32"
  by (simp add: unat_mod_distrib)

text \<open>Addresses as offsets from the base, without wrap-around.\<close>

definition small_ctx :: "plic \<Rightarrow> bool" where
  "small_ctx p \<longleftrightarrow> unat (pl_ctx p) < 15872"

lemma regs_offsets:
  "enable_regs p i = pl_base p + of_nat (8192 + unat (pl_ctx p) * 128 + unat i div 32 * 4)"
  "priority_regs p i = pl_base p + of_nat (unat i * 4)"
  "ctx_regs p = pl_base p + of_nat (2097152 + unat (pl_ctx p) * 4096)"
  "ctx_regs p + 4 = pl_base p + of_nat (2097156 + unat (pl_ctx p) * 4096)"
  by (simp_all add: enable_regs_def priority_regs_def ctx_regs_def ENABLE_BASE_def PRIORITY_BASE_def
      THRESHOLD_OFFSET_def)

lemma offset_eq:
  assumes "a < 2 ^ 64" "b < 2 ^ 64"
  shows "x + of_nat a = x + (of_nat b :: u64) \<longleftrightarrow> a = b"
proof -
  have "x + of_nat a = x + of_nat b \<longleftrightarrow> (of_nat a :: u64) = of_nat b" by simp
  also have "\<dots> \<longleftrightarrow> a = b"
    using assms by (simp only: word_unat_eq_iff unsigned_of_nat len_num1 len_bit0) (simp add: take_bit_nat_eq_self)
  finally show ?thesis .
qed

lemma enable_word_eq:
  assumes "small_ctx p" "unat i < 1024" "unat j < 1024"
  shows "enable_regs p i = enable_regs p j \<longleftrightarrow> unat i div 32 = unat j div 32"
  unfolding regs_offsets using assms by (subst offset_eq) (auto simp: small_ctx_def)

lemma enable_word_other:
  assumes "small_ctx p" "unat i < 1024" "unat j < 1024"
  shows "enable_regs p i \<noteq> priority_regs p j" "enable_regs p i \<noteq> ctx_regs p"
    "enable_regs p i \<noteq> ctx_regs p + 4"
proof -
  show "enable_regs p i \<noteq> priority_regs p j"
    unfolding regs_offsets(1,2) using assms by (subst offset_eq) (auto simp: small_ctx_def)
  show "enable_regs p i \<noteq> ctx_regs p"
    unfolding regs_offsets(1,3) using assms by (subst offset_eq) (auto simp: small_ctx_def)
  show "enable_regs p i \<noteq> ctx_regs p + 4"
    unfolding regs_offsets(1,4) using assms by (subst offset_eq) (auto simp: small_ctx_def)
qed

lemma bit_enable:
  assumes "unat i div 32 = unat j div 32"
  shows "unat i mod 32 = unat j mod 32 \<longleftrightarrow> i = (j :: u32)"
proof
  assume "unat i mod 32 = unat j mod 32"
  then have "unat i = unat j" using assms by (metis div_mult_mod_eq)
  then show "i = j" by (simp add: word_unat_eq_iff)
qed simp

text \<open>
  C40. For interrupts below 1024 and a context below 15872, as many as a PLIC has (\<open>small_ctx\<close>): enabling and disabling an interrupt at the PLIC changes the enable bit of that interrupt in
  the driver's context and nothing else: no other interrupt's bit, no priority, no threshold, and not
  the claim register.
\<close>

theorem plic_enable_exact:
  assumes "small_ctx p" "unat i < 1024" "unat j < 1024"
  shows "(irq_enabled p (enable_irq i p m) j \<longleftrightarrow> j = i \<or> irq_enabled p m j)
    \<and> (irq_enabled p (disable_irq i p m) j \<longleftrightarrow> j \<noteq> i \<and> irq_enabled p m j)
    \<and> (\<forall>a \<in> {priority_regs p j, ctx_regs p, ctx_regs p + 4}.
          enable_irq i p m a = m a \<and> disable_irq i p m a = m a)"
proof (intro conjI)
  let ?i = "enable_regs p i" and ?j = "enable_regs p j"
  have ij: "?i = ?j \<and> unat i mod 32 = unat j mod 32 \<longleftrightarrow> j = i"
    using bit_enable [of i j] enable_word_eq [OF assms] by auto
  have b: "bit (push_bit (unat i mod 32) 1 :: u32) (unat j mod 32) \<longleftrightarrow> unat i mod 32 = unat j mod 32"
    by (auto simp: bit_exp_iff)
  have nb: "bit (NOT (push_bit (unat i mod 32) 1) :: u32) (unat j mod 32) \<longleftrightarrow> unat i mod 32 \<noteq> unat j mod 32"
    by (auto simp: bit_not_iff bit_exp_iff)
  show "irq_enabled p (enable_irq i p m) j \<longleftrightarrow> j = i \<or> irq_enabled p m j"
    unfolding irq_enabled_def enable_irq_def Let_def unat_mod_32 fun_upd_apply
    using ij by (cases "?j = ?i") (auto simp only: bit_or_iff b if_True if_False simp_thms)
  show "irq_enabled p (disable_irq i p m) j \<longleftrightarrow> j \<noteq> i \<and> irq_enabled p m j"
    unfolding irq_enabled_def disable_irq_def Let_def unat_mod_32 fun_upd_apply
    using ij by (cases "?j = ?i")
      (auto simp only: bit_and_iff nb if_True if_False simp_thms)
  show "\<forall>a \<in> {priority_regs p j, ctx_regs p, ctx_regs p + 4}.
      enable_irq i p m a = m a \<and> disable_irq i p m a = m a"
    using enable_word_other [OF assms] by (auto simp: enable_irq_def disable_irq_def Let_def)
qed

theorem plic_enable_exact_witness:
  "irq_enabled \<lparr>pl_base = 0xC000000, pl_ctx = 2\<rparr> (enable_irq 10 \<lparr>pl_base = 0xC000000, pl_ctx = 2\<rparr> (\<lambda>a. 0)) 10
   \<and> \<not> irq_enabled \<lparr>pl_base = 0xC000000, pl_ctx = 2\<rparr> (enable_irq 10 \<lparr>pl_base = 0xC000000, pl_ctx = 2\<rparr> (\<lambda>a. 0)) 11"
  using plic_enable_exact [of "\<lparr>pl_base = 0xC000000, pl_ctx = 2\<rparr>" 10 10 "\<lambda>a. 0"]
    plic_enable_exact [of "\<lparr>pl_base = 0xC000000, pl_ctx = 2\<rparr>" 10 11 "\<lambda>a. 0"]
  by (simp add: small_ctx_def irq_enabled_def)

end
