(* ===== verification/SerialRx.thy ===== *)
theory SerialRx
  imports AwaitIrq
begin

text \<open>
  The serial port \<open>platform/src/drivers/serial_ns16550a.rs\<close>: the receive ring buffer with its
  interrupt handler and its poll primitive, and the blocking transmit loop; and the future
  \<open>SerialRx\<close> of \<open>futures/src/serial.rs\<close>.
\<close>

section \<open>The ring buffer\<close>

definition RX_BUF_SIZE :: nat where
  "RX_BUF_SIZE = 256"

definition RX_BUF_MASK :: u16 where
  "RX_BUF_MASK = of_nat (RX_BUF_SIZE - 1)"

record ring =
  rx_head :: u16
  rx_tail :: u16
  rx_buf :: "u8 list"

definition ring_new :: ring where
  "ring_new = \<lparr>rx_head = 0, rx_tail = 0, rx_buf = replicate RX_BUF_SIZE 0\<rparr>"

definition rx_push :: "u8 \<Rightarrow> ring \<Rightarrow> ring result" where
  "rx_push byte r =
     (let next = (rx_head r + 1) AND RX_BUF_MASK in
      if next = rx_tail r then Inr r
      else if unat (rx_head r) < length (rx_buf r)
      then Inr (r\<lparr>rx_buf := (rx_buf r)[unat (rx_head r) := byte], rx_head := next\<rparr>)
      else Inl IndexOutOfBounds)"

definition rx_pop :: "ring \<Rightarrow> (u8 option \<times> ring) result" where
  "rx_pop r =
     (if rx_head r = rx_tail r then Inr (None, r)
      else if unat (rx_tail r) < length (rx_buf r)
      then Inr (Some (rx_buf r ! unat (rx_tail r)), r\<lparr>rx_tail := (rx_tail r + 1) AND RX_BUF_MASK\<rparr>)
      else Inl IndexOutOfBounds)"

text \<open>
  The loop of \<open>rx_handler\<close>: the bytes the receive FIFO of the device holds, oldest first, are
  read one by one until the data-ready bit is clear.
\<close>

fun rx_drain :: "u8 list \<Rightarrow> ring \<Rightarrow> ring result" where
  "rx_drain [] r = Inr r"
| "rx_drain (byte # fifo) r = rbind (rx_push byte r) (rx_drain fifo)"

text \<open>
  \<open>rx_pop\<close> runs with interrupts enabled: the handler may push bytes between the load of \<open>tail\<close>
  and the load of \<open>head\<close> (\<open>bs1\<close>), between that and the read of the buffer (\<open>bs2\<close>), and before
  the store to \<open>tail\<close> (\<open>bs3\<close>).
\<close>

definition rx_pop_with :: "u8 list \<Rightarrow> u8 list \<Rightarrow> u8 list \<Rightarrow> ring \<Rightarrow> (u8 option \<times> ring) result" where
  "rx_pop_with bs1 bs2 bs3 r =
     (let tail = rx_tail r in
      rbind (rx_drain bs1 r) (\<lambda>r1.
      let head = rx_head r1 in
      if head = tail then Inr (None, r1)
      else
        rbind (rx_drain bs2 r1) (\<lambda>r2.
        if unat tail < length (rx_buf r2)
        then
          let byte = rx_buf r2 ! unat tail in
          rbind (rx_drain bs3 r2) (\<lambda>r3. Inr (Some byte, r3\<lparr>rx_tail := (tail + 1) AND RX_BUF_MASK\<rparr>))
        else Inl IndexOutOfBounds)))"

section \<open>The ring as a queue\<close>

definition ring_ok :: "ring \<Rightarrow> bool" where
  "ring_ok r \<longleftrightarrow> length (rx_buf r) = 256 \<and> unat (rx_head r) < 256 \<and> unat (rx_tail r) < 256"

definition ring_len :: "ring \<Rightarrow> nat" where
  "ring_len r = (unat (rx_head r) + 256 - unat (rx_tail r)) mod 256"

definition contents :: "ring \<Rightarrow> u8 list" where
  "contents r = map (\<lambda>i. rx_buf r ! ((unat (rx_tail r) + i) mod 256)) [0..<ring_len r]"

lemma length_contents [simp]: "length (contents r) = ring_len r"
  by (simp add: contents_def)

lemma ring_len_less: "ring_len r < 256"
  by (simp add: ring_len_def)

lemma ring_new_ok: "ring_ok ring_new" "contents ring_new = []"
  by (simp_all add: ring_ok_def ring_new_def RX_BUF_SIZE_def contents_def ring_len_def)

lemma unat_next:
  assumes "unat (h :: u16) < 256"
  shows "unat ((h + 1) AND RX_BUF_MASK) = (unat h + 1) mod 256"
proof -
  have "RX_BUF_MASK = mask 8" by (simp add: RX_BUF_MASK_def RX_BUF_SIZE_def mask_eq_exp_minus_1)
  then have "unat ((h + 1) AND RX_BUF_MASK) = unat (take_bit 8 (h + 1))"
    by (simp add: take_bit_eq_mask)
  also have "\<dots> = unat (h + 1) mod 256" by (subst unsigned_take_bit_eq) (simp add: take_bit_eq_mod)
  also have "unat (h + 1) = unat h + 1" using assms by (simp add: unat_word_ariths)
  finally show ?thesis .
qed

lemma ring_len_cases:
  assumes "ring_ok r"
  shows "ring_len r = (if unat (rx_tail r) \<le> unat (rx_head r)
    then unat (rx_head r) - unat (rx_tail r) else unat (rx_head r) + 256 - unat (rx_tail r))"
proof -
  have "(h + 256 - t) mod 256 = (if t \<le> h then h - t else h + 256 - t)" if "h < 256" "t < 256" for h t :: nat
  proof (cases "t \<le> h")
    case True
    then have "h + 256 - t = (h - t) + 256" by simp
    then show ?thesis using that True by (simp only: mod_add_self2) simp
  qed (use that in simp)
  then show ?thesis using assms by (simp add: ring_len_def ring_ok_def)
qed

lemma mod_256_wrap: "(i :: nat) < 512 \<Longrightarrow> i mod 256 = (if i < 256 then i else i - 256)"
  by (auto simp: le_mod_geq)

lemma ring_empty:
  assumes "ring_ok r"
  shows "contents r = [] \<longleftrightarrow> rx_head r = rx_tail r"
proof -
  have "ring_len r = 0 \<longleftrightarrow> unat (rx_head r) = unat (rx_tail r)"
    using ring_len_cases [OF assms] assms unfolding ring_ok_def by auto
  then show ?thesis by (simp add: contents_def word_unat_eq_iff)
qed

lemma rx_push_spec:
  assumes "ring_ok r"
  shows "\<exists>r'. rx_push b r = Inr r' \<and> ring_ok r' \<and> rx_tail r' = rx_tail r
    \<and> contents r' = (if length (contents r) < 255 then contents r @ [b] else contents r)"
proof -
  let ?h = "unat (rx_head r)" and ?t = "unat (rx_tail r)"
  have ok: "length (rx_buf r) = 256" "?h < 256" "?t < 256" using assms by (simp_all add: ring_ok_def)
  have full: "(rx_head r + 1) AND RX_BUF_MASK = rx_tail r \<longleftrightarrow> ring_len r = 255"
  proof -
    have "(rx_head r + 1) AND RX_BUF_MASK = rx_tail r \<longleftrightarrow> (?h + 1) mod 256 = ?t"
      by (simp add: word_unat_eq_iff unat_next [OF ok(2)])
    also have "\<dots> \<longleftrightarrow> ring_len r = 255"
      using ok(2,3) mod_256_wrap [of "?h + 1"] by (auto simp: ring_len_cases [OF assms])
    finally show ?thesis .
  qed
  show ?thesis
  proof (cases "ring_len r = 255")
    case True
    then show ?thesis using full assms by (simp add: rx_push_def Let_def)
  next
    case False
    let ?r' = "r\<lparr>rx_buf := (rx_buf r)[?h := b], rx_head := (rx_head r + 1) AND RX_BUF_MASK\<rparr>"
    have less: "ring_len r < 255" using False ring_len_less [of r] by linarith
    have len: "ring_len ?r' = Suc (ring_len r)"
      using less ok mod_256_wrap [of "?h + 1"] ring_len_cases [of ?r'] ring_len_cases [OF assms]
      by (auto simp: ring_ok_def unat_next [OF ok(2)] split: if_splits)
    have pos: "(?t + ring_len r) mod 256 = ?h"
      using ok(2,3) mod_256_wrap [of "?t + ring_len r"] by (auto simp: ring_len_cases [OF assms])
    have other: "?h \<noteq> (?t + i) mod 256" if "i < ring_len r" for i
      using that ok(2,3) mod_256_wrap [of "?t + i"] by (auto simp: ring_len_cases [OF assms] split: if_splits)
    have "contents ?r' = contents r @ [b]"
      using ok pos other by (simp add: contents_def len)
    then show ?thesis
      using full False less ok by (simp add: rx_push_def Let_def ring_ok_def unat_next)
  qed
qed

lemma rx_pop_spec:
  assumes "ring_ok r"
  shows "case contents r of
      [] \<Rightarrow> rx_pop r = Inr (None, r)
    | b # bs \<Rightarrow> \<exists>r'. rx_pop r = Inr (Some b, r') \<and> ring_ok r' \<and> contents r' = bs"
proof (cases "rx_head r = rx_tail r")
  case True
  then have "contents r = []" using ring_empty [OF assms] by blast
  then show ?thesis using True by (simp add: rx_pop_def)
next
  case False
  let ?h = "unat (rx_head r)" and ?t = "unat (rx_tail r)"
  let ?r' = "r\<lparr>rx_tail := (rx_tail r + 1) AND RX_BUF_MASK\<rparr>"
  have ok: "length (rx_buf r) = 256" "?h < 256" "?t < 256" using assms by (simp_all add: ring_ok_def)
  have ok': "ring_ok ?r'" using assms by (simp add: ring_ok_def unat_next)
  have ne: "?h \<noteq> ?t" using False by (simp add: word_unat_eq_iff)
  have len: "ring_len r = Suc (ring_len ?r')"
    using ne ok(2,3) mod_256_wrap [of "?t + 1"] ring_len_cases [OF ok'] ring_len_cases [OF assms]
    by (auto simp: unat_next [OF ok(3)] split: if_splits)
  have shift: "(Suc ?t mod 256 + i) mod 256 = Suc (?t + i) mod 256" for i
    using mod_add_left_eq [of "Suc ?t" 256 i] by simp
  have "contents r = rx_buf r ! ?t # contents ?r'"
    unfolding contents_def len upt_conv_Cons [OF zero_less_Suc] list.map map_Suc_upt [symmetric]
    using ok(3) by (simp add: unat_next [OF ok(3)] shift del: upt_Suc)
  then show ?thesis using False ok ok' by (simp add: rx_pop_def)
qed

lemma take_take_append: "take n (take n xs @ ys) = take n (xs @ ys)"
  by (cases "length xs \<le> n") simp_all

lemma rx_drain_spec:
  assumes "ring_ok r"
  shows "\<exists>r'. rx_drain bs r = Inr r' \<and> ring_ok r' \<and> rx_tail r' = rx_tail r
    \<and> contents r' = take 255 (contents r @ bs)"
  using assms
proof (induction bs arbitrary: r)
  case Nil
  then show ?case using ring_len_less [of r] by simp
next
  case (Cons b bs)
  obtain r1 where r1: "rx_push b r = Inr r1" "ring_ok r1" "rx_tail r1 = rx_tail r"
    "contents r1 = (if length (contents r) < 255 then contents r @ [b] else contents r)"
    using rx_push_spec [OF Cons.prems] by blast
  obtain r2 where r2: "rx_drain bs r1 = Inr r2" "ring_ok r2" "rx_tail r2 = rx_tail r1"
    "contents r2 = take 255 (contents r1 @ bs)"
    using Cons.IH [OF r1(2)] by blast
  have "take 255 (contents r1 @ bs) = take 255 (contents r @ b # bs)"
    using r1(4) ring_len_less [of r] by (cases "ring_len r < 255") (auto simp: not_less)
  then show ?case using r1 r2 by simp
qed

text \<open>Storing \<open>tail + 1\<close> late takes the first byte off the queue, whatever was pushed meanwhile.\<close>

lemma rx_pop_late:
  assumes "ring_ok r" "contents r = b # bs"
  shows "rx_buf r ! unat (rx_tail r) = b \<and> ring_ok (r\<lparr>rx_tail := (rx_tail r + 1) AND RX_BUF_MASK\<rparr>)
    \<and> contents (r\<lparr>rx_tail := (rx_tail r + 1) AND RX_BUF_MASK\<rparr>) = bs"
proof -
  have "rx_head r \<noteq> rx_tail r" using ring_empty [OF assms(1)] assms(2) by auto
  then show ?thesis using rx_pop_spec [OF assms(1)] assms by (auto simp: rx_pop_def ring_ok_def)
qed

text \<open>
  C25. The ring buffer is a queue of 255 bytes that drops what does not fit, and taking a byte is
  atomic although it is not protected: a pop that the receive handler interrupts anywhere, with
  any bytes, returns the byte at the front of what was queued when it read \<open>head\<close>, and leaves the
  queue as if it had run at once.
\<close>

theorem rx_pop_interrupted:
  assumes "ring_ok r"
  shows "\<exists>v r'. rx_pop_with bs1 bs2 bs3 r = Inr (v, r') \<and> ring_ok r'
    \<and> (case take 255 (contents r @ bs1) of
         [] \<Rightarrow> v = None \<and> contents r' = []
       | b # q \<Rightarrow> v = Some b \<and> contents r' = tl (take 255 (contents r @ bs1 @ bs2 @ bs3)))"
proof -
  obtain r1 where r1: "rx_drain bs1 r = Inr r1" "ring_ok r1" "rx_tail r1 = rx_tail r"
    "contents r1 = take 255 (contents r @ bs1)"
    using rx_drain_spec [OF assms] by blast
  show ?thesis
  proof (cases "contents r1")
    case Nil
    then have "rx_head r1 = rx_tail r1" using ring_empty [OF r1(2)] by blast
    moreover have e: "take 255 (contents r @ bs1) = []" unfolding r1(4) [symmetric] by (rule Nil)
    ultimately show ?thesis
      using Nil r1(1-3) unfolding e by (auto simp: rx_pop_with_def)
  next
    case (Cons b q)
    then have ne: "rx_head r1 \<noteq> rx_tail r" using ring_empty [OF r1(2)] r1(3) by auto
    obtain r2 where r2: "rx_drain bs2 r1 = Inr r2" "ring_ok r2" "rx_tail r2 = rx_tail r"
      "contents r2 = take 255 (contents r1 @ bs2)"
      using rx_drain_spec [OF r1(2)] r1(3) by metis
    obtain r3 where r3: "rx_drain bs3 r2 = Inr r3" "ring_ok r3" "rx_tail r3 = rx_tail r"
      "contents r3 = take 255 (contents r2 @ bs3)"
      using rx_drain_spec [OF r2(2)] r2(3) by metis
    obtain q2 where q2: "contents r2 = b # q2" using Cons r2(4) by (cases "255::nat") auto
    obtain q3 where q3: "contents r3 = b # q3" using q2 r3(4) by (cases "255::nat") auto
    have byte: "rx_buf r2 ! unat (rx_tail r) = b" using rx_pop_late [OF r2(2) q2] r2(3) by simp
    have less: "unat (rx_tail r) < length (rx_buf r2)" using r2(2,3) by (simp add: ring_ok_def)
    have run: "rx_pop_with bs1 bs2 bs3 r
        = Inr (Some b, r3\<lparr>rx_tail := (rx_tail r + 1) AND RX_BUF_MASK\<rparr>)"
      using ne less by (simp add: rx_pop_with_def Let_def r1(1) r2(1) r3(1) byte)
    have "contents r3 = take 255 (contents r @ bs1 @ bs2 @ bs3)"
      unfolding r3(4) r2(4) r1(4) take_take_append append_assoc ..
    then have all: "take 255 (contents r @ bs1 @ bs2 @ bs3) = b # q3" using q3 by (rule subst)
    have first: "take 255 (contents r @ bs1) = b # q" unfolding r1(4) [symmetric] by (rule Cons)
    show ?thesis unfolding first all using run rx_pop_late [OF r3(2) q3] r3(3) by simp
  qed
qed

section \<open>Waiting for a byte\<close>

text \<open>
  The poll primitive and the interrupt handler are the protocol of theory \<open>AwaitIrq\<close> over the
  ring; an interrupt delivers the bytes in the FIFO of the device, which may be none.
\<close>

definition rx_register_waker :: "nat \<Rightarrow> ring chan \<Rightarrow> (u8 option \<times> ring chan) result" where
  "rx_register_waker w c = await_poll rx_pop w c"

definition rx_wake :: "ring chan \<Rightarrow> (nat option \<times> ring chan) result" where
  "rx_wake c = slot_wake c"

definition rx_handler :: "u8 list \<Rightarrow> ring chan \<Rightarrow> (nat option \<times> ring chan) result" where
  "rx_handler fifo c = chan_notify rx_drain fifo c"

interpretation rx: event_source rx_pop rx_drain ring_ok "\<lambda>r. contents r \<noteq> []" "\<lambda>bs. bs \<noteq> []"
proof
  fix r :: ring assume r: "ring_ok r"
  { assume "contents r \<noteq> []"
    then obtain b bs where "contents r = b # bs" by (cases "contents r") auto
    then show "\<exists>v s'. rx_pop r = Inr (Some v, s') \<and> ring_ok s'" using rx_pop_spec [OF r] by auto }
  { assume "\<not> contents r \<noteq> []"
    then show "\<exists>s'. rx_pop r = Inr (None, s') \<and> ring_ok s' \<and> \<not> contents s' \<noteq> []"
      using rx_pop_spec [OF r] r by auto }
  fix bs :: "u8 list"
  show "\<exists>s'. rx_drain bs r = Inr s' \<and> ring_ok s' \<and> (bs \<noteq> [] \<longrightarrow> contents s' \<noteq> [])"
    using rx_drain_spec [OF r, of bs] by (metis append_is_Nil_conv take_eq_Nil zero_neq_numeral)
qed

text \<open>
  C23. No byte is slept through.  For one task that reads the port, which is what its waker slot has
  room for, however the receive interrupt and the steps of polls interleave, a
  task whose poll returned \<open>Pending\<close> and that was not woken since faces an empty ring and is
  registered, so an interrupt with at least one byte wakes it, and the poll that follows gets a
  byte; nothing in a run panics, reads an uninitialised waker or drops one twice.
\<close>

theorem serial_rx_not_lost:
  assumes "await_reachable rx_pop rx_drain ring_new s"
  shows "await_exec rx_pop rx_drain ev s \<noteq> Some (Inl err)
    \<and> (aw_waiter s = W_Parked w \<longrightarrow> contents (ch_src (aw_chan s)) = []
        \<and> (\<forall>bs. bs \<noteq> [] \<longrightarrow> (\<exists>s1 s2 s3 v. await_exec rx_pop rx_drain (AwIrq bs) s = Some (Inr s1)
            \<and> aw_waiter s1 = W_Woken w \<and> aw_woken s1 = aw_woken s @ [w]
            \<and> await_exec rx_pop rx_drain (AwPoll w) s1 = Some (Inr s2)
            \<and> await_exec rx_pop rx_drain AwStep s2 = Some (Inr s3)
            \<and> aw_waiter s3 = W_Idle \<and> aw_got s3 = aw_got s @ [v])))"
  using rx.never_panics [OF ring_new_ok(1) assms] rx.parked_armed [OF ring_new_ok(1) assms]
    rx.parked_woken [OF ring_new_ok(1) assms]
  by blast

text \<open>The future \<open>SerialRx\<close>: the serial devices of the repository, and the poll.\<close>

datatype serial_dev = Ns16550a | StdSerial

datatype serial_rx_status = RxReady u8 | RxPending | RxUnsupported

definition dev_register_waker ::
  "serial_dev \<Rightarrow> nat \<Rightarrow> ring chan \<Rightarrow> (serial_rx_status \<times> ring chan) result" where
  "dev_register_waker dev w c =
     (case dev of
        Ns16550a \<Rightarrow> rbind (rx_register_waker w c)
          (\<lambda>(v, c'). Inr (case v of Some b \<Rightarrow> RxReady b | None \<Rightarrow> RxPending, c'))
      | StdSerial \<Rightarrow> Inr (RxUnsupported, c))"

definition serial_rx_poll ::
  "serial_dev option \<Rightarrow> nat \<Rightarrow> ring chan \<Rightarrow> (u8 option \<times> ring chan) result" where
  "serial_rx_poll console w c =
     (case console of
        None \<Rightarrow> Inl NotRegistered
      | Some dev \<Rightarrow> rbind (dev_register_waker dev w c)
          (\<lambda>(st, c'). Inr (case st of RxReady b \<Rightarrow> Some b | RxPending \<Rightarrow> None | RxUnsupported \<Rightarrow> None, c')))"

section \<open>Registers, and transmitting\<close>

text \<open>
  \<open>lsr n\<close> is the value the \<open>n\<close>-th read of the line status register returns; what was written to
  the transmit register is kept in order.
\<close>

definition ns_regs :: "u64 \<Rightarrow> u64 result" where
  "ns_regs base = (if base \<noteq> 0 then Inr base else Inl NotProbed)"

definition ns_read :: "u64 \<Rightarrow> u8 \<Rightarrow> u8 \<Rightarrow> u8 option result" where
  "ns_read base lsr rbr = rbind (ns_regs base) (\<lambda>r. Inr (if \<not> bit lsr 0 then None else Some rbr))"

definition ns_has_data :: "u64 \<Rightarrow> u8 \<Rightarrow> bool result" where
  "ns_has_data base lsr = rbind (ns_regs base) (\<lambda>r. Inr (bit lsr 0))"

partial_function (option) ns_wait :: "(nat \<Rightarrow> u8) \<Rightarrow> nat \<Rightarrow> nat option" where
  "ns_wait lsr n = (if bit (lsr n) 5 then Some (Suc n) else ns_wait lsr (Suc n))"

declare ns_wait.simps [code]

fun ns_write_loop :: "(nat \<Rightarrow> u8) \<Rightarrow> u8 list \<Rightarrow> nat \<times> (nat \<times> u8) list \<Rightarrow> (nat \<times> (nat \<times> u8) list) option" where
  "ns_write_loop lsr [] (n, out) = Some (n, out)"
| "ns_write_loop lsr (b # buf) (n, out) =
     (case ns_wait lsr n of None \<Rightarrow> None | Some m \<Rightarrow> ns_write_loop lsr buf (m, out @ [(m - 1, b)]))"

definition ns_write ::
  "u64 \<Rightarrow> (nat \<Rightarrow> u8) \<Rightarrow> u8 list \<Rightarrow> nat \<times> (nat \<times> u8) list \<Rightarrow> (nat \<times> (nat \<times> u8) list) result option" where
  "ns_write base lsr buf s =
     (case ns_regs base of
        Inl e \<Rightarrow> Some (Inl e)
      | Inr r \<Rightarrow> (case ns_write_loop lsr buf s of None \<Rightarrow> None | Some s' \<Rightarrow> Some (Inr s')))"

lemma ns_wait_returns:
  assumes "n \<le> m" "bit (lsr m) 5"
  shows "\<exists>k. n \<le> k \<and> k \<le> m \<and> bit (lsr k) 5 \<and> ns_wait lsr n = Some (Suc k)"
  using assms
proof (induction "m - n" arbitrary: n)
  case 0
  then show ?case by (subst ns_wait.simps) auto
next
  case (Suc d)
  show ?case
  proof (cases "bit (lsr n) 5")
    case True
    then show ?thesis using Suc.prems by (subst ns_wait.simps) auto
  next
    case False
    have "\<exists>k. Suc n \<le> k \<and> k \<le> m \<and> bit (lsr k) 5 \<and> ns_wait lsr (Suc n) = Some (Suc k)"
      using Suc.hyps(2) Suc.prems by (intro Suc.hyps(1)) auto
    then show ?thesis using False by (subst ns_wait.simps) auto
  qed
qed

lemma ns_write_loop_returns:
  assumes "\<forall>n. \<exists>m\<ge>n. bit (lsr m) 5"
  shows "\<exists>k ts. ns_write_loop lsr buf (n, out) = Some (k, out @ zip ts buf)
    \<and> length ts = length buf \<and> sorted_wrt (<) ts \<and> (\<forall>t\<in>set ts. n \<le> t \<and> bit (lsr t) 5)"
proof (induction buf arbitrary: n out)
  case (Cons b buf)
  obtain m where "n \<le> m" "bit (lsr m) 5" using assms by blast
  then obtain k where k: "n \<le> k" "bit (lsr k) 5" "ns_wait lsr n = Some (Suc k)"
    using ns_wait_returns by blast
  obtain j ts where ts: "ns_write_loop lsr buf (Suc k, out @ [(k, b)]) = Some (j, (out @ [(k, b)]) @ zip ts buf)"
    "length ts = length buf" "sorted_wrt (<) ts" "\<forall>t\<in>set ts. Suc k \<le> t \<and> bit (lsr t) 5"
    using Cons.IH by blast
  have "ns_write_loop lsr (b # buf) (n, out) = Some (j, out @ zip (k # ts) (b # buf))"
    using k ts(1) by simp
  moreover have "sorted_wrt (<) (k # ts)" "\<forall>t\<in>set (k # ts). n \<le> t \<and> bit (lsr t) 5"
    using ts k by auto
  ultimately show ?case using ts(2) by (metis length_Cons)
qed simp

text \<open>
  C37. A blocking write comes back and sends every byte once, in order, each one after a read of the
  line status register that found the transmit register empty and of which no other byte made
  use, if the device is probed and its transmit register does not stay full for ever.
\<close>

theorem serial_write_sends:
  assumes "base \<noteq> 0" "\<forall>n. \<exists>m\<ge>n. bit (lsr m) 5"
  shows "\<exists>k ts. ns_write base lsr buf (n, out) = Some (Inr (k, out @ zip ts buf))
    \<and> length ts = length buf \<and> distinct ts \<and> (\<forall>t\<in>set ts. n \<le> t \<and> bit (lsr t) 5)"
proof -
  obtain k ts where "ns_write_loop lsr buf (n, out) = Some (k, out @ zip ts buf)"
    "length ts = length buf" "sorted_wrt (<) ts" "\<forall>t\<in>set ts. n \<le> t \<and> bit (lsr t) 5"
    using ns_write_loop_returns [OF assms(2)] by blast
  then show ?thesis using assms(1) by (auto simp: ns_write_def ns_regs_def strict_sorted_iff)
qed

section \<open>Witnesses\<close>

theorem rx_pop_interrupted_witness:
  "\<exists>v r'. rx_pop_with [1, 2] [3] [] ring_new = Inr (v, r') \<and> v = Some 1 \<and> contents r' = [2, 3]"
  using rx_pop_interrupted [OF ring_new_ok(1), of "[1, 2]" "[3]" "[]"] by (auto simp: ring_new_ok)

definition rx_demo :: "(ring, u8) await" where
  "rx_demo = (await_start ring_new)\<lparr>aw_chan := \<lparr>ch_src = ring_new, ch_has = 1, ch_slot = Init 7\<rparr>,
     aw_waiter := W_Parked 7\<rparr>"

lemma rx_demo_reachable: "await_reachable rx_pop rx_drain ring_new rx_demo"
proof -
  have pop: "rx_pop ring_new = Inr (None, ring_new)" by (simp add: rx_pop_def ring_new_def)
  let ?go = "\<lambda>wt mie c. (await_start ring_new)\<lparr>aw_chan := c, aw_mie := mie, aw_waiter := wt\<rparr> :: (ring, u8) await"
  let ?c0 = "\<lparr>ch_src = ring_new, ch_has = 0, ch_slot = Uninit\<rparr>"
  let ?c1 = "\<lparr>ch_src = ring_new, ch_has = 1, ch_slot = Init 7\<rparr>"
  have r0: "await_reachable rx_pop rx_drain ring_new (await_start ring_new)" by (rule await_init)
  have r1: "await_reachable rx_pop rx_drain ring_new (?go (W_Fast 7) True ?c0)"
    by (rule await_next [OF r0, of "AwPoll 7"]) (simp add: await_start_def)
  have r2: "await_reachable rx_pop rx_drain ring_new (?go (W_Mask 7) True ?c0)"
    by (rule await_next [OF r1, of AwStep]) (simp add: await_start_def chan_take_def pop)
  have r3: "await_reachable rx_pop rx_drain ring_new (?go (W_Register 7) False ?c0)"
    by (rule await_next [OF r2, of AwStep]) (simp add: await_start_def)
  have r4: "await_reachable rx_pop rx_drain ring_new (?go (W_Recheck 7) False ?c1)"
    by (rule await_next [OF r3, of AwStep]) (simp add: await_start_def slot_register_def)
  have r5: "await_reachable rx_pop rx_drain ring_new (?go (W_Unmask 7 None) False ?c1)"
    by (rule await_next [OF r4, of AwStep]) (simp add: await_start_def chan_take_def pop)
  show ?thesis unfolding rx_demo_def
    by (rule await_next [OF r5, of AwStep]) (simp add: await_start_def)
qed

theorem serial_rx_not_lost_witness:
  "\<exists>s1. await_exec rx_pop rx_drain (AwIrq [65]) rx_demo = Some (Inr s1) \<and> aw_woken s1 = [7]"
proof -
  have w: "aw_waiter rx_demo = W_Parked 7" "aw_woken rx_demo = []"
    by (simp_all add: rx_demo_def await_start_def)
  have "\<forall>bs. bs \<noteq> [] \<longrightarrow> (\<exists>s1 s2 s3 v. await_exec rx_pop rx_drain (AwIrq bs) rx_demo = Some (Inr s1)
      \<and> aw_waiter s1 = W_Woken 7 \<and> aw_woken s1 = aw_woken rx_demo @ [7]
      \<and> await_exec rx_pop rx_drain (AwPoll 7) s1 = Some (Inr s2)
      \<and> await_exec rx_pop rx_drain AwStep s2 = Some (Inr s3)
      \<and> aw_waiter s3 = W_Idle \<and> aw_got s3 = aw_got rx_demo @ [v])"
    using serial_rx_not_lost [OF rx_demo_reachable, of AwStep undefined 7] w(1) by iprover
  from this [THEN spec, of "[65]"] show ?thesis unfolding w(2)
    by (metis append_Nil list.distinct(1))
qed

theorem serial_write_sends_witness:
  "\<exists>k ts. ns_write 268435456 (\<lambda>n. 96) [72, 105] (0, []) = Some (Inr (k, zip ts [72, 105])) \<and> distinct ts"
  using serial_write_sends [of 268435456 "\<lambda>n. 96" "[72, 105]" 0 "[]"] by (auto simp: bit_simps)

end
