(* ===== verification/DeviceRegistry.thy ===== *)
theory DeviceRegistry
  imports TaskState
begin

text \<open>
  The containers of the driver model: \<open>Slot\<close> and \<open>DeviceRegistry\<close> of \<open>platform/src/driver.rs\<close>
  and the bus stack of \<open>platform/src/bus.rs\<close>.
\<close>

section \<open>Slots\<close>

definition STATE_UNINIT :: u8 where "STATE_UNINIT = 0"
definition STATE_READY :: u8 where "STATE_READY = 1"

record 'a slot =
  sl_state :: u8
  sl_val :: "'a cell"

definition slot_new :: "'a slot" where
  "slot_new = \<lparr>sl_state = STATE_UNINIT, sl_val = Uninit\<rparr>"

definition slot_set :: "'a \<Rightarrow> 'a slot \<Rightarrow> 'a slot" where
  "slot_set dev s = s\<lparr>sl_val := cell_write_in_place (sl_val s) dev, sl_state := STATE_READY\<rparr>"

definition slot_get :: "'a slot \<Rightarrow> 'a option result" where
  "slot_get s =
     (if sl_state s \<noteq> STATE_READY then Inr None
      else rbind (cell_as_mut (sl_val s)) (\<lambda>x. Inr (Some x)))"

text \<open>A slot is well-formed if it holds a value when it says so; then \<open>get\<close> never fails.\<close>

definition slot_of :: "'a option \<Rightarrow> 'a slot" where
  "slot_of v = (case v of None \<Rightarrow> slot_new | Some x \<Rightarrow> \<lparr>sl_state = STATE_READY, sl_val = Init x\<rparr>)"

lemma slot_simps [simp]:
  "slot_of None = slot_new"
  "slot_set x (slot_of v) = slot_of (Some x)"
  "slot_set x slot_new = slot_of (Some x)"
  "slot_get (slot_of v) = Inr v"
  "slot_get slot_new = Inr None"
  by (cases v; simp add: slot_of_def slot_new_def slot_set_def slot_get_def STATE_UNINIT_def STATE_READY_def)+

section \<open>Registries\<close>

record 'a registry =
  rg_slots :: "'a slot list"
  rg_next :: nat

definition registry_new :: "nat \<Rightarrow> 'a registry" where
  "registry_new N = \<lparr>rg_slots = replicate N slot_new, rg_next = 0\<rparr>"

text \<open>The loop of \<open>register\<close> over the offsets \<open>0..N\<close>.\<close>

fun register_scan :: "'a \<Rightarrow> nat \<Rightarrow> nat list \<Rightarrow> 'a registry \<Rightarrow> (nat \<times> 'a registry) result" where
  "register_scan dev start [] r = Inl CapacityExhausted"
| "register_scan dev start (i # is) r =
     (let N = length (rg_slots r); idx = (start + i) mod N in
      rbind (slot_get (rg_slots r ! idx)) (\<lambda>v.
        case v of
          None \<Rightarrow> Inr (idx, r\<lparr>rg_slots := (rg_slots r)[idx := slot_set dev (rg_slots r ! idx)],
                           rg_next := (idx + 1) mod N\<rparr>)
        | Some x \<Rightarrow> register_scan dev start is r))"

definition registry_register :: "'a \<Rightarrow> 'a registry \<Rightarrow> (nat \<times> 'a registry) result" where
  "registry_register dev r = register_scan dev (rg_next r) [0..<length (rg_slots r)] r"

definition registry_get :: "nat \<Rightarrow> 'a registry \<Rightarrow> 'a option result" where
  "registry_get idx r =
     (if length (rg_slots r) = 0 then Inr None
      else slot_get (rg_slots r ! (idx mod length (rg_slots r))))"

fun slots_iter :: "'a slot list \<Rightarrow> 'a list result" where
  "slots_iter [] = Inr []"
| "slots_iter (s # ss) =
     rbind (slot_get s) (\<lambda>v. rbind (slots_iter ss) (\<lambda>xs. Inr (case v of None \<Rightarrow> xs | Some x \<Rightarrow> x # xs)))"

definition registry_iter :: "'a registry \<Rightarrow> 'a list result" where
  "registry_iter r = slots_iter (rg_slots r)"

text \<open>A registry of capacity \<open>N\<close> that was filled with \<open>ds\<close>, in this order.\<close>

definition registry_of :: "nat \<Rightarrow> 'a list \<Rightarrow> 'a registry" where
  "registry_of N ds =
     \<lparr>rg_slots = map (slot_of \<circ> Some) ds @ replicate (N - length ds) slot_new, rg_next = length ds mod N\<rparr>"

lemma registry_new_of: "registry_new N = registry_of N []"
  by (simp add: registry_new_def registry_of_def)

lemma length_registry_of: "length ds \<le> N \<Longrightarrow> length (rg_slots (registry_of N ds)) = N"
  by (simp add: registry_of_def)

lemma registry_register_free:
  assumes "length ds < N"
  shows "registry_register d (registry_of N ds) = Inr (length ds, registry_of N (ds @ [d]))"
proof -
  have idx: "(length ds mod N + 0) mod N = length ds" using assms by simp
  have split: "replicate (N - length ds) (slot_new :: 'a slot) = slot_new # replicate (N - Suc (length ds)) slot_new"
    using assms by (metis Suc_diff_Suc replicate_Suc)
  have upt: "[0..<N] = 0 # [1..<N]" using assms by (simp add: upt_rec)
  show ?thesis
    using assms idx unfolding registry_register_def length_registry_of [OF less_imp_le [OF assms]] upt
    by (simp add: registry_of_def Let_def nth_append split list_update_append)
qed

lemma register_scan_full:
  assumes "length ds = N" "0 < N"
  shows "register_scan d start is (registry_of N ds) = Inl CapacityExhausted"
proof (induction "is")
  case (Cons i "is")
  have "(start + i) mod N < length ds" using assms by simp
  then show ?case using Cons assms by (simp add: registry_of_def Let_def)
qed simp

lemma registry_register_full:
  assumes "length ds = N"
  shows "registry_register d (registry_of N ds) = Inl CapacityExhausted"
  using register_scan_full [OF assms] assms
  by (cases "N = 0") (simp_all add: registry_register_def registry_of_def)

lemma slots_iter_of: "slots_iter (map (slot_of \<circ> Some) ds @ replicate k slot_new) = Inr ds"
  by (induction ds) (induction k, simp_all)

lemma registry_iter_of: "registry_iter (registry_of N ds) = Inr ds"
  by (simp add: registry_iter_def registry_of_def slots_iter_of)

fun register_many :: "'a list \<Rightarrow> 'a registry \<Rightarrow> (nat list \<times> 'a registry) result" where
  "register_many [] r = Inr ([], r)"
| "register_many (d # ds) r =
     rbind (registry_register d r) (\<lambda>(i, r1). rbind (register_many ds r1) (\<lambda>(is, r2). Inr (i # is, r2)))"

lemma register_many_of:
  "length es \<le> N \<Longrightarrow> register_many ds (registry_of N es)
    = (if length es + length ds \<le> N then Inr ([length es..<length es + length ds], registry_of N (es @ ds))
       else Inl CapacityExhausted)"
proof (induction ds arbitrary: es)
  case (Cons d ds)
  show ?case
  proof (cases "length es < N")
    case True
    have up: "[length es..<length es + length (d # ds)] = length es # [Suc (length es)..<Suc (length es + length ds)]"
      by (simp add: upt_conv_Cons del: upt_Suc)
    show ?thesis
      unfolding up using True Cons.IH [of "es @ [d]"] by (simp add: registry_register_free del: upt_Suc)
  next
    case False
    then show ?thesis using Cons.prems by (simp add: registry_register_full)
  qed
qed simp

text \<open>
  A registry hands out the indices in the order of registration, from 0, until its capacity is
  exhausted, and only then panics; each index leads back to the device that got it, and the
  iterator lists the devices in order.
\<close>

theorem registry_fills_in_order:
  shows "case register_many ds (registry_new N) of
      Inl err \<Rightarrow> err = CapacityExhausted \<and> N < length ds
    | Inr (is, r) \<Rightarrow> length ds \<le> N \<and> is = [0..<length ds] \<and> registry_iter r = Inr ds
        \<and> map (\<lambda>i. registry_get i r) is = map (Inr \<circ> Some) ds"
proof (cases "length ds \<le> N")
  case True
  have "registry_get i (registry_of N ds) = Inr (Some (ds ! i))" if "i < length ds" for i
    using that True by (simp add: registry_get_def registry_of_def nth_append)
  then have "map (\<lambda>i. registry_get i (registry_of N ds)) [0..<length ds] = map (Inr \<circ> Some) ds"
    by (auto intro: nth_equalityI)
  then show ?thesis
    using True by (simp add: registry_new_of register_many_of registry_iter_of)
next
  case False
  then show ?thesis by (simp add: registry_new_of register_many_of)
qed

section \<open>The bus stack\<close>

text \<open>Buses are numbers (\<open>&'static dyn I2cBus\<close>); a stack holds registry indices, at most 8.\<close>

record bus_state =
  bs_i2c :: "nat list"
  bs_spi :: "nat list"
  bs_i2c_buses :: "nat registry"
  bs_spi_buses :: "nat registry"

definition bus_new :: bus_state where
  "bus_new = \<lparr>bs_i2c = [], bs_spi = [], bs_i2c_buses = registry_new 4, bs_spi_buses = registry_new 4\<rparr>"

definition bus_stack_reset :: "bus_state \<Rightarrow> bus_state" where
  "bus_stack_reset s = s\<lparr>bs_i2c := [], bs_spi := []\<rparr>"

definition bus_stack_pop_to :: "nat \<Rightarrow> bus_state \<Rightarrow> bus_state" where
  "bus_stack_pop_to level s = (if level \<le> 1 then s\<lparr>bs_i2c := [], bs_spi := []\<rparr> else s)"

definition push_i2c :: "nat \<Rightarrow> bus_state \<Rightarrow> bus_state" where
  "push_i2c idx s = (if length (bs_i2c s) < 8 then s\<lparr>bs_i2c := bs_i2c s @ [idx]\<rparr> else s)"

definition current_i2c :: "bus_state \<Rightarrow> nat option result" where
  "current_i2c s = (if bs_i2c s = [] then Inr None else registry_get (last (bs_i2c s)) (bs_i2c_buses s))"

definition push_spi :: "nat \<Rightarrow> bus_state \<Rightarrow> bus_state" where
  "push_spi idx s = (if length (bs_spi s) < 8 then s\<lparr>bs_spi := bs_spi s @ [idx]\<rparr> else s)"

definition current_spi :: "bus_state \<Rightarrow> nat option result" where
  "current_spi s = (if bs_spi s = [] then Inr None else registry_get (last (bs_spi s)) (bs_spi_buses s))"

text \<open>
  The stack is not popped between siblings: after the first controller's subtree, at level 2, a
  node beside it still sees that controller as its bus.
\<close>

lemma pop_to_keeps_siblings:
  "bs_i2c s = [] \<Longrightarrow> 1 < level \<Longrightarrow> bs_i2c (bus_stack_pop_to level (push_i2c i s)) = [i]"
  by (simp add: bus_stack_pop_to_def push_i2c_def)

end
