(* ===== verification/Platform.thy ===== *)
theory Platform
  imports Kernel SerialRx Irq DeviceRegistry Trap
begin

text \<open>
  Bringing the platform up: the device tree (\<open>platform/src/dtb.rs\<close>), the drivers' \<open>probe\<close>
  functions, \<open>boot\<close> and the accessors (\<open>platform/src/driver.rs\<close>), the boards
  (\<open>chips/qemu-virt\<close>, \<open>chips/std-chip\<close>), and \<open>init\<close> and \<open>start\<close> (\<open>platform/src/lib.rs\<close>).
\<close>

section \<open>State\<close>

text \<open>
  What the code asks the \<open>fdt_parser\<close> crate for: the nodes in the order of \<open>all_nodes\<close>, of each its
  level, its compatible strings and the addresses of its \<open>reg\<close> property; the boot hart; whether
  \<open>chosen\<close> has a \<open>stdout-path\<close>; the \<open>timebase-frequency\<close> of the first \<open>/cpus\<close> node.
\<close>

record node =
  nd_level :: nat
  nd_compatibles :: "string list"
  nd_reg :: "u64 list option"

record fdt =
  fdt_nodes :: "node list"
  fdt_boot_cpuid :: u32
  fdt_stdout :: bool
  fdt_timebase :: "u32 option"

datatype timer_dev = ClintTimer | StdTimer
datatype ipi_device = ClintMsipDevice | StdIpiDevice
datatype reset_dev = SifiveTest | StdReset
datatype intc_dev = Plic

datatype driver = DrvNs16550a | DrvClintTimer | DrvClintMsip | DrvSifiveTest | DrvPlic

text \<open>
  The statics of the platform crate and its drivers, the device registers as memories of the
  values written last, and the CSRs of the hart.  Handles of pin and clock controllers, which no
  driver of the repository provides, are numbers.
\<close>

record plat =
  p_inited :: u8
  p_fdt :: "fdt cell"
  p_drivers :: "driver list slot"
  p_console :: "serial_dev slot"
  p_timer :: "timer_dev slot"
  p_ipi :: "ipi_device slot"
  p_reset :: "reset_dev slot"
  p_intc :: "intc_dev slot"
  p_pinctrl :: "nat slot"
  p_clock :: "nat slot"
  p_serials :: "serial_dev registry"
  p_bus :: bus_state
  p_ns_base :: u64
  p_ns_rx :: "ring chan"
  p_ct_base :: u64
  p_ct_off :: u64
  p_ct_freq :: u64
  p_ms_base :: u64
  p_ms_off :: u64
  p_ms_ready :: u64
  p_st_base :: u64
  p_plic :: plic
  p_mem8 :: "u64 \<Rightarrow> u8"
  p_mem32 :: "u64 \<Rightarrow> u32"
  p_hartid :: u64
  p_mstatus :: u64
  p_mie :: u64

section \<open>Device tree\<close>

definition init_dtb :: "(u8 list \<Rightarrow> fdt option) \<Rightarrow> u8 list \<Rightarrow> plat \<Rightarrow> plat result" where
  "init_dtb from_bytes dtb p =
     (if p_inited p \<noteq> 0 then Inl AlreadyInitialized
      else case from_bytes dtb of
             None \<Rightarrow> Inl InvalidFdt
           | Some fdt \<Rightarrow> Inr (p\<lparr>p_inited := 1, p_fdt := cell_write_in_place (p_fdt p) fdt\<rparr>))"

definition dt :: "plat \<Rightarrow> fdt result" where
  "dt p = (if p_inited p = 0 then Inl NotParsed else cell_as_mut (p_fdt p))"

section \<open>Accessors\<close>

definition slot_expect :: "'a slot \<Rightarrow> 'a result" where
  "slot_expect s = rbind (slot_get s) (\<lambda>v. case v of None \<Rightarrow> Inl NotRegistered | Some x \<Rightarrow> Inr x)"

definition console :: "plat \<Rightarrow> serial_dev result" where "console p = slot_expect (p_console p)"
definition try_console :: "plat \<Rightarrow> serial_dev option result" where "try_console p = slot_get (p_console p)"
definition timer :: "plat \<Rightarrow> timer_dev result" where "timer p = slot_expect (p_timer p)"
definition ipi :: "plat \<Rightarrow> ipi_device result" where "ipi p = slot_expect (p_ipi p)"
definition reset :: "plat \<Rightarrow> reset_dev result" where "reset p = slot_expect (p_reset p)"
definition intctl :: "plat \<Rightarrow> intc_dev result" where "intctl p = slot_expect (p_intc p)"
definition try_pinctrl :: "plat \<Rightarrow> nat option result" where "try_pinctrl p = slot_get (p_pinctrl p)"
definition try_clock :: "plat \<Rightarrow> nat option result" where "try_clock p = slot_get (p_clock p)"

section \<open>Drivers\<close>

definition node_first_reg :: "node \<Rightarrow> u64 result" where
  "node_first_reg nd = (case nd_reg nd of
     None \<Rightarrow> Inl MissingProperty | Some [] \<Rightarrow> Inl MissingProperty | Some (a # as) \<Rightarrow> Inr a)"

text \<open>
  \<open>FCR\<close> is written with the three enable and clear bits, \<open>IER\<close> with \<open>ERBFI\<close> and \<open>LCR\<close> with the
  two bits of \<open>WLEN8\<close>.
\<close>

definition probe_ns16550a :: "node \<Rightarrow> plat \<Rightarrow> plat result" where
  "probe_ns16550a nd p =
     rbind (node_first_reg nd) (\<lambda>base.
     let p1 = p\<lparr>p_ns_base := base\<rparr> in
     rbind (ns_regs base) (\<lambda>r.
     let p2 = p1\<lparr>p_mem8 := (p_mem8 p1)(r + 2 := 7, r + 1 := 1, r + 3 := 3)\<rparr>;
         rx = p_ns_rx p2;
         p3 = p2\<lparr>p_ns_rx := rx\<lparr>ch_src := (ch_src rx)\<lparr>rx_head := 0, rx_tail := 0\<rparr>\<rparr>\<rparr> in
     rbind (registry_register Ns16550a (p_serials p3)) (\<lambda>(i, serials). Inr (p3\<lparr>p_serials := serials\<rparr>))))"

definition read_timebase_freq :: "plat \<Rightarrow> u32 option result" where
  "read_timebase_freq p = rbind (dt p) (\<lambda>fdt. Inr (fdt_timebase fdt))"

definition OFF_MTIMECMP_BASE :: u64 where "OFF_MTIMECMP_BASE = 0x4000"
definition MTIMECMP_STRIDE :: u64 where "MTIMECMP_STRIDE = 8"
definition OFF_MTIME :: u64 where "OFF_MTIME = 0xBFF8"
definition MSIP_STRIDE :: u64 where "MSIP_STRIDE = 4"

definition probe_clint_timer :: "u32 \<Rightarrow> node \<Rightarrow> plat \<Rightarrow> plat result" where
  "probe_clint_timer boot_cpuid nd p =
     rbind (node_first_reg nd) (\<lambda>base.
     let hart = ucast boot_cpuid;
         p1 = p\<lparr>p_ct_base := base, p_ct_off := OFF_MTIMECMP_BASE + hart * MTIMECMP_STRIDE\<rparr> in
     rbind (read_timebase_freq p1) (\<lambda>freq.
     Inr (p1\<lparr>p_ct_freq := ucast (case freq of None \<Rightarrow> 10000000 | Some f \<Rightarrow> f),
             p_timer := slot_set ClintTimer (p_timer p1)\<rparr>)))"

definition probe_clint_msip :: "u32 \<Rightarrow> node \<Rightarrow> plat \<Rightarrow> plat result" where
  "probe_clint_msip boot_cpuid nd p =
     rbind (node_first_reg nd) (\<lambda>base.
     Inr (p\<lparr>p_ms_base := base, p_ms_off := ucast boot_cpuid * MSIP_STRIDE, p_ms_ready := 1,
            p_ipi := slot_set ClintMsipDevice (p_ipi p)\<rparr>))"

definition probe_sifive_test :: "node \<Rightarrow> plat \<Rightarrow> plat result" where
  "probe_sifive_test nd p =
     rbind (node_first_reg nd) (\<lambda>base.
     Inr (p\<lparr>p_st_base := base, p_reset := slot_set SifiveTest (p_reset p)\<rparr>))"

definition probe_plic :: "node \<Rightarrow> plat \<Rightarrow> plat result" where
  "probe_plic nd p =
     rbind (node_first_reg nd) (\<lambda>base.
     let pl = \<lparr>pl_base = base, pl_ctx = p_hartid p * 2\<rparr> in
     Inr (p\<lparr>p_plic := pl, p_mem32 := set_threshold 0 pl (p_mem32 p), p_intc := slot_set Plic (p_intc p)\<rparr>))"

definition compatible :: "driver \<Rightarrow> string list" where
  "compatible d = (case d of
     DrvNs16550a \<Rightarrow> [''ns16550a''] | DrvClintTimer \<Rightarrow> [''riscv,clint0'']
   | DrvClintMsip \<Rightarrow> [''riscv,clint0-msip''] | DrvSifiveTest \<Rightarrow> [''sifive,test1'']
   | DrvPlic \<Rightarrow> [''riscv,plic0''])"

definition probe :: "u32 \<Rightarrow> driver \<Rightarrow> node \<Rightarrow> plat \<Rightarrow> plat result" where
  "probe boot_cpuid d nd p = (case d of
     DrvNs16550a \<Rightarrow> probe_ns16550a nd p | DrvClintTimer \<Rightarrow> probe_clint_timer boot_cpuid nd p
   | DrvClintMsip \<Rightarrow> probe_clint_msip boot_cpuid nd p | DrvSifiveTest \<Rightarrow> probe_sifive_test nd p
   | DrvPlic \<Rightarrow> probe_plic nd p)"

definition default_drivers :: "driver list" where
  "default_drivers = [DrvNs16550a, DrvClintTimer, DrvClintMsip, DrvSifiveTest, DrvPlic]"

section \<open>Boot\<close>

definition matched :: "driver \<Rightarrow> node \<Rightarrow> bool" where
  "matched d nd = list_ex (\<lambda>nc. list_ex (\<lambda>dc. dc = nc) (compatible d)) (nd_compatibles nd)"

definition try_derive_console :: "fdt \<Rightarrow> plat \<Rightarrow> plat result" where
  "try_derive_console fdt p =
     rbind (registry_iter (p_serials p)) (\<lambda>devs.
       case devs of
         [] \<Rightarrow> Inr p
       | dev # rest \<Rightarrow> Inr (p\<lparr>p_console := slot_set dev (p_console p)\<rparr>))"

fun probe_all :: "u32 \<Rightarrow> driver list \<Rightarrow> node \<Rightarrow> plat \<Rightarrow> plat result" where
  "probe_all cpu [] nd p = Inr p"
| "probe_all cpu (d # ds) nd p =
     rbind (if matched d nd then probe cpu d nd p else Inr p) (probe_all cpu ds nd)"

text \<open>One round of the loop over the nodes; \<open>pins\<close> and \<open>clks\<close> are \<open>apply\<close> and \<open>enable_for\<close>.\<close>

definition boot_node ::
  "(nat \<Rightarrow> node \<Rightarrow> plat \<Rightarrow> plat) \<Rightarrow> (nat \<Rightarrow> node \<Rightarrow> plat \<Rightarrow> plat) \<Rightarrow> fdt \<Rightarrow> driver list \<Rightarrow> nat \<Rightarrow>
   node \<Rightarrow> plat \<Rightarrow> plat result" where
  "boot_node pins clks fdt drivers prev_level nd p =
     (let p1 = (if nd_level nd < prev_level then p\<lparr>p_bus := bus_stack_pop_to (nd_level nd) (p_bus p)\<rparr> else p) in
      rbind (try_pinctrl p1) (\<lambda>pc.
      let p2 = (case pc of None \<Rightarrow> p1 | Some h \<Rightarrow> pins h nd p1) in
      rbind (try_clock p2) (\<lambda>cc.
      let p3 = (case cc of None \<Rightarrow> p2 | Some h \<Rightarrow> clks h nd p2) in
      rbind (probe_all (fdt_boot_cpuid fdt) drivers nd p3) (\<lambda>p4.
      rbind (try_console p4) (\<lambda>c. case c of None \<Rightarrow> try_derive_console fdt p4 | Some d \<Rightarrow> Inr p4)))))"

fun boot_nodes ::
  "(nat \<Rightarrow> node \<Rightarrow> plat \<Rightarrow> plat) \<Rightarrow> (nat \<Rightarrow> node \<Rightarrow> plat \<Rightarrow> plat) \<Rightarrow> fdt \<Rightarrow> driver list \<Rightarrow> nat \<Rightarrow>
   node list \<Rightarrow> plat \<Rightarrow> plat result" where
  "boot_nodes pins clks fdt drivers prev_level [] p = Inr p"
| "boot_nodes pins clks fdt drivers prev_level (nd # nds) p =
     rbind (boot_node pins clks fdt drivers prev_level nd p)
       (boot_nodes pins clks fdt drivers (nd_level nd) nds)"

definition boot ::
  "(nat \<Rightarrow> node \<Rightarrow> plat \<Rightarrow> plat) \<Rightarrow> (nat \<Rightarrow> node \<Rightarrow> plat \<Rightarrow> plat) \<Rightarrow> plat \<Rightarrow> plat result" where
  "boot pins clks p =
     rbind (slot_expect (p_drivers p)) (\<lambda>drivers.
     rbind (dt p) (\<lambda>fdt.
     rbind (boot_nodes pins clks fdt drivers 1 (fdt_nodes fdt) (p\<lparr>p_bus := bus_stack_reset (p_bus p)\<rparr>))
       (try_derive_console fdt)))"

section \<open>Boards, \<open>init\<close> and \<open>start\<close>\<close>

definition qemu_virt_init ::
  "(nat \<Rightarrow> node \<Rightarrow> plat \<Rightarrow> plat) \<Rightarrow> (nat \<Rightarrow> node \<Rightarrow> plat \<Rightarrow> plat) \<Rightarrow> (u8 list \<Rightarrow> fdt option) \<Rightarrow> u8 list \<Rightarrow>
   plat \<Rightarrow> plat result" where
  "qemu_virt_init pins clks from_bytes dtb p =
     rbind (init_dtb from_bytes dtb p) (\<lambda>p1.
       boot pins clks (p1\<lparr>p_drivers := slot_set default_drivers (p_drivers p1)\<rparr>))"

definition std_chip_init :: "plat \<Rightarrow> plat" where
  "std_chip_init p =
     p\<lparr>p_console := slot_set StdSerial (p_console p), p_timer := slot_set StdTimer (p_timer p),
       p_reset := slot_set StdReset (p_reset p), p_ipi := slot_set StdIpiDevice (p_ipi p)\<rparr>"

text \<open>The timer devices: \<open>set_deadline\<close> writes the high word of \<open>mtimecmp\<close>, then the low word.\<close>

definition mtimecmp_addr :: "plat \<Rightarrow> u64" where
  "mtimecmp_addr p = p_ct_base p + p_ct_off p"

definition clint_write_hi :: "u64 \<Rightarrow> plat \<Rightarrow> plat" where
  "clint_write_hi tick p = p\<lparr>p_mem32 := (p_mem32 p)(mtimecmp_addr p + 4 := ucast (drop_bit 32 tick))\<rparr>"

definition clint_write_lo :: "u64 \<Rightarrow> plat \<Rightarrow> plat" where
  "clint_write_lo tick p = p\<lparr>p_mem32 := (p_mem32 p)(mtimecmp_addr p := ucast tick)\<rparr>"

definition timer_set_deadline :: "timer_dev \<Rightarrow> u64 \<Rightarrow> plat \<Rightarrow> plat" where
  "timer_set_deadline dev tick p =
     (case dev of ClintTimer \<Rightarrow> clint_write_lo tick (clint_write_hi tick p) | StdTimer \<Rightarrow> p)"

definition timer_freq_hz :: "timer_dev \<Rightarrow> plat \<Rightarrow> u32" where
  "timer_freq_hz dev p = (case dev of ClintTimer \<Rightarrow> ucast (p_ct_freq p) | StdTimer \<Rightarrow> 1000000)"

text \<open>The value of the compare register, read as one number.\<close>

definition mtimecmp :: "plat \<Rightarrow> nat" where
  "mtimecmp p = unat (p_mem32 p (mtimecmp_addr p + 4)) * 2 ^ 32 + unat (p_mem32 p (mtimecmp_addr p))"

definition enable_mtimer :: "plat \<Rightarrow> plat" where "enable_mtimer p = p\<lparr>p_mie := put_bit 7 True (p_mie p)\<rparr>"
definition enable_mei :: "plat \<Rightarrow> plat" where "enable_mei p = p\<lparr>p_mie := put_bit 11 True (p_mie p)\<rparr>"
definition enable_msi :: "plat \<Rightarrow> plat" where "enable_msi p = p\<lparr>p_mie := put_bit 3 True (p_mie p)\<rparr>"
definition enable_interrupts :: "plat \<Rightarrow> plat" where "enable_interrupts p = p\<lparr>p_mstatus := set_mie (p_mstatus p)\<rparr>"
definition disable_interrupts :: "plat \<Rightarrow> plat" where "disable_interrupts p = p\<lparr>p_mstatus := clear_mie (p_mstatus p)\<rparr>"

definition platform_start :: "(plat \<Rightarrow> plat) \<Rightarrow> plat \<Rightarrow> plat result" where
  "platform_start late_init p =
     (let p1 = late_init p in
      rbind (timer p1) (\<lambda>dev.
      Inr (enable_interrupts (enable_msi (enable_mei (enable_mtimer (timer_set_deadline dev (- 1) p1)))))))"

text \<open>The IPI device, as the executor's model has it, and shutting down.\<close>

definition ipi_of :: "plat \<Rightarrow> ipi_dev option result" where
  "ipi_of p = rbind (slot_get (p_ipi p)) (\<lambda>v. Inr (map_option (\<lambda>d. case d of
     ClintMsipDevice \<Rightarrow> ClintMsip (p_ms_ready p \<noteq> 0) | StdIpiDevice \<Rightarrow> StdIpi) v))"

definition msip_regs :: "plat \<Rightarrow> u64 option" where
  "msip_regs p = (if p_ms_ready p = 0 then None else Some (p_ms_base p + p_ms_off p))"

definition msip_send :: "plat \<Rightarrow> plat" where
  "msip_send p = (case msip_regs p of None \<Rightarrow> p | Some r \<Rightarrow> p\<lparr>p_mem32 := (p_mem32 p)(r := 1)\<rparr>)"

definition msip_clear :: "plat \<Rightarrow> plat" where
  "msip_clear p = (case msip_regs p of None \<Rightarrow> p | Some r \<Rightarrow> p\<lparr>p_mem32 := (p_mem32 p)(r := 0)\<rparr>)"

definition FINISHER_PASS :: u32 where "FINISHER_PASS = 0x5555"

text \<open>\<open>shutdown\<close> does not return; this is the state in which it loops.\<close>

definition sifive_shutdown :: "plat \<Rightarrow> plat result" where
  "sifive_shutdown p =
     (if p_st_base p = 0 then Inl NotProbed
      else Inr (p\<lparr>p_mem32 := (p_mem32 p)(p_st_base p := FINISHER_PASS)\<rparr>))"

definition plat_new :: "u64 \<Rightarrow> plat" where
  "plat_new hartid =
     \<lparr>p_inited = 0, p_fdt = Uninit, p_drivers = slot_new, p_console = slot_new, p_timer = slot_new,
      p_ipi = slot_new, p_reset = slot_new, p_intc = slot_new, p_pinctrl = slot_new, p_clock = slot_new,
      p_serials = registry_new 4, p_bus = bus_new, p_ns_base = 0,
      p_ns_rx = \<lparr>ch_src = ring_new, ch_has = 0, ch_slot = Uninit\<rparr>,
      p_ct_base = 0, p_ct_off = 0, p_ct_freq = 0, p_ms_base = 0, p_ms_off = 0, p_ms_ready = 0,
      p_st_base = 0, p_plic = \<lparr>pl_base = 0, pl_ctx = 0\<rparr>, p_mem8 = (\<lambda>a. 0), p_mem32 = (\<lambda>a. 0),
      p_hartid = hartid, p_mstatus = 0, p_mie = 0\<rparr>"

section \<open>Booting a device tree\<close>

text \<open>
  What is known of the platform while the nodes are walked: \<open>n\<close> serial ports are registered, and
  the flags tell which of the device slots are filled.
\<close>

definition plat_view :: "fdt \<Rightarrow> nat \<Rightarrow> bool \<Rightarrow> bool \<Rightarrow> bool \<Rightarrow> bool \<Rightarrow> bool \<Rightarrow> plat \<Rightarrow> bool" where
  "plat_view fdt n c t i r x p \<longleftrightarrow>
     p_inited p \<noteq> 0 \<and> p_fdt p = Init fdt \<and> p_pinctrl p = slot_new \<and> p_clock p = slot_new
     \<and> p_serials p = registry_of 4 (replicate n Ns16550a)
     \<and> p_console p = slot_of (if c then Some Ns16550a else None)
     \<and> p_timer p = slot_of (if t then Some ClintTimer else None)
     \<and> p_ipi p = slot_of (if i then Some ClintMsipDevice else None)
     \<and> p_reset p = slot_of (if r then Some SifiveTest else None)
     \<and> p_intc p = slot_of (if x then Some Plic else None)
     \<and> (i \<longrightarrow> p_ms_ready p = 1)"

definition node_ok :: "node \<Rightarrow> bool" where
  "node_ok nd \<longleftrightarrow> (\<forall>d\<in>set default_drivers. matched d nd \<longrightarrow>
     (case nd_reg nd of None \<Rightarrow> False | Some [] \<Rightarrow> False | Some (a # as) \<Rightarrow> d = DrvNs16550a \<longrightarrow> a \<noteq> 0))"

lemma node_ok_reg:
  assumes "node_ok nd" "matched d nd"
  obtains a where "node_first_reg nd = Inr a" "d = DrvNs16550a \<longrightarrow> a \<noteq> 0"
proof -
  have "d \<in> set default_drivers" by (cases d) (simp_all add: default_drivers_def)
  then show ?thesis
    using assms(1) [unfolded node_ok_def, rule_format, OF _ assms(2)] that
    by (auto simp: node_first_reg_def split: option.splits list.splits)
qed

definition count_of :: "driver \<Rightarrow> node \<Rightarrow> nat" where
  "count_of d nd = (if matched d nd then 1 else 0)"

lemma probe_step_ns:
  assumes "plat_view fdt n c t i r x p" "node_ok nd" "n + count_of DrvNs16550a nd \<le> 4"
  shows "\<exists>p'. (if matched DrvNs16550a nd then probe cpu DrvNs16550a nd p else Inr p) = Inr p'
    \<and> plat_view fdt (n + count_of DrvNs16550a nd) c t i r x p'"
proof (cases "matched DrvNs16550a nd")
  case True
  obtain a where a: "node_first_reg nd = Inr a" "a \<noteq> 0" using node_ok_reg [OF assms(2) True] by blast
  have "registry_register Ns16550a (registry_of 4 (replicate n Ns16550a))
      = Inr (n, registry_of 4 (replicate n Ns16550a @ [Ns16550a]))"
    using assms(3) True registry_register_free [of "replicate n Ns16550a" 4] by (simp add: count_of_def)
  then show ?thesis
    using assms(1) True a
    by (simp add: probe_def probe_ns16550a_def ns_regs_def plat_view_def count_of_def Let_def
        replicate_append_same)
next
  case False
  then show ?thesis using assms(1) by (simp add: count_of_def)
qed

lemma probe_step_timer:
  assumes "plat_view fdt n c t i r x p" "node_ok nd"
  shows "\<exists>p'. (if matched DrvClintTimer nd then probe cpu DrvClintTimer nd p else Inr p) = Inr p'
    \<and> plat_view fdt n c (t \<or> matched DrvClintTimer nd) i r x p'"
proof (cases "matched DrvClintTimer nd")
  case True
  obtain a where "node_first_reg nd = Inr a" using node_ok_reg [OF assms(2) True] by blast
  then show ?thesis using assms(1) True
    by (simp add: probe_def probe_clint_timer_def read_timebase_freq_def dt_def plat_view_def Let_def)
qed (use assms(1) in simp)

lemma probe_step_msip:
  assumes "plat_view fdt n c t i r x p" "node_ok nd"
  shows "\<exists>p'. (if matched DrvClintMsip nd then probe cpu DrvClintMsip nd p else Inr p) = Inr p'
    \<and> plat_view fdt n c t (i \<or> matched DrvClintMsip nd) r x p'"
proof (cases "matched DrvClintMsip nd")
  case True
  obtain a where "node_first_reg nd = Inr a" using node_ok_reg [OF assms(2) True] by blast
  then show ?thesis using assms(1) True
    by (simp add: probe_def probe_clint_msip_def plat_view_def)
qed (use assms(1) in simp)

lemma probe_step_reset:
  assumes "plat_view fdt n c t i r x p" "node_ok nd"
  shows "\<exists>p'. (if matched DrvSifiveTest nd then probe cpu DrvSifiveTest nd p else Inr p) = Inr p'
    \<and> plat_view fdt n c t i (r \<or> matched DrvSifiveTest nd) x p'"
proof (cases "matched DrvSifiveTest nd")
  case True
  obtain a where "node_first_reg nd = Inr a" using node_ok_reg [OF assms(2) True] by blast
  then show ?thesis using assms(1) True
    by (simp add: probe_def probe_sifive_test_def plat_view_def)
qed (use assms(1) in simp)

lemma probe_step_plic:
  assumes "plat_view fdt n c t i r x p" "node_ok nd"
  shows "\<exists>p'. (if matched DrvPlic nd then probe cpu DrvPlic nd p else Inr p) = Inr p'
    \<and> plat_view fdt n c t i r (x \<or> matched DrvPlic nd) p'"
proof (cases "matched DrvPlic nd")
  case True
  obtain a where "node_first_reg nd = Inr a" using node_ok_reg [OF assms(2) True] by blast
  then show ?thesis using assms(1) True
    by (simp add: probe_def probe_plic_def plat_view_def Let_def)
qed (use assms(1) in simp)

lemma probe_all_view:
  assumes "plat_view fdt n c t i r x p" "node_ok nd" "n + count_of DrvNs16550a nd \<le> 4"
  shows "\<exists>p'. probe_all cpu default_drivers nd p = Inr p'
    \<and> plat_view fdt (n + count_of DrvNs16550a nd) c (t \<or> matched DrvClintTimer nd)
        (i \<or> matched DrvClintMsip nd) (r \<or> matched DrvSifiveTest nd) (x \<or> matched DrvPlic nd) p'"
proof -
  obtain p1 where p1: "(if matched DrvNs16550a nd then probe cpu DrvNs16550a nd p else Inr p) = Inr p1"
    and v1: "plat_view fdt (n + count_of DrvNs16550a nd) c t i r x p1"
    using probe_step_ns [OF assms] by blast
  obtain p2 where p2: "(if matched DrvClintTimer nd then probe cpu DrvClintTimer nd p1 else Inr p1) = Inr p2"
    and v2: "plat_view fdt (n + count_of DrvNs16550a nd) c (t \<or> matched DrvClintTimer nd) i r x p2"
    using probe_step_timer [OF v1 assms(2)] by blast
  obtain p3 where p3: "(if matched DrvClintMsip nd then probe cpu DrvClintMsip nd p2 else Inr p2) = Inr p3"
    and v3: "plat_view fdt (n + count_of DrvNs16550a nd) c (t \<or> matched DrvClintTimer nd)
      (i \<or> matched DrvClintMsip nd) r x p3"
    using probe_step_msip [OF v2 assms(2)] by blast
  obtain p4 where p4: "(if matched DrvSifiveTest nd then probe cpu DrvSifiveTest nd p3 else Inr p3) = Inr p4"
    and v4: "plat_view fdt (n + count_of DrvNs16550a nd) c (t \<or> matched DrvClintTimer nd)
      (i \<or> matched DrvClintMsip nd) (r \<or> matched DrvSifiveTest nd) x p4"
    using probe_step_reset [OF v3 assms(2)] by blast
  show ?thesis
    using probe_step_plic [OF v4 assms(2), of cpu]
    unfolding default_drivers_def probe_all.simps p1 p2 p3 p4 rbind_simps by auto
qed

lemma derive_view:
  assumes "plat_view fdt n c t i r x p" "n \<le> 4"
  shows "\<exists>p'. try_derive_console fdt p = Inr p' \<and> plat_view fdt n (c \<or> 0 < n) t i r x p'"
  using assms by (cases n) (auto simp: try_derive_console_def plat_view_def registry_iter_of)

lemma boot_node_view:
  assumes v: "plat_view fdt n (0 < n) t i r x p" and ok: "node_ok nd" and n: "n + count_of DrvNs16550a nd \<le> 4"
  shows "\<exists>p'. boot_node pins clks fdt default_drivers prev nd p = Inr p'
    \<and> plat_view fdt (n + count_of DrvNs16550a nd) (0 < n + count_of DrvNs16550a nd)
        (t \<or> matched DrvClintTimer nd) (i \<or> matched DrvClintMsip nd) (r \<or> matched DrvSifiveTest nd)
        (x \<or> matched DrvPlic nd) p'"
proof -
  let ?p1 = "if nd_level nd < prev then p\<lparr>p_bus := bus_stack_pop_to (nd_level nd) (p_bus p)\<rparr> else p"
  let ?n = "n + count_of DrvNs16550a nd"
  have v1: "plat_view fdt n (0 < n) t i r x ?p1" using v by (simp add: plat_view_def)
  then have none: "try_pinctrl ?p1 = Inr None" "try_clock ?p1 = Inr None"
    unfolding plat_view_def try_pinctrl_def try_clock_def by simp_all
  obtain p4 where p4: "probe_all (fdt_boot_cpuid fdt) default_drivers nd ?p1 = Inr p4"
    and v4: "plat_view fdt ?n (0 < n) (t \<or> matched DrvClintTimer nd) (i \<or> matched DrvClintMsip nd)
      (r \<or> matched DrvSifiveTest nd) (x \<or> matched DrvPlic nd) p4"
    using probe_all_view [OF v1 ok n] by blast
  have con: "try_console p4 = Inr (if 0 < n then Some Ns16550a else None)"
    using v4 unfolding plat_view_def try_console_def by simp
  have run: "boot_node pins clks fdt default_drivers prev nd p
      = (case if 0 < n then Some Ns16550a else None of None \<Rightarrow> try_derive_console fdt p4 | Some d \<Rightarrow> Inr p4)"
    unfolding boot_node_def Let_def none rbind_simps option.case p4 con ..
  show ?thesis
  proof (cases "0 < n")
    case True
    then show ?thesis using run v4 by simp
  next
    case False
    then show ?thesis using run derive_view [OF v4 n] by simp
  qed
qed

definition some_match :: "driver \<Rightarrow> node list \<Rightarrow> bool" where
  "some_match d nds = list_ex (matched d) nds"

lemma some_match_Cons: "some_match d (nd # nds) \<longleftrightarrow> matched d nd \<or> some_match d nds"
  by (simp add: some_match_def)

lemma boot_nodes_view:
  assumes "plat_view fdt n (0 < n) t i r x p" "\<forall>nd\<in>set nds. node_ok nd"
    "n + length (filter (matched DrvNs16550a) nds) \<le> 4"
  shows "\<exists>p' m. boot_nodes pins clks fdt default_drivers prev nds p = Inr p'
    \<and> m = n + length (filter (matched DrvNs16550a) nds)
    \<and> plat_view fdt m (0 < m) (t \<or> some_match DrvClintTimer nds) (i \<or> some_match DrvClintMsip nds)
        (r \<or> some_match DrvSifiveTest nds) (x \<or> some_match DrvPlic nds) p'"
  using assms
proof (induction nds arbitrary: n t i r x p prev)
  case Nil
  then show ?case by (simp add: some_match_def)
next
  case (Cons nd nds)
  have n: "n + count_of DrvNs16550a nd \<le> 4" "node_ok nd"
    using Cons.prems by (auto simp: count_of_def)
  obtain p1 where p1: "boot_node pins clks fdt default_drivers prev nd p = Inr p1"
    and v1: "plat_view fdt (n + count_of DrvNs16550a nd) (0 < n + count_of DrvNs16550a nd)
      (t \<or> matched DrvClintTimer nd) (i \<or> matched DrvClintMsip nd) (r \<or> matched DrvSifiveTest nd)
      (x \<or> matched DrvPlic nd) p1"
    using boot_node_view [OF Cons.prems(1) n(2,1)] by blast
  have rest: "\<forall>nd\<in>set nds. node_ok nd"
    "n + count_of DrvNs16550a nd + length (filter (matched DrvNs16550a) nds) \<le> 4"
    using Cons.prems by (auto simp: count_of_def split: if_splits)
  have len: "length (filter (matched DrvNs16550a) (nd # nds))
      = count_of DrvNs16550a nd + length (filter (matched DrvNs16550a) nds)"
    by (simp add: count_of_def)
  show ?case
    using Cons.IH [OF v1 rest, of "nd_level nd"]
    unfolding boot_nodes.simps p1 rbind_simps len some_match_Cons disj_assoc add.assoc
    by blast
qed

lemma qemu_virt_boots:
  assumes "from_bytes dtb = Some fdt" "\<forall>nd\<in>set (fdt_nodes fdt). node_ok nd"
    and "length (filter (matched DrvNs16550a) (fdt_nodes fdt)) \<le> 4"
  shows "\<exists>p. qemu_virt_init pins clks from_bytes dtb (plat_new hart) = Inr p
    \<and> try_console p = Inr (if some_match DrvNs16550a (fdt_nodes fdt) then Some Ns16550a else None)
    \<and> slot_get (p_timer p) = Inr (if some_match DrvClintTimer (fdt_nodes fdt) then Some ClintTimer else None)
    \<and> ipi_of p = Inr (if some_match DrvClintMsip (fdt_nodes fdt) then Some (ClintMsip True) else None)
    \<and> slot_get (p_reset p) = Inr (if some_match DrvSifiveTest (fdt_nodes fdt) then Some SifiveTest else None)
    \<and> slot_get (p_intc p) = Inr (if some_match DrvPlic (fdt_nodes fdt) then Some Plic else None)
    \<and> registry_iter (p_serials p)
        = Inr (replicate (length (filter (matched DrvNs16550a) (fdt_nodes fdt))) Ns16550a)"
proof -
  let ?nds = "fdt_nodes fdt"
  let ?m = "length (filter (matched DrvNs16550a) ?nds)"
  let ?p0 = "(plat_new hart)\<lparr>p_inited := 1, p_fdt := Init fdt, p_drivers := slot_of (Some default_drivers)\<rparr>"
  let ?p1 = "?p0\<lparr>p_bus := bus_stack_reset (p_bus ?p0)\<rparr>"
  have v1: "plat_view fdt 0 (0 < (0::nat)) False False False False ?p1"
    by (simp add: plat_view_def plat_new_def registry_new_of)
  obtain p2 where p2: "boot_nodes pins clks fdt default_drivers 1 ?nds ?p1 = Inr p2"
    and v2: "plat_view fdt ?m (0 < ?m) (some_match DrvClintTimer ?nds) (some_match DrvClintMsip ?nds)
      (some_match DrvSifiveTest ?nds) (some_match DrvPlic ?nds) p2"
    using boot_nodes_view [OF v1 assms(2), of pins clks 1] assms(3) by auto
  obtain p3 where p3: "try_derive_console fdt p2 = Inr p3"
    and v3: "plat_view fdt ?m (0 < ?m) (some_match DrvClintTimer ?nds) (some_match DrvClintMsip ?nds)
      (some_match DrvSifiveTest ?nds) (some_match DrvPlic ?nds) p3"
    using derive_view [OF v2 assms(3)] by auto
  have init: "init_dtb from_bytes dtb (plat_new hart) = Inr ((plat_new hart)\<lparr>p_inited := 1, p_fdt := Init fdt\<rparr>)"
    using assms(1) by (simp add: init_dtb_def plat_new_def)
  have drv: "slot_set default_drivers (p_drivers ((plat_new hart)\<lparr>p_inited := 1, p_fdt := Init fdt\<rparr>))
      = slot_of (Some default_drivers)"
    by (simp add: plat_new_def)
  have pre: "slot_expect (p_drivers ?p0) = Inr default_drivers" "dt ?p0 = Inr fdt"
    by (simp_all add: slot_expect_def dt_def)
  have run: "qemu_virt_init pins clks from_bytes dtb (plat_new hart) = Inr p3"
    unfolding qemu_virt_init_def init rbind_simps drv boot_def pre p2 p3 ..
  have pos: "0 < ?m \<longleftrightarrow> some_match DrvNs16550a ?nds"
    by (auto simp: some_match_def list_ex_iff filter_empty_conv)
  show ?thesis
    using run v3 pos
    by (auto simp: plat_view_def try_console_def ipi_of_def registry_iter_of)
qed

text \<open>
  C33. Booting QEMU's board. For a device tree in which every node that a driver matches has a \<open>reg\<close>
  address (which for a serial port is not 0), and which has at most four serial ports, \<open>init\<close>
  returns, and afterwards exactly the devices that the tree has are registered: the console is a
  serial port if there is one, and the IPI device is the CLINT's, ready to send, which is what the
  executor relies on.
\<close>

theorem boot_instantiates_tree:
  assumes "from_bytes dtb = Some fdt" "\<forall>nd\<in>set (fdt_nodes fdt). node_ok nd"
    and "length (filter (matched DrvNs16550a) (fdt_nodes fdt)) \<le> 4"
  shows "\<exists>p. qemu_virt_init pins clks from_bytes dtb (plat_new hart) = Inr p
    \<and> try_console p = Inr (if some_match DrvNs16550a (fdt_nodes fdt) then Some Ns16550a else None)
    \<and> slot_get (p_timer p) = Inr (if some_match DrvClintTimer (fdt_nodes fdt) then Some ClintTimer else None)
    \<and> ipi_of p = Inr (if some_match DrvClintMsip (fdt_nodes fdt) then Some (ClintMsip True) else None)
    \<and> slot_get (p_reset p) = Inr (if some_match DrvSifiveTest (fdt_nodes fdt) then Some SifiveTest else None)
    \<and> slot_get (p_intc p) = Inr (if some_match DrvPlic (fdt_nodes fdt) then Some Plic else None)
    \<and> registry_iter (p_serials p)
        = Inr (replicate (length (filter (matched DrvNs16550a) (fdt_nodes fdt))) Ns16550a)"
  using assms by (rule qemu_virt_boots)

definition demo_fdt :: fdt where
  "demo_fdt = \<lparr>fdt_nodes =
     [\<lparr>nd_level = 0, nd_compatibles = [''riscv-virtio''], nd_reg = None\<rparr>,
      \<lparr>nd_level = 2, nd_compatibles = [''ns16550a''], nd_reg = Some [0x10000000]\<rparr>,
      \<lparr>nd_level = 2, nd_compatibles = [''riscv,clint0''], nd_reg = Some [0x2000000]\<rparr>,
      \<lparr>nd_level = 2, nd_compatibles = [''sifive,clint0'', ''riscv,clint0-msip''], nd_reg = Some [0x2000000]\<rparr>,
      \<lparr>nd_level = 2, nd_compatibles = [''riscv,plic0''], nd_reg = Some [0xC000000]\<rparr>],
     fdt_boot_cpuid = 0, fdt_stdout = True, fdt_timebase = Some 10000000\<rparr>"

lemma demo_fdt_facts:
  "\<forall>nd\<in>set (fdt_nodes demo_fdt). node_ok nd"
  "length (filter (matched DrvNs16550a) (fdt_nodes demo_fdt)) \<le> 4"
  "some_match DrvNs16550a (fdt_nodes demo_fdt)"
  "some_match DrvClintMsip (fdt_nodes demo_fdt)"
  "\<not> some_match DrvSifiveTest (fdt_nodes demo_fdt)"
  by code_simp+

theorem boot_instantiates_tree_witness:
  "\<exists>p. qemu_virt_init (\<lambda>h nd p. p) (\<lambda>h nd p. p) (\<lambda>bs. Some demo_fdt) [] (plat_new 0) = Inr p
    \<and> try_console p = Inr (Some Ns16550a) \<and> ipi_of p = Inr (Some (ClintMsip True))
    \<and> slot_get (p_reset p) = Inr None"
  using boot_instantiates_tree [where from_bytes = "\<lambda>bs. Some demo_fdt" and dtb = "[]" and hart = 0
      and pins = "\<lambda>h nd p. p" and clks = "\<lambda>h nd p. p", OF refl demo_fdt_facts(1,2)]
  by (simp only: demo_fdt_facts if_True if_False) blast

section \<open>Timer and interrupts\<close>

lemma word_halves:
  "unat (drop_bit 32 (w :: u64)) = unat w div 2 ^ 32"
  "unat (ucast (w :: u64) :: u32) = unat w mod 2 ^ 32"
  "unat (w :: u64) div 2 ^ 32 mod 2 ^ 32 = unat w div 2 ^ 32"
proof -
  have less: "unat w < 2 ^ 64" by (rule u64_bound)
  then have "take_bit 64 (unat w) = unat w" by (rule take_bit_nat_eq_self)
  then show "unat (drop_bit 32 w) = unat w div 2 ^ 32"
    by (subst unsigned_drop_bit_eq) (simp add: drop_bit_eq_div)
  show "unat (ucast w :: u32) = unat w mod 2 ^ 32"
    by (subst unsigned_ucast_eq) (simp add: take_bit_eq_mod)
  show "unat w div 2 ^ 32 mod 2 ^ 32 = unat w div 2 ^ 32" using less by simp
qed

lemma clint_write_simps [state_simps]:
  "mtimecmp_addr (clint_write_hi tick p) = mtimecmp_addr p"
  "mtimecmp_addr (clint_write_lo tick p) = mtimecmp_addr p"
  "p_mem32 (clint_write_hi tick p) = (p_mem32 p)(mtimecmp_addr p + 4 := ucast (drop_bit 32 tick))"
  "p_mem32 (clint_write_lo tick p) = (p_mem32 p)(mtimecmp_addr p := ucast tick)"
  by (simp_all add: clint_write_hi_def clint_write_lo_def mtimecmp_addr_def)

lemma cmp_words: "mtimecmp_addr p + 4 \<noteq> mtimecmp_addr p" "mtimecmp_addr p \<noteq> mtimecmp_addr p + 4"
  by simp_all

lemma mtimecmp_after:
  "mtimecmp (clint_write_hi tick p) = unat tick div 2 ^ 32 * 2 ^ 32 + unat (p_mem32 p (mtimecmp_addr p))"
  "mtimecmp (clint_write_lo tick (clint_write_hi tick p)) = unat tick"
  by (simp_all only: mtimecmp_def clint_write_simps fun_upd_apply cmp_words if_True if_False simp_thms
      word_halves div_mult_mod_eq)

text \<open>
  \<open>set_deadline\<close> leaves the deadline in the compare register, and if the register was at its
  maximum before, as \<open>start\<close> and the timer interrupt handler leave it, it is never below the new
  deadline in between, so that no early interrupt comes.
\<close>

theorem clint_deadline_not_early:
  assumes "mtimecmp p = 2 ^ 64 - 1"
  shows "mtimecmp (timer_set_deadline ClintTimer tick p) = unat tick
    \<and> unat tick \<le> mtimecmp (clint_write_hi tick p)"
proof -
  let ?hi = "unat (p_mem32 p (mtimecmp_addr p + 4))" and ?lo = "unat (p_mem32 p (mtimecmp_addr p))"
  have less: "?hi < 2 ^ 32" "?lo < 2 ^ 32"
    using unsigned_less [of "p_mem32 p (mtimecmp_addr p + 4)", where ?'a = nat]
      unsigned_less [of "p_mem32 p (mtimecmp_addr p)", where ?'a = nat] by simp_all
  have "(?hi * 2 ^ 32 + ?lo) mod 2 ^ 32 = ?lo" using less(2) by simp
  then have "?lo = (2 ^ 64 - 1) mod 2 ^ 32" using assms unfolding mtimecmp_def by metis
  then have "?lo = 2 ^ 32 - 1" by simp
  moreover have "unat tick = unat tick div 2 ^ 32 * 2 ^ 32 + unat tick mod 2 ^ 32" by simp
  moreover have "unat tick mod 2 ^ 32 < 2 ^ 32" by simp
  ultimately have "unat tick \<le> mtimecmp (clint_write_hi tick p)"
    unfolding mtimecmp_after(1) by linarith
  then show ?thesis by (simp add: timer_set_deadline_def mtimecmp_after(2))
qed

text \<open>
  Writing the high word first does not by itself keep the compare register from being too small
  for a moment: moving the deadline from \<open>2 * 2^32\<close> to \<open>2^32 + 5\<close> it is \<open>2^32\<close> in between, below both.
\<close>

lemma clint_deadline_transient:
  "mtimecmp ((plat_new 0)\<lparr>p_mem32 := (\<lambda>a. if a = 4 then 2 else 0)\<rparr>) = 2 * 2 ^ 32
   \<and> mtimecmp (clint_write_hi (2 ^ 32 + 5) ((plat_new 0)\<lparr>p_mem32 := (\<lambda>a. if a = 4 then 2 else 0)\<rparr>)) = 2 ^ 32"
  unfolding mtimecmp_after(1) by (simp add: mtimecmp_def mtimecmp_addr_def plat_new_def)

lemma enable_simps [state_simps]:
  "p_mie (enable_mtimer p) = put_bit 7 True (p_mie p)" "p_mie (enable_mei p) = put_bit 11 True (p_mie p)"
  "p_mie (enable_msi p) = put_bit 3 True (p_mie p)" "p_mie (enable_interrupts p) = p_mie p"
  "p_mstatus (enable_mtimer p) = p_mstatus p" "p_mstatus (enable_mei p) = p_mstatus p"
  "p_mstatus (enable_msi p) = p_mstatus p" "p_mstatus (enable_interrupts p) = set_mie (p_mstatus p)"
  "mtimecmp (enable_mtimer p) = mtimecmp p" "mtimecmp (enable_mei p) = mtimecmp p"
  "mtimecmp (enable_msi p) = mtimecmp p" "mtimecmp (enable_interrupts p) = mtimecmp p"
  by (simp_all add: enable_mtimer_def enable_mei_def enable_msi_def enable_interrupts_def mtimecmp_def
      mtimecmp_addr_def)

text \<open>
  Nothing can interrupt before \<open>start\<close>, and after it, whatever the board's \<open>late_init\<close> does
  short of removing the timer, the machine timer, external and software
  interrupts are enabled and the timer is far away; the compare register is set before the timer
  interrupt is enabled, and the global enable bit is the last one to be set.
\<close>

theorem start_enables_interrupts:
  assumes "slot_get (p_timer (late p)) = Inr (Some ClintTimer)"
  shows "\<exists>p'. platform_start late p = Inr p' \<and> mtimecmp p' = 2 ^ 64 - 1
    \<and> (\<forall>i. bit (p_mie p') i \<longleftrightarrow> i \<in> {3, 7, 11} \<or> bit (p_mie (late p)) i)
    \<and> (\<forall>i. bit (p_mstatus p') i \<longleftrightarrow> i = 3 \<or> bit (p_mstatus (late p)) i)"
proof -
  let ?p1 = "clint_write_lo (- 1) (clint_write_hi (- 1) (late p))"
  let ?p' = "enable_interrupts (enable_msi (enable_mei (enable_mtimer ?p1)))"
  have "platform_start late p = Inr ?p'"
    using assms by (simp add: platform_start_def timer_def slot_expect_def timer_set_deadline_def)
  moreover have "mtimecmp ?p1 = 2 ^ 64 - 1" by (simp add: mtimecmp_after(2) unat_minus_one_u64)
  moreover have "p_mie ?p1 = p_mie (late p)" "p_mstatus ?p1 = p_mstatus (late p)"
    by (simp_all add: clint_write_lo_def clint_write_hi_def)
  ultimately show ?thesis
    by (auto simp: state_simps set_mie_def bit_put_bit)
qed

theorem clint_deadline_not_early_witness:
  "mtimecmp (timer_set_deadline ClintTimer 12345 ((plat_new 0)\<lparr>p_mem32 := (\<lambda>a. - 1)\<rparr>)) = 12345"
proof -
  have "unat (- 1 :: u32) = 2 ^ 32 - 1" by (simp add: unsigned_minus_1_eq_mask mask_eq_exp_minus_1)
  then show ?thesis
    using clint_deadline_not_early [of "(plat_new 0)\<lparr>p_mem32 := (\<lambda>a. - 1)\<rparr>" 12345]
    by (simp add: mtimecmp_def)
qed

theorem start_enables_interrupts_witness:
  "\<exists>p'. platform_start (\<lambda>p. p) ((plat_new 0)\<lparr>p_timer := slot_of (Some ClintTimer)\<rparr>) = Inr p'
    \<and> bit (p_mie p') 11 \<and> bit (p_mstatus p') 3"
  using start_enables_interrupts [of "\<lambda>p. p" "(plat_new 0)\<lparr>p_timer := slot_of (Some ClintTimer)\<rparr>"] by force

end
