(* ===== verification/Macros.thy ===== *)
theory Macros
  imports Prelude
begin

text \<open>
  The attribute macros of \<open>modules/executor-macro/src/lib.rs\<close>: what \<open>#[task]\<close>, \<open>#[main]\<close> and
  \<open>#[interrupt]\<close> accept and the parts of their expansion that depend on the input.  The code that
  \<open>#[main]\<close> always generates, the entry point and the scheduler interrupt, is theory \<open>Machine\<close>.
\<close>

section \<open>Syntax\<close>

text \<open>
  The parts of \<open>syn\<close>'s syntax trees the macros look at.  A literal is its value; \<open>base10_parse\<close>
  to \<open>usize\<close> fails on a value of \<open>2^64\<close> or more.
\<close>

datatype syn_expr = ELitInt nat | EOther

datatype syn_type =
    TPath "path_segment list"
  | TReference syn_type
  | TTuple "syn_type list"
  | TOther
and path_segment = Segment string path_arguments
and path_arguments = NoArguments | AngleBracketed "generic_argument list" | Parenthesized
and generic_argument = GType syn_type | GConst syn_expr | GOther

datatype fn_arg = Receiver | Typed string syn_type

record fn_sig =
  sig_async :: bool
  sig_generics :: nat
  sig_ident :: string
  sig_inputs :: "fn_arg list"
  sig_output :: "syn_type option"

datatype macro_error =
    TaskNotAsync
  | TaskGenerics
  | TaskReturnType
  | TaskSelf
  | MainAsync
  | MainGenerics
  | MainParameterCount
  | MainSelf
  | InvalidLogLevel string
  | ExpectedPin
  | PinArguments
  | PinNotReference
  | ExpectedSpawner
  | SpawnerArguments
  | SpawnerNotConst
  | NotIntegerLiteral
  | LiteralOutOfRange
  | InterruptAsync

section \<open>\<open>#[task]\<close>\<close>

record task_items =
  ti_inner_name :: string
  ti_name :: string
  ti_arg_pats :: "string list"

fun arg_pats :: "fn_arg list \<Rightarrow> macro_error + string list" where
  "arg_pats [] = Inr []"
| "arg_pats (Receiver # args) = Inl TaskSelf"
| "arg_pats (Typed pat ty # args) =
     (case arg_pats args of Inl e \<Rightarrow> Inl e | Inr pats \<Rightarrow> Inr (pat # pats))"

definition task_macro :: "fn_sig \<Rightarrow> macro_error + task_items" where
  "task_macro f =
     (if \<not> sig_async f then Inl TaskNotAsync
      else if sig_generics f \<noteq> 0 then Inl TaskGenerics
      else case sig_output f of
        Some (TTuple (t # ts)) \<Rightarrow> Inl TaskReturnType
      | Some (TPath p) \<Rightarrow> Inl TaskReturnType
      | Some (TReference t) \<Rightarrow> Inl TaskReturnType
      | Some TOther \<Rightarrow> Inl TaskReturnType
      | ok \<Rightarrow>
          (case arg_pats (sig_inputs f) of
             Inl e \<Rightarrow> Inl e
           | Inr pats \<Rightarrow> Inr \<lparr>ti_inner_name = ''__'' @ sig_ident f, ti_name = sig_ident f, ti_arg_pats = pats\<rparr>))"

section \<open>\<open>#[main]\<close>\<close>

datatype level_filter = LTrace | LDebug | LInfo | LWarn | LError | LOff

definition is_space :: "char \<Rightarrow> bool" where
  "is_space c \<longleftrightarrow> c \<in> set [CHR '' '', CHR 0x09, CHR 0x0A, CHR 0x0B, CHR 0x0C, CHR 0x0D]"

definition trim :: "string \<Rightarrow> string" where
  "trim s = rev (dropWhile is_space (rev (dropWhile is_space s)))"

definition parse_log_level :: "string \<Rightarrow> macro_error + level_filter" where
  "parse_log_level attr =
     (let s = trim attr in
      if s = [] then Inr LInfo
      else if s = ''trace'' then Inr LTrace
      else if s = ''debug'' then Inr LDebug
      else if s = ''info'' then Inr LInfo
      else if s = ''warn'' then Inr LWarn
      else if s = ''error'' then Inr LError
      else if s = ''off'' then Inr LOff
      else Inl (InvalidLogLevel s))"

definition extract_spawner_n :: "syn_type \<Rightarrow> macro_error + nat" where
  "extract_spawner_n ty =
     (case ty of
        TPath (seg # segs) \<Rightarrow>
          (case last (seg # segs) of Segment pin pin_args \<Rightarrow>
            if pin \<noteq> ''Pin'' then Inl ExpectedPin
            else case pin_args of
              AngleBracketed args \<Rightarrow>
                (case args of
                   GType inner # rest \<Rightarrow>
                     (case inner of
                        TReference elem \<Rightarrow>
                          (case elem of
                             TPath (sp # sps) \<Rightarrow>
                               (case last (sp # sps) of Segment spawner sp_args \<Rightarrow>
                                 if spawner \<noteq> ''Spawner'' then Inl ExpectedSpawner
                                 else case sp_args of
                                   AngleBracketed (GConst expr # others) \<Rightarrow>
                                     (case expr of
                                        ELitInt n \<Rightarrow> if n < 2 ^ 64 then Inr n else Inl LiteralOutOfRange
                                      | EOther \<Rightarrow> Inl NotIntegerLiteral)
                                 | AngleBracketed other \<Rightarrow> Inl SpawnerNotConst
                                 | other \<Rightarrow> Inl SpawnerArguments)
                           | other \<Rightarrow> Inl ExpectedSpawner)
                      | other \<Rightarrow> Inl PinNotReference)
                 | other \<Rightarrow> Inl PinNotReference)
            | other \<Rightarrow> Inl PinArguments)
      | other \<Rightarrow> Inl ExpectedPin)"

text \<open>What of the expansion depends on the input: the log level, the parameter and \<open>N\<close>.\<close>

record main_items =
  mi_log_level :: level_filter
  mi_spawner_pat :: string
  mi_n :: nat

definition main_macro :: "string \<Rightarrow> fn_sig \<Rightarrow> macro_error + main_items" where
  "main_macro attr f =
     (if sig_async f then Inl MainAsync
      else if sig_generics f \<noteq> 0 then Inl MainGenerics
      else case parse_log_level attr of
        Inl e \<Rightarrow> Inl e
      | Inr level \<Rightarrow>
          if length (sig_inputs f) \<noteq> 1 then Inl MainParameterCount
          else (case sig_inputs f ! 0 of
             Receiver \<Rightarrow> Inl MainSelf
           | Typed pat ty \<Rightarrow>
               (case extract_spawner_n ty of
                  Inl e \<Rightarrow> Inl e
                | Inr n \<Rightarrow> Inr \<lparr>mi_log_level = level, mi_spawner_pat = pat, mi_n = n\<rparr>)))"

section \<open>\<open>#[interrupt]\<close>\<close>

definition interrupt_symbol :: "fn_sig \<Rightarrow> macro_error + string" where
  "interrupt_symbol f =
     (if sig_async f then Inl InterruptAsync
      else Inr (if sig_ident f = ''MachineSoft'' then ''__Inner_MachineSoft'' else sig_ident f))"

section \<open>What the macros accept\<close>

lemma arg_pats_iff:
  "arg_pats args = Inr pats \<longleftrightarrow> (\<exists>tys. length tys = length pats \<and> args = map2 Typed pats tys)"
proof (induction args arbitrary: pats)
  case Nil
  then show ?case by (auto simp: zip_eq_Nil_iff)
next
  case (Cons a args)
  show ?case
  proof (cases a)
    case Receiver
    have "a # args \<noteq> map2 Typed pats tys" for tys
      using Receiver by (cases pats; cases tys) auto
    then show ?thesis using Receiver by auto
  next
    case (Typed pat ty)
    show ?thesis
    proof (cases pats)
      case Nil
      then show ?thesis using Typed by (simp split: sum.splits)
    next
      case (Cons q qs)
      have "(\<exists>tys. length tys = length (q # qs) \<and> Typed pat ty # args = map2 Typed (q # qs) tys)
          \<longleftrightarrow> q = pat \<and> (\<exists>tys. length tys = length qs \<and> args = map2 Typed qs tys)"
        by (auto simp: length_Suc_conv intro: exI [of _ "ty # tys" for tys])
      then show ?thesis
        using Cons Typed Cons.IH [of qs] by (auto split: sum.splits)
    qed
  qed
qed

text \<open>
  \<open>#[task]\<close> accepts exactly the async functions without generics and without \<open>self\<close> that return
  \<open>()\<close>, written or not, and the function it generates passes on every parameter, in order.
\<close>

theorem task_macro_accepts:
  "task_macro f = Inr items \<longleftrightarrow>
     sig_async f \<and> sig_generics f = 0 \<and> sig_output f \<in> {None, Some (TTuple [])}
     \<and> ti_name items = sig_ident f \<and> ti_inner_name items = ''__'' @ sig_ident f
     \<and> (\<exists>tys. length tys = length (ti_arg_pats items)
          \<and> sig_inputs f = map2 Typed (ti_arg_pats items) tys)"
proof -
  have pats: "(case arg_pats (sig_inputs f) of Inl e \<Rightarrow> Inl e
      | Inr pats \<Rightarrow> Inr \<lparr>ti_inner_name = ''__'' @ sig_ident f, ti_name = sig_ident f, ti_arg_pats = pats\<rparr>)
        = Inr items
    \<longleftrightarrow> ti_name items = sig_ident f \<and> ti_inner_name items = ''__'' @ sig_ident f
      \<and> arg_pats (sig_inputs f) = Inr (ti_arg_pats items)"
    by (cases items) (auto split: sum.splits)
  show ?thesis
  proof (cases "sig_async f \<and> sig_generics f = 0")
    case True
    then show ?thesis
      using pats arg_pats_iff [of "sig_inputs f" "ti_arg_pats items"]
      by (auto simp: task_macro_def split: option.splits syn_type.splits list.splits)
  next
    case False
    then show ?thesis by (auto simp: task_macro_def)
  qed
qed

lemma extract_spawner_iff:
  "extract_spawner_n ty = Inr n \<longleftrightarrow> n < 2 ^ 64 \<and> (\<exists>path args spath sargs.
     ty = TPath (path @ [Segment ''Pin'' (AngleBracketed
       (GType (TReference (TPath (spath @ [Segment ''Spawner'' (AngleBracketed (GConst (ELitInt n) # sargs))])))
        # args))]))"
  (is "?l = ?r")
proof
  assume ?l
  then obtain seg segs where ty: "ty = TPath (seg # segs)"
    by (auto simp: extract_spawner_n_def split: syn_type.splits list.splits)
  obtain pin pargs where last: "last (seg # segs) = Segment pin pargs" by (cases "last (seg # segs)")
  have pin: "pin = ''Pin''" using \<open>?l\<close> last by (auto simp: extract_spawner_n_def ty split: if_splits)
  obtain args elem where pargs: "pargs = AngleBracketed (GType (TReference elem) # args)"
    using \<open>?l\<close> last pin
    by (auto simp: extract_spawner_n_def ty split: path_arguments.splits list.splits generic_argument.splits
        syn_type.splits)
  obtain sp sps where elem: "elem = TPath (sp # sps)"
    using \<open>?l\<close> last pin pargs
    by (auto simp: extract_spawner_n_def ty split: syn_type.splits list.splits)
  obtain spawner spargs where slast: "last (sp # sps) = Segment spawner spargs" by (cases "last (sp # sps)")
  have spawner: "spawner = ''Spawner''"
    using \<open>?l\<close> last pin pargs elem slast by (auto simp: extract_spawner_n_def ty split: if_splits)
  obtain sargs where sargs: "spargs = AngleBracketed (GConst (ELitInt n) # sargs)" "n < 2 ^ 64"
    using \<open>?l\<close> last pin pargs elem slast spawner
    by (auto simp: extract_spawner_n_def ty split: path_arguments.splits list.splits
        generic_argument.splits syn_expr.splits if_splits)
  have "seg # segs = butlast (seg # segs) @ [Segment pin pargs]"
    using last append_butlast_last_id [of "seg # segs"] by simp
  moreover have "sp # sps = butlast (sp # sps) @ [Segment spawner spargs]"
    using slast append_butlast_last_id [of "sp # sps"] by simp
  ultimately show ?r using sargs ty elem pargs pin spawner by metis
next
  assume ?r
  then obtain path args spath sargs where n: "n < 2 ^ 64" and ty: "ty = TPath (path @ [Segment ''Pin'' (AngleBracketed
       (GType (TReference (TPath (spath @ [Segment ''Spawner'' (AngleBracketed (GConst (ELitInt n) # sargs))])))
        # args))])" by blast
  then show ?l
    by (cases path; cases spath) (simp_all add: extract_spawner_n_def)
qed

text \<open>
  \<open>#[main]\<close> accepts a function exactly if it is not async, has no generics, its attribute is a log
  level (or nothing) and its only parameter has a type of the form
  \<open>..::Pin<& ..::Spawner<N, ..>, ..>\<close> with an integer literal \<open>N\<close> that fits into \<open>usize\<close>, and
  it is that \<open>N\<close> that the generated code uses.
\<close>

theorem main_macro_accepts:
  "main_macro attr f = Inr items \<longleftrightarrow>
     \<not> sig_async f \<and> sig_generics f = 0 \<and> parse_log_level attr = Inr (mi_log_level items)
     \<and> mi_n items < 2 ^ 64
     \<and> (\<exists>path args spath sargs. sig_inputs f = [Typed (mi_spawner_pat items)
          (TPath (path @ [Segment ''Pin'' (AngleBracketed (GType (TReference (TPath (spath
            @ [Segment ''Spawner'' (AngleBracketed (GConst (ELitInt (mi_n items)) # sargs))]))) # args))]))])"
  (is "?l \<longleftrightarrow> ?r")
proof -
  have "?l \<longleftrightarrow> \<not> sig_async f \<and> sig_generics f = 0 \<and> parse_log_level attr = Inr (mi_log_level items)
      \<and> (\<exists>ty. sig_inputs f = [Typed (mi_spawner_pat items) ty] \<and> extract_spawner_n ty = Inr (mi_n items))"
    by (cases items)
      (auto simp: main_macro_def length_Suc_conv split: sum.splits fn_arg.splits list.splits if_splits)
  then show ?thesis unfolding extract_spawner_iff by auto
qed

text \<open>An \<open>#[interrupt]\<close> function never takes the symbol of the scheduler interrupt.\<close>

lemma interrupt_not_scheduler: "interrupt_symbol f = Inr name \<Longrightarrow> name \<noteq> ''MachineSoft''"
  by (auto simp: interrupt_symbol_def split: if_splits)

end
