(* ===== verification/SharedState.thy ===== *)
theory SharedState
  imports SchedTraces AsyncMutex
begin

text \<open>
  The memory that tasks and interrupt handlers share, on the running machine.  A predicate that
  every atomic access preserves holds in every state of a run, however tasks of different
  priorities and interrupts preempt each other.  Applied to the async mutex: tasks that use it
  from any priority see the mutex of \<open>AsyncMutex\<close>, one critical section at a time.
\<close>

section \<open>Programs whose accesses keep a predicate\<close>

primrec prog_keeps :: "('g \<Rightarrow> bool) \<Rightarrow> ('f, 'o, 'g) prog \<Rightarrow> bool" where
  "prog_keeps I (Ready out) = True"
| "prog_keeps I (Pending f) = True"
| "prog_keeps I (Wake w p) = prog_keeps I p"
| "prog_keeps I (Spawn t f prio c) = (\<forall>ok. prog_keeps I (c ok))"
| "prog_keeps I (Join t c) = (\<forall>r. prog_keeps I (c r))"
| "prog_keeps I (Access u c) = (\<forall>g. I g \<longrightarrow> I (u g) \<and> prog_keeps I (c g))"

primrec op_keeps :: "('g \<Rightarrow> bool) \<Rightarrow> ('f, 'g) isr_op \<Rightarrow> bool" where
  "op_keeps I (IsrWake w) = True"
| "op_keeps I (IsrSpawn t f p) = True"
| "op_keeps I (IsrAccess u c) = (\<forall>g. I g \<longrightarrow> I (u g) \<and> list_all id (map (op_keeps I) (c g)))"

lemma op_keeps_access [simp]:
  "op_keeps I (IsrAccess u c) \<longleftrightarrow> (\<forall>g. I g \<longrightarrow> I (u g) \<and> list_all (op_keeps I) (c g))"
  by (simp add: list.pred_map)

declare op_keeps.simps(3) [simp del]

fun frame_keeps :: "('g \<Rightarrow> bool) \<Rightarrow> ('f, 'o, 'g) frame \<Rightarrow> bool" where
  "frame_keeps I (FIrq kind ops st) = list_all (op_keeps I) ops"
| "frame_keeps I (FPoll e t st p) = prog_keeps I p"
| "frame_keeps I fr = True"

fun event_keeps :: "('g \<Rightarrow> bool) \<Rightarrow> ('f, 'g) event \<Rightarrow> bool" where
  "event_keeps I (TakeIsr ops) = list_all (op_keeps I) ops"
| "event_keeps I (TakeMsi ops) = list_all (op_keeps I) ops"
| "event_keeps I ev = True"

definition machine_keeps :: "('g \<Rightarrow> bool) \<Rightarrow> ('f, 'o, 'q, 's, 'g) machine \<Rightarrow> bool" where
  "machine_keeps I m \<longleftrightarrow> I (k_app (m_kernel m)) \<and> list_all (frame_keeps I) (m_stack m)"

section \<open>The executor does not touch the shared memory\<close>

named_theorems app_simps

lemma app_basic [app_simps]:
  "k_app (upd_task t f k) = k_app k" "k_app (put_state t w k) = k_app k" "k_app (upd_exec e h k) = k_app k"
  "k_app (pend_mark k) = k_app k" "k_app (poll_store_result t out k) = k_app k"
  "k_app (poll_clear_executor t k) = k_app k" "k_app (join_store t wk k) = k_app k"
  "k_app (snd (join_take t k)) = k_app k" "k_app (complete_executor V k) = k_app k"
  "k_app (run_queue_enqueue L e t k) = k_app k" "k_app (ipi_send d k) = k_app k" "k_app (ipi_clear d k) = k_app k"
  by (simp_all add: upd_task_def put_state_def upd_exec_def pend_mark_def poll_store_result_def
      poll_clear_executor_def join_store_def join_take_def complete_executor_def run_queue_enqueue_def
      ipi_send_def ipi_clear_def split: ipi_dev.splits)

lemma app_bits:
  "bm_set p k = Inr k' \<Longrightarrow> k_app k' = k_app k" "bm_clear p k = Inr k' \<Longrightarrow> k_app k' = k_app k"
  "ops_set x k = Inr k' \<Longrightarrow> k_app k' = k_app k" "ops_clear x k = Inr k' \<Longrightarrow> k_app k' = k_app k"
  by (auto simp: bm_set_def bm_clear_def ops_set_def ops_clear_def rbind_Inr_iff split: bitmap_ops.splits)

lemma app_enqueue:
  "enqueue_locked L e t k = Inr k' \<Longrightarrow> k_app k' = k_app k"
  by (auto simp: enqueue_locked_def Let_def app_simps dest!: app_bits(3))

lemma app_pend:
  "pend_send k = Inr k' \<Longrightarrow> k_app k' = k_app k" "pend k = Inr k' \<Longrightarrow> k_app k' = k_app k"
  "clear_pend k = Inr (b, k') \<Longrightarrow> k_app k' = k_app k"
  by (auto simp: pend_send_def pend_def clear_pend_def Let_def app_simps split: option.splits)

lemma app_fetch: "fetch_enqueue t k = (first, k') \<Longrightarrow> k_app k' = k_app k"
  by (auto simp: fetch_enqueue_def app_simps split: prod.splits)

lemma app_spawn_check: "spawn_check V k = Inr k' \<Longrightarrow> k_app k' = k_app k"
  by (auto simp: spawn_check_def rbind_Inr_iff Let_def dest: app_pend split: option.split_asm if_split_asm list.split_asm)

lemma app_stage:
  "step_stage V L st k = Inr (st', k') \<Longrightarrow> k_app k' = k_app k"
  by (cases st) (auto simp: rbind_Inr_iff app_simps dest: app_enqueue app_pend app_fetch app_spawn_check
      split: option.splits if_splits prod.splits)

lemma app_spawn: "begin_spawn t f p k = Inr (ok, st, k') \<Longrightarrow> k_app k' = k_app k"
  by (auto simp: begin_spawn_def storage_spawn_def app_simps
      split: prod.splits sum.splits spawn_token.splits spawn_error.splits if_splits)

lemma app_run_next: "run_next L e k = Inr (r, k') \<Longrightarrow> k_app k' = k_app k"
  by (auto simp: run_next_def run_queue_dequeue_def Let_def rbind_Inr_iff app_simps
      dest!: app_bits(4) split: prod.splits option.splits)

lemma app_wake: "wake_task L t k = Inr k' \<Longrightarrow> k_app k' = k_app k"
  by (auto simp: wake_task_def executor_enqueue_eq fetch_enqueue_eq rbind_Inr_iff app_simps
      dest!: app_enqueue app_pend split: option.splits if_splits)

lemma app_despawn: "poll_despawn L t k = Inr k' \<Longrightarrow> k_app k' = k_app k"
  by (auto simp: poll_despawn_def Let_def waker_wake_def app_simps dest!: app_wake split: option.splits)

lemma app_drop: "poll_drop_future t k = Inr k' \<Longrightarrow> k_app k' = k_app k"
  by (auto simp: poll_drop_future_def rbind_Inr_iff app_simps)

lemma app_preempt: "try_preempt V k = Inr (r, k') \<Longrightarrow> k_app k' = k_app k"
proof (cases "bitmap_highest (k_bitmap k)")
  case (Inr h)
  then show "try_preempt V k = Inr (r, k') \<Longrightarrow> k_app k' = k_app k"
    by (cases h) (auto simp: try_preempt_def Let_def split: option.split_asm list.split_asm if_split_asm)
qed (simp add: try_preempt_def)

section \<open>The predicate holds throughout\<close>

lemma irq_keeps:
  assumes "I (k_app k)" "frame_keeps I (FIrq kind ops st)" "step_irq V L kind ops st k = Inr (frs, k')"
  shows "I (k_app k') \<and> list_all (frame_keeps I) frs"
proof (cases st)
  case (Some st0)
  then show ?thesis using assms by (auto simp: rbind_Inr_iff dest: app_stage)
next
  case None
  show ?thesis
  proof (cases ops)
    case Nil
    then show ?thesis using assms None by (cases kind) auto
  next
    case (Cons op ops')
    then show ?thesis using assms None
      by (cases op) (auto simp: rbind_Inr_iff dest: app_spawn)
  qed
qed

lemma poll_keeps:
  assumes "I (k_app k)" "frame_keeps I (FPoll e t st p)" "step_poll V L e t st p k = Inr (frs, k')"
  shows "I (k_app k') \<and> list_all (frame_keeps I) frs"
proof (cases st)
  case (Some st0)
  then show ?thesis using assms by (auto simp: rbind_Inr_iff dest: app_stage)
next
  case None
  then show ?thesis using assms
    by (cases p) (auto simp: rbind_Inr_iff app_simps join_take_def dest: app_spawn split: option.splits)
qed

lemma frame_step_keeps:
  assumes "I (k_app k)" "frame_keeps I fr" "step_frame V L fpoll fr k = Inr (frs, k')"
    and prog: "\<forall>t f. prog_keeps I (fpoll t f)"
  shows "I (k_app k') \<and> list_all (frame_keeps I) frs"
proof (cases fr)
  case (FIrq kind ops st)
  then show ?thesis using assms(1-3) irq_keeps by simp
next
  case (FPoll e t st p)
  then show ?thesis using assms(1-3) poll_keeps by simp
next
  case FSched
  then obtain rt k1 where rt: "try_preempt V k = Inr (rt, k1)" using assms(3) by (auto simp: rbind_Inr_iff)
  show ?thesis
  proof (cases rt)
    case (Some token)
    then show ?thesis
      using assms(1,3) FSched rt app_preempt [OF rt] by (cases token) (auto split: if_split_asm)
  qed (use assms(1,3) FSched rt app_preempt [OF rt] in auto)
qed (use assms in \<open>auto simp: rbind_Inr_iff app_simps dest!: app_pend(3) app_run_next app_drop app_despawn
  split: option.split_asm if_split_asm poll_fn.split_asm\<close>)

lemma exec_keeps:
  assumes "machine_keeps I m" "event_keeps I ev" "exec V L fpoll ev m = Some (Inr m')"
    and prog: "\<forall>t f. prog_keeps I (fpoll t f)"
  shows "machine_keeps I m'"
proof (cases ev)
  case Step
  then obtain fr rest frs k' where fr: "m_stack m = fr # rest"
      "step_frame V L fpoll fr (m_kernel m) = Inr (frs, k')" "m' = \<lparr>m_kernel = k', m_stack = frs @ rest\<rparr>"
    using assms(3) by (auto simp: rbind_Inr_iff split: list.splits)
  then show ?thesis
    using frame_step_keeps [OF _ _ fr(2) prog] assms(1) by (simp add: machine_keeps_def)
qed (use assms in \<open>auto simp: machine_keeps_def split: list.splits if_splits\<close>)

lemma exec_all_keeps:
  assumes "machine_keeps I m" "list_all (event_keeps I) evs" "exec_all V L fpoll evs m = Some (Inr m')"
    and prog: "\<forall>t f. prog_keeps I (fpoll t f)"
  shows "machine_keeps I m'"
  using assms(1-3)
proof (induction evs arbitrary: m)
  case (Cons ev evs)
  then obtain m1 where "exec V L fpoll ev m = Some (Inr m1)" "exec_all V L fpoll evs m1 = Some (Inr m')"
    by (auto split: option.splits sum.splits)
  then show ?case
    using Cons.IH exec_keeps [OF Cons.prems(1) _ _ prog, of ev V L m1] Cons.prems(2) by simp
qed simp

lemma boot_keeps:
  assumes "boot_machine V L dev n g ops = Inr m" "I g" "list_all (op_keeps I) ops"
  shows "machine_keeps I m"
  using assms by (auto simp: boot_machine_def boot_kernel_def spawner_new_def spawner_init_def
      machine_keeps_def rbind_Inr_iff split: if_splits)

text \<open>
  What every atomic access keeps, holds: if the futures and the handlers of an application
  access shared memory only in ways that preserve a predicate, it holds in every state of every
  run, whatever preempts what; the executor itself never touches that memory.
\<close>

lemma shared_memory_invariant:
  assumes "boot_machine V L dev n g ops = Inr m0" "exec_all V L fpoll evs m0 = Some (Inr m)"
    and "I g" "\<forall>t f. prog_keeps I (fpoll t f)" "list_all (op_keeps I) ops" "list_all (event_keeps I) evs"
  shows "I (k_app (m_kernel m))"
  using exec_all_keeps [OF boot_keeps [OF assms(1,3,5)] assms(6,2,4)] by (simp add: machine_keeps_def)

section \<open>Tasks that share an async mutex\<close>

text \<open>
  \<open>get\<close> is the mutex in the shared memory.  A program uses it properly if each of its accesses
  leaves it alone or is one critical section of the mutex.
\<close>

definition mutex_call :: "(nat, 'v) vec_api \<Rightarrow> ('a, 'v) mutex_sys \<Rightarrow> ('a, 'v) mutex_sys \<Rightarrow> bool" where
  "mutex_call V s s' \<longleftrightarrow> s' = s \<or> (\<exists>ev. mutex_exec V ev s = Some (Inr s'))"

primrec prog_uses ::
  "(nat, 'v) vec_api \<Rightarrow> ('g \<Rightarrow> ('a, 'v) mutex_sys) \<Rightarrow> ('f, 'o, 'g) prog \<Rightarrow> bool" where
  "prog_uses V get (Ready out) = True"
| "prog_uses V get (Pending f) = True"
| "prog_uses V get (Wake w p) = prog_uses V get p"
| "prog_uses V get (Spawn t f prio c) = (\<forall>ok. prog_uses V get (c ok))"
| "prog_uses V get (Join t c) = (\<forall>r. prog_uses V get (c r))"
| "prog_uses V get (Access u c) = (\<forall>g. mutex_call V (get g) (get (u g)) \<and> prog_uses V get (c g))"

lemma mutex_call_reachable: "mutex_call V s s' \<Longrightarrow> mutex_reachable V s \<Longrightarrow> mutex_reachable V s'"
  unfolding mutex_call_def by (elim disjE exE) (simp, rule mutex_reach_step)

lemma prog_uses_keeps:
  "prog_uses V get p \<Longrightarrow> prog_keeps (\<lambda>g. mutex_reachable V (get g)) p"
proof (induction p)
  case (Access u c)
  then show ?case using mutex_call_reachable unfolding prog_uses.simps prog_keeps.simps by blast
qed simp_all

text \<open>Handlers may do anything but use the mutex.\<close>

primrec op_leaves :: "('g \<Rightarrow> 'm) \<Rightarrow> ('f, 'g) isr_op \<Rightarrow> bool" where
  "op_leaves get (IsrWake w) = True"
| "op_leaves get (IsrSpawn t f p) = True"
| "op_leaves get (IsrAccess u c) = (\<forall>g. get (u g) = get g \<and> list_all id (map (op_leaves get) (c g)))"

lemma op_leaves_keeps: "op_leaves get op \<Longrightarrow> op_keeps (\<lambda>g. P (get g)) op"
proof (induction op)
  case (IsrAccess u c)
  have leaves: "get (u g) = get g" "\<forall>op\<in>set (c g). op_leaves get op" for g
    using IsrAccess.prems by (simp_all add: list.pred_set)
  have "op_keeps (\<lambda>g. P (get g)) op" if "op \<in> set (c g)" for op g
    using IsrAccess.IH [OF rangeI that] leaves(2) that by blast
  then show ?case using leaves(1) by (simp add: list.pred_set)
qed simp_all

fun event_leaves :: "('g \<Rightarrow> 'm) \<Rightarrow> ('f, 'g) event \<Rightarrow> bool" where
  "event_leaves get (TakeIsr ops) = list_all (op_leaves get) ops"
| "event_leaves get (TakeMsi ops) = list_all (op_leaves get) ops"
| "event_leaves get ev = True"

lemma event_leaves_keeps: "event_leaves get ev \<Longrightarrow> event_keeps (\<lambda>g. P (get g)) ev"
  by (cases ev) (auto simp: op_leaves_keeps list.pred_set)

text \<open>
  C31. Mutual exclusion on the machine: tasks of any priorities that preempt each other and share
  a mutex never hold two guards at once, a guard is alive exactly if the mutex is locked, and no
  waiter pointer dangles.
\<close>

theorem mutex_exclusive_on_machine:
  assumes "bounded_vec W N" "boot_machine V L dev n g ops = Inr m0" "exec_all V L fpoll evs m0 = Some (Inr m)"
    and "get g = mutex_start W value" "\<forall>t f. prog_uses W get (fpoll t f)"
    and "list_all (op_leaves get) ops" "list_all (event_leaves get) evs"
  shows "ms_guards (get (k_app (m_kernel m))) = (if mi_locked (ms_inner (get (k_app (m_kernel m)))) then 1 else 0)
    \<and> list_all (waiter_ok (ms_futures (get (k_app (m_kernel m)))))
        (vec_items W (mi_waiters (ms_inner (get (k_app (m_kernel m))))))"
proof -
  let ?I = "\<lambda>g. mutex_reachable W (get g)"
  have ops: "list_all (op_keeps ?I) ops" and evs: "list_all (event_keeps ?I) evs"
    using assms(6,7) by (simp_all add: list.pred_set op_leaves_keeps event_leaves_keeps)
  have "?I g" by (simp add: assms(4) mutex_reach_start)
  moreover have "\<forall>t f. prog_keeps ?I (fpoll t f)" using assms(5) prog_uses_keeps by blast
  ultimately have "?I (k_app (m_kernel m))"
    using shared_memory_invariant [OF assms(2,3), of ?I] ops evs by blast
  from mutex_reachable_inv [OF assms(1) this] show ?thesis by (simp add: mutex_inv_def list.pred_set)
qed

end
