(* ===== verification/TestApps.thy ===== *)
theory TestApps
  imports SharedState
begin

text \<open>
  The integration tests of \<open>apps/test/src/bin\<close> as programs of the machine, and the runs that
  \<open>make test\<close> performs.  A task is a program counter (the suspension point of its \<open>async fn\<close>); its
  statics are the record \<open>statics\<close>.  An interrupt is taken as soon as it is pending and enabled,
  which is what the hardware does when nothing else interrupts.
\<close>

section \<open>The common part of the tests\<close>

record statics =
  st_log :: "string list"
  st_log_len :: nat
  st_results :: "nat list"
  st_mutex :: "(nat, nat list) mutex_sys"
  st_failed :: bool
  st_shutdown :: bool

definition LOG_CAP :: nat where
  "LOG_CAP = 32"

definition statics_new :: "nat \<Rightarrow> statics" where
  "statics_new cap = \<lparr>st_log = replicate LOG_CAP [], st_log_len = 0, st_results = [0, 0, 0, 0],
     st_mutex = mutex_start (list_vec cap) 0, st_failed = False, st_shutdown = False\<rparr>"

definition record_event :: "string \<Rightarrow> statics \<Rightarrow> statics" where
  "record_event s g =
     (let idx = st_log_len g; g' = g\<lparr>st_log_len := idx + 1\<rparr> in
      if idx < LOG_CAP then g'\<lparr>st_log := (st_log g)[idx := s]\<rparr> else g')"

definition fail_test :: "statics \<Rightarrow> statics" where
  "fail_test g = g\<lparr>st_failed := True\<rparr>"

definition assert_log :: "string list \<Rightarrow> statics \<Rightarrow> statics" where
  "assert_log expected g =
     (if st_log_len g \<noteq> length expected then fail_test g
      else if take (length expected) (st_log g) \<noteq> expected then fail_test g
      else g)"

definition shutdown :: "statics \<Rightarrow> statics" where
  "shutdown g = (if st_failed g then g else g\<lparr>st_shutdown := True\<rparr>)"

section \<open>Statements of a task\<close>

type_synonym task_prog = "(nat, nat, statics) prog"

definition do_record :: "string \<Rightarrow> task_prog \<Rightarrow> task_prog" where
  "do_record s p = Access (record_event s) (\<lambda>g. p)"

text \<open>A failed \<open>unwrap\<close> or \<open>test::fail\<close> ends in a loop; the task goes no further.\<close>

definition do_fail :: task_prog where
  "do_fail = Access fail_test (\<lambda>g. Pending 99)"

definition do_spawn :: "tid \<Rightarrow> priority \<Rightarrow> task_prog \<Rightarrow> task_prog" where
  "do_spawn t p c = Spawn t 0 p (\<lambda>ok. if ok then c else do_fail)"

definition do_finish :: "string list \<Rightarrow> task_prog" where
  "do_finish expected = Access (assert_log expected) (\<lambda>g. Access shutdown (\<lambda>g. Ready 0))"

section \<open>Runs\<close>

text \<open>
  The software interrupt is taken when it is pending and enabled; \<open>hook\<close> is what the application's
  own \<open>MachineSoft\<close> does.
\<close>

definition take_msi ::
  "('f, 'g) isr_op list \<Rightarrow> ('f, 'o, 'q, 's, 'g) machine \<Rightarrow> ('f, 'g) event" where
  "take_msi hook m =
     (case m_stack m of
        [] \<Rightarrow> Step
      | fr # rest \<Rightarrow> if frame_mie fr \<and> k_msip (m_kernel m) then TakeMsi hook else Step)"

text \<open>Before \<open>platform::start\<close> no interrupt is taken.\<close>

definition no_irqs :: "('f, 'o, 'q, 's, 'g) machine \<Rightarrow> ('f, 'g) event" where
  "no_irqs m = Step"

fun run_app ::
  "(priority, 's) vec_api \<Rightarrow> (tid, 'q) list_api \<Rightarrow> (tid \<Rightarrow> 'f \<Rightarrow> ('f, 'o, 'g) prog) \<Rightarrow>
   (('f, 'o, 'q, 's, 'g) machine \<Rightarrow> ('f, 'g) event) \<Rightarrow> (('f, 'o, 'q, 's, 'g) machine \<Rightarrow> bool) \<Rightarrow> nat \<Rightarrow>
   ('f, 'o, 'q, 's, 'g) machine \<Rightarrow> ('f, 'o, 'q, 's, 'g) machine option" where
  "run_app V L fpoll next stop 0 m = (if stop m then Some m else None)"
| "run_app V L fpoll next stop (Suc fuel) m =
     (if stop m then Some m
      else case exec V L fpoll (next m) m of
             Some (Inr m') \<Rightarrow> run_app V L fpoll next stop fuel m'
           | _ \<Rightarrow> None)"

definition idle :: "('f, 'o, 'q, 's, 'g) machine \<Rightarrow> bool" where
  "idle m \<longleftrightarrow> (case m_stack m of [FIdle] \<Rightarrow> True | _ \<Rightarrow> False)"

definition returned :: "('f, 'o, 'q, 's, 'g) machine \<Rightarrow> bool" where
  "returned m \<longleftrightarrow> m_stack m = []"

text \<open>Up to the end of the spawns in \<open>main\<close>.\<close>

definition app_spawned ::
  "(tid \<Rightarrow> nat \<Rightarrow> task_prog) \<Rightarrow> nat \<Rightarrow> (nat, statics) isr_op list \<Rightarrow>
   (nat, nat, tid list, priority list, statics) machine option" where
  "app_spawned fpoll cap ops =
     (case boot_machine (list_vec 4) list_list (ClintMsip True) 4 (statics_new cap) ops of
        Inl e \<Rightarrow> None
      | Inr m \<Rightarrow> run_app (list_vec 4) list_list fpoll no_irqs idle 400 m)"

text \<open>
  The \<open>main\<close> of a test, \<open>ops\<close> being its spawns.  Two kinds of tests.  In one, \<open>main\<close> runs the loop \<open>while let Some(rt) = try_preempt() { run;
  complete_executor }\<close> itself, before interrupts are enabled, then checks the log and shuts
  down.  In the other it returns, \<open>platform::start\<close> enables interrupts, and a task does that.
\<close>

definition drained ::
  "(tid \<Rightarrow> nat \<Rightarrow> task_prog) \<Rightarrow> nat \<Rightarrow> (nat, statics) isr_op list \<Rightarrow> string list \<Rightarrow> statics option" where
  "drained fpoll cap ops expected =
     (case app_spawned fpoll cap ops of
        None \<Rightarrow> None
      | Some m \<Rightarrow> map_option (\<lambda>m. shutdown (assert_log expected (k_app (m_kernel m))))
          (run_app (list_vec 4) list_list fpoll no_irqs returned 400 (m\<lparr>m_stack := [FSched]\<rparr>)))"

definition preempted ::
  "(tid \<Rightarrow> nat \<Rightarrow> task_prog) \<Rightarrow> nat \<Rightarrow> (nat, statics) isr_op list \<Rightarrow> statics option" where
  "preempted fpoll cap ops =
     (case app_spawned fpoll cap ops of
        None \<Rightarrow> None
      | Some m \<Rightarrow> map_option (\<lambda>m. k_app (m_kernel m))
          (run_app (list_vec 4) list_list fpoll (take_msi []) (\<lambda>m. st_shutdown (k_app (m_kernel m))) 400 m))"

definition passes :: "statics option \<Rightarrow> bool" where
  "passes r \<longleftrightarrow> (case r of None \<Rightarrow> False | Some g \<Rightarrow> st_shutdown g \<and> \<not> st_failed g)"

section \<open>Tests of the order of tasks\<close>

definition single_task :: "tid \<Rightarrow> nat \<Rightarrow> task_prog" where
  "single_task t f = do_record ''a'' (Ready 0)"

definition fifo_same_prio :: "tid \<Rightarrow> nat \<Rightarrow> task_prog" where
  "fifo_same_prio t f = do_record (if t = 0 then ''a'' else if t = 1 then ''b'' else ''c'') (Ready 0)"

definition priority_order :: "tid \<Rightarrow> nat \<Rightarrow> task_prog" where
  "priority_order t f =
     do_record (if t = 0 then ''low'' else if t = 1 then ''mid'' else ''high'') (Ready 0)"

definition yield_interleave :: "tid \<Rightarrow> nat \<Rightarrow> task_prog" where
  "yield_interleave t f =
     (let label = if t = 0 then ''a'' else ''b'' in
      if f = 0 then do_record label (Wake t (Pending 1)) else do_record label (Ready 0))"

definition preempt_spawn :: "tid \<Rightarrow> nat \<Rightarrow> task_prog" where
  "preempt_spawn t f =
     (if t = 0 then
        do_record ''low_start'' (do_spawn 1 (Priority 0) (do_record ''low_end''
          (do_finish [''low_start'', ''high'', ''low_end''])))
      else do_record ''high'' (Ready 0))"

definition preempt_spawn_chain :: "tid \<Rightarrow> nat \<Rightarrow> task_prog" where
  "preempt_spawn_chain t f =
     (if t = 0 then
        do_record ''low_start'' (do_spawn 1 (Priority 0) (do_record ''low_end''
          (do_finish [''low_start'', ''high'', ''mid'', ''low_end''])))
      else if t = 1 then do_record ''high'' (do_spawn 2 (Priority 1) (Ready 0))
      else do_record ''mid'' (Ready 0))"

definition nested_preempt :: "tid \<Rightarrow> nat \<Rightarrow> task_prog" where
  "nested_preempt t f =
     (if t = 0 then
        do_record ''low_start'' (do_spawn 1 (Priority 1) (do_record ''low_end''
          (do_finish [''low_start'', ''mid_start'', ''high'', ''mid_end'', ''low_end''])))
      else if t = 1 then
        do_record ''mid_start'' (do_spawn 2 (Priority 0) (do_record ''mid_end'' (Ready 0)))
      else do_record ''high'' (Ready 0))"

definition single_task_main :: "statics option" where
  "single_task_main = drained single_task 0 [IsrSpawn 0 0 (Priority 0)] [''a'']"

lemma single_task_passes: "passes single_task_main"
  by code_simp

definition fifo_same_prio_main :: "statics option" where
  "fifo_same_prio_main = drained fifo_same_prio 0
     [IsrSpawn 0 0 (Priority 0), IsrSpawn 1 0 (Priority 0), IsrSpawn 2 0 (Priority 0)] [''a'',
      ''b'', ''c'']"

lemma fifo_passes: "passes fifo_same_prio_main"
  by code_simp

definition priority_order_main :: "statics option" where
  "priority_order_main = drained priority_order 0
     [IsrSpawn 0 0 (Priority 2), IsrSpawn 1 0 (Priority 1),
      IsrSpawn 2 0 (Priority 0)] [''high'', ''mid'', ''low'']"

lemma priority_order_passes: "passes priority_order_main"
  by code_simp

definition yield_interleave_main :: "statics option" where
  "yield_interleave_main = drained yield_interleave 0
     [IsrSpawn 0 0 (Priority 0), IsrSpawn 1 0 (Priority 0)] [''a'', ''b'', ''a'', ''b'']"

lemma yield_passes: "passes yield_interleave_main"
  by code_simp

definition preempt_spawn_main :: "statics option" where
  "preempt_spawn_main = preempted preempt_spawn 0 [IsrSpawn 0 0 (Priority 2)]"

lemma preempt_spawn_passes: "passes preempt_spawn_main"
  by code_simp

definition preempt_spawn_chain_main :: "statics option" where
  "preempt_spawn_chain_main = preempted preempt_spawn_chain 0 [IsrSpawn 0 0 (Priority 2)]"

lemma preempt_chain_passes: "passes preempt_spawn_chain_main"
  by code_simp

definition nested_preempt_main :: "statics option" where
  "nested_preempt_main = preempted nested_preempt 0 [IsrSpawn 0 0 (Priority 2)]"

lemma nested_preempt_passes: "passes nested_preempt_main"
  by code_simp

section \<open>Join handles\<close>

definition do_result :: "nat \<Rightarrow> nat \<Rightarrow> task_prog \<Rightarrow> task_prog" where
  "do_result i v p = Access (\<lambda>g. g\<lparr>st_results := (st_results g)[i := v]\<rparr>) (\<lambda>g. p)"

definition do_await :: "tid \<Rightarrow> nat \<Rightarrow> (nat \<Rightarrow> task_prog) \<Rightarrow> task_prog" where
  "do_await t pc c = Join t (\<lambda>r. case r of None \<Rightarrow> Pending pc | Some v \<Rightarrow> c v)"

text \<open>The four segments of \<open>test_join\<close> after its four awaits, last first.\<close>

definition join_log :: "string list" where
  "join_log = [''s1'', ''w_low'', ''s1_done'', ''s2'', ''w_high'', ''s2_done'', ''s3'', ''w_high2'',
     ''s3_mid'', ''w_low2'', ''s3_done'']"

definition after_h4 :: "nat \<Rightarrow> task_prog" where
  "after_h4 v = do_result 3 v (do_record ''s3_done'' (Access (assert_log join_log) (\<lambda>g. Access
     (\<lambda>g. if st_results g = [42, 7, 10, 20] then g else fail_test g) (\<lambda>g. Access shutdown (\<lambda>g. Ready 0)))))"

definition after_h3 :: "nat \<Rightarrow> task_prog" where
  "after_h3 v = do_result 2 v (do_record ''s3_mid'' (do_await 4 4 after_h4))"

definition after_h2 :: "nat \<Rightarrow> task_prog" where
  "after_h2 v = do_result 1 v (do_record ''s2_done'' (do_record ''s3''
     (do_spawn 3 (Priority 0) (do_spawn 4 (Priority 2) (do_await 3 3 after_h3)))))"

definition after_h1 :: "nat \<Rightarrow> task_prog" where
  "after_h1 v = do_result 0 v (do_record ''s1_done'' (do_record ''s2''
     (do_spawn 2 (Priority 0) (do_await 2 2 after_h2))))"

definition join_handle_test :: "tid \<Rightarrow> nat \<Rightarrow> task_prog" where
  "join_handle_test t f =
     (if t = 0 then
        (if f = 0 then do_record ''s1'' (do_spawn 1 (Priority 2) (do_await 1 1 after_h1))
         else if f = 1 then do_await 1 1 after_h1
         else if f = 2 then do_await 2 2 after_h2
         else if f = 3 then do_await 3 3 after_h3
         else do_await 4 4 after_h4)
      else if t = 1 then do_record ''w_low'' (Ready 42)
      else if t = 2 then do_record ''w_high'' (Ready 7)
      else if t = 3 then do_record ''w_high2'' (Ready 10)
      else do_record ''w_low2'' (Ready 20))"

definition join_handle_main :: "statics option" where
  "join_handle_main = preempted join_handle_test 0 [IsrSpawn 0 0 (Priority 1)]"

lemma join_handle_passes: "passes join_handle_main"
  by code_simp

section \<open>The mutex\<close>

text \<open>
  \<open>DATA.lock().await\<close> in a task: the lock future lives at the address \<open>t\<close>, it is created by
  \<open>lock\<close>, polled, dropped when it is ready, and polled again at the suspension point \<open>pc\<close>
  otherwise.  A call of the mutex that panics is \<open>do_fail\<close>.
\<close>

definition on_mutex :: "nat \<Rightarrow> nat mutex_event \<Rightarrow> statics \<Rightarrow> statics" where
  "on_mutex cap ev g =
     (case mutex_exec (list_vec cap) ev (st_mutex g) of
        Some (Inr s) \<Rightarrow> g\<lparr>st_mutex := s\<rparr>
      | _ \<Rightarrow> g)"

definition do_poll_lock :: "nat \<Rightarrow> tid \<Rightarrow> nat \<Rightarrow> task_prog \<Rightarrow> task_prog" where
  "do_poll_lock cap t pc c = Access (on_mutex cap (PollLock t (waker_from_task t))) (\<lambda>g.
     case mutex_exec (list_vec cap) (PollLock t (waker_from_task t)) (st_mutex g) of
       Some (Inr s) \<Rightarrow>
         if ms_guards s = ms_guards (st_mutex g) then Pending pc
         else Access (on_mutex cap (DropLock t)) (\<lambda>g. c)
     | _ \<Rightarrow> do_fail)"

definition do_lock :: "nat \<Rightarrow> tid \<Rightarrow> nat \<Rightarrow> task_prog \<Rightarrow> task_prog" where
  "do_lock cap t pc c = Access (on_mutex cap (Lock t)) (\<lambda>g. do_poll_lock cap t pc c)"

definition do_mutate :: "nat \<Rightarrow> (nat \<Rightarrow> nat) \<Rightarrow> task_prog \<Rightarrow> task_prog" where
  "do_mutate cap h c = Access (on_mutex cap (Mutate h)) (\<lambda>g. c)"

definition do_check :: "nat \<Rightarrow> task_prog \<Rightarrow> task_prog" where
  "do_check v c = Access id (\<lambda>g. if guard_deref (ms_inner (st_mutex g)) \<noteq> v then do_fail else c)"

text \<open>
  Dropping the guard: the waker is woken after the critical section of the drop here, and inside
  it in the code, so the model allows an interrupt in between that the code does not.
\<close>

definition do_unlock :: "nat \<Rightarrow> task_prog \<Rightarrow> task_prog" where
  "do_unlock cap c = Access (on_mutex cap DropGuard) (\<lambda>g.
     case guard_drop (list_vec cap) (ms_futures (st_mutex g)) (ms_inner (st_mutex g)) of
       Inr (Some w, inner) \<Rightarrow> Wake w c
     | Inr (None, inner) \<Rightarrow> c
     | Inl e \<Rightarrow> do_fail)"

definition at_lock :: "nat \<Rightarrow> tid \<Rightarrow> nat \<Rightarrow> task_prog \<Rightarrow> task_prog" where
  "at_lock cap t f c = (if f = 0 then do_lock cap t 1 c else do_poll_lock cap t 1 c)"

definition mutex_test :: "tid \<Rightarrow> nat \<Rightarrow> task_prog" where
  "mutex_test t f =
     (if t = 0 then
        at_lock 2 0 f (do_record ''w_lock'' (do_mutate 2 (\<lambda>v. v + 1) (do_record ''w_unlock''
          (do_unlock 2 (Ready 0)))))
      else
        at_lock 2 1 f (do_record ''r_lock'' (do_unlock 2 (do_record ''r_done'' (Ready 0)))))"

definition mutex_priority :: "tid \<Rightarrow> nat \<Rightarrow> task_prog" where
  "mutex_priority t f =
     (if t = 0 then at_lock 2 0 f (do_check 42 (do_record ''ok'' (do_unlock 2 (Ready 0))))
      else at_lock 2 1 f (do_mutate 2 (\<lambda>v. 42) (do_unlock 2 (Ready 0))))"

definition mutex_contention :: "tid \<Rightarrow> nat \<Rightarrow> task_prog" where
  "mutex_contention t f =
     (if t = 0 then
        (if f = 2 then do_unlock 3 (Ready 0)
         else at_lock 3 0 f (do_mutate 3 (\<lambda>v. 10) (Wake 0 (Pending 2))))
      else if t = 1 then at_lock 3 1 f (do_mutate 3 (\<lambda>v. v + 1) (do_unlock 3 (Ready 0)))
      else at_lock 3 2 f (do_check 11 (do_record ''ok'' (do_unlock 3 (Ready 0)))))"

definition mutex_main :: "statics option" where
  "mutex_main = drained mutex_test 2
     [IsrSpawn 0 0 (Priority 0), IsrSpawn 1 0 (Priority 0)] [''w_lock'', ''w_unlock'',
      ''r_lock'', ''r_done'']"

lemma mutex_passes: "passes mutex_main"
  by code_simp

definition mutex_priority_main :: "statics option" where
  "mutex_priority_main = drained mutex_priority 2 [IsrSpawn 0 0 (Priority 1), IsrSpawn 1 0 (Priority 0)] [''ok'']"

lemma mutex_priority_passes: "passes mutex_priority_main"
  by code_simp

definition mutex_contention_main :: "statics option" where
  "mutex_contention_main = drained mutex_contention 3
     [IsrSpawn 0 0 (Priority 0), IsrSpawn 1 0 (Priority 0), IsrSpawn 2 0 (Priority 0)] [''ok'']"

lemma mutex_contention_passes: "passes mutex_contention_main"
  by code_simp

text \<open>
  The integration tests pass: each program of \<open>apps/test\<close> that needs no device but the
  software interrupt comes to its \<open>shutdown\<close>, with the log that it asserts.
\<close>

theorem integration_tests_pass:
  "passes single_task_main
   \<and> passes fifo_same_prio_main
   \<and> passes priority_order_main
   \<and> passes yield_interleave_main
   \<and> passes preempt_spawn_main
   \<and> passes preempt_spawn_chain_main
   \<and> passes nested_preempt_main
   \<and> passes join_handle_main
   \<and> passes mutex_main
   \<and> passes mutex_priority_main
   \<and> passes mutex_contention_main"
  by (intro conjI single_task_passes fifo_passes priority_order_passes yield_passes preempt_spawn_passes
      preempt_chain_passes nested_preempt_passes join_handle_passes mutex_passes mutex_priority_passes mutex_contention_passes)

end
