(* ===== verification/MutexTasks.thy ===== *)
theory MutexTasks
  imports TestApps
begin

text \<open>
  Tasks that share the mutex on the machine: the properties of \<open>SharedState\<close> on the programs of
  the tests, and a run in which a task waits for ever for a mutex that is free.
\<close>

section \<open>The test programs use the mutex properly\<close>

lemma mutex_call_same [simp]: "mutex_call V s s"
  by (simp add: mutex_call_def)

lemma mutex_call_on [simp]: "mutex_call (list_vec cap) (st_mutex g) (st_mutex (on_mutex cap ev g))"
  by (auto simp: mutex_call_def on_mutex_def split: option.split sum.split)

lemma statics_mutex [simp]:
  "st_mutex (record_event s g) = st_mutex g" "st_mutex (fail_test g) = st_mutex g"
  "st_mutex (assert_log l g) = st_mutex g" "st_mutex (shutdown g) = st_mutex g"
  by (simp_all add: record_event_def fail_test_def assert_log_def shutdown_def Let_def)

abbreviation uses :: "nat \<Rightarrow> task_prog \<Rightarrow> bool" where
  "uses cap \<equiv> prog_uses (list_vec cap) st_mutex"

lemma uses_basic [simp]:
  "uses cap (do_record s p) = uses cap p" "uses cap do_fail" "uses cap (do_mutate cap h p) = uses cap p"
  by (simp_all add: do_record_def do_fail_def do_mutate_def)

lemma uses_check [simp]: "uses cap p \<Longrightarrow> uses cap (do_check v p)"
  by (simp add: do_check_def)

lemma uses_unlock [simp]: "uses cap p \<Longrightarrow> uses cap (do_unlock cap p)"
  by (simp add: do_unlock_def split: sum.splits option.splits prod.splits)

lemma uses_poll [simp]: "uses cap p \<Longrightarrow> uses cap (do_poll_lock cap t pc p)"
  by (simp add: do_poll_lock_def split: sum.splits option.splits)

lemma uses_at_lock [simp]: "uses cap p \<Longrightarrow> uses cap (at_lock cap t f p)"
  by (simp add: at_lock_def do_lock_def)

lemma contention_uses: "uses 3 (mutex_contention t f)"
  by (simp add: mutex_contention_def)

definition contention_ops :: "(nat, statics) isr_op list" where
  "contention_ops = [IsrSpawn 0 0 (Priority 0), IsrSpawn 1 0 (Priority 0), IsrSpawn 2 0 (Priority 0)]"

definition contention_run :: "(nat, statics) event list" where
  "contention_run = replicate 13 Step @ TakeMsi [] # replicate 26 Step"

theorem mutex_exclusive_on_machine_witness:
  "\<exists>m. plain_run mutex_contention 4 (statics_new 3) contention_ops contention_run = Some (Inr m)
     \<and> mi_waiters (ms_inner (st_mutex (k_app (m_kernel m)))) = [1, 2]
     \<and> ms_guards (st_mutex (k_app (m_kernel m))) = 1 \<and> mi_locked (ms_inner (st_mutex (k_app (m_kernel m))))
     \<and> waiter_ok (ms_futures (st_mutex (k_app (m_kernel m)))) 2"
proof -
  have "ends_in (\<lambda>m. mi_waiters (ms_inner (st_mutex (k_app (m_kernel m)))) = [1, 2]
      \<and> mi_locked (ms_inner (st_mutex (k_app (m_kernel m)))))
    (plain_run mutex_contention 4 (statics_new 3) contention_ops contention_run)" by code_simp
  then obtain m0 m where m: "boot_machine (list_vec 4) list_list (ClintMsip True) 4 (statics_new 3) contention_ops = Inr m0"
      "exec_all (list_vec 4) list_list mutex_contention contention_run m0 = Some (Inr m)"
      "mi_waiters (ms_inner (st_mutex (k_app (m_kernel m)))) = [1, 2]"
      "mi_locked (ms_inner (st_mutex (k_app (m_kernel m))))"
    by (auto simp: ends_in_def plain_run_def split: option.splits sum.splits)
  have "list_all (op_leaves st_mutex) contention_ops" by (simp add: contention_ops_def)
  moreover have "list_all (event_leaves st_mutex) contention_run"
    by (simp add: contention_run_def list.pred_set)
  moreover have "\<forall>t f. uses 3 (mutex_contention t f)" by (simp add: contention_uses)
  moreover have "st_mutex (statics_new 3) = mutex_start (list_vec 3) 0" by (simp add: statics_new_def)
  ultimately show ?thesis
    using mutex_exclusive_on_machine [OF list_vec_bounded m(1,2), of st_mutex 3 0] m
    by (simp add: plain_run_def list_vec_def)
qed

section \<open>A task that waits for ever\<close>

text \<open>
  Tasks 0 and 1 run at priority 1, task 2 at priority 0.  Task 0 takes the lock, yields, and
  releases it; task 1 just takes and releases it.  Task 2 takes it and waits for an interrupt
  while it holds it.
\<close>

definition barging :: "tid \<Rightarrow> nat \<Rightarrow> task_prog" where
  "barging t f =
     (if t = 0 then (if f = 2 then do_unlock 4 (Ready 0) else at_lock 4 0 f (Wake 0 (Pending 2)))
      else if t = 1 then at_lock 4 1 f (do_unlock 4 (Ready 0))
      else (if f = 2 then do_unlock 4 (Ready 0) else at_lock 4 2 f (Pending 2)))"

definition barging_run :: "(nat, statics) event list" where
  "barging_run = replicate 9 Step @ TakeMsi [] # replicate 34 Step
     @ TakeIsr [IsrSpawn 2 0 (Priority 0)] # replicate 5 Step @ TakeMsi [] # replicate 60 Step
     @ TakeIsr [IsrWake 2] # replicate 7 Step @ TakeMsi [] # replicate 40 Step"

text \<open>
  A waiter can be starved for ever.  Dropping the guard takes task 1 out of the waiters and
  wakes it; before it runs, an interrupt spawns task 2 at a higher priority, which takes the lock.
  Task 1 finds it locked, but its \<open>queued\<close> is still set, so it does not queue again, and nobody
  wakes it when task 2 releases the lock: the run ends in the idle loop with the mutex free and
  task 1 waiting for it.
\<close>

theorem barging_starves_task:
  "ends_in (\<lambda>m. at_rest 2 m \<and> map (\<lambda>t. spawned (ti_state (k_tasks (m_kernel m) t))) [0, 1, 2] = [False, True, False]
       \<and> \<not> mi_locked (ms_inner (st_mutex (k_app (m_kernel m))))
       \<and> mi_waiters (ms_inner (st_mutex (k_app (m_kernel m)))) = []
       \<and> ms_futures (st_mutex (k_app (m_kernel m))) 1 \<noteq> None)
     (plain_run barging 2 (statics_new 4) [IsrSpawn 0 0 (Priority 1), IsrSpawn 1 0 (Priority 1)] barging_run)"
  by code_simp

end
