(* ===== verification/TimerTasks.thy ===== *)
theory TimerTasks
  imports TestApps DelayFuture
begin

text \<open>
  Delays on the machine: the timer interrupt handler runs on the interrupted stack, and the tasks
  whose delays are due are in their run queues when it returns; and the test program that only
  waits for delays.
\<close>

section \<open>A handler that wakes tasks\<close>

lemma exec_all_then:
  "exec_all V L fpoll evs m = Some (Inr m1) \<Longrightarrow> exec_all V L fpoll (evs @ evs') m = exec_all V L fpoll evs' m1"
  by (simp add: exec_all_append)

lemma steps_append:
  assumes "exec_all V L fpoll (replicate i Step) m = Some (Inr m1)" "exec_all V L fpoll (replicate j Step) m1 = Some (Inr m2)"
  shows "exec_all V L fpoll (replicate (i + j) Step) m = Some (Inr m2)"
  using exec_all_then [OF assms(1), of "replicate j Step"] assms(2) by (simp add: replicate_add)

lemma irq_stages:
  assumes "run_stages V L j st k = Inr (None, k')"
  shows "\<exists>i\<le>j. exec_all V L fpoll (replicate i Step) \<lparr>m_kernel = k, m_stack = FIrq kind ops st # rest\<rparr>
    = Some (Inr \<lparr>m_kernel = k', m_stack = FIrq kind ops None # rest\<rparr>)"
  using assms
proof (induction V L j st k rule: run_stages.induct)
  case (3 V L j st k)
  then obtain st' k1 where st': "step_stage V L st k = Inr (st', k1)" "run_stages V L j st' k1 = Inr (None, k')"
    by (auto simp: rbind_Inr_iff)
  then obtain i where "i \<le> j" "exec_all V L fpoll (replicate i Step) \<lparr>m_kernel = k1, m_stack = FIrq kind ops st' # rest\<rparr>
      = Some (Inr \<lparr>m_kernel = k', m_stack = FIrq kind ops None # rest\<rparr>)"
    using "3.IH" by blast
  then show ?case using st'(1) by (intro exI [of _ "Suc i"]) simp
qed (auto intro: exI [of _ 0])

lemma handler_wake:
  assumes "wake_task L w k = Inr k'"
  shows "\<exists>i\<le>6. exec_all V L fpoll (replicate i Step) \<lparr>m_kernel = k, m_stack = FIrq kind (IsrWake w # ops) None # rest\<rparr>
    = Some (Inr \<lparr>m_kernel = k', m_stack = FIrq kind ops None # rest\<rparr>)"
proof -
  have "run_stages V L 5 (Some (W_Load w)) k = Inr (None, k')" using assms by (simp add: wake_steps)
  then obtain i where "i \<le> 5" "exec_all V L fpoll (replicate i Step)
      \<lparr>m_kernel = k, m_stack = FIrq kind ops (Some (W_Load w)) # rest\<rparr>
      = Some (Inr \<lparr>m_kernel = k', m_stack = FIrq kind ops None # rest\<rparr>)"
    using irq_stages by blast
  then show ?thesis by (intro exI [of _ "Suc i"]) simp
qed

text \<open>A wake clears no flag and changes no executor pointer.\<close>

lemma wake_task_keeps:
  assumes "wake_task L w k = Inr k'"
  shows "flagged k t \<longrightarrow> flagged k' t" "ti_executor_ptr (k_tasks k' t) = ti_executor_ptr (k_tasks k t)"
proof -
  have "(flagged k t \<longrightarrow> flagged k' t) \<and> ti_executor_ptr (k_tasks k' t) = ti_executor_ptr (k_tasks k t)"
  proof (cases "ti_executor_ptr (k_tasks k w)")
    case None
    then show ?thesis using assms by (simp add: wake_task_def)
  next
    case (Some e)
    let ?k = "put_state w (snd (state_run_enqueue (ti_state (k_tasks k w)))) k"
    consider "k' = ?k" | k2 where "enqueue_locked L e w ?k = Inr k2" "pend k2 = Inr k'"
      using assms Some
      by (auto simp: wake_task_def executor_enqueue_eq fetch_enqueue_eq rbind_Inr_iff split: if_splits)
    then show ?thesis
    proof cases
      case 2
      then have "k_tasks k' = (k_tasks ?k)(w := (k_tasks ?k w)\<lparr>ti_executor_ptr := Some e\<rparr>)"
        using enqueue_locked_tasks pend_tasks by metis
      then show ?thesis using Some by (simp add: flagged_def)
    qed simp
  qed
  then show "flagged k t \<longrightarrow> flagged k' t" "ti_executor_ptr (k_tasks k' t) = ti_executor_ptr (k_tasks k t)"
    by simp_all
qed

lemma handler_wakes_all:
  assumes rt: "bounded_vec V n" "intrusive_list L" and "reachable V L fpoll n m"
    and "m_stack m = FIrq KIsr (map IsrWake ws) None # rest"
  shows "\<exists>j m'. exec_all V L fpoll (replicate j Step) m = Some (Inr m') \<and> m_stack m' = rest
    \<and> k_app (m_kernel m') = k_app (m_kernel m)
    \<and> (\<forall>t. flagged (m_kernel m) t \<longrightarrow> flagged (m_kernel m') t)
    \<and> (\<forall>w\<in>set ws. ti_executor_ptr (k_tasks (m_kernel m) w) \<noteq> None \<longrightarrow> flagged (m_kernel m') w)"
  using assms(3,4)
proof (induction ws arbitrary: m)
  case Nil
  then show ?case by (intro exI [of _ 1] exI [of _ "m\<lparr>m_stack := rest\<rparr>"]) simp
next
  case (Cons w ws)
  let ?m = "\<lambda>k. \<lparr>m_kernel = k, m_stack = FIrq KIsr (map IsrWake ws) None # rest\<rparr>"
  note I = sched_invD [OF inv_of [OF rt Cons.prems(1)]]
  obtain k1 where k1: "wake_task L w (m_kernel m) = Inr k1" "wake_effect L w (m_kernel m) k1"
    using wake_task_ok [OF rt I(1,3,5)] by blast
  have "m = \<lparr>m_kernel = m_kernel m, m_stack = FIrq KIsr (IsrWake w # map IsrWake ws) None # rest\<rparr>"
    using Cons.prems(2) by simp
  then obtain i where i: "exec_all V L fpoll (replicate i Step) m = Some (Inr (?m k1))"
    using handler_wake [OF k1(1), of V fpoll KIsr "map IsrWake ws" rest] by metis
  obtain j m' where j: "exec_all V L fpoll (replicate j Step) (?m k1) = Some (Inr m')" "m_stack m' = rest"
      "k_app (m_kernel m') = k_app k1" "\<forall>t. flagged k1 t \<longrightarrow> flagged (m_kernel m') t"
      "\<forall>w\<in>set ws. ti_executor_ptr (k_tasks k1 w) \<noteq> None \<longrightarrow> flagged (m_kernel m') w"
    using Cons.IH [OF exec_all_reachable [OF i Cons.prems(1)]] by auto
  have "flagged k1 w" if "ti_executor_ptr (k_tasks (m_kernel m) w) \<noteq> None"
    using k1(2) that by (auto simp: wake_effect_def flagged_def split: option.splits)
  then show ?case
    using steps_append [OF i j(1)] j(2-5) app_wake [OF k1(1)] wake_task_keeps [OF k1(1)]
    by (intro exI [of _ "i + j"] exI [of _ m']) auto
qed

section \<open>The timer interrupt\<close>

text \<open>\<open>handle_timer_isr\<close> as a handler: \<open>get\<close> and \<open>put\<close> are the timer in the shared memory, \<open>now\<close>
  the tick counter at that moment.\<close>

definition timer_handler ::
  "'v entry_api \<Rightarrow> ('g \<Rightarrow> 'v timer_sys) \<Rightarrow> ('v timer_sys \<Rightarrow> 'g \<Rightarrow> 'g) \<Rightarrow> ('g \<Rightarrow> u64) \<Rightarrow> ('f, 'g) isr_op" where
  "timer_handler W get put now = IsrAccess
     (\<lambda>g. case handle_timer_isr W (now g) (get g) of Some (Inr (ws, s)) \<Rightarrow> put s g | _ \<Rightarrow> g)
     (\<lambda>g. case handle_timer_isr W (now g) (get g) of Some (Inr (ws, s)) \<Rightarrow> map IsrWake ws | _ \<Rightarrow> [])"

text \<open>
  The timer interrupt and the scheduler together: when the handler returns to the code it
  interrupted, every task whose delay was due and that has an executor is in a run queue, the
  timer is armed for the delays that are left, and nothing has panicked.
\<close>

theorem timer_interrupt_queues_due_tasks:
  assumes rt: "bounded_vec V n" "intrusive_list L" and m: "reachable V L fpoll n m"
    and fr: "m_stack m = fr # rest" "frame_mie fr"
    and W: "bounded_vec W N" "\<forall>s g. get (put s g) = s"
      "\<forall>x\<in>set (vec_items W (sys_queue (get (k_app (m_kernel m))))). entry_alive (sys_delays (get (k_app (m_kernel m)))) x"
  shows "\<exists>j m'. exec_all V L fpoll (TakeIsr [timer_handler W get put now] # replicate j Step) m = Some (Inr m')
    \<and> m_stack m' = m_stack m \<and> armed W (get (k_app (m_kernel m')))
    \<and> (\<forall>x\<in>set (vec_items W (sys_queue (get (k_app (m_kernel m))))).
         expired (now (k_app (m_kernel m))) x
           \<and> ti_executor_ptr (k_tasks (m_kernel m) (entry_waker (sys_delays (get (k_app (m_kernel m)))) x)) \<noteq> None
         \<longrightarrow> run_queued (ti_state (k_tasks (m_kernel m') (entry_waker (sys_delays (get (k_app (m_kernel m)))) x))))"
proof -
  let ?g = "k_app (m_kernel m)" let ?s = "get ?g" let ?D = "sys_delays ?s"
  obtain ws s' where isr: "handle_timer_isr W (now ?g) ?s = Some (Inr (ws, s'))" "armed W s'"
      "mset ws = image_mset (entry_waker ?D) (filter_mset (expired (now ?g)) (mset (vec_items W (sys_queue ?s))))"
    using deadline_queue.isr_fires [OF vec_deadline_queue [OF W(1)] W(3), of "now ?g"] by blast
  define m1 where "m1 = \<lparr>m_kernel = (m_kernel m)\<lparr>k_app := put s' ?g\<rparr>,
    m_stack = FIrq KIsr (map IsrWake ws) None # m_stack m\<rparr>"
  have m1: "exec_all V L fpoll [TakeIsr [timer_handler W get put now], Step] m = Some (Inr m1)"
    using fr isr(1) by (simp add: m1_def timer_handler_def)
  obtain j m' where j: "exec_all V L fpoll (replicate j Step) m1 = Some (Inr m')" "m_stack m' = m_stack m"
      "k_app (m_kernel m') = put s' ?g"
      "\<forall>w\<in>set ws. ti_executor_ptr (k_tasks (m_kernel m) w) \<noteq> None \<longrightarrow> flagged (m_kernel m') w"
    using handler_wakes_all [OF rt exec_all_reachable [OF m1 m], of ws "m_stack m"] by (auto simp: m1_def)
  have "entry_waker ?D x \<in> set ws" if "x \<in> set (vec_items W (sys_queue ?s))" "expired (now ?g) x" for x
    using that by (simp flip: set_mset_mset add: isr(3))
  then show ?thesis
    using exec_all_then [OF m1, of "replicate j Step"] j isr(2) W(2)
    by (intro exI [of _ "Suc j"] exI [of _ m']) (auto simp: flagged_def)
qed

section \<open>Programs that wait for delays\<close>

type_synonym timer_entries = "(timer_callback, nat) timer_entry list"

record timer_statics =
  tm_timer :: "timer_entries timer_sys"
  tm_now :: u64
  tm_events :: "(nat \<times> u64) list"
  tm_failed :: bool
  tm_shutdown :: bool

type_synonym timer_prog = "(nat, nat, timer_statics) prog"

definition TIMER_QUEUE :: "timer_entries entry_api" where
  "TIMER_QUEUE = list_vec 16"

definition timer_statics_new :: timer_statics where
  "timer_statics_new = \<lparr>tm_timer = \<lparr>sys_queue = queue_new TIMER_QUEUE, sys_compare = - 1, sys_delays = (\<lambda>a. None)\<rparr>,
     tm_now = 0, tm_events = [], tm_failed = False, tm_shutdown = False\<rparr>"

definition on_timer :: "(timer_entries timer_sys \<Rightarrow> timer_entries timer_sys) \<Rightarrow> timer_statics \<Rightarrow> timer_statics" where
  "on_timer h g = g\<lparr>tm_timer := h (tm_timer g)\<rparr>"

definition timer_fail :: timer_prog where
  "timer_fail = Access (\<lambda>g. g\<lparr>tm_failed := True\<rparr>) (\<lambda>g. Pending 99)"

text \<open>
  \<open>after(duration).await\<close> in a task: the delay lives at an address of its own.  Its poll is split
  where an interrupt may come: storing the waker and scheduling, programming the compare
  register, setting \<open>registered\<close>.
\<close>

definition do_poll_delay :: "nat \<Rightarrow> waker \<Rightarrow> nat \<Rightarrow> timer_prog \<Rightarrow> timer_prog" where
  "do_poll_delay a w pc c = Access id (\<lambda>g. case sys_delays (tm_timer g) a of
       None \<Rightarrow> timer_fail
     | Some d \<Rightarrow>
         if td_deadline d \<le> tm_now g then
           Access (on_timer (put_delay a (d\<lparr>td_registered := False\<rparr>))) (\<lambda>g.
             Access (on_timer (\<lambda>s. case delay_drop TIMER_QUEUE a s of Inl e \<Rightarrow> s | Inr s' \<Rightarrow> s')) (\<lambda>g.
               case delay_drop TIMER_QUEUE a (tm_timer g) of Inl e \<Rightarrow> timer_fail | Inr s \<Rightarrow> c))
         else if \<not> td_registered d then
           Access (on_timer (\<lambda>s. case delay_schedule TIMER_QUEUE a d w s of Inl e \<Rightarrow> s | Inr (b, s') \<Rightarrow> s')) (\<lambda>g.
             case delay_schedule TIMER_QUEUE a d w (tm_timer g) of
               Inl e \<Rightarrow> timer_fail
             | Inr (is_earliest, s) \<Rightarrow>
                 Access (on_timer (delay_arm is_earliest d)) (\<lambda>g.
                   Access (on_timer (delay_mark a d w)) (\<lambda>g. Pending pc)))
         else Pending pc)"

definition do_after :: "nat \<Rightarrow> waker \<Rightarrow> u64 \<Rightarrow> nat \<Rightarrow> timer_prog \<Rightarrow> timer_prog" where
  "do_after a w duration pc c = Access (\<lambda>g. on_timer (put_delay a (after 10000000 (tm_now g) duration)) g)
     (\<lambda>g. do_poll_delay a w pc c)"

definition do_note :: "nat \<Rightarrow> timer_prog \<Rightarrow> timer_prog" where
  "do_note i c = Access (\<lambda>g. g\<lparr>tm_events := tm_events g @ [(i, tm_now g)]\<rparr>) (\<lambda>g. c)"

definition do_shutdown :: timer_prog where
  "do_shutdown = Access (\<lambda>g. g\<lparr>tm_shutdown := \<not> tm_failed g\<rparr>) (\<lambda>g. Ready 0)"

text \<open>
  The \<open>async fn\<close> of \<open>apps/test/src/bin/timer_async.rs\<close>: \<open>n\<close> delays (three there, of a
  millisecond), each followed by a store to \<open>STEP\<close>, here noted with the tick at which it happens;
  then the shutdown.  \<open>f\<close> is the number of the await at which the task is suspended.
\<close>

primrec delays_then :: "nat \<Rightarrow> u64 \<Rightarrow> nat \<Rightarrow> timer_prog" where
  "delays_then 0 duration i = do_shutdown"
| "delays_then (Suc left) duration i =
     do_after i 0 duration (Suc i) (do_note (Suc i) (delays_then left duration (Suc i)))"

definition delay_task :: "nat \<Rightarrow> u64 \<Rightarrow> tid \<Rightarrow> nat \<Rightarrow> timer_prog" where
  "delay_task n duration t f =
     (if f = 0 then delays_then n duration 0
      else do_poll_delay (f - 1) 0 f (do_note f (delays_then (n - f) duration f)))"

text \<open>
  When there is nothing to do, time passes until the compare register, and the timer interrupt
  comes.
\<close>

definition timer_events :: "(nat, 'o, 'q, 's, timer_statics) machine \<Rightarrow> (nat, timer_statics) event" where
  "timer_events m =
     (let s = tm_timer (k_app (m_kernel m)) in
      if idle m \<and> \<not> k_msip (m_kernel m) \<and> sys_compare s \<noteq> - 1
      then TakeIsr [IsrAccess (\<lambda>g. g\<lparr>tm_now := max (tm_now g) (sys_compare (tm_timer g))\<rparr>) (\<lambda>g. []),
             timer_handler TIMER_QUEUE tm_timer (\<lambda>s g. g\<lparr>tm_timer := s\<rparr>) tm_now]
      else take_msi [] m)"

definition timer_run :: "(tid \<Rightarrow> nat \<Rightarrow> timer_prog) \<Rightarrow> timer_statics option" where
  "timer_run fpoll =
     (case boot_machine (list_vec 4) list_list (ClintMsip True) 4 timer_statics_new [IsrSpawn 0 0 (Priority 0)] of
        Inl e \<Rightarrow> None
      | Inr m \<Rightarrow> map_option (\<lambda>m. k_app (m_kernel m))
          (run_app (list_vec 4) list_list fpoll timer_events (\<lambda>m. tm_shutdown (k_app (m_kernel m))) 400 m))"

definition timer_ends :: "(nat \<times> u64) list \<Rightarrow> timer_statics option \<Rightarrow> bool" where
  "timer_ends events r \<longleftrightarrow> (case r of None \<Rightarrow> False
     | Some g \<Rightarrow> tm_shutdown g \<and> \<not> tm_failed g \<and> tm_events g = events \<and> sys_queue (tm_timer g) = []
         \<and> sys_compare (tm_timer g) = - 1)"

text \<open>
  The test of the async timer runs to its end, each await at the tick it should: three delays
  of a millisecond end after 10,000, 20,000 and 30,000 ticks of the board's 10 MHz timer, nothing is
  left in the timer queue, and the compare register is at its maximum again.
\<close>

lemma delay_program_ends_in_time:
  "timer_ends [(1, 10000), (2, 20000), (3, 30000)] (timer_run (delay_task 3 1000000))"
  by code_simp

text \<open>The task of that program waits for its first delay, in the idle loop.\<close>

definition waiting_run :: "(nat, timer_statics) event list" where
  "waiting_run = replicate 5 Step @ TakeMsi [] # replicate 30 Step"

lemma plain_run_obtain:
  assumes "ends_in P (plain_run fpoll n g ops evs)"
  obtains m where "P m" "reachable (list_vec n) list_list fpoll n m"
  using assms exec_all_reachable reach_boot
  by (fastforce simp: ends_in_def plain_run_def split: option.splits sum.splits)

theorem timer_interrupt_queues_due_tasks_witness:
  "\<exists>m m' evs. reachable (list_vec 4) list_list (delay_task 3 1000000) 4 m \<and> m_stack m = [FIdle]
     \<and> queue list_list (m_kernel m) 0 = [] \<and> exec_all (list_vec 4) list_list (delay_task 3 1000000) evs m = Some (Inr m')
     \<and> m_stack m' = [FIdle] \<and> run_queued (ti_state (k_tasks (m_kernel m') 0))"
proof -
  let ?d = "\<lparr>td_deadline = 10000, td_registered = True, td_waker = Some 0\<rparr>"
  let ?e = "\<lparr>te_deadline = 10000, te_callback = WakeTrampoline, te_data = 0\<rparr>"
  have "ends_in (\<lambda>m. (case m_stack m of [FIdle] \<Rightarrow> True | _ \<Rightarrow> False) \<and> queue list_list (m_kernel m) 0 = []
      \<and> sys_queue (tm_timer (k_app (m_kernel m))) = [?e] \<and> sys_delays (tm_timer (k_app (m_kernel m))) 0 = Some ?d
      \<and> ti_executor_ptr (k_tasks (m_kernel m) 0) = Some 0)
    (plain_run (delay_task 3 1000000) 4 timer_statics_new [IsrSpawn 0 0 (Priority 0)] waiting_run)" by code_simp
  then obtain m where m: "m_stack m = [FIdle]" "queue list_list (m_kernel m) 0 = []"
      "sys_queue (tm_timer (k_app (m_kernel m))) = [?e]" "sys_delays (tm_timer (k_app (m_kernel m))) 0 = Some ?d"
      "ti_executor_ptr (k_tasks (m_kernel m) 0) = Some 0"
      "reachable (list_vec 4) list_list (delay_task 3 1000000) 4 m"
    by (rule plain_run_obtain) (auto split: list.splits frame.splits)
  have alive: "\<forall>x\<in>set (vec_items TIMER_QUEUE (sys_queue (tm_timer (k_app (m_kernel m))))).
      entry_alive (sys_delays (tm_timer (k_app (m_kernel m)))) x"
    by (simp add: entry_alive_def TIMER_QUEUE_def m)
  have put: "\<forall>s g. tm_timer (g\<lparr>tm_timer := s\<rparr>) = s" by simp
  have mie: "frame_mie FIdle" by simp
  obtain evs m' where m': "exec_all (list_vec 4) list_list (delay_task 3 1000000) evs m = Some (Inr m')"
      "m_stack m' = m_stack m" "run_queued (ti_state (k_tasks (m_kernel m') 0))"
    using timer_interrupt_queues_due_tasks [OF list_vec_bounded list_list_intrusive m(6,1) mie
        list_vec_bounded [of 16] put alive [unfolded TIMER_QUEUE_def], of "\<lambda>g. 10000"]
    by (elim exE conjE) (simp add: m(3-5) expired_def entry_waker_def del: exec_all.simps)
  show ?thesis
    by (intro exI [of _ m] exI [of _ m'] exI [of _ evs] conjI m(6,1,2) m'(1,3)) (simp add: m'(2) m(1))
qed

end
