(* ===== verification/DemoApps.thy ===== *)
theory DemoApps
  imports TestApps
begin

text \<open>
  The demonstration programs of \<open>apps/demo/src/bin\<close>.  Their only output is the log, which is here
  the shared memory: a list of the labels of the lines, in order.  An interrupt is taken as soon as
  it is pending and enabled, and a run ends when there is nothing left to do.
\<close>

section \<open>Runs\<close>

type_synonym demo_prog = "(nat, nat, string list) prog"

definition do_log :: "string \<Rightarrow> demo_prog \<Rightarrow> demo_prog" where
  "do_log s c = Access (\<lambda>g. g @ [s]) (\<lambda>g. c)"

definition demo_run ::
  "(nat, string list) isr_op list \<Rightarrow> (tid \<Rightarrow> nat \<Rightarrow> demo_prog) \<Rightarrow> (nat, string list) isr_op list \<Rightarrow> string list option" where
  "demo_run hook fpoll ops =
     (case boot_machine (list_vec 4) list_list (ClintMsip True) 4 [] ops of
        Inl e \<Rightarrow> None
      | Inr m \<Rightarrow> map_option (\<lambda>m. k_app (m_kernel m))
          (run_app (list_vec 4) list_list fpoll (take_msi hook) (\<lambda>m. idle m \<and> \<not> k_msip (m_kernel m)) 400 m))"

section \<open>Futures written by hand\<close>

text \<open>\<open>manual_future.rs\<close>: task 0 is \<open>CountTask\<close>, task 1 is \<open>YieldTwice\<close>, whose counter is its state.\<close>

definition count_task :: demo_prog where
  "count_task = do_log ''CountTask'' (Ready 0)"

definition yield_twice :: "tid \<Rightarrow> nat \<Rightarrow> demo_prog" where
  "yield_twice t i =
     (let i' = i + 1 in
      do_log ''poll'' (if i' < 3 then Wake (waker_from_task t) (do_log ''pending'' (Pending i'))
        else do_log ''done'' (Ready 0)))"

definition manual_future :: "tid \<Rightarrow> nat \<Rightarrow> demo_prog" where
  "manual_future t f = (if t = 0 then count_task else yield_twice t f)"

section \<open>Async functions\<close>

text \<open>
  \<open>async_fn_macro.rs\<close>: tasks 0, 1 and 2 are \<open>task1\<close>, \<open>task2\<close> and \<open>task3\<close>; the last one writes the
  register of the software interrupt, which is the event \<open>RaiseMsi\<close> of a run.  The application's
  \<open>MachineSoft\<close> writes a line.  \<open>async_fn.rs\<close> has the first two tasks and no handler.
\<close>

definition async_fn :: "tid \<Rightarrow> nat \<Rightarrow> demo_prog" where
  "async_fn t f = (if t = 0 then do_log ''hello 1'' (Ready 0) else if t = 1 then do_log ''hello 2'' (Ready 0)
     else Ready 0)"

definition machine_soft :: "(nat, string list) isr_op" where
  "machine_soft = IsrAccess (\<lambda>g. g @ [''external MSI'']) (\<lambda>g. [])"

section \<open>Preemption\<close>

text \<open>
  \<open>preempt_test.rs\<close>: \<open>yield_n\<close> counts its polls and is pending at all but the last.  The state of the task is
  that count.
\<close>

definition yield_n :: "nat \<Rightarrow> string \<Rightarrow> tid \<Rightarrow> nat \<Rightarrow> demo_prog \<Rightarrow> demo_prog" where
  "yield_n n label t i c =
     (let i' = i + 1 in
      if i' < n then do_log (label @ '' yield'') (Wake (waker_from_task t) (Pending i'))
      else do_log (label @ '' ready'') c)"

definition unwrap_spawn :: "tid \<Rightarrow> priority \<Rightarrow> demo_prog \<Rightarrow> demo_prog" where
  "unwrap_spawn t p c = Spawn t 0 p (\<lambda>ok. if ok then c else Access (\<lambda>g. g @ [''panic'']) (\<lambda>g. Pending 99))"

definition low_prio_task :: "tid \<Rightarrow> nat \<Rightarrow> demo_prog" where
  "low_prio_task t f =
     (let rest = do_log ''low spawns'' (unwrap_spawn 2 (Priority 0) (do_log ''low done'' (Ready 0))) in
      if f = 0 then do_log ''low start'' (unwrap_spawn 2 (Priority 0) (do_log ''low resumed''
        (yield_n 2 ''low'' t 0 rest)))
      else yield_n 2 ''low'' t f rest)"

definition high_prio_task :: "tid \<Rightarrow> nat \<Rightarrow> demo_prog" where
  "high_prio_task t f =
     (let rest = do_log ''high done'' (Ready 0) in
      if f = 0 then do_log ''high start'' (yield_n 2 ''high'' t 0 rest) else yield_n 2 ''high'' t f rest)"

definition mid_prio_task :: "tid \<Rightarrow> nat \<Rightarrow> demo_prog" where
  "mid_prio_task t f =
     (let rest = do_log ''mid done'' (Ready 0) in
      if f = 0 then do_log ''mid start'' (yield_n 1 ''mid'' t 0 rest) else yield_n 1 ''mid'' t f rest)"

definition preempt_test :: "tid \<Rightarrow> nat \<Rightarrow> demo_prog" where
  "preempt_test t f =
     (if t = 0 then low_prio_task t f else if t = 1 then mid_prio_task t f else high_prio_task t f)"

section \<open>What they do\<close>

definition manual_future_main :: "string list option" where
  "manual_future_main = demo_run [] manual_future [IsrSpawn 0 0 (Priority 0), IsrSpawn 1 0 (Priority 1)]"

definition async_fn_main :: "string list option" where
  "async_fn_main = demo_run [] async_fn [IsrSpawn 0 0 (Priority 0), IsrSpawn 1 0 (Priority 1)]"

definition preempt_test_main :: "string list option" where
  "preempt_test_main = demo_run [] preempt_test [IsrSpawn 0 0 (Priority 2), IsrSpawn 1 0 (Priority 1)]"

lemma manual_future_log:
  "manual_future_main = Some [''CountTask'', ''poll'', ''pending'', ''poll'', ''pending'', ''poll'', ''done'']"
  by code_simp

lemma async_fn_log:
  "async_fn_main = Some [''hello 1'', ''hello 2'']"
  by code_simp

text \<open>
  The order that \<open>preempt_test.rs\<close> announces: mid first, then low, which is preempted by each
  spawn of high and goes on when high is done.  \<open>yield_n\<close> yields one time less than its parameter
  says, so mid, which announces to yield once, does not yield.
\<close>

lemma preempt_test_log:
  "preempt_test_main = Some [''mid start'', ''mid ready'', ''mid done'', ''low start'', ''high start'',
        ''high yield'', ''high ready'', ''high done'', ''low resumed'', ''low yield'', ''low ready'', ''low spawns'', ''high start'', ''high yield'',
        ''high ready'', ''high done'', ''low done'']"
  by code_simp

text \<open>
  In \<open>async_fn_macro.rs\<close> the application's \<open>MachineSoft\<close> is to announce the one software
  interrupt that task 3 raises.  The generated handler calls it for the scheduler's own, too: the
  line is already there when the first task starts, and it is there twice at the end.
\<close>

definition macro_ops :: "(nat, string list) isr_op list" where
  "macro_ops = [IsrSpawn 0 0 (Priority 0), IsrSpawn 1 0 (Priority 2), IsrSpawn 2 0 (Priority 1)]"

definition macro_run :: "(nat, string list) event list" where
  "macro_run = replicate 13 Step @ TakeMsi [machine_soft] # replicate 18 Step
     @ [RaiseMsi, TakeMsi [machine_soft]] @ replicate 40 Step"

lemma machine_soft_runs_for_scheduler:
  "ends_in (\<lambda>m. k_app (m_kernel m) = [''external MSI'', ''hello 1''] \<and>
      (case m_stack m of [FPoll e t st p, FIdle] \<Rightarrow> t = 2 | _ \<Rightarrow> False))
     (plain_run async_fn 4 [] macro_ops (take 32 macro_run))"
  "ends_in (\<lambda>m. k_app (m_kernel m) = [''external MSI'', ''hello 1'', ''external MSI'', ''hello 2'']
      \<and> (case m_stack m of [FIdle] \<Rightarrow> True | _ \<Rightarrow> False))
     (plain_run async_fn 4 [] macro_ops macro_run)"
  by code_simp+

end
