(* ===== verification/UnitTests.thy ===== *)
theory UnitTests
  imports PriorityBitmap TaskState
begin

text \<open>
  The unit tests of \<open>priority_bitmap.rs\<close> and \<open>task/state.rs\<close>, as definitions: each is true if
  every assertion of the test holds in the model.
\<close>

unbundle bit_operations_syntax

section \<open>The bitmap\<close>

text \<open>A test is a list of calls with the results it expects.\<close>

type_synonym bitmap_call = "bitmap_op \<times> bitmap_out"

abbreviation do_set :: "nat \<Rightarrow> bitmap_call" where "do_set p \<equiv> (OpSet p, OutUnit)"
abbreviation do_clear :: "nat \<Rightarrow> bitmap_call" where "do_clear p \<equiv> (OpClear p, OutUnit)"
abbreviation do_clear_all :: bitmap_call where "do_clear_all \<equiv> (OpClearAll, OutUnit)"
abbreviation expect_pop :: "nat option \<Rightarrow> bitmap_call" where "expect_pop h \<equiv> (OpPop, OutPrio h)"
abbreviation expect_highest :: "nat option \<Rightarrow> bitmap_call" where "expect_highest h \<equiv> (OpHighest, OutPrio h)"
abbreviation expect_set :: "nat \<Rightarrow> bool \<Rightarrow> bitmap_call" where "expect_set p b \<equiv> (OpIsSet p, OutBool b)"
abbreviation expect_empty :: "bool \<Rightarrow> bitmap_call" where "expect_empty b \<equiv> (OpIsEmpty, OutBool b)"

definition bitmap_test :: "nat \<Rightarrow> bitmap_call list \<Rightarrow> bool" where
  "bitmap_test n calls =
     (case bitmap_new n of
        Inl e \<Rightarrow> False
      | Inr bm \<Rightarrow> (case outputs (run_ops bitmap_step (map fst calls) bm) of
          Inl e \<Rightarrow> False | Inr outs \<Rightarrow> outs = map snd calls))"

definition ut_empty :: bool where
  "ut_empty \<longleftrightarrow> bitmap_test 1 ([expect_empty True, expect_highest None])"

definition ut_set_clear_highest :: bool where
  "ut_set_clear_highest \<longleftrightarrow> bitmap_test 1 ([do_set 3, do_set 17, do_set 42, expect_highest (Some 3), do_clear 3, 
      expect_highest (Some 17), expect_set 3 False, expect_set 17 True])"

definition ut_boundary :: bool where
  "ut_boundary \<longleftrightarrow> bitmap_test 1 ([do_set 0, do_set 63, expect_highest (Some 0)])"

definition ut_pop_highest_drain :: bool where
  "ut_pop_highest_drain \<longleftrightarrow> bitmap_test 1 ([do_set 10, do_set 20, do_set 30, expect_pop (Some 10), expect_pop (Some 20), 
      expect_pop (Some 30), expect_pop None, expect_empty True])"

definition ut_idempotent :: bool where
  "ut_idempotent \<longleftrightarrow> bitmap_test 1 ([do_set 5, do_set 5, expect_set 5 True, do_clear 5, do_clear 5, expect_empty True])"

definition ut_clear_all :: bool where
  "ut_clear_all \<longleftrightarrow> bitmap_test 1 ([do_set 1, do_set 50, do_clear_all, expect_empty True])"

definition ut_wide_256 :: bool where
  "ut_wide_256 \<longleftrightarrow> bitmap_test 4 ([do_set 0, do_set 127, do_set 255, expect_highest (Some 0), do_clear 0, 
      expect_highest (Some 127)])"

definition ut_wide_4096 :: bool where
  "ut_wide_4096 \<longleftrightarrow> bitmap_test 64 ([do_set 0, do_set 2048, do_set 4095, expect_highest (Some 0)])"

definition ut_single_group :: bool where
  "ut_single_group \<longleftrightarrow> bitmap_test 1 (map (\<lambda>i. do_set (7 * i)) [0..<10] @ [expect_highest (Some 0)] @ map (\<lambda>i. expect_set (7 * i) True) [0..<10])"

definition ut_is_set_uninitialized :: bool where
  "ut_is_set_uninitialized \<longleftrightarrow> bitmap_test 1 (map (\<lambda>i. expect_set i False) [0..<64])"

definition ut_set_all_64 :: bool where
  "ut_set_all_64 \<longleftrightarrow> bitmap_test 1 (map do_set [0..<64] @ [expect_empty False] @ map (\<lambda>i. expect_set i True) [0..<64]
      @ [expect_highest (Some 0), do_clear 0, expect_highest (Some 1)])"

definition ut_clear_all_64 :: bool where
  "ut_clear_all_64 \<longleftrightarrow> bitmap_test 1 (map do_set [0..<64] @ map do_clear [0..<64] @ [expect_empty True, expect_highest None])"

definition ut_pop_highest_ascending_order :: bool where
  "ut_pop_highest_ascending_order \<longleftrightarrow> bitmap_test 1 (map do_set [0..<64] @ map (\<lambda>i. expect_pop (Some i)) [0..<64] @ [expect_pop None, expect_empty True])"

definition ut_highest_descending_set :: bool where
  "ut_highest_descending_set \<longleftrightarrow> bitmap_test 1 (map do_set (rev [0..<64]) @ [expect_highest (Some 0)])"

definition ut_set_and_clear_alternating :: bool where
  "ut_set_and_clear_alternating \<longleftrightarrow> bitmap_test 1 (map (\<lambda>i. do_set (i * 2)) [0..<32]
      @ concat (map (\<lambda>i. [expect_set (i * 2) True, expect_set (i * 2 + 1) False]) [0..<32])
      @ map (\<lambda>i. do_clear (i * 2)) [0..<32] @ [expect_empty True])"

definition ut_clear_middle_of_three :: bool where
  "ut_clear_middle_of_three \<longleftrightarrow> bitmap_test 1 ([do_set 10, do_set 20, do_set 30, do_clear 20, expect_set 20 False, 
      expect_set 10 True, expect_set 30 True, expect_highest (Some 10)])"

definition ut_re_set_after_clear :: bool where
  "ut_re_set_after_clear \<longleftrightarrow> bitmap_test 1 ([do_set 5, do_clear 5, expect_empty True, do_set 5, expect_empty False, 
      expect_set 5 True, expect_highest (Some 5)])"

definition ut_multi_group_crossing :: bool where
  "ut_multi_group_crossing \<longleftrightarrow> bitmap_test 4 ([do_set 63, do_set 64, expect_highest (Some 63), do_clear 63, expect_highest (Some 64)])"

definition ut_wide_drain_all_groups :: bool where
  "ut_wide_drain_all_groups \<longleftrightarrow> bitmap_test 4 ([do_set 0, do_set 65, do_set 130, do_set 255, expect_pop (Some 0), 
      expect_pop (Some 65), expect_pop (Some 130), expect_pop (Some 255), 
      expect_pop None, expect_empty True])"

definition ut_clear_all_then_set :: bool where
  "ut_clear_all_then_set \<longleftrightarrow> bitmap_test 2 (map do_set [0..<128] @ [do_clear_all, expect_empty True, expect_highest None, do_set 42, expect_highest (Some 42)])"

definition ut_each_group_boundary :: bool where
  "ut_each_group_boundary \<longleftrightarrow> bitmap_test 4 (map do_set [0, 63, 64, 127, 128, 191, 192, 255] @ [expect_highest (Some 0)]
      @ map (\<lambda>p. expect_set p True) [0, 63, 64, 127, 128, 191, 192, 255]
      @ [do_clear 0, expect_highest (Some 63), do_clear 63, expect_highest (Some 64)])"

definition ut_is_empty_after_clear_all :: bool where
  "ut_is_empty_after_clear_all \<longleftrightarrow> bitmap_test 4 ([do_set 1, do_set 100, do_set 200, expect_empty False, do_clear_all, 
      expect_empty True, expect_set 1 False, expect_set 100 False, 
      expect_set 200 False])"

definition ut_capacity_const :: bool where
  "ut_capacity_const \<longleftrightarrow> CAPACITY 1 = 64 \<and> CAPACITY 4 = 256 \<and> CAPACITY 64 = 4096"

text \<open>The tests are evaluated on sets of priorities, which the bitmap refines.\<close>

definition set_test :: "nat \<Rightarrow> bitmap_call list \<Rightarrow> bool" where
  "set_test cap calls =
     (case outputs (run_ops (set_step cap) (map fst calls) {}) of
        Inl e \<Rightarrow> False | Inr outs \<Rightarrow> outs = map snd calls)"

lemma bitmap_test_refines:
  assumes "0 < n" "n \<le> 64"
  shows "bitmap_test n calls = set_test (64 * n) calls"
proof -
  obtain bm where "bitmap_new n = Inr bm" "bitmap_wf n bm" "members bm = {}"
    using assms by (rule bitmap_new_ok)
  then show ?thesis using bitmap_run_refines [of n bm "map fst calls"] by (simp add: bitmap_test_def set_test_def)
qed

lemma bitmap_tests [simp]:
  "bitmap_test 1 calls = set_test 64 calls" "bitmap_test 2 calls = set_test 128 calls"
  "bitmap_test 4 calls = set_test 256 calls" "bitmap_test 64 calls = set_test 4096 calls"
  by (simp_all add: bitmap_test_refines)

lemma run_ops_append:
  "run_ops step (xs @ ys) s = rbind (run_ops step xs s) (\<lambda>(vs, t). rbind (run_ops step ys t) (\<lambda>(ws, u). Inr (vs @ ws, u)))"
proof (induction xs arbitrary: s)
  case (Cons x xs)
  then show ?case
    by (cases "step x s"; cases "run_ops step ys s") (auto simp: rbind_def split: sum.splits prod.splits)
qed (auto simp: rbind_def split: sum.splits)

lemma run_sets:
  "\<forall>p\<in>set ps. p < cap \<Longrightarrow> run_ops (set_step cap) (map OpSet ps) A = Inr (map (\<lambda>p. OutUnit) ps, A \<union> set ps)"
  by (induction ps arbitrary: A) simp_all

lemma run_clears:
  "\<forall>p\<in>set ps. p < cap \<Longrightarrow> run_ops (set_step cap) (map OpClear ps) A = Inr (map (\<lambda>p. OutUnit) ps, A - set ps)"
  proof (induction ps arbitrary: A)
  case (Cons p ps)
  have "A - {p} - set ps = A - set (p # ps)" by auto
  then show ?case using Cons by simp
qed simp

lemma run_checks:
  "\<forall>p\<in>set ps. p < cap \<Longrightarrow> run_ops (set_step cap) (map OpIsSet ps) A = Inr (map (\<lambda>p. OutBool (p \<in> A)) ps, A)"
  by (induction ps) simp_all

lemma run_pops:
  "a \<le> b \<Longrightarrow> run_ops (set_step cap) (map (\<lambda>p. OpPop) [a..<b]) {a..<b} = Inr (map (\<lambda>p. OutPrio (Some p)) [a..<b], {})"
proof (induction "b - a" arbitrary: a)
  case (Suc k)
  then have "a < b" by simp
  moreover have "{a..<b} - {a} = {Suc a..<b}" by auto
  moreover have "Min {a..<b} = a" using \<open>a < b\<close> by (intro Min_eqI) auto
  ultimately show ?case using Suc by (simp add: upt_conv_Cons least_of_def)
qed simp

lemma least_of_range: "a < b \<Longrightarrow> least_of {a..<b} = Some a"
  by (auto simp: least_of_def intro!: Min_eqI)

lemma least_of_rest:
  assumes "Suc a < b"
  shows "least_of ({a..<b} - {a}) = Some (Suc a)"
proof -
  have "{a..<b} - {a} = {Suc a..<b}" by auto
  then show ?thesis using least_of_range [OF assms] by simp
qed

lemma least_of_few: "least_of {} = None" "least_of {p} = Some p"
  by (simp_all add: least_of_def)

lemmas least_of_simps = least_of_range least_of_rest least_of_few

lemmas run_loops = run_ops_append run_sets run_clears run_checks

lemma ut_empty_holds: ut_empty
  unfolding ut_empty_def bitmap_tests set_test_def by (simp add: least_of_def insert_Diff_if)

lemma ut_set_clear_highest_holds: ut_set_clear_highest
  unfolding ut_set_clear_highest_def bitmap_tests set_test_def by (simp add: least_of_def insert_Diff_if)

lemma ut_boundary_holds: ut_boundary
  unfolding ut_boundary_def bitmap_tests set_test_def by (simp add: least_of_def insert_Diff_if)

lemma ut_pop_highest_drain_holds: ut_pop_highest_drain
  unfolding ut_pop_highest_drain_def bitmap_tests set_test_def by (simp add: least_of_def insert_Diff_if)

lemma ut_idempotent_holds: ut_idempotent
  unfolding ut_idempotent_def bitmap_tests set_test_def by (simp add: least_of_def insert_Diff_if)

lemma ut_clear_all_holds: ut_clear_all
  unfolding ut_clear_all_def bitmap_tests set_test_def by (simp add: least_of_def insert_Diff_if)

lemma ut_wide_256_holds: ut_wide_256
  unfolding ut_wide_256_def bitmap_tests set_test_def by (simp add: least_of_def insert_Diff_if)

lemma ut_wide_4096_holds: ut_wide_4096
  unfolding ut_wide_4096_def bitmap_tests set_test_def by (simp add: least_of_def insert_Diff_if)

lemma ut_single_group_holds: ut_single_group
  unfolding ut_single_group_def bitmap_tests by code_simp

lemma ut_is_set_uninitialized_holds: ut_is_set_uninitialized
  unfolding ut_is_set_uninitialized_def bitmap_tests set_test_def
  by (simp add: run_loops comp_def least_of_simps del: upt_rec_numeral)

lemma ut_set_all_64_holds: ut_set_all_64
  unfolding ut_set_all_64_def bitmap_tests set_test_def
  by (simp add: run_loops comp_def least_of_simps del: upt_rec_numeral)

lemma ut_clear_all_64_holds: ut_clear_all_64
  unfolding ut_clear_all_64_def bitmap_tests set_test_def
  by (simp add: run_loops comp_def least_of_simps del: upt_rec_numeral)

lemma ut_pop_highest_ascending_order_holds: ut_pop_highest_ascending_order
  using run_pops [of 0 64 64] unfolding ut_pop_highest_ascending_order_def bitmap_tests set_test_def
  by (simp add: run_loops comp_def least_of_simps del: upt_rec_numeral)

lemma ut_highest_descending_set_holds: ut_highest_descending_set
  unfolding ut_highest_descending_set_def bitmap_tests set_test_def
  by (simp add: run_loops comp_def least_of_simps del: upt_rec_numeral)

lemma ut_set_and_clear_alternating_holds: ut_set_and_clear_alternating
proof -
  let ?evens = "map (\<lambda>i :: nat. i * 2) [0..<32]" and ?both = "concat (map (\<lambda>i :: nat. [i * 2, i * 2 + 1]) [0..<32])"
  have both: "map (\<lambda>p. OutBool (p \<in> set ?evens)) ?both = concat (map (\<lambda>i. [OutBool True, OutBool False]) [0..<32])"
    unfolding map_concat map_map by (rule arg_cong [of _ _ concat], rule map_cong [OF refl]) (auto, presburger)
  have "run_ops (set_step 64) (map OpSet ?evens @ map OpIsSet ?both @ map OpClear ?evens @ [OpIsEmpty]) {}
      = Inr (map (\<lambda>p. OutUnit) ?evens @ map (\<lambda>p. OutBool (p \<in> set ?evens)) ?both @ map (\<lambda>p. OutUnit) ?evens
          @ [OutBool True], {})"
    by (simp add: run_ops_append run_sets run_clears run_checks del: map_map upt_rec_numeral)
  then show ?thesis
    unfolding ut_set_and_clear_alternating_def bitmap_tests set_test_def both
    by (simp add: comp_def map_concat del: upt_rec_numeral)
qed

lemma ut_clear_middle_of_three_holds: ut_clear_middle_of_three
  unfolding ut_clear_middle_of_three_def bitmap_tests set_test_def by (simp add: least_of_def insert_Diff_if)

lemma ut_re_set_after_clear_holds: ut_re_set_after_clear
  unfolding ut_re_set_after_clear_def bitmap_tests set_test_def by (simp add: least_of_def insert_Diff_if)

lemma ut_multi_group_crossing_holds: ut_multi_group_crossing
  unfolding ut_multi_group_crossing_def bitmap_tests set_test_def by (simp add: least_of_def insert_Diff_if)

lemma ut_wide_drain_all_groups_holds: ut_wide_drain_all_groups
  unfolding ut_wide_drain_all_groups_def bitmap_tests set_test_def by (simp add: least_of_def insert_Diff_if)

lemma ut_clear_all_then_set_holds: ut_clear_all_then_set
  unfolding ut_clear_all_then_set_def bitmap_tests set_test_def
  by (simp add: run_loops comp_def least_of_simps del: upt_rec_numeral)

lemma ut_each_group_boundary_holds: ut_each_group_boundary
  unfolding ut_each_group_boundary_def bitmap_tests set_test_def by (simp add: least_of_def insert_Diff_if)

lemma ut_is_empty_after_clear_all_holds: ut_is_empty_after_clear_all
  unfolding ut_is_empty_after_clear_all_def bitmap_tests set_test_def by (simp add: least_of_def insert_Diff_if)

lemma ut_capacity_const_holds: ut_capacity_const
  by code_simp

text \<open>
  The unit tests of the bitmap pass: every assertion of every test holds, evaluated on the sets
  of priorities that the bitmap refines.
\<close>

theorem bitmap_tests_pass: "ut_empty \<and> ut_set_clear_highest \<and> ut_boundary \<and> ut_pop_highest_drain \<and>
    ut_idempotent \<and> ut_clear_all \<and> ut_wide_256 \<and> ut_wide_4096 \<and>
    ut_single_group \<and> ut_is_set_uninitialized \<and> ut_set_all_64 \<and>
    ut_clear_all_64 \<and> ut_pop_highest_ascending_order \<and>
    ut_highest_descending_set \<and> ut_set_and_clear_alternating \<and>
    ut_clear_middle_of_three \<and> ut_re_set_after_clear \<and> ut_multi_group_crossing \<and>
    ut_wide_drain_all_groups \<and> ut_clear_all_then_set \<and> ut_each_group_boundary \<and>
    ut_is_empty_after_clear_all \<and> ut_capacity_const"
  by (intro conjI ut_empty_holds ut_set_clear_highest_holds ut_boundary_holds ut_pop_highest_drain_holds
      ut_idempotent_holds ut_clear_all_holds ut_wide_256_holds ut_wide_4096_holds
      ut_single_group_holds ut_is_set_uninitialized_holds ut_set_all_64_holds
      ut_clear_all_64_holds ut_pop_highest_ascending_order_holds ut_highest_descending_set_holds
      ut_set_and_clear_alternating_holds ut_clear_middle_of_three_holds
      ut_re_set_after_clear_holds ut_multi_group_crossing_holds ut_wide_drain_all_groups_holds
      ut_clear_all_then_set_holds ut_each_group_boundary_holds ut_is_empty_after_clear_all_holds
      ut_capacity_const_holds)

section \<open>The state byte\<close>

text \<open>
  A test is a sequence of calls on a new state; \<open>state_after\<close> gives the results of the \<open>spawn\<close>s and
  the byte at the end, and how often the closure of \<open>run_enqueue\<close> was called.
\<close>

datatype state_call = CallSpawn | CallDespawn | CallEnqueue | CallDequeue

definition count_enqueue :: "u8 \<Rightarrow> nat \<Rightarrow> u8 \<times> nat" where
  "count_enqueue w n =
     (case run_enqueue fst (\<lambda>w s. (w, snd s)) (\<lambda>s. Inr (fst s, snd s + 1)) (w, n) of
        Inl e \<Rightarrow> (w, n) | Inr (first, s) \<Rightarrow> s)"

primrec state_after :: "state_call list \<Rightarrow> u8 \<Rightarrow> nat \<Rightarrow> bool list \<times> u8 \<times> nat" where
  "state_after [] w n = ([], w, n)"
| "state_after (c # cs) w n =
     (case c of
        CallSpawn \<Rightarrow> (case state_spawn w of (ok, w') \<Rightarrow>
          (case state_after cs w' n of (oks, r) \<Rightarrow> (ok # oks, r)))
      | CallDespawn \<Rightarrow> state_after cs (state_despawn w) n
      | CallDequeue \<Rightarrow> state_after cs (state_run_dequeue w) n
      | CallEnqueue \<Rightarrow> (case count_enqueue w n of (w', n') \<Rightarrow> state_after cs w' n'))"

definition spawn_results :: "state_call list \<Rightarrow> bool list" where
  "spawn_results cs = fst (state_after cs state_new 0)"

definition state_byte :: "state_call list \<Rightarrow> u8" where
  "state_byte cs = fst (snd (state_after cs state_new 0))"

definition closure_calls :: "state_call list \<Rightarrow> nat" where
  "closure_calls cs = snd (snd (state_after cs state_new 0))"

definition ut_new_state_is_zero :: bool where
  "ut_new_state_is_zero \<longleftrightarrow> state_byte [] = 0"

definition ut_spawn_first_time_returns_true :: bool where
  "ut_spawn_first_time_returns_true \<longleftrightarrow> spawn_results [CallSpawn] = [True]"

definition ut_spawn_second_time_returns_false :: bool where
  "ut_spawn_second_time_returns_false \<longleftrightarrow> spawn_results [CallSpawn, CallSpawn] = [True, False]"

definition ut_spawn_multiple_times :: bool where
  "ut_spawn_multiple_times \<longleftrightarrow> spawn_results [CallSpawn, CallSpawn, CallSpawn] = [True, False, False]"

definition ut_despawn_after_spawn :: bool where
  "ut_despawn_after_spawn \<longleftrightarrow> last (spawn_results [CallSpawn, CallDespawn, CallSpawn])"

definition ut_despawn_when_not_spawned_is_harmless :: bool where
  "ut_despawn_when_not_spawned_is_harmless \<longleftrightarrow> spawn_results [CallDespawn, CallSpawn] = [True]"

definition ut_spawn_despawn_cycle :: bool where
  "ut_spawn_despawn_cycle \<longleftrightarrow> spawn_results (concat (replicate 3 [CallSpawn, CallDespawn])) = replicate 3 True"

definition ut_run_enqueue_calls_closure_on_first_call :: bool where
  "ut_run_enqueue_calls_closure_on_first_call \<longleftrightarrow> closure_calls [CallEnqueue] = 1"

definition ut_run_enqueue_skips_closure_on_second_call :: bool where
  "ut_run_enqueue_skips_closure_on_second_call \<longleftrightarrow> closure_calls [CallEnqueue, CallEnqueue] = 1"

definition ut_run_dequeue_allows_re_enqueue :: bool where
  "ut_run_dequeue_allows_re_enqueue \<longleftrightarrow> closure_calls [CallEnqueue, CallDequeue, CallEnqueue] = 2"

definition ut_run_enqueue_multiple_without_dequeue :: bool where
  "ut_run_enqueue_multiple_without_dequeue \<longleftrightarrow> closure_calls (replicate 5 CallEnqueue) = 1"

definition ut_state_bits_spawned_flag :: bool where
  "ut_state_bits_spawned_flag \<longleftrightarrow> state_byte [CallSpawn] AND STATE_SPAWNED \<noteq> 0"

definition ut_state_bits_run_queued_flag :: bool where
  "ut_state_bits_run_queued_flag \<longleftrightarrow> state_byte [CallEnqueue] AND STATE_RUN_QUEUED \<noteq> 0"

definition ut_both_flags_set :: bool where
  "ut_both_flags_set \<longleftrightarrow> state_byte [CallSpawn, CallEnqueue] AND STATE_SPAWNED \<noteq> 0
     \<and> state_byte [CallSpawn, CallEnqueue] AND STATE_RUN_QUEUED \<noteq> 0"

definition ut_clear_spawn_preserves_run_queued :: bool where
  "ut_clear_spawn_preserves_run_queued \<longleftrightarrow> state_byte [CallSpawn, CallEnqueue, CallDespawn] AND STATE_SPAWNED = 0
     \<and> state_byte [CallSpawn, CallEnqueue, CallDespawn] AND STATE_RUN_QUEUED \<noteq> 0"

definition ut_clear_run_queued_preserves_spawned :: bool where
  "ut_clear_run_queued_preserves_spawned \<longleftrightarrow> state_byte [CallSpawn, CallEnqueue, CallDequeue] AND STATE_SPAWNED \<noteq> 0
     \<and> state_byte [CallSpawn, CallEnqueue, CallDequeue] AND STATE_RUN_QUEUED = 0"

lemma ut_new_state_is_zero_holds: ut_new_state_is_zero
  by code_simp

lemma ut_spawn_first_time_returns_true_holds: ut_spawn_first_time_returns_true
  by code_simp

lemma ut_spawn_second_time_returns_false_holds: ut_spawn_second_time_returns_false
  by code_simp

lemma ut_spawn_multiple_times_holds: ut_spawn_multiple_times
  by code_simp

lemma ut_despawn_after_spawn_holds: ut_despawn_after_spawn
  by code_simp

lemma ut_despawn_when_not_spawned_is_harmless_holds: ut_despawn_when_not_spawned_is_harmless
  by code_simp

lemma ut_spawn_despawn_cycle_holds: ut_spawn_despawn_cycle
  by code_simp

lemma ut_run_enqueue_calls_closure_on_first_call_holds: ut_run_enqueue_calls_closure_on_first_call
  by code_simp

lemma ut_run_enqueue_skips_closure_on_second_call_holds: ut_run_enqueue_skips_closure_on_second_call
  by code_simp

lemma ut_run_dequeue_allows_re_enqueue_holds: ut_run_dequeue_allows_re_enqueue
  by code_simp

lemma ut_run_enqueue_multiple_without_dequeue_holds: ut_run_enqueue_multiple_without_dequeue
  by code_simp

lemma ut_state_bits_spawned_flag_holds: ut_state_bits_spawned_flag
  by code_simp

lemma ut_state_bits_run_queued_flag_holds: ut_state_bits_run_queued_flag
  by code_simp

lemma ut_both_flags_set_holds: ut_both_flags_set
  by code_simp

lemma ut_clear_spawn_preserves_run_queued_holds: ut_clear_spawn_preserves_run_queued
  by code_simp

lemma ut_clear_run_queued_preserves_spawned_holds: ut_clear_run_queued_preserves_spawned
  by code_simp

text \<open>
  The unit tests of the state byte pass.
\<close>

theorem state_tests_pass: "ut_new_state_is_zero \<and> ut_spawn_first_time_returns_true \<and>
    ut_spawn_second_time_returns_false \<and> ut_spawn_multiple_times \<and>
    ut_despawn_after_spawn \<and> ut_despawn_when_not_spawned_is_harmless \<and>
    ut_spawn_despawn_cycle \<and> ut_run_enqueue_calls_closure_on_first_call \<and>
    ut_run_enqueue_skips_closure_on_second_call \<and> ut_run_dequeue_allows_re_enqueue \<and>
    ut_run_enqueue_multiple_without_dequeue \<and> ut_state_bits_spawned_flag \<and>
    ut_state_bits_run_queued_flag \<and> ut_both_flags_set \<and>
    ut_clear_spawn_preserves_run_queued \<and> ut_clear_run_queued_preserves_spawned"
  by (intro conjI ut_new_state_is_zero_holds ut_spawn_first_time_returns_true_holds
      ut_spawn_second_time_returns_false_holds ut_spawn_multiple_times_holds
      ut_despawn_after_spawn_holds ut_despawn_when_not_spawned_is_harmless_holds
      ut_spawn_despawn_cycle_holds ut_run_enqueue_calls_closure_on_first_call_holds
      ut_run_enqueue_skips_closure_on_second_call_holds ut_run_dequeue_allows_re_enqueue_holds
      ut_run_enqueue_multiple_without_dequeue_holds ut_state_bits_spawned_flag_holds
      ut_state_bits_run_queued_flag_holds ut_both_flags_set_holds
      ut_clear_spawn_preserves_run_queued_holds ut_clear_run_queued_preserves_spawned_holds)

end
