(* ===== verification/HostTests.thy ===== *)
theory HostTests
  imports TestApps
begin

text \<open>
  The unit tests of \<open>spawner.rs\<close>, \<open>task/storage.rs\<close> and \<open>task/join_handle.rs\<close>, which run on the
  host: there is no interrupt, the test itself calls the scheduler, and the devices are the stubs of
  \<open>platform/chips/std-chip\<close>.  A test is a script of calls with the results it expects.
\<close>

section \<open>Scripts\<close>

record host_statics =
  hs_count :: nat
  hs_order :: "nat list"
  hs_flag :: nat
  hs_waker :: "waker option"

definition host_statics_new :: host_statics where
  "host_statics_new = \<lparr>hs_count = 0, hs_order = [], hs_flag = 0, hs_waker = None\<rparr>"

type_synonym 'o host_prog = "(nat, 'o, host_statics) prog"
type_synonym 'o host = "(nat, 'o, tid list, priority list, host_statics) machine"

definition count_poll :: "'o host_prog \<Rightarrow> 'o host_prog" where
  "count_poll c = Access (\<lambda>g. g\<lparr>hs_count := hs_count g + 1\<rparr>) (\<lambda>g. c)"

text \<open>
  The test's thread is not an activation of the machine: between two calls the stack is empty.  A
  call that panics, or that does not return within the fuel, fails the test.
\<close>

definition host_call ::
  "(tid \<Rightarrow> nat \<Rightarrow> 'o host_prog) \<Rightarrow> nat \<Rightarrow> (nat, 'o, host_statics) frame \<Rightarrow> ('o host \<Rightarrow> bool) \<Rightarrow>
   'o host \<Rightarrow> 'o host option" where
  "host_call fpoll n fr stop m =
     map_option (\<lambda>m. m\<lparr>m_stack := []\<rparr>)
       (run_app (list_vec n) list_list fpoll no_irqs stop 400 (m\<lparr>m_stack := [fr]\<rparr>))"

definition in_loop :: "'o host \<Rightarrow> bool" where
  "in_loop m \<longleftrightarrow> (case m_stack m of [FLoop e] \<Rightarrow> True | _ \<Rightarrow> False)"

definition in_end :: "'o host \<Rightarrow> bool" where
  "in_end m \<longleftrightarrow> (case m_stack m of [FRunEnd e] \<Rightarrow> True | _ \<Rightarrow> False)"

definition in_sched :: "'o host \<Rightarrow> bool" where
  "in_sched m \<longleftrightarrow> (case m_stack m of [FSched] \<Rightarrow> True | _ \<Rightarrow> False)"

datatype 'o host_op =
    HStorageSpawn tid bool
  | HSpawn tid priority
  | HEnqueue tid
  | HRun
  | HTask tid
  | HPreempt "nat option"
  | HDrain
  | HJoin tid "'o option"
  | HWakeStored
  | HSet "host_statics \<Rightarrow> host_statics"
  | HCheck "host_statics \<Rightarrow> bool"

text \<open>
  \<open>HStorageSpawn\<close> is \<open>TaskStorage::spawn\<close> with the token forgotten; \<open>HSpawn\<close> passes the token
  to \<open>Spawner::spawn\<close>; \<open>HEnqueue\<close> and \<open>HRun\<close> are \<open>enqueue\<close> and \<open>run\<close> of executor 0; \<open>HTask\<close> calls the poll function of a task; \<open>HPreempt\<close> expects the result of
  \<open>try_preempt\<close> and, if it is a token, runs it and completes the executor; \<open>HDrain\<close> does so as
  long as there is one; \<open>HJoin\<close> polls a join handle with a waker that does nothing.
\<close>

definition noop_waker :: waker where
  "noop_waker = 99"

fun host_step ::
  "(tid \<Rightarrow> nat \<Rightarrow> 'o host_prog) \<Rightarrow> nat \<Rightarrow> 'o host_op \<Rightarrow> 'o host \<Rightarrow> 'o host option" where
  "host_step fpoll n (HStorageSpawn t ok) m =
     (case storage_spawn t 0 (m_kernel m) of
        (Inl SpawnError, k) \<Rightarrow> if ok then None else Some (m\<lparr>m_kernel := k\<rparr>)
      | (Inr token, k) \<Rightarrow> if ok then Some (m\<lparr>m_kernel := k\<rparr>) else None)"
| "host_step fpoll n (HSpawn t p) m = host_call fpoll n (FIrq KIsr [IsrSpawn t 0 p] None) returned m"
| "host_step fpoll n (HEnqueue t) m =
     (case executor_enqueue list_list 0 t (m_kernel m) of
        Inl e \<Rightarrow> None | Inr (enqueued, k) \<Rightarrow> Some (m\<lparr>m_kernel := k\<rparr>))"
| "host_step fpoll n HRun m = host_call fpoll n (FLoop 0) in_end m"
| "host_step fpoll n (HTask t) m = host_call fpoll n (FGot 0 t) in_loop m"
| "host_step fpoll n (HPreempt r) m =
     (case try_preempt (list_vec n) (m_kernel m) of
        Inl e \<Rightarrow> None
      | Inr (None, k) \<Rightarrow> if r = None then Some (m\<lparr>m_kernel := k\<rparr>) else None
      | Inr (Some (RunToken p), k) \<Rightarrow>
          if r = Some (to_usize p)
          then host_call fpoll n (FLoop (to_usize p)) in_sched (m\<lparr>m_kernel := k\<rparr>) else None)"
| "host_step fpoll n HDrain m = host_call fpoll n FSched returned m"
| "host_step fpoll n (HJoin t r) m =
     (case join_poll (JoinHandle t) noop_waker (m_kernel m) of
        (None, k) \<Rightarrow> (case r of None \<Rightarrow> Some (m\<lparr>m_kernel := k\<rparr>) | Some v \<Rightarrow> None)
      | (Some w, k) \<Rightarrow> (case r of None \<Rightarrow> None | Some v \<Rightarrow> if v = w then Some (m\<lparr>m_kernel := k\<rparr>) else None))"
| "host_step fpoll n HWakeStored m =
     (case hs_waker (k_app (m_kernel m)) of
        None \<Rightarrow> Some m
      | Some w \<Rightarrow> (case waker_wake list_list w (m_kernel m) of
          Inl e \<Rightarrow> None
        | Inr k \<Rightarrow> Some (m\<lparr>m_kernel := k\<lparr>k_app := (k_app k)\<lparr>hs_waker := None\<rparr>\<rparr>\<rparr>)))"
| "host_step fpoll n (HSet u) m = Some (m\<lparr>m_kernel := (m_kernel m)\<lparr>k_app := u (k_app (m_kernel m))\<rparr>\<rparr>)"
| "host_step fpoll n (HCheck P) m = (if P (k_app (m_kernel m)) then Some m else None)"

fun host_passes ::
  "(tid \<Rightarrow> nat \<Rightarrow> 'o host_prog) \<Rightarrow> nat \<Rightarrow> 'o host_op list \<Rightarrow> 'o host \<Rightarrow> bool" where
  "host_passes fpoll n [] m = True"
| "host_passes fpoll n (x # xs) m =
     (case host_step fpoll n x m of None \<Rightarrow> False | Some m' \<Rightarrow> host_passes fpoll n xs m')"

text \<open>
  \<open>pinned_spawner!\<close>: a new spawner of \<open>n\<close> priorities, initialised.  \<open>dev\<close> is what is registered as
  the IPI device.
\<close>

definition host_test ::
  "ipi_dev option \<Rightarrow> (tid \<Rightarrow> nat \<Rightarrow> 'o host_prog) \<Rightarrow> nat \<Rightarrow> 'o host_op list \<Rightarrow> bool" where
  "host_test dev fpoll n script =
     (case boot_kernel (list_vec n) list_list StdIpi n host_statics_new of
        Inl e \<Rightarrow> False
      | Inr k \<Rightarrow> host_passes fpoll n script \<lparr>m_kernel = k\<lparr>k_ipi := dev\<rparr>, m_stack = []\<rparr>)"

section \<open>Futures of the tests\<close>

definition done_once :: "tid \<Rightarrow> nat \<Rightarrow> unit host_prog" where
  "done_once t f = count_poll (Ready ())"

text \<open>\<open>PendingOnce\<close>: wakes itself and is pending at its first poll, ready at the second.\<close>

definition pending_once :: "'o \<Rightarrow> tid \<Rightarrow> nat \<Rightarrow> 'o host_prog" where
  "pending_once v t f = Access (\<lambda>g. g\<lparr>hs_count := hs_count g + 1\<rparr>)
     (\<lambda>g. if hs_count g = 0 then Wake (waker_from_task t) (Pending 0) else Ready v)"

definition record_order :: "(tid \<Rightarrow> nat) \<Rightarrow> tid \<Rightarrow> nat \<Rightarrow> unit host_prog" where
  "record_order label t f = Access (\<lambda>g. g\<lparr>hs_order := hs_order g @ [label t]\<rparr>) (\<lambda>g. Ready ())"

text \<open>\<open>WaitFlag\<close> and \<open>Waiter\<close> store their waker until the flag is set; \<open>Signaler\<close> sets it and wakes.\<close>

definition wait_flag :: "tid \<Rightarrow> nat \<Rightarrow> unit host_prog" where
  "wait_flag t f = Access id (\<lambda>g. if hs_flag g = 1 then Ready ()
     else Access (\<lambda>g. g\<lparr>hs_waker := Some (waker_from_task t)\<rparr>) (\<lambda>g. Pending 0))"

definition signaler :: "tid \<Rightarrow> nat \<Rightarrow> unit host_prog" where
  "signaler t f = Access (\<lambda>g. g\<lparr>hs_flag := 1\<rparr>) (\<lambda>g.
     Access (\<lambda>g. g\<lparr>hs_waker := None\<rparr>) (\<lambda>g. case hs_waker g of None \<Rightarrow> Ready () | Some w \<Rightarrow> Wake w (Ready ())))"

section \<open>Spawner\<close>

definition ut_spawn_token_dropped :: bool where
  "ut_spawn_token_dropped \<longleftrightarrow> (case storage_spawn 0 (0 :: nat) \<lparr>k_tasks = (\<lambda>t. storage_new :: (nat, unit) task_storage),
     k_executors = [] :: tid list executor list, k_bitmap = \<lparr>group_map = 0, group_table = []\<rparr>,
     k_prio_stack = [] :: priority list, k_pend_marker = False, k_ipi = None, k_msip = False, k_app = ()\<rparr> of
       (Inl e, k) \<Rightarrow> False
     | (Inr token, k) \<Rightarrow> (case spawn_token_drop token :: unit result of Inl e \<Rightarrow> e = TokenDropped | Inr u \<Rightarrow> False))"

definition ut_spawner_new_creates_empty :: "ipi_dev option \<Rightarrow> bool" where
  "ut_spawner_new_creates_empty dev \<longleftrightarrow> host_test dev done_once 4 [HPreempt None]"

definition ut_spawn_and_run_single_task :: "ipi_dev option \<Rightarrow> bool" where
  "ut_spawn_and_run_single_task dev \<longleftrightarrow> host_test dev done_once 4
     [HSpawn 0 (Priority 0), HPreempt (Some 0), HCheck (\<lambda>g. hs_count g = 1), HPreempt None]"

definition ut_spawn_multiple_priorities :: "ipi_dev option \<Rightarrow> bool" where
  "ut_spawn_multiple_priorities dev \<longleftrightarrow> host_test dev done_once 4
     [HSpawn 0 (Priority 0), HSpawn 1 (Priority 1), HSpawn 2 (Priority 2), HDrain, HCheck (\<lambda>g. hs_count g = 3)]"

definition ut_preempt_higher_priority_first :: "ipi_dev option \<Rightarrow> bool" where
  "ut_preempt_higher_priority_first dev \<longleftrightarrow> host_test dev (record_order (\<lambda>t. if t = 0 then 2 else 0)) 4
     [HSpawn 0 (Priority 2), HSpawn 1 (Priority 0), HDrain, HCheck (\<lambda>g. hs_order g = [0, 2])]"

definition ut_complete_executor_pops_stack :: "ipi_dev option \<Rightarrow> bool" where
  "ut_complete_executor_pops_stack dev \<longleftrightarrow> host_test dev (\<lambda>t f. Ready ()) 4
     [HSpawn 0 (Priority 0), HSpawn 1 (Priority 1), HPreempt (Some 0), HPreempt (Some 1), HPreempt None]"

definition ut_no_preempt_when_current_is_highest :: "ipi_dev option \<Rightarrow> bool" where
  "ut_no_preempt_when_current_is_highest dev \<longleftrightarrow>
     host_test dev (\<lambda>t f. if t = 0 then Pending 0 else Ready ()) 4
       [HSpawn 0 (Priority 0), HSpawn 1 (Priority 2), HPreempt (Some 0), HPreempt (Some 2), HPreempt None]"

definition ut_wake_from_task :: "ipi_dev option \<Rightarrow> bool" where
  "ut_wake_from_task dev \<longleftrightarrow> host_test dev wait_flag 4
     [HSpawn 0 (Priority 0), HPreempt (Some 0), HSet (\<lambda>g. g\<lparr>hs_flag := 1\<rparr>), HWakeStored, HPreempt (Some 0), HPreempt None]"

definition ut_single_priority_spawner :: "ipi_dev option \<Rightarrow> bool" where
  "ut_single_priority_spawner dev \<longleftrightarrow> host_test dev done_once 1
     [HSpawn 0 (Priority 0), HPreempt (Some 0), HCheck (\<lambda>g. hs_count g = 1)]"

definition ut_respawn_and_re_run :: "ipi_dev option \<Rightarrow> bool" where
  "ut_respawn_and_re_run dev \<longleftrightarrow> host_test dev done_once 4
     (concat (replicate 3 [HSpawn 0 (Priority 0), HPreempt (Some 0)]) @ [HCheck (\<lambda>g. hs_count g = 3)])"

definition ut_inter_task_wake_across_priorities :: "ipi_dev option \<Rightarrow> bool" where
  "ut_inter_task_wake_across_priorities dev \<longleftrightarrow> host_test dev (\<lambda>t. if t = 0 then wait_flag t else signaler t) 4
     [HSpawn 0 (Priority 0), HSpawn 1 (Priority 1), HPreempt (Some 0), HPreempt (Some 1), HPreempt (Some 0),
      HPreempt None, HCheck (\<lambda>g. hs_flag g = 1)]"

definition ut_try_preempt_returns_none_when_bitmap_clear :: "ipi_dev option \<Rightarrow> bool" where
  "ut_try_preempt_returns_none_when_bitmap_clear dev \<longleftrightarrow> host_test dev done_once 4 [HPreempt None]"

definition ut_max_priorities_spawner :: "ipi_dev option \<Rightarrow> bool" where
  "ut_max_priorities_spawner dev \<longleftrightarrow> host_test dev done_once 64
     [HSpawn 1 (Priority 63), HSpawn 0 (Priority 0), HPreempt (Some 0), HPreempt (Some 63), HPreempt None,
      HCheck (\<lambda>g. hs_count g = 2)]"

definition ut_run_token_new_priority :: bool where
  "ut_run_token_new_priority \<longleftrightarrow> (case RunToken (Priority 42) of RunToken p \<Rightarrow> to_usize p = 42)"

section \<open>Task storage\<close>

definition ut_spawn_returns_ok :: "ipi_dev option \<Rightarrow> bool" where
  "ut_spawn_returns_ok dev \<longleftrightarrow> host_test dev (\<lambda>t f. Ready ()) 1 [HStorageSpawn 0 True]"

definition ut_double_spawn_returns_err :: "ipi_dev option \<Rightarrow> bool" where
  "ut_double_spawn_returns_err dev \<longleftrightarrow> host_test dev (\<lambda>t f. Ready ()) 1 [HStorageSpawn 0 True, HStorageSpawn 0 False]"

definition ut_respawn_after_poll_completion :: "ipi_dev option \<Rightarrow> bool" where
  "ut_respawn_after_poll_completion dev \<longleftrightarrow>
     host_test dev (\<lambda>t f. Ready ()) 1 [HStorageSpawn 0 True, HTask 0, HStorageSpawn 0 True]"

definition ut_cannot_respawn_while_running :: "ipi_dev option \<Rightarrow> bool" where
  "ut_cannot_respawn_while_running dev \<longleftrightarrow>
     host_test dev (\<lambda>t f. Ready ()) 1 [HStorageSpawn 0 True, HStorageSpawn 0 False]"

definition ut_task_storage_new_is_unspawned :: "ipi_dev option \<Rightarrow> bool" where
  "ut_task_storage_new_is_unspawned dev \<longleftrightarrow> host_test dev (\<lambda>t f. Ready ()) 1 [HStorageSpawn 0 True]"

definition ut_future_is_polled_correctly :: "ipi_dev option \<Rightarrow> bool" where
  "ut_future_is_polled_correctly dev \<longleftrightarrow> host_test dev done_once 1
     [HStorageSpawn 0 True, HTask 0, HCheck (\<lambda>g. hs_count g = 1)]"

definition ut_pending_future_wake_without_executor :: "ipi_dev option \<Rightarrow> bool" where
  "ut_pending_future_wake_without_executor dev \<longleftrightarrow> host_test dev (pending_once ()) 1
     [HStorageSpawn 0 True, HTask 0, HCheck (\<lambda>g. hs_count g = 1)]"

definition ut_poll_fn_is_exited_after_ready :: "ipi_dev option \<Rightarrow> bool" where
  "ut_poll_fn_is_exited_after_ready dev \<longleftrightarrow> host_test dev (\<lambda>t f. Ready ()) 1 [HStorageSpawn 0 True, HTask 0, HTask 0]"

definition ut_multiple_spawn_cycles :: "ipi_dev option \<Rightarrow> bool" where
  "ut_multiple_spawn_cycles dev \<longleftrightarrow> host_test dev done_once 1
     (concat (replicate 5 [HStorageSpawn 0 True, HTask 0]) @ [HCheck (\<lambda>g. hs_count g = 5)])"

section \<open>Join handles\<close>

definition ut_join_handle_ready_immediately :: "ipi_dev option \<Rightarrow> bool" where
  "ut_join_handle_ready_immediately dev \<longleftrightarrow> host_test dev (\<lambda>t f. Ready (42 :: nat)) 4
     [HSpawn 0 (Priority 0), HDrain, HJoin 0 (Some 42)]"

definition ut_join_handle_pending_then_ready :: "ipi_dev option \<Rightarrow> bool" where
  "ut_join_handle_pending_then_ready dev \<longleftrightarrow> host_test dev (pending_once (99 :: nat)) 4
     [HSpawn 0 (Priority 0), HJoin 0 None, HDrain, HJoin 0 (Some 99)]"

definition ut_join_handle_value_correctness :: "ipi_dev option \<Rightarrow> bool" where
  "ut_join_handle_value_correctness dev \<longleftrightarrow> host_test dev (\<lambda>t f. Ready ''hello'') 4
     [HSpawn 0 (Priority 0), HDrain, HJoin 0 (Some ''hello'')]"

lemma ut_spawn_token_dropped_holds: ut_spawn_token_dropped
  by code_simp

lemma ut_run_token_new_priority_holds: ut_run_token_new_priority
  by code_simp

lemma ut_spawner_new_creates_empty_holds: "ut_spawner_new_creates_empty (Some StdIpi)"
  by code_simp

lemma ut_spawn_and_run_single_task_holds: "ut_spawn_and_run_single_task (Some StdIpi)"
  by code_simp

lemma ut_spawn_multiple_priorities_holds: "ut_spawn_multiple_priorities (Some StdIpi)"
  by code_simp

lemma ut_preempt_higher_priority_first_holds: "ut_preempt_higher_priority_first (Some StdIpi)"
  by code_simp

lemma ut_complete_executor_pops_stack_holds: "ut_complete_executor_pops_stack (Some StdIpi)"
  by code_simp

lemma ut_no_preempt_when_current_is_highest_holds: "ut_no_preempt_when_current_is_highest (Some StdIpi)"
  by code_simp

lemma ut_wake_from_task_holds: "ut_wake_from_task (Some StdIpi)"
  by code_simp

lemma ut_single_priority_spawner_holds: "ut_single_priority_spawner (Some StdIpi)"
  by code_simp

lemma ut_respawn_and_re_run_holds: "ut_respawn_and_re_run (Some StdIpi)"
  by code_simp

lemma ut_inter_task_wake_across_priorities_holds: "ut_inter_task_wake_across_priorities (Some StdIpi)"
  by code_simp

lemma ut_try_preempt_returns_none_when_bitmap_clear_holds: "ut_try_preempt_returns_none_when_bitmap_clear (Some StdIpi)"
  by code_simp

lemma ut_max_priorities_spawner_holds: "ut_max_priorities_spawner (Some StdIpi)"
  by code_simp

lemma ut_spawn_returns_ok_holds: "ut_spawn_returns_ok (Some StdIpi)"
  by code_simp

lemma ut_double_spawn_returns_err_holds: "ut_double_spawn_returns_err (Some StdIpi)"
  by code_simp

lemma ut_respawn_after_poll_completion_holds: "ut_respawn_after_poll_completion (Some StdIpi)"
  by code_simp

lemma ut_cannot_respawn_while_running_holds: "ut_cannot_respawn_while_running (Some StdIpi)"
  by code_simp

lemma ut_task_storage_new_is_unspawned_holds: "ut_task_storage_new_is_unspawned (Some StdIpi)"
  by code_simp

lemma ut_future_is_polled_correctly_holds: "ut_future_is_polled_correctly (Some StdIpi)"
  by code_simp

lemma ut_pending_future_wake_without_executor_holds: "ut_pending_future_wake_without_executor (Some StdIpi)"
  by code_simp

lemma ut_poll_fn_is_exited_after_ready_holds: "ut_poll_fn_is_exited_after_ready (Some StdIpi)"
  by code_simp

lemma ut_multiple_spawn_cycles_holds: "ut_multiple_spawn_cycles (Some StdIpi)"
  by code_simp

lemma ut_join_handle_ready_immediately_holds: "ut_join_handle_ready_immediately (Some StdIpi)"
  by code_simp

lemma ut_join_handle_pending_then_ready_holds: "ut_join_handle_pending_then_ready (Some StdIpi)"
  by code_simp

lemma ut_join_handle_value_correctness_holds: "ut_join_handle_value_correctness (Some StdIpi)"
  by code_simp

text \<open>
  The unit tests of the spawner, of task storage and of join handles pass when the stub of the
  IPI device is registered.
\<close>

theorem host_tests_pass: "ut_spawn_token_dropped \<and> ut_run_token_new_priority \<and>
    ut_spawner_new_creates_empty (Some StdIpi) \<and>
    ut_spawn_and_run_single_task (Some StdIpi) \<and>
    ut_spawn_multiple_priorities (Some StdIpi) \<and>
    ut_preempt_higher_priority_first (Some StdIpi) \<and>
    ut_complete_executor_pops_stack (Some StdIpi) \<and>
    ut_no_preempt_when_current_is_highest (Some StdIpi) \<and>
    ut_wake_from_task (Some StdIpi) \<and> ut_single_priority_spawner (Some StdIpi) \<and>
    ut_respawn_and_re_run (Some StdIpi) \<and>
    ut_inter_task_wake_across_priorities (Some StdIpi) \<and>
    ut_try_preempt_returns_none_when_bitmap_clear (Some StdIpi) \<and>
    ut_max_priorities_spawner (Some StdIpi) \<and> ut_spawn_returns_ok (Some StdIpi) \<and>
    ut_double_spawn_returns_err (Some StdIpi) \<and>
    ut_respawn_after_poll_completion (Some StdIpi) \<and>
    ut_cannot_respawn_while_running (Some StdIpi) \<and>
    ut_task_storage_new_is_unspawned (Some StdIpi) \<and>
    ut_future_is_polled_correctly (Some StdIpi) \<and>
    ut_pending_future_wake_without_executor (Some StdIpi) \<and>
    ut_poll_fn_is_exited_after_ready (Some StdIpi) \<and>
    ut_multiple_spawn_cycles (Some StdIpi) \<and>
    ut_join_handle_ready_immediately (Some StdIpi) \<and>
    ut_join_handle_pending_then_ready (Some StdIpi) \<and>
    ut_join_handle_value_correctness (Some StdIpi)"
  by (intro conjI ut_spawn_token_dropped_holds ut_run_token_new_priority_holds
      ut_spawner_new_creates_empty_holds ut_spawn_and_run_single_task_holds
      ut_spawn_multiple_priorities_holds ut_preempt_higher_priority_first_holds
      ut_complete_executor_pops_stack_holds ut_no_preempt_when_current_is_highest_holds
      ut_wake_from_task_holds ut_single_priority_spawner_holds ut_respawn_and_re_run_holds
      ut_inter_task_wake_across_priorities_holds
      ut_try_preempt_returns_none_when_bitmap_clear_holds ut_max_priorities_spawner_holds
      ut_spawn_returns_ok_holds ut_double_spawn_returns_err_holds
      ut_respawn_after_poll_completion_holds ut_cannot_respawn_while_running_holds
      ut_task_storage_new_is_unspawned_holds ut_future_is_polled_correctly_holds
      ut_pending_future_wake_without_executor_holds ut_poll_fn_is_exited_after_ready_holds
      ut_multiple_spawn_cycles_holds ut_join_handle_ready_immediately_holds
      ut_join_handle_pending_then_ready_holds ut_join_handle_value_correctness_holds)

text \<open>
  No test registers it: \<open>Board::init\<close> of \<open>std-chip\<close> does, and no test calls
  \<open>platform::init\<close>.  Then the first wake or spawn that pends the scheduler panics, so every test
  that spawns on a spawner fails; the tests that only poll a task storage pass.
\<close>

theorem host_tests_need_the_ipi:
  "\<not> ut_spawn_and_run_single_task None \<and> \<not> ut_spawn_multiple_priorities None
   \<and> \<not> ut_preempt_higher_priority_first None \<and> \<not> ut_wake_from_task None
   \<and> \<not> ut_join_handle_ready_immediately None \<and> \<not> ut_join_handle_pending_then_ready None
   \<and> ut_spawner_new_creates_empty None \<and> ut_multiple_spawn_cycles None
   \<and> (case spawner_spawn (list_vec 4) list_list (Priority 0) (SpawnToken 0)
          \<lparr>k_tasks = (\<lambda>t. storage_new :: (nat, unit) task_storage),
           k_executors = map (set_bitmap_ops SpawnerOps \<circ> executor_new list_list) [0..<4],
           k_bitmap = \<lparr>group_map = 0, group_table = replicate 64 0\<rparr>, k_prio_stack = [],
           k_pend_marker = False, k_ipi = None, k_msip = False, k_app = ()\<rparr> of
        Inl e \<Rightarrow> e = NotRegistered | Inr r \<Rightarrow> False)"
  by (intro conjI) code_simp+

end
