(* ===== verification/ExecutorTests.thy ===== *)
theory ExecutorTests
  imports HostTests
begin

text \<open>
  The unit tests of \<open>executor.rs\<close>: one executor whose bitmap operations do nothing, tasks that are
  enqueued by hand, and \<open>Executor::run\<close>, which returns when the queue is empty.
\<close>

definition new_exec :: "nat \<Rightarrow> tid list executor" where
  "new_exec prio = set_bitmap_ops NoopOps (executor_new list_list prio)"

definition executor_test ::
  "ipi_dev option \<Rightarrow> (tid \<Rightarrow> nat \<Rightarrow> 'o host_prog) \<Rightarrow> 'o host_op list \<Rightarrow> bool" where
  "executor_test dev fpoll script = host_passes fpoll 1 script
     \<lparr>m_kernel = \<lparr>k_tasks = (\<lambda>t. storage_new), k_executors = [new_exec 0],
        k_bitmap = \<lparr>group_map = 0, group_table = [0]\<rparr>, k_prio_stack = [], k_pend_marker = False,
        k_ipi = dev, k_msip = False, k_app = host_statics_new\<rparr>, m_stack = []\<rparr>"

text \<open>\<open>enqueue(&exec, TASK.spawn(..).unwrap())\<close>.\<close>

definition spawn_on :: "tid \<Rightarrow> 'o host_op list" where
  "spawn_on t = [HStorageSpawn t True, HEnqueue t]"

definition polled_times :: "nat \<Rightarrow> 'o host_op" where
  "polled_times c = HCheck (\<lambda>g. hs_count g = c)"

definition multi_poll :: "tid \<Rightarrow> nat \<Rightarrow> unit host_prog" where
  "multi_poll t f = Access (\<lambda>g. g\<lparr>hs_count := hs_count g + 1\<rparr>)
     (\<lambda>g. if hs_count g < 4 then Wake (waker_from_task t) (Pending 0) else Ready ())"

definition never_ready :: "tid \<Rightarrow> nat \<Rightarrow> unit host_prog" where
  "never_ready t f = count_poll (Pending 0)"

definition ut_ready_future :: "ipi_dev option \<Rightarrow> bool" where
  "ut_ready_future dev \<longleftrightarrow> executor_test dev (\<lambda>t f. Ready ()) (spawn_on 0 @ [HRun])"

definition ut_pending_then_ready :: "ipi_dev option \<Rightarrow> bool" where
  "ut_pending_then_ready dev \<longleftrightarrow> executor_test dev (pending_once ()) (spawn_on 0 @ [HRun, polled_times 2])"

definition ut_multiple_tasks :: "ipi_dev option \<Rightarrow> bool" where
  "ut_multiple_tasks dev \<longleftrightarrow> executor_test dev done_once (spawn_on 0 @ spawn_on 1 @ [HRun, polled_times 2])"

definition ut_empty_run :: "ipi_dev option \<Rightarrow> bool" where
  "ut_empty_run dev \<longleftrightarrow> executor_test dev done_once [HRun]"

definition ut_multi_poll :: "ipi_dev option \<Rightarrow> bool" where
  "ut_multi_poll dev \<longleftrightarrow> executor_test dev multi_poll (spawn_on 0 @ [HRun, polled_times 5])"

definition ut_inter_task_waking :: "ipi_dev option \<Rightarrow> bool" where
  "ut_inter_task_waking dev \<longleftrightarrow> executor_test dev (\<lambda>t. if t = 0 then wait_flag t else signaler t)
     (spawn_on 0 @ spawn_on 1 @ [HRun, HCheck (\<lambda>g. hs_flag g = 1)])"

definition ut_pending_no_wake :: "ipi_dev option \<Rightarrow> bool" where
  "ut_pending_no_wake dev \<longleftrightarrow> executor_test dev never_ready (spawn_on 0 @ [HRun, HCheck (\<lambda>g. hs_count g \<noteq> 0)])"

definition ut_respawn_after_completion :: "ipi_dev option \<Rightarrow> bool" where
  "ut_respawn_after_completion dev \<longleftrightarrow> executor_test dev done_once
     (spawn_on 0 @ [HRun, polled_times 1] @ spawn_on 0 @ [HRun, polled_times 2])"

definition ut_run_multiple_times :: "ipi_dev option \<Rightarrow> bool" where
  "ut_run_multiple_times dev \<longleftrightarrow> executor_test dev done_once
     (spawn_on 0 @ [HRun, polled_times 1] @ spawn_on 1 @ [HRun, polled_times 2])"

definition ut_many_tasks :: "ipi_dev option \<Rightarrow> bool" where
  "ut_many_tasks dev \<longleftrightarrow> executor_test dev done_once (concat (map spawn_on [0..<8]) @ [HRun, polled_times 8])"

text \<open>
  The tests pass when an IPI device is registered; without one, those in which a task is woken
  panic in \<open>pend\<close> and the others pass.
\<close>

lemma executor_tests_pass:
  "ut_ready_future (Some StdIpi)" "ut_pending_then_ready (Some StdIpi)" "ut_multiple_tasks (Some StdIpi)"
  "ut_empty_run (Some StdIpi)" "ut_multi_poll (Some StdIpi)" "ut_inter_task_waking (Some StdIpi)"
  "ut_pending_no_wake (Some StdIpi)" "ut_respawn_after_completion (Some StdIpi)"
  "ut_run_multiple_times (Some StdIpi)" "ut_many_tasks (Some StdIpi)"
  by code_simp+

lemma executor_tests_without_ipi:
  "\<not> ut_pending_then_ready None" "\<not> ut_multi_poll None" "\<not> ut_inter_task_waking None"
  "ut_ready_future None" "ut_multiple_tasks None" "ut_empty_run None" "ut_pending_no_wake None"
  "ut_respawn_after_completion None" "ut_run_multiple_times None" "ut_many_tasks None"
  by code_simp+

end
