(* ===== verification/Startup.thy ===== *)
theory Startup
  imports Platform SchedTraces
begin

text \<open>
  From reset to the scheduler: the entry point of \<open>archs/riscv64-rt/src/start.rs\<close>, the logger
  (\<open>platform/src/logger.rs\<close>) and \<open>platform::init\<close>, the device tree of the repository
  (\<open>its/rt-async-qemu-virt.dts\<close>), the test \<open>smoke.rs\<close>, and how the parts meet: what \<open>init\<close> leaves is
  what the machine of the executor starts from.
\<close>

section \<open>The entry point\<close>

text \<open>
  The symbols are the linker script's.  \<open>mtvec_new\<close> is \<open>Mtvec::new\<close> of the \<open>riscv\<close> crate in direct
  mode.  A call of a Rust function is its effect on memory and CSRs; the temporaries it may change are
  not followed.
\<close>

record symbols =
  global_pointer :: u64
  sstack :: u64
  sbss :: u64
  ebss :: u64
  trap_entry_at :: u64
  rust_main :: u64

record hart =
  h_cpu :: cpu
  h_mtvec :: u64

datatype start_instr = La nat u64 | CallClearBss | CallStartRust | J u64

primrec fill_zero :: "u64 \<Rightarrow> nat \<Rightarrow> (u64 \<Rightarrow> u64) \<Rightarrow> u64 \<Rightarrow> u64" where
  "fill_zero a 0 m = m"
| "fill_zero a (Suc n) m = fill_zero (a + 8) n (m(a := 0))"

definition clear_bss :: "symbols \<Rightarrow> (u64 \<Rightarrow> u64) \<Rightarrow> u64 \<Rightarrow> u64" where
  "clear_bss sy m = fill_zero (sbss sy) (unat (ebss sy - sbss sy) div 8) m"

definition start_rust :: "(u64 \<Rightarrow> u64) \<Rightarrow> symbols \<Rightarrow> hart \<Rightarrow> hart" where
  "start_rust mtvec_new sy h = h\<lparr>h_mtvec := mtvec_new (trap_entry_at sy)\<rparr>"

definition start_code :: "symbols \<Rightarrow> start_instr list" where
  "start_code sy = [La 3 (global_pointer sy), La 2 (sstack sy), CallClearBss, CallStartRust, J (rust_main sy)]"

definition on_cpu :: "(cpu \<Rightarrow> cpu) \<Rightarrow> hart \<Rightarrow> hart" where
  "on_cpu f h = h\<lparr>h_cpu := f (h_cpu h)\<rparr>"

fun exec_start :: "(u64 \<Rightarrow> u64) \<Rightarrow> symbols \<Rightarrow> start_instr \<Rightarrow> hart \<Rightarrow> hart" where
  "exec_start mtvec_new sy (La r a) h = on_cpu (set_x r a) h"
| "exec_start mtvec_new sy CallClearBss h = on_cpu (\<lambda>s. s\<lparr>cpu_mem := clear_bss sy (cpu_mem s)\<rparr>) h"
| "exec_start mtvec_new sy CallStartRust h = start_rust mtvec_new sy h"
| "exec_start mtvec_new sy (J a) h = on_cpu (\<lambda>s. s\<lparr>cpu_pc := a\<rparr>) h"

definition start_entry :: "(u64 \<Rightarrow> u64) \<Rightarrow> symbols \<Rightarrow> hart \<Rightarrow> hart" where
  "start_entry mtvec_new sy h = fold (exec_start mtvec_new sy) (start_code sy) h"

text \<open>A trap in direct mode goes to the base address of \<open>mtvec\<close>.\<close>

definition trap_to_mtvec :: "u64 \<Rightarrow> hart \<Rightarrow> hart" where
  "trap_to_mtvec cause h = on_cpu (take_trap (h_mtvec h AND NOT 3) cause) h"

lemma fill_zero_other:
  "\<forall>i<n. b \<noteq> a + of_nat i * 8 \<Longrightarrow> fill_zero a n m b = m b"
proof (induction n arbitrary: a m)
  case (Suc n)
  have "\<forall>i<n. b \<noteq> a + 8 + of_nat i * 8"
    using Suc.prems by (auto simp: algebra_simps dest: spec [of _ "Suc _"])
  moreover have "b \<noteq> a" using Suc.prems by (auto dest: spec [of _ 0])
  ultimately show ?case using Suc.IH by simp
qed simp

lemma fill_zero_at:
  "i < n \<Longrightarrow> fill_zero a n m (a + of_nat i * 8) = 0"
proof (induction n arbitrary: a m i)
  case (Suc n)
  show ?case
  proof (cases i)
    case 0
    show ?thesis
    proof (cases "\<exists>j<n. a = a + 8 + of_nat j * 8")
      case True
      then obtain j where j: "j < n" "a = (a + 8) + of_nat j * 8" by blast
      have "fill_zero (a + 8) n (m(a := 0)) ((a + 8) + of_nat j * 8) = 0" using Suc.IH j(1) .
      then show ?thesis using 0 j(2) by simp
    next
      case False
      then show ?thesis using 0 fill_zero_other [of n a "a + 8" "m(a := 0)"] by simp
    qed
  next
    case (Suc i')
    then have "fill_zero (a + 8) n (m(a := 0)) (a + 8 + of_nat i' * 8) = 0"
      using Suc.prems Suc.IH by simp
    then show ?thesis using Suc by (simp add: algebra_simps)
  qed
qed simp

text \<open>
  Whatever the state at reset, \<open>__start\<close> hands \<open>__rust_main\<close> a stack and a global pointer, every
  static of the \<open>.bss\<close> section is zero and the rest of memory is as it was, and a trap goes
  to the trap entry with interrupts disabled, and comes back to the interrupted instruction.
\<close>

lemma start_establishes:
  assumes "\<forall>a. a AND 3 = 0 \<longrightarrow> mtvec_new a AND NOT 3 = a" "trap_entry_at sy AND 3 = 0"
    and "h' = start_entry mtvec_new sy h"
  shows "cpu_pc (h_cpu h') = rust_main sy" "cpu_x (h_cpu h') 2 = sstack sy"
    "cpu_x (h_cpu h') 3 = global_pointer sy"
    "i < unat (ebss sy - sbss sy) div 8 \<Longrightarrow> cpu_mem (h_cpu h') (sbss sy + of_nat i * 8) = 0"
    "\<forall>i<unat (ebss sy - sbss sy) div 8. a \<noteq> sbss sy + of_nat i * 8 \<Longrightarrow>
       cpu_mem (h_cpu h') a = cpu_mem (h_cpu h) a"
    "h_cpu (trap_to_mtvec cause h') = take_trap (trap_entry_at sy) cause (h_cpu h')"
  using assms(1,2) unfolding assms(3)
  by (simp_all add: start_entry_def start_code_def on_cpu_def start_rust_def clear_bss_def trap_to_mtvec_def
      set_x_def fill_zero_at fill_zero_other)

section \<open>The logger\<close>

text \<open>
  \<open>write\<close> is \<open>Serial::write\<close> of a device, \<open>fmt\<close> the text of a record (its level, its message) that
  \<open>core::fmt\<close> makes; a line is passed on in pieces.
\<close>

definition write_str :: "(serial_dev \<Rightarrow> u8 list \<Rightarrow> plat \<Rightarrow> plat result) \<Rightarrow> u8 list \<Rightarrow> plat \<Rightarrow> plat result" where
  "write_str write s p =
     rbind (try_console p) (\<lambda>c. case c of Some con \<Rightarrow> write con s p | None \<Rightarrow> Inr p)"

fun write_fmt :: "(serial_dev \<Rightarrow> u8 list \<Rightarrow> plat \<Rightarrow> plat result) \<Rightarrow> u8 list list \<Rightarrow> plat \<Rightarrow> plat result" where
  "write_fmt write [] p = Inr p"
| "write_fmt write (s # ss) p = rbind (write_str write s p) (write_fmt write ss)"

definition log_enabled :: bool where
  "log_enabled = True"

definition log_record ::
  "(serial_dev \<Rightarrow> u8 list \<Rightarrow> plat \<Rightarrow> plat result) \<Rightarrow> ('l \<Rightarrow> u8 list list) \<Rightarrow> 'l \<Rightarrow> plat \<Rightarrow> plat result" where
  "log_record write fmt r p = (if \<not> log_enabled then Inr p else write_fmt write (fmt r) p)"

text \<open>
  The global state of the \<open>log\<close> crate: whether a logger is set, and the maximal level.  Setting a
  logger fails when there is one.
\<close>

record log_state =
  log_set :: bool
  log_max :: nat

definition logger_init :: "nat \<Rightarrow> log_state \<Rightarrow> (unit + unit) \<times> log_state" where
  "logger_init max_level l = (if log_set l then (Inl (), l) else (Inr (), l\<lparr>log_set := True, log_max := max_level\<rparr>))"

definition platform_init :: "(plat \<Rightarrow> plat result) \<Rightarrow> nat \<Rightarrow> log_state \<times> plat \<Rightarrow> (log_state \<times> plat) result" where
  "platform_init board_init max_level s =
     (case logger_init max_level (fst s) of (r, l) \<Rightarrow> rbind (board_init (snd s)) (\<lambda>p. Inr (l, p)))"

text \<open>
  Before the console is derived, a log call does nothing, while \<open>console()\<close> panics: drivers
  may log while they are probed.
\<close>

lemma early_log_is_dropped:
  assumes "try_console p = Inr None"
  shows "log_record write fmt r p = Inr p" "console p = Inl NotRegistered"
proof -
  have "write_fmt write ss p = Inr p" for ss
    by (induction ss) (simp_all add: write_str_def assms)
  then show "log_record write fmt r p = Inr p" by (simp add: log_record_def)
  show "console p = Inl NotRegistered"
    using assms by (simp add: console_def try_console_def slot_expect_def)
qed

section \<open>The board of the repository\<close>

text \<open>The nodes of \<open>rt-async-qemu-virt.dts\<close> in the order of the tree, the root having level 0.\<close>

definition qemu_virt_fdt :: fdt where
  "qemu_virt_fdt =
    \<lparr>fdt_nodes =
      [\<lparr>nd_level = 0, nd_compatibles = [''ov,rt-async''], nd_reg = None\<rparr>,
       \<lparr>nd_level = 1, nd_compatibles = [], nd_reg = None\<rparr>,
       \<lparr>nd_level = 1, nd_compatibles = [], nd_reg = None\<rparr>,
       \<lparr>nd_level = 2, nd_compatibles = [''riscv''], nd_reg = Some [0]\<rparr>,
       \<lparr>nd_level = 1, nd_compatibles = [''ns16550a''], nd_reg = Some [0x10000000]\<rparr>,
       \<lparr>nd_level = 1, nd_compatibles = [''riscv,clint0''], nd_reg = Some [0x2000000]\<rparr>,
       \<lparr>nd_level = 1, nd_compatibles = [''riscv,clint0-msip''], nd_reg = Some [0x2000000]\<rparr>,
       \<lparr>nd_level = 1, nd_compatibles = [''sifive,test1''], nd_reg = Some [0x100000]\<rparr>,
       \<lparr>nd_level = 1, nd_compatibles = [''ov,rt-async-shm''], nd_reg = Some [0x88000000]\<rparr>,
       \<lparr>nd_level = 1, nd_compatibles = [''riscv,plic0''], nd_reg = Some [0xC000000]\<rparr>],
     fdt_boot_cpuid = 0, fdt_stdout = True, fdt_timebase = Some 10000000\<rparr>"

definition qemu_board :: "plat \<Rightarrow> plat result" where
  "qemu_board = qemu_virt_init (\<lambda>h nd p. p) (\<lambda>h nd p. p) (\<lambda>bs. Some qemu_virt_fdt) []"

text \<open>\<open>smoke.rs\<close>: \<open>init\<close>, a log line, and the shutdown.\<close>

definition smoke_main ::
  "(serial_dev \<Rightarrow> u8 list \<Rightarrow> plat \<Rightarrow> plat result) \<Rightarrow> ('l \<Rightarrow> u8 list list) \<Rightarrow> 'l \<Rightarrow> log_state \<Rightarrow> plat \<Rightarrow> plat result" where
  "smoke_main write fmt line l p =
     rbind (platform_init qemu_board 3 (l, p)) (\<lambda>(l, p).
     rbind (log_record write fmt line p) (\<lambda>p.
     rbind (reset p) (\<lambda>dev. case dev of SifiveTest \<Rightarrow> sifive_shutdown p | StdReset \<Rightarrow> Inr p)))"

lemma qemu_virt_fdt_facts:
  "\<forall>nd\<in>set (fdt_nodes qemu_virt_fdt). node_ok nd"
  "length (filter (matched DrvNs16550a) (fdt_nodes qemu_virt_fdt)) \<le> 4"
  "list_all (\<lambda>d. some_match d (fdt_nodes qemu_virt_fdt)) default_drivers"
  by code_simp+

text \<open>
  The smoke test writes the code of success to the register of the test device, if writing to
  the console leaves that device alone.
\<close>

lemma smoke_passes:
  "(case smoke_main (\<lambda>dev s p. Inr p) (\<lambda>s. [s]) [] \<lparr>log_set = False, log_max = 0\<rparr> (plat_new 0) of
      Inl e \<Rightarrow> False | Inr p \<Rightarrow> p_mem32 p 0x100000 = FINISHER_PASS)"
  by code_simp

section \<open>From the board to the scheduler\<close>

lemma boot_machine_returns:
  assumes "0 < n" "n \<le> 4096"
  obtains m where "boot_machine V L dev n g ops = Inr m"
proof -
  obtain b where "bitmap_new 64 = Inr b" by (rule bitmap_new_ok [of 64]) simp_all
  then show ?thesis using assms that by (simp add: boot_machine_def boot_kernel_def spawner_new_def)
qed

text \<open>
  C34. The parts meet.  Assume that the device tree parses; that it has the timer and the IPI device of the
  CLINT; that every node that a driver matches has a \<open>reg\<close> address, and a serial port one that is not
  zero; that at most four nodes are serial ports; and that the board's \<open>late_init\<close> leaves the timer
  slot alone.  Then \<open>platform::init\<close> returns with the IPI device registered and ready, so that the
  spawner of any size from 1 to 4096 is created and the executor starts in a state from which
  everything proved of the running machine holds; \<open>platform::start\<close> then returns with the software,
  timer and external interrupts enabled and the timer at its maximum.
\<close>

theorem system_boots:
  assumes "from_bytes dtb = Some fdt" "\<forall>nd\<in>set (fdt_nodes fdt). node_ok nd"
    and "length (filter (matched DrvNs16550a) (fdt_nodes fdt)) \<le> 4"
    and "some_match DrvClintMsip (fdt_nodes fdt)" "some_match DrvClintTimer (fdt_nodes fdt)"
    and "0 < n" "n \<le> 4096" and late: "\<And>p. p_timer (late p) = p_timer p"
  shows "\<exists>l p dev m p'. platform_init (qemu_virt_init pins clks from_bytes dtb) lvl (l0, plat_new hart) = Inr (l, p)
    \<and> ipi_of p = Inr (Some dev) \<and> boot_machine V L dev n g ops = Inr m \<and> reachable V L fpoll n m
    \<and> platform_start late p = Inr p' \<and> mtimecmp p' = 2 ^ 64 - 1
    \<and> bit (p_mie p') 3 \<and> bit (p_mie p') 7 \<and> bit (p_mie p') 11 \<and> bit (p_mstatus p') 3"
proof -
  obtain p where p: "qemu_virt_init pins clks from_bytes dtb (plat_new hart) = Inr p"
      "slot_get (p_timer p) = Inr (Some ClintTimer)" "ipi_of p = Inr (Some (ClintMsip True))"
    using qemu_virt_boots [of from_bytes dtb, OF assms(1-3), of pins clks hart] assms(4,5) by auto
  obtain l where l: "platform_init (qemu_virt_init pins clks from_bytes dtb) lvl (l0, plat_new hart) = Inr (l, p)"
    by (cases "log_set l0") (simp_all add: platform_init_def logger_init_def p(1))
  obtain m where m: "boot_machine V L (ClintMsip True) n g ops = Inr m" "reachable V L fpoll n m"
    using boot_machine_returns [OF assms(6,7)] reach_boot by metis
  have "slot_get (p_timer (late p)) = Inr (Some ClintTimer)" using p(2) by (simp add: late)
  then obtain p' where p': "platform_start late p = Inr p'" "mtimecmp p' = 2 ^ 64 - 1"
      "\<forall>i. bit (p_mie p') i \<longleftrightarrow> i \<in> {3, 7, 11} \<or> bit (p_mie (late p)) i"
      "\<forall>i. bit (p_mstatus p') i \<longleftrightarrow> i = 3 \<or> bit (p_mstatus (late p)) i"
    using start_enables_interrupts by blast
  show ?thesis
    using l p(3) m p'(1,2)
    by (intro exI [of _ l] exI [of _ p] exI [of _ "ClintMsip True"] exI [of _ m] exI [of _ p'])
      (simp add: p'(3,4))
qed

theorem system_boots_witness:
  "\<exists>l p m p'. platform_init qemu_board 3 (\<lparr>log_set = False, log_max = 0\<rparr>, plat_new 0) = Inr (l, p)
    \<and> boot_machine (list_vec 4) list_list (ClintMsip True) 4 () [IsrSpawn 0 0 (Priority 2)] = Inr m
    \<and> reachable (list_vec 4) list_list demo_app 4 m
    \<and> platform_start (\<lambda>p. p) p = Inr p' \<and> bit (p_mstatus p') 3"
proof -
  have match: "some_match DrvClintMsip (fdt_nodes qemu_virt_fdt)" "some_match DrvClintTimer (fdt_nodes qemu_virt_fdt)"
    using qemu_virt_fdt_facts(3) by (simp_all add: default_drivers_def)
  obtain p where p: "qemu_board (plat_new 0) = Inr p" "ipi_of p = Inr (Some (ClintMsip True))"
    using qemu_virt_boots [where from_bytes = "\<lambda>bs. Some qemu_virt_fdt" and dtb = "[]" and hart = 0, OF refl
        qemu_virt_fdt_facts(1,2)] match unfolding qemu_board_def by auto
  obtain l p1 dev m p' where r: "platform_init qemu_board 3 (\<lparr>log_set = False, log_max = 0\<rparr>, plat_new 0) = Inr (l, p1)"
      "ipi_of p1 = Inr (Some dev)" "boot_machine (list_vec 4) list_list dev 4 () [IsrSpawn 0 0 (Priority 2)] = Inr m"
      "reachable (list_vec 4) list_list demo_app 4 m" "platform_start (\<lambda>p. p) p1 = Inr p'" "bit (p_mstatus p') 3"
    using system_boots [where from_bytes = "\<lambda>bs. Some qemu_virt_fdt" and dtb = "[]" and hart = 0, OF refl
        qemu_virt_fdt_facts(1,2) match, of 4 "\<lambda>p. p" "\<lambda>h nd p. p" "\<lambda>h nd p. p" 3 "\<lparr>log_set = False, log_max = 0\<rparr>"
        "list_vec 4" list_list "()" "[IsrSpawn 0 0 (Priority 2)]" demo_app]
    unfolding qemu_board_def by force
  have "p1 = p" using r(1) p(1) by (simp add: platform_init_def logger_init_def)
  then have "dev = ClintMsip True" using r(2) p(2) by simp
  then show ?thesis using r by blast
qed

end
