(* ===== verification/GeneratedCode.thy ===== *)
theory GeneratedCode
  imports Macros Startup
begin

text \<open>
  The code that \<open>#[executor::main]\<close> and \<open>#[executor::interrupt]\<close> generate
  (\<open>modules/executor-macro/src/lib.rs\<close>): \<open>__rust_main\<close>, \<open>MachineSoft\<close> and the handlers, as the
  statements of the expansion, and their execution on the hart with the interrupt enable of
  \<open>mstatus\<close> as the trap path leaves it.  The machine of theory \<open>Machine\<close> is an abstraction of it:
  every state that the generated code reaches is one that the machine reaches.
\<close>

section \<open>The expansion\<close>

datatype stmt =
    PlatformInit level_filter
  | WriteSpawner nat
  | InitSpawner
  | CallMain
  | PlatformStart
  | PlatformIdle
  | CallInner
  | EnableInterrupts
  | CallRun
  | DisableInterrupts
  | CompleteExecutor
  | CallBody
  | IfClearPend "stmt list"
  | WhileTryPreempt "stmt list"
  | LoopForever "stmt list"

definition rust_main_code :: "main_items \<Rightarrow> stmt list" where
  "rust_main_code items =
     [PlatformInit (mi_log_level items), WriteSpawner (mi_n items), InitSpawner, CallMain, PlatformStart,
      LoopForever [PlatformIdle]]"

definition machine_soft_code :: "stmt list" where
  "machine_soft_code =
     [CallInner,
      IfClearPend [WhileTryPreempt [EnableInterrupts, CallRun, DisableInterrupts, CompleteExecutor]]]"

definition interrupt_code :: "stmt list" where
  "interrupt_code = [CallBody]"

text \<open>
  The function that \<open>#[task]\<close> generates: it passes its arguments on to the closure that makes the
  future, in the \<open>TaskStorage::spawn\<close> of the static of the function (task \<open>t\<close>).
\<close>

definition task_fn ::
  "tid \<Rightarrow> ('a \<Rightarrow> 'f) \<Rightarrow> 'a \<Rightarrow> ('f, 'o, 'q, 's, 'g) kernel \<Rightarrow>
   (spawn_error + spawn_token) \<times> ('f, 'o, 'q, 's, 'g) kernel" where
  "task_fn t construct args k = storage_spawn t (construct args) k"

lemma task_fn_once:
  "fst (task_fn t construct args k) = (if spawned (ti_state (k_tasks k t)) then Inl SpawnError else Inr (SpawnToken t))"
  "fst (task_fn t construct args' (snd (task_fn t construct args k))) = Inl SpawnError"
  by (simp_all add: task_fn_def storage_spawn_def put_state_def upd_task_def case_prod_beta)

section \<open>Activations of generated functions\<close>

text \<open>
  What is left of the function, the function that it has called and that has not returned (user
  code or \<open>Spawner::run\<close>, as an activation of the machine), the token of the last \<open>try_preempt\<close>,
  what the user's code will do, and the \<open>mstatus\<close> that its trap frame holds.
\<close>

record ('f, 'o, 'g) activation =
  a_code :: "stmt list"
  a_call :: "('f, 'o, 'g) frame option"
  a_token :: "run_token option"
  a_ops :: "('f, 'g) isr_op list"
  a_saved :: u64

record ('f, 'o, 'q, 's, 'g) system =
  s_kernel :: "('f, 'o, 'q, 's, 'g) kernel"
  s_log :: log_state
  s_plat :: plat
  s_acts :: "('f, 'o, 'g) activation list"

fun returned :: "('f, 'o, 'g) frame \<Rightarrow> bool" where
  "returned (FIrq kind [] None) = True"
| "returned (FRunEnd e) = True"
| "returned fr = False"

definition level_number :: "level_filter \<Rightarrow> nat" where
  "level_number l = (case l of LOff \<Rightarrow> 0 | LError \<Rightarrow> 1 | LWarn \<Rightarrow> 2 | LInfo \<Rightarrow> 3 | LDebug \<Rightarrow> 4 | LTrace \<Rightarrow> 5)"

section \<open>Execution\<close>

text \<open>
  One statement of the running activation \<open>a\<close>; \<open>rest\<close> follows it.  \<open>board\<close> and \<open>late\<close> are the
  board's \<open>init\<close> and \<open>late_init\<close>; the executor reads the IPI device from the slot that \<open>init\<close> fills.
\<close>

type_synonym ('f, 'o, 'q, 's, 'g) effect =
  "(('f, 'o, 'g) activation \<times> ('f, 'o, 'q, 's, 'g) kernel \<times> log_state \<times> plat) result"

fun exec_stmt ::
  "(priority, 's) vec_api \<Rightarrow> (tid, 'q) list_api \<Rightarrow> (plat \<Rightarrow> plat result) \<Rightarrow> (plat \<Rightarrow> plat) \<Rightarrow>
   ('f, 'o, 'g) activation \<Rightarrow> stmt \<Rightarrow> stmt list \<Rightarrow> ('f, 'o, 'q, 's, 'g) kernel \<Rightarrow> log_state \<Rightarrow> plat \<Rightarrow>
   ('f, 'o, 'q, 's, 'g) effect" where
  "exec_stmt V L board late a (PlatformInit level) rest k l p =
     rbind (platform_init board (level_number level) (l, p)) (\<lambda>(l', p').
     rbind (ipi_of p') (\<lambda>dev. Inr (a\<lparr>a_code := rest\<rparr>, k\<lparr>k_ipi := dev\<rparr>, l', p')))"
| "exec_stmt V L board late a (WriteSpawner n) rest k l p =
     rbind (spawner_new V L n k) (\<lambda>k'. Inr (a\<lparr>a_code := rest\<rparr>, k', l, p))"
| "exec_stmt V L board late a InitSpawner rest k l p = Inr (a\<lparr>a_code := rest\<rparr>, spawner_init k, l, p)"
| "exec_stmt V L board late a CallMain rest k l p =
     Inr (a\<lparr>a_code := rest, a_call := Some (FIrq KBoot (a_ops a) None)\<rparr>, k, l, p)"
| "exec_stmt V L board late a PlatformStart rest k l p =
     rbind (platform_start late p) (\<lambda>p'. Inr (a\<lparr>a_code := rest\<rparr>, k, l, p'))"
| "exec_stmt V L board late a PlatformIdle rest k l p = Inr (a\<lparr>a_code := rest\<rparr>, k, l, p)"
| "exec_stmt V L board late a CallInner rest k l p =
     Inr (a\<lparr>a_code := rest, a_call := Some (FIrq KHook (a_ops a) None)\<rparr>, k, l, p)"
| "exec_stmt V L board late a EnableInterrupts rest k l p = Inr (a\<lparr>a_code := rest\<rparr>, k, l, enable_interrupts p)"
| "exec_stmt V L board late a CallRun rest k l p =
     (case a_token a of
        None \<Rightarrow> Inl UndefinedBehaviour
      | Some (RunToken prio) \<Rightarrow>
          if to_usize prio < length (k_executors k)
          then Inr (a\<lparr>a_code := rest, a_call := Some (FLoop (to_usize prio))\<rparr>, k, l, p)
          else Inl IndexOutOfBounds)"
| "exec_stmt V L board late a DisableInterrupts rest k l p = Inr (a\<lparr>a_code := rest\<rparr>, k, l, disable_interrupts p)"
| "exec_stmt V L board late a CompleteExecutor rest k l p =
     Inr (a\<lparr>a_code := rest\<rparr>, complete_executor V k, l, p)"
| "exec_stmt V L board late a CallBody rest k l p =
     Inr (a\<lparr>a_code := rest, a_call := Some (FIrq KIsr (a_ops a) None)\<rparr>, k, l, p)"
| "exec_stmt V L board late a (IfClearPend body) rest k l p =
     rbind (clear_pend k) (\<lambda>(is_system, k').
       Inr (a\<lparr>a_code := (if is_system then body @ rest else rest)\<rparr>, k', l, p))"
| "exec_stmt V L board late a (WhileTryPreempt body) rest k l p =
     rbind (try_preempt V k) (\<lambda>(rt, k').
       case rt of
         None \<Rightarrow> Inr (a\<lparr>a_code := rest\<rparr>, k', l, p)
       | Some token \<Rightarrow> Inr (a\<lparr>a_code := body @ WhileTryPreempt body # rest, a_token := Some token\<rparr>, k', l, p))"
| "exec_stmt V L board late a (LoopForever body) rest k l p =
     Inr (a\<lparr>a_code := body @ LoopForever body # rest\<rparr>, k, l, p)"

text \<open>A step of a called function; a call returns to the statement after it.\<close>

definition exec_call ::
  "(priority, 's) vec_api \<Rightarrow> (tid, 'q) list_api \<Rightarrow> (tid \<Rightarrow> 'f \<Rightarrow> ('f, 'o, 'g) prog) \<Rightarrow>
   ('f, 'o, 'g) activation \<Rightarrow> ('f, 'o, 'g) frame \<Rightarrow> ('f, 'o, 'q, 's, 'g) kernel \<Rightarrow> log_state \<Rightarrow> plat \<Rightarrow>
   ('f, 'o, 'q, 's, 'g) effect" where
  "exec_call V L fpoll a fr k l p =
     (if returned fr then Inr (a\<lparr>a_call := None\<rparr>, k, l, p)
      else rbind (step_frame V L fpoll fr k) (\<lambda>(frs, k').
        case frs of [fr'] \<Rightarrow> Inr (a\<lparr>a_call := Some fr'\<rparr>, k', l, p) | _ \<Rightarrow> Inl UndefinedBehaviour))"

text \<open>
  \<open>mstatus\<close> when a trap is taken and after the \<open>mret\<close> of the trap path, which writes the saved
  value back before.
\<close>

definition trap_status :: "u64 \<Rightarrow> u64" where
  "trap_status w = clear_mie (put_bit 7 (bit w 3) w)"

definition mret_status :: "u64 \<Rightarrow> u64" where
  "mret_status w = put_bit 7 True (put_bit 3 (bit w 7) w)"

lemma status_cpu:
  "cpu_mstatus (take_trap entry cause s) = trap_status (cpu_mstatus s)"
  "cpu_mstatus (mret s) = mret_status (cpu_mstatus s)"
  by (simp_all add: take_trap_def mret_def trap_status_def mret_status_def)

definition push_handler ::
  "stmt list \<Rightarrow> ('f, 'g) isr_op list \<Rightarrow> ('f, 'o, 'q, 's, 'g) system \<Rightarrow> ('f, 'o, 'q, 's, 'g) system" where
  "push_handler code ops s =
     (let w = trap_status (p_mstatus (s_plat s)) in
      s\<lparr>s_plat := (s_plat s)\<lparr>p_mstatus := w\<rparr>,
        s_acts := \<lparr>a_code = code, a_call = None, a_token = None, a_ops = ops, a_saved = w\<rparr> # s_acts s\<rparr>)"

text \<open>
  An interrupt is taken if it is pending, enabled in \<open>mie\<close>, and interrupts are enabled; those
  that are not software interrupts may be pending at any time.
\<close>

fun sys_exec ::
  "(priority, 's) vec_api \<Rightarrow> (tid, 'q) list_api \<Rightarrow> (tid \<Rightarrow> 'f \<Rightarrow> ('f, 'o, 'g) prog) \<Rightarrow> (plat \<Rightarrow> plat result) \<Rightarrow>
   (plat \<Rightarrow> plat) \<Rightarrow> ('f, 'g) event \<Rightarrow> ('f, 'o, 'q, 's, 'g) system \<Rightarrow> ('f, 'o, 'q, 's, 'g) system result option" where
  "sys_exec V L fpoll board late Step s =
     (case s_acts s of
        [] \<Rightarrow> None
      | a # acts \<Rightarrow>
          let done = (\<lambda>(a', k', l', p'). Inr \<lparr>s_kernel = k', s_log = l', s_plat = p', s_acts = a' # acts\<rparr>) in
          (case a_call a of
             Some fr \<Rightarrow> Some (rbind (exec_call V L fpoll a fr (s_kernel s) (s_log s) (s_plat s)) done)
           | None \<Rightarrow>
               (case a_code a of
                  stm # rest \<Rightarrow>
                    Some (rbind (exec_stmt V L board late a stm rest (s_kernel s) (s_log s) (s_plat s)) done)
                | [] \<Rightarrow> Some (Inr (s\<lparr>s_acts := acts,
                    s_plat := (s_plat s)\<lparr>p_mstatus := mret_status (a_saved a)\<rparr>\<rparr>)))))"
| "sys_exec V L fpoll board late (TakeIsr ops) s =
     (if bit (p_mstatus (s_plat s)) 3 \<and> (bit (p_mie (s_plat s)) 7 \<or> bit (p_mie (s_plat s)) 11)
      then Some (Inr (push_handler interrupt_code ops s)) else None)"
| "sys_exec V L fpoll board late (TakeMsi ops) s =
     (if bit (p_mstatus (s_plat s)) 3 \<and> bit (p_mie (s_plat s)) 3 \<and> k_msip (s_kernel s)
      then Some (Inr (push_handler machine_soft_code ops s)) else None)"
| "sys_exec V L fpoll board late RaiseMsi s =
     Some (Inr (s\<lparr>s_kernel := (s_kernel s)\<lparr>k_msip := True\<rparr>\<rparr>))"

text \<open>The statics as the image has them, and the start of \<open>__rust_main\<close> after reset.\<close>

definition static_kernel :: "(priority, 's) vec_api \<Rightarrow> 'g \<Rightarrow> ('f, 'o, 'q, 's, 'g) kernel" where
  "static_kernel V g =
     \<lparr>k_tasks = (\<lambda>t. storage_new), k_executors = [], k_bitmap = \<lparr>group_map = 0, group_table = []\<rparr>,
      k_prio_stack = vec_new V, k_pend_marker = False, k_ipi = None, k_msip = False, k_app = g\<rparr>"

definition sys_start ::
  "(priority, 's) vec_api \<Rightarrow> main_items \<Rightarrow> log_state \<Rightarrow> plat \<Rightarrow> 'g \<Rightarrow> ('f, 'g) isr_op list \<Rightarrow>
   ('f, 'o, 'q, 's, 'g) system" where
  "sys_start V items l p g ops =
     \<lparr>s_kernel = static_kernel V g, s_log = l, s_plat = p,
      s_acts = [\<lparr>a_code = rust_main_code items, a_call = None, a_token = None, a_ops = ops, a_saved = 0\<rparr>]\<rparr>"

inductive sys_reachable ::
  "(priority, 's) vec_api \<Rightarrow> (tid, 'q) list_api \<Rightarrow> (tid \<Rightarrow> 'f \<Rightarrow> ('f, 'o, 'g) prog) \<Rightarrow> (plat \<Rightarrow> plat result) \<Rightarrow>
   (plat \<Rightarrow> plat) \<Rightarrow> main_items \<Rightarrow> plat \<Rightarrow> ('f, 'o, 'q, 's, 'g) system \<Rightarrow> bool"
  for V :: "(priority, 's) vec_api" and L :: "(tid, 'q) list_api" and fpoll :: "tid \<Rightarrow> 'f \<Rightarrow> ('f, 'o, 'g) prog"
    and board :: "plat \<Rightarrow> plat result" and late :: "plat \<Rightarrow> plat" and items :: main_items and p0 :: plat where
  sys_boot: "sys_reachable V L fpoll board late items p0 (sys_start V items l p0 g ops)"
| sys_step: "sys_reachable V L fpoll board late items p0 s \<Longrightarrow>
    sys_exec V L fpoll board late ev s = Some (Inr s') \<Longrightarrow> sys_reachable V L fpoll board late items p0 s'"

section \<open>Which activation of the machine a point of the generated code is\<close>

definition run_code :: "stmt list" where
  "run_code = [EnableInterrupts, CallRun, DisableInterrupts, CompleteExecutor]"

text \<open>
  The relation gives the point of the code, whether interrupts are enabled there, and the
  activations of the machine: one, or none when only the return from the trap is left.
\<close>

inductive at_main :: "('f, 'o, 'g) activation \<Rightarrow> bool \<Rightarrow> ('f, 'o, 'g) frame \<Rightarrow> bool" where
  main_runs: "a_code a = [PlatformStart, LoopForever [PlatformIdle]] \<Longrightarrow> a_call a = Some (FIrq KBoot ops st) \<Longrightarrow>
    at_main a False (FIrq KBoot ops st)"
| main_done: "a_code a = [PlatformStart, LoopForever [PlatformIdle]] \<Longrightarrow> a_call a = None \<Longrightarrow>
    at_main a False (FIrq KBoot [] None)"
| main_loop: "a_code a = [LoopForever [PlatformIdle]] \<Longrightarrow> a_call a = None \<Longrightarrow> at_main a True FIdle"
| main_idle: "a_code a = [PlatformIdle, LoopForever [PlatformIdle]] \<Longrightarrow> a_call a = None \<Longrightarrow> at_main a True FIdle"

inductive at_handler :: "('f, 'o, 'g) activation \<Rightarrow> bool \<Rightarrow> ('f, 'o, 'g) frame list \<Rightarrow> bool" where
  soft_enter: "a_code a = [CallInner, IfClearPend [WhileTryPreempt run_code]] \<Longrightarrow> a_call a = None \<Longrightarrow>
    at_handler a False [FIrq KHook (a_ops a) None]"
| soft_inner: "a_code a = [IfClearPend [WhileTryPreempt run_code]] \<Longrightarrow> a_call a = Some (FIrq KHook ops st) \<Longrightarrow>
    at_handler a False [FIrq KHook ops st]"
| soft_clear: "a_code a = [IfClearPend [WhileTryPreempt run_code]] \<Longrightarrow> a_call a = None \<Longrightarrow> at_handler a False [FClear]"
| soft_while: "a_code a = [WhileTryPreempt run_code] \<Longrightarrow> a_call a = None \<Longrightarrow> at_handler a False [FSched]"
| soft_enable: "a_code a = run_code @ [WhileTryPreempt run_code] \<Longrightarrow> a_call a = None \<Longrightarrow>
    a_token a = Some (RunToken p) \<Longrightarrow> at_handler a False [FLoop (to_usize p)]"
| soft_run: "a_code a = [CallRun, DisableInterrupts, CompleteExecutor, WhileTryPreempt run_code] \<Longrightarrow> a_call a = None \<Longrightarrow>
    a_token a = Some (RunToken p) \<Longrightarrow> at_handler a True [FLoop (to_usize p)]"
| soft_running: "a_code a = [DisableInterrupts, CompleteExecutor, WhileTryPreempt run_code] \<Longrightarrow> a_call a = Some fr \<Longrightarrow>
    active fr = Some e \<Longrightarrow> frame_mie fr \<Longrightarrow> at_handler a True [fr]"
| soft_ran: "a_code a = [DisableInterrupts, CompleteExecutor, WhileTryPreempt run_code] \<Longrightarrow> a_call a = None \<Longrightarrow>
    at_handler a True [FRunEnd e]"
| soft_complete: "a_code a = [CompleteExecutor, WhileTryPreempt run_code] \<Longrightarrow> a_call a = None \<Longrightarrow>
    at_handler a False [FComplete e]"
| isr_enter: "a_code a = [CallBody] \<Longrightarrow> a_call a = None \<Longrightarrow> at_handler a False [FIrq KIsr (a_ops a) None]"
| isr_body: "a_code a = [] \<Longrightarrow> a_call a = Some (FIrq KIsr ops st) \<Longrightarrow> at_handler a False [FIrq KIsr ops st]"
| handler_done: "a_code a = [] \<Longrightarrow> a_call a = None \<Longrightarrow> at_handler a False []"

text \<open>The stack of activations, the running one first; \<open>w\<close> is \<open>mstatus\<close> when it runs.\<close>

inductive at_stack :: "u64 \<Rightarrow> ('f, 'o, 'g) activation list \<Rightarrow> ('f, 'o, 'g) frame list \<Rightarrow> bool" where
  only_main: "at_main a (bit w 3) fr \<Longrightarrow> at_stack w [a] [fr]"
| on_handler: "at_handler a (bit w 3) frs \<Longrightarrow> bit (a_saved a) 7 \<Longrightarrow> at_stack (mret_status (a_saved a)) acts stk \<Longrightarrow>
    at_stack w (a # acts) (frs @ stk)"

inductive_cases at_mainE: "at_main a mie fr"
inductive_cases at_handlerE: "at_handler a mie frs"
inductive_cases at_stackE: "at_stack w (a # acts) stk"

lemma status_bits [simp]:
  "\<not> bit (trap_status w) 3" "bit (trap_status w) 7 \<longleftrightarrow> bit w 3" "bit (mret_status w) 3 \<longleftrightarrow> bit w 7"
  "bit (set_mie w) 3" "\<not> bit (clear_mie w) 3"
  by (simp_all add: trap_status_def mret_status_def clear_mie_def set_mie_def bit_put_bit)

lemma at_stack_enabled:
  assumes "at_stack w acts stk" "bit w 3"
  obtains fr rest where "stk = fr # rest" "frame_mie fr"
  using assms by (cases rule: at_stack.cases) (auto elim!: at_mainE at_handlerE)

section \<open>One step\<close>

definition matches ::
  "(priority, 's) vec_api \<Rightarrow> (tid, 'q) list_api \<Rightarrow> (tid \<Rightarrow> 'f \<Rightarrow> ('f, 'o, 'g) prog) \<Rightarrow> ('f, 'o, 'g) frame list \<Rightarrow>
   ('f, 'o, 'q, 's, 'g) kernel \<Rightarrow> ('f, 'o, 'g) frame list \<Rightarrow> ('f, 'o, 'q, 's, 'g) kernel \<Rightarrow> bool" where
  "matches V L fpoll frs k frs' k' \<longleftrightarrow>
     frs' = frs \<and> k' = k \<or> (\<exists>fr. frs = [fr] \<and> step_frame V L fpoll fr k = Inr (frs', k'))"

lemma handler_stays:
  "at_handler a mie frs \<Longrightarrow> \<exists>frs'. at_handler a mie frs' \<and> matches V L fpoll frs k frs' k"
  by (auto simp: matches_def)

lemma handler_moves:
  "step_frame V L fpoll fr k = Inr (frs', k') \<Longrightarrow> at_handler a mie frs' \<Longrightarrow>
    \<exists>frs'. at_handler a mie frs' \<and> matches V L fpoll [fr] k frs' k'"
  by (auto simp: matches_def)

lemma main_stays: "at_main a mie fr \<Longrightarrow> \<exists>fr'. at_main a mie fr' \<and> matches V L fpoll [fr] k [fr'] k"
  by (auto simp: matches_def)

lemma main_moves:
  "step_frame V L fpoll fr k = Inr ([fr'], k') \<Longrightarrow> at_main a mie fr' \<Longrightarrow>
    \<exists>fr'. at_main a mie fr' \<and> matches V L fpoll [fr] k [fr'] k'"
  by (auto simp: matches_def)

lemma main_stmt:
  assumes "at_main a (bit (p_mstatus p) 3) fr" "a_call a = None" "a_code a = stm # rest"
    and "exec_stmt V L board late a stm rest k l p = Inr (a', k', l', p')"
  shows "\<exists>fr'. at_main a' (bit (p_mstatus p') 3) fr' \<and> matches V L fpoll [fr] k [fr'] k'"
  using assms(1)
proof (cases rule: at_main.cases)
  case main_done
  have r: "a' = a\<lparr>a_code := [LoopForever [PlatformIdle]]\<rparr>" "k' = k" "bit (p_mstatus p') 3"
    using main_done assms(2-4) by (auto simp: rbind_Inr_iff platform_start_def Let_def enable_interrupts_def)
  have "step_frame V L fpoll fr k = Inr ([FIdle], k)" using main_done by simp
  moreover have "at_main a' (bit (p_mstatus p') 3) FIdle"
    using main_done r by (auto intro!: main_loop)
  ultimately show ?thesis using r(2) by (auto intro: main_moves)
next
  case main_loop
  have "at_main a' (bit (p_mstatus p') 3) fr" "k' = k"
    using main_loop assms(2-4) by (auto intro!: main_idle)
  then show ?thesis by (auto intro: main_stays)
next
  case main_idle
  have "at_main a' (bit (p_mstatus p') 3) fr" "k' = k"
    using main_idle assms(2-4) by (auto intro!: main_loop)
  then show ?thesis by (auto intro: main_stays)
qed (use assms(2) in simp_all)

lemma soft_stmt:
  assumes "a_code a = [WhileTryPreempt run_code]" "a_call a = None" "\<not> bit (p_mstatus p) 3"
    and "exec_stmt V L board late a (WhileTryPreempt run_code) [] k l p = Inr (a', k', l', p')"
    and "\<And>q. try_preempt V k = Inr (Some (RunToken q), k') \<Longrightarrow> to_usize q < length (k_executors k')"
  shows "a_saved a' = a_saved a
    \<and> (\<exists>frs'. at_handler a' (bit (p_mstatus p') 3) frs' \<and> matches V L fpoll [FSched] k frs' k')"
proof -
  obtain rt where rt: "try_preempt V k = Inr (rt, k')" "p' = p"
    using assms(4) by (auto simp: rbind_Inr_iff split: option.splits)
  show ?thesis
  proof (cases rt)
    case None
    have a': "a' = a\<lparr>a_code := []\<rparr>" using rt assms(4) None by simp
    have "at_handler a' (bit (p_mstatus p') 3) []"
      using rt assms(2,3) unfolding a' by (auto intro!: handler_done)
    moreover have "step_frame V L fpoll FSched k = Inr ([], k')" using rt None by simp
    ultimately show ?thesis using a' by (auto intro: handler_moves)
  next
    case (Some token)
    obtain q where q: "token = RunToken q" by (cases token)
    then have a': "a' = a\<lparr>a_code := run_code @ [WhileTryPreempt run_code], a_token := Some (RunToken q)\<rparr>"
      using rt assms(4) Some by simp
    have "at_handler a' (bit (p_mstatus p') 3) [FLoop (to_usize q)]"
      using rt assms(2,3) unfolding a' by (auto intro!: soft_enable)
    moreover have "step_frame V L fpoll FSched k = Inr ([FLoop (to_usize q)], k')"
      using rt Some q assms(5) by simp
    ultimately show ?thesis using a' by (auto intro: handler_moves)
  qed
qed

lemma handler_stmt:
  assumes "at_handler a (bit (p_mstatus p) 3) frs" "a_call a = None" "a_code a = stm # rest"
    and "exec_stmt V L board late a stm rest k l p = Inr (a', k', l', p')"
    and "\<And>q. frs = [FSched] \<Longrightarrow> try_preempt V k = Inr (Some (RunToken q), k') \<Longrightarrow> to_usize q < length (k_executors k')"
  shows "a_saved a' = a_saved a
    \<and> (\<exists>frs'. at_handler a' (bit (p_mstatus p') 3) frs' \<and> matches V L fpoll frs k frs' k')"
  using assms(1)
proof (cases rule: at_handler.cases)
  case soft_enter
  then have "at_handler a' (bit (p_mstatus p') 3) frs" "k' = k" "a_saved a' = a_saved a"
    using assms(2-4) by (auto intro!: soft_inner)
  then show ?thesis by (auto intro: handler_stays)
next
  case isr_enter
  then have "at_handler a' (bit (p_mstatus p') 3) frs" "k' = k" "a_saved a' = a_saved a"
    using assms(2-4) by (auto intro!: isr_body)
  then show ?thesis by (auto intro: handler_stays)
next
  case soft_clear
  then obtain sys where c: "clear_pend k = Inr (sys, k')" "p' = p"
      "a' = a\<lparr>a_code := (if sys then [WhileTryPreempt run_code] else [])\<rparr>"
    using assms(2-4) by (auto simp: rbind_Inr_iff)
  have "step_frame V L fpoll FClear k = Inr (if sys then [FSched] else [], k')" using c by simp
  moreover have "at_handler a' (bit (p_mstatus p') 3) (if sys then [FSched] else [])"
    using soft_clear c by (auto intro!: soft_while handler_done)
  ultimately show ?thesis using soft_clear c(3) by (auto intro: handler_moves)
next
  case soft_while
  then show ?thesis using soft_stmt [of a p V L board late k l a' k' l' p' fpoll] assms(2-5) by auto
next
  case (soft_enable q)
  then have "at_handler a' (bit (p_mstatus p') 3) frs" "k' = k" "a_saved a' = a_saved a"
    using assms(2-4) by (auto simp: run_code_def enable_interrupts_def intro!: soft_run)
  then show ?thesis by (auto intro: handler_stays)
next
  case (soft_run q)
  then have "at_handler a' (bit (p_mstatus p') 3) frs" "k' = k" "a_saved a' = a_saved a"
    using assms(2-4) by (auto split: if_splits intro!: soft_running)
  then show ?thesis by (auto intro: handler_stays)
next
  case (soft_ran e)
  then have r: "at_handler a' (bit (p_mstatus p') 3) [FComplete e]" "k' = k" "a_saved a' = a_saved a"
    using assms(2-4) by (auto simp: disable_interrupts_def intro!: soft_complete)
  have "step_frame V L fpoll (FRunEnd e) k = Inr ([FComplete e], k)" by simp
  then show ?thesis using r soft_ran by (auto intro: handler_moves)
next
  case (soft_complete e)
  then have r: "at_handler a' (bit (p_mstatus p') 3) [FSched]" "k' = complete_executor V k" "a_saved a' = a_saved a"
    using assms(2-4) by (auto intro!: soft_while)
  have "step_frame V L fpoll (FComplete e) k = Inr ([FSched], complete_executor V k)" by simp
  then show ?thesis using r soft_complete by (auto intro: handler_moves)
qed (use assms(2,3) in simp_all)

text \<open>A called function that has not returned makes the step of its activation, and stays one activation.\<close>

lemma irq_single:
  "\<not> returned (FIrq kind ops st) \<Longrightarrow> step_frame V L fpoll (FIrq kind ops st) k = Inr (frs, k') \<Longrightarrow>
    \<exists>ops' st'. frs = [FIrq kind ops' st']"
  by (cases "(V, L, kind, ops, st, k)" rule: step_irq.cases) (auto simp: rbind_Inr_iff)

lemma run_single:
  assumes "active fr = Some e" "frame_mie fr" "\<not> returned fr" "step_frame V L fpoll fr k = Inr (frs, k')"
  shows "\<exists>fr'. frs = [fr'] \<and> active fr' = Some e \<and> frame_mie fr'"
proof (cases fr)
  case (FPoll e' t st p)
  then show ?thesis
    using assms
    by (cases "(V, L, e', t, st, p, k)" rule: step_poll.cases)
      (auto simp: rbind_Inr_iff split: option.splits prod.splits)
qed (use assms in \<open>auto simp: rbind_Inr_iff split: option.splits poll_fn.splits\<close>)

lemma returned_irq: "returned (FIrq kind ops st) \<longleftrightarrow> ops = [] \<and> st = None"
  by (cases ops; cases st) simp_all

lemma call_cases:
  assumes "exec_call V L fpoll a fr k l p = Inr (a', k', l', p')"
  obtains "returned fr" "a' = a\<lparr>a_call := None\<rparr>" "k' = k" "p' = p"
  | fr' where "\<not> returned fr" "step_frame V L fpoll fr k = Inr ([fr'], k')" "a' = a\<lparr>a_call := Some fr'\<rparr>" "p' = p"
proof (cases "returned fr")
  case True
  then show ?thesis using assms that(1) by (simp add: exec_call_def)
next
  case False
  then obtain frs k1 where s: "step_frame V L fpoll fr k = Inr (frs, k1)"
      "(case frs of [fr'] \<Rightarrow> Inr (a\<lparr>a_call := Some fr'\<rparr>, k1, l, p) | _ \<Rightarrow> Inl UndefinedBehaviour) = Inr (a', k', l', p')"
    using assms by (auto simp: exec_call_def rbind_Inr_iff)
  then obtain fr' where "frs = [fr']" by (cases frs; cases "tl frs") auto
  then show ?thesis using s that(2) False by simp
qed

lemma handler_call:
  assumes "at_handler a mie frs" "a_call a = Some fr" "exec_call V L fpoll a fr k l p = Inr (a', k', l', p')"
  shows "p' = p \<and> a_saved a' = a_saved a \<and> (\<exists>frs'. at_handler a' mie frs' \<and> matches V L fpoll frs k frs' k')"
  using assms(3)
proof (cases rule: call_cases [consumes 1, case_names ret step])
  case ret
  have "\<exists>frs'. at_handler a' mie frs' \<and> matches V L fpoll frs k frs' k'"
    using assms(1)
  proof (cases rule: at_handler.cases)
    case (soft_inner ops st)
    then have "step_frame V L fpoll (FIrq KHook ops st) k = Inr ([FClear], k')"
      using ret assms(2) by (auto simp: returned_irq)
    moreover have "at_handler a' mie [FClear]" using soft_inner ret by (auto intro!: soft_clear)
    ultimately show ?thesis using soft_inner by (auto intro: handler_moves)
  next
    case (isr_body ops st)
    then have "step_frame V L fpoll (FIrq KIsr ops st) k = Inr ([], k')"
      using ret assms(2) by (auto simp: returned_irq)
    moreover have "at_handler a' mie []" using isr_body ret by (auto intro!: handler_done)
    ultimately show ?thesis using isr_body by (auto intro: handler_moves)
  next
    case (soft_running fr0 e)
    then have "fr0 = FRunEnd e" using ret assms(2) by (auto elim: returned.elims)
    then have "at_handler a' mie frs" "k' = k" using soft_running ret by (auto intro!: soft_ran)
    then show ?thesis by (auto intro: handler_stays)
  qed (use assms(2) in simp_all)
  then show ?thesis using ret by simp
next
  case (step fr')
  have "\<exists>frs'. at_handler a' mie frs' \<and> matches V L fpoll frs k frs' k'"
    using assms(1)
  proof (cases rule: at_handler.cases)
    case (soft_inner ops st)
    then obtain ops' st' where "fr' = FIrq KHook ops' st'"
      using irq_single [of KHook ops st V L fpoll k "[fr']" k'] step assms(2) by auto
    then have "at_handler a' mie [fr']" using soft_inner step by (auto intro!: at_handler.soft_inner)
    then show ?thesis using soft_inner step(2) assms(2) by (auto intro: handler_moves simp del: step_frame.simps)
  next
    case (isr_body ops st)
    then obtain ops' st' where "fr' = FIrq KIsr ops' st'"
      using irq_single [of KIsr ops st V L fpoll k "[fr']" k'] step assms(2) by auto
    then have "at_handler a' mie [fr']" using isr_body step by (auto intro!: at_handler.isr_body)
    then show ?thesis using isr_body step(2) assms(2) by (auto intro: handler_moves simp del: step_frame.simps)
  next
    case (soft_running fr0 e)
    then have "active fr' = Some e" "frame_mie fr'"
      using run_single [of fr e V L fpoll k "[fr']" k'] step assms(2) by auto
    then have "at_handler a' mie [fr']" using soft_running step by (auto intro!: at_handler.soft_running)
    then show ?thesis using soft_running step(2) assms(2) by (auto intro: handler_moves simp del: step_frame.simps)
  qed (use assms(2) in simp_all)
  then show ?thesis using step by simp
qed

lemma main_call:
  assumes "at_main a mie fr0" "a_call a = Some fr" "exec_call V L fpoll a fr k l p = Inr (a', k', l', p')"
  shows "p' = p \<and> (\<exists>fr'. at_main a' mie fr' \<and> matches V L fpoll [fr0] k [fr'] k')"
  using assms(1)
proof (cases rule: at_main.cases)
  case (main_runs ops st)
  show ?thesis
    using assms(3)
  proof (cases rule: call_cases [consumes 1, case_names ret step])
    case ret
    then have "at_main a' mie fr0" using main_runs assms(2) by (auto simp: returned_irq intro!: main_done)
    then show ?thesis using ret by (auto intro: main_stays)
  next
    case (step fr')
    then obtain ops' st' where "fr' = FIrq KBoot ops' st'"
      using irq_single [of KBoot ops st V L fpoll k "[fr']" k'] main_runs assms(2) by auto
    then have "at_main a' mie fr'" using main_runs step by (auto intro!: at_main.main_runs)
    then show ?thesis using step main_runs assms(2) by (auto intro: main_moves simp del: step_frame.simps)
  qed
qed (use assms(2) in simp_all)

section \<open>Every run\<close>

lemma preempt_in_range:
  assumes "bounded_vec V n" "intrusive_list L" "reachable V L fpoll n m" "m_stack m = FSched # rest"
    and "try_preempt V (m_kernel m) = Inr (Some (RunToken q), k')"
  shows "to_usize q < length (k_executors k')"
proof -
  let ?k = "m_kernel m"
  note I = sched_invD [OF inv_of [OF assms(1-3)]]
  have st: "stack_inv V n (k_prio_stack ?k) (actives rest)" using I(2) assms(4) by simp
  have sub: "ready_bits ?k \<subseteq> {..<n}" using I(4) by (simp add: bits_inv_def)
  show ?thesis
  proof (cases rule: runtime.try_preempt_ok [OF runtime.intro [OF assms(1,2)] I(1) st sub, case_names none token])
    case none
    then show ?thesis using assms(5) by auto
  next
    case (token e ps)
    then show ?thesis using assms(5) sub wiredD(1) [OF I(1)] by auto
  qed
qed

text \<open>The machine of a system, and that it has a run to it.\<close>

definition mirrored ::
  "(priority, 's) vec_api \<Rightarrow> (tid, 'q) list_api \<Rightarrow> (tid \<Rightarrow> 'f \<Rightarrow> ('f, 'o, 'g) prog) \<Rightarrow> nat \<Rightarrow>
   ('f, 'o, 'q, 's, 'g) system \<Rightarrow> bool" where
  "mirrored V L fpoll n s \<longleftrightarrow>
     (\<exists>stk. reachable V L fpoll n \<lparr>m_kernel = s_kernel s, m_stack = stk\<rparr>
        \<and> at_stack (p_mstatus (s_plat s)) (s_acts s) stk)"

lemma matches_reachable:
  assumes "matches V L fpoll frs k frs' k'" "reachable V L fpoll n \<lparr>m_kernel = k, m_stack = frs @ stk\<rparr>"
  shows "reachable V L fpoll n \<lparr>m_kernel = k', m_stack = frs' @ stk\<rparr>"
  using assms(1) unfolding matches_def
proof (elim disjE exE conjE)
  fix fr assume s: "frs = [fr]" "step_frame V L fpoll fr k = Inr (frs', k')"
  have "exec V L fpoll Step \<lparr>m_kernel = k, m_stack = frs @ stk\<rparr> = Some (Inr \<lparr>m_kernel = k', m_stack = frs' @ stk\<rparr>)"
    using s by simp
  then show ?thesis by (rule reach_step [OF assms(2)])
qed (use assms(2) in simp)

text \<open>A step of the running activation.\<close>

lemma step_cases:
  assumes "sys_exec V L fpoll board late Step s = Some (Inr s')" "s_acts s = a # acts"
  obtains "a_call a = None" "a_code a = []"
      "s' = s\<lparr>s_acts := acts, s_plat := (s_plat s)\<lparr>p_mstatus := mret_status (a_saved a)\<rparr>\<rparr>"
    | fr a' k' l' p' where "a_call a = Some fr"
      "exec_call V L fpoll a fr (s_kernel s) (s_log s) (s_plat s) = Inr (a', k', l', p')"
      "s' = \<lparr>s_kernel = k', s_log = l', s_plat = p', s_acts = a' # acts\<rparr>"
    | stm rest a' k' l' p' where "a_call a = None" "a_code a = stm # rest"
      "exec_stmt V L board late a stm rest (s_kernel s) (s_log s) (s_plat s) = Inr (a', k', l', p')"
      "s' = \<lparr>s_kernel = k', s_log = l', s_plat = p', s_acts = a' # acts\<rparr>"
  using assms by (cases "a_call a"; cases "a_code a") (auto simp: rbind_Inr_iff Let_def)

lemma mirrored_step:
  assumes "bounded_vec V n" "intrusive_list L" "mirrored V L fpoll n s"
    and "sys_exec V L fpoll board late Step s = Some (Inr s')"
  shows "mirrored V L fpoll n s'"
proof -
  obtain stk where r: "reachable V L fpoll n \<lparr>m_kernel = s_kernel s, m_stack = stk\<rparr>"
      and st: "at_stack (p_mstatus (s_plat s)) (s_acts s) stk"
    using assms(3) by (auto simp: mirrored_def)
  let ?k = "s_kernel s" let ?p = "s_plat s"
  show ?thesis
    using st
  proof (cases rule: at_stack.cases)
    case (only_main a fr)
    obtain a' k' l' p' where s': "s' = \<lparr>s_kernel = k', s_log = l', s_plat = p', s_acts = [a']\<rparr>"
        and sim: "\<exists>fr'. at_main a' (bit (p_mstatus p') 3) fr' \<and> matches V L fpoll [fr] ?k [fr'] k'"
      using assms(4) only_main(1)
    proof (cases rule: step_cases [consumes 2, case_names mret call stmt])
      case mret
      then show thesis using only_main(3) by (auto elim: at_mainE)
    next
      case (call fr0 a' k' l' p')
      then show thesis using main_call [OF only_main(3) call(1,2)] that by simp
    next
      case (stmt stm rest a' k' l' p')
      then show thesis using main_stmt [OF only_main(3) stmt(1-3)] that by simp
    qed
    then obtain fr' where "at_main a' (bit (p_mstatus p') 3) fr'" "matches V L fpoll [fr] ?k [fr'] k'"
      by blast
    then show ?thesis
      using matches_reachable [of V L fpoll "[fr]" ?k "[fr']" k' n "[]"] r only_main s'
      unfolding mirrored_def by (intro exI [of _ "[fr']"]) (auto intro: at_stack.only_main)
  next
    case (on_handler a frs acts stk')
    have sim: "mirrored V L fpoll n s'"
      if "s' = \<lparr>s_kernel = k', s_log = l', s_plat = p', s_acts = a' # acts\<rparr>" "a_saved a' = a_saved a"
        "\<exists>frs'. at_handler a' (bit (p_mstatus p') 3) frs' \<and> matches V L fpoll frs ?k frs' k'" for a' k' l' p'
    proof -
      obtain frs' where m: "at_handler a' (bit (p_mstatus p') 3) frs'" "matches V L fpoll frs ?k frs' k'"
        using \<open>\<exists>frs'. _ frs'\<close> by blast
      have "reachable V L fpoll n \<lparr>m_kernel = k', m_stack = frs' @ stk'\<rparr>"
        using matches_reachable [OF m(2)] r on_handler(2) by simp
      moreover have "at_stack (p_mstatus p') (a' # acts) (frs' @ stk')"
        using m(1) that(2) on_handler(4,5) by (auto intro: at_stack.on_handler)
      ultimately show ?thesis using that(1) unfolding mirrored_def by auto
    qed
    have bound: "to_usize q < length (k_executors k')"
      if "frs = [FSched]" "try_preempt V ?k = Inr (Some (RunToken q), k')" for q k'
      using preempt_in_range [OF assms(1,2) r, of stk' q k'] that on_handler(2) by simp
    from assms(4) on_handler(1) show ?thesis
    proof (cases rule: step_cases [consumes 2, case_names mret call stmt])
      case mret
      then have "frs = []" using on_handler(3) by (auto elim: at_handlerE simp: run_code_def)
      then show ?thesis using r on_handler mret(3) unfolding mirrored_def by (intro exI [of _ stk']) simp
    next
      case (call fr0 a' k' l' p')
      then show ?thesis using handler_call [OF on_handler(3) call(1,2)] by (intro sim [OF call(3)]) simp_all
    next
      case (stmt stm rest a' k' l' p')
      then show ?thesis using handler_stmt [OF on_handler(3) stmt(1-3) bound] by (intro sim [OF stmt(4)]) simp_all
    qed
  qed
qed

lemma at_stack_cong:
  assumes "at_stack w acts stk" "bit w' 3 = bit w 3"
  shows "at_stack w' acts stk"
  using assms(1)
proof (cases rule: at_stack.cases)
  case (only_main a fr)
  then show ?thesis using at_stack.only_main [of a w'] assms(2) by simp
next
  case (on_handler a frs acts' stk')
  then show ?thesis using at_stack.on_handler [of a w'] assms(2) by simp
qed

lemma push_mirrored:
  fixes s :: "('f, 'o, 'q, 's, 'g) system"
  assumes "reachable V L fpoll n \<lparr>m_kernel = s_kernel s, m_stack = FIrq kind ops None # stk\<rparr>"
    and "at_stack (p_mstatus (s_plat s)) (s_acts s) stk" "bit (p_mstatus (s_plat s)) 3"
    and "\<And>a :: ('f, 'o, 'g) activation. a_code a = code \<Longrightarrow> a_call a = None \<Longrightarrow>
      at_handler a False [FIrq kind (a_ops a) None]"
  shows "mirrored V L fpoll n (push_handler code ops s)"
proof -
  let ?w = "trap_status (p_mstatus (s_plat s))"
  let ?a = "\<lparr>a_code = code, a_call = None :: ('f, 'o, 'g) frame option, a_token = None, a_ops = ops, a_saved = ?w\<rparr>"
  have "at_handler ?a (bit ?w 3) [FIrq kind ops None]" using assms(4) [of ?a] by simp
  moreover have "at_stack (mret_status ?w) (s_acts s) stk"
    by (rule at_stack_cong [OF assms(2)]) simp
  ultimately have "at_stack ?w (?a # s_acts s) ([FIrq kind ops None] @ stk)"
    using assms(3) by (intro on_handler) simp_all
  then show ?thesis using assms(1) by (auto simp: mirrored_def push_handler_def Let_def)
qed

lemma mirrored_exec:
  assumes "bounded_vec V n" "intrusive_list L" "mirrored V L fpoll n s"
    and "sys_exec V L fpoll board late ev s = Some (Inr s')"
  shows "mirrored V L fpoll n s'"
proof -
  obtain stk where r: "reachable V L fpoll n \<lparr>m_kernel = s_kernel s, m_stack = stk\<rparr>"
      and st: "at_stack (p_mstatus (s_plat s)) (s_acts s) stk"
    using assms(3) by (auto simp: mirrored_def)
  show ?thesis
  proof (cases ev)
    case Step
    then show ?thesis using mirrored_step [OF assms(1-3)] assms(4) by simp
  next
    case (TakeIsr ops)
    then have on: "bit (p_mstatus (s_plat s)) 3" and s': "s' = push_handler interrupt_code ops s"
      using assms(4) by (auto split: if_splits)
    obtain fr rest where fr: "stk = fr # rest" "frame_mie fr" using at_stack_enabled [OF st on] .
    have "reachable V L fpoll n \<lparr>m_kernel = s_kernel s, m_stack = FIrq KIsr ops None # stk\<rparr>"
      by (rule reach_step [OF r, of "TakeIsr ops"]) (use fr in simp)
    then show ?thesis unfolding s'
      by (rule push_mirrored [OF _ st on]) (auto simp: interrupt_code_def intro!: isr_enter)
  next
    case (TakeMsi ops)
    then have on: "bit (p_mstatus (s_plat s)) 3" and s': "s' = push_handler machine_soft_code ops s"
      and msi: "k_msip (s_kernel s)"
      using assms(4) by (auto split: if_splits)
    obtain fr rest where fr: "stk = fr # rest" "frame_mie fr" using at_stack_enabled [OF st on] .
    have "reachable V L fpoll n \<lparr>m_kernel = s_kernel s, m_stack = FIrq KHook ops None # stk\<rparr>"
      by (rule reach_step [OF r, of "TakeMsi ops"]) (use fr msi in simp)
    then show ?thesis unfolding s'
      by (rule push_mirrored [OF _ st on]) (auto simp: machine_soft_code_def run_code_def intro!: soft_enter)
  next
    case RaiseMsi
    then have s': "s' = s\<lparr>s_kernel := (s_kernel s)\<lparr>k_msip := True\<rparr>\<rparr>" using assms(4) by simp
    have "reachable V L fpoll n \<lparr>m_kernel = s_kernel s', m_stack = stk\<rparr>"
      unfolding s' by (rule reach_step [OF r, of RaiseMsi]) simp
    then show ?thesis using st s' by (auto simp: mirrored_def)
  qed
qed

section \<open>The start of \<open>__rust_main\<close>\<close>

definition starting :: "('f, 'o, 'q, 's, 'g) system \<Rightarrow> bool" where
  "starting s \<longleftrightarrow> (case s_acts s of [a] \<Rightarrow> CallMain \<in> set (a_code a) | _ \<Rightarrow> False)"

text \<open>
  What is needed of the board: it does not enable interrupts, and its \<open>init\<close>, if it returns,
  has registered the CLINT as IPI device.
\<close>

definition board_ok :: "(plat \<Rightarrow> plat result) \<Rightarrow> plat \<Rightarrow> bool" where
  "board_ok board p \<longleftrightarrow> \<not> bit (p_mstatus p) 3
     \<and> (case board p of Inl e \<Rightarrow> True
        | Inr p' \<Rightarrow> \<not> bit (p_mstatus p') 3 \<and> ipi_of p' = Inr (Some (ClintMsip True)))"

inductive at_start :: "(priority, 's) vec_api \<Rightarrow> (tid, 'q) list_api \<Rightarrow> (plat \<Rightarrow> plat result) \<Rightarrow> main_items \<Rightarrow>
    stmt list \<Rightarrow> ('f, 'o, 'q, 's, 'g) kernel \<Rightarrow> plat \<Rightarrow> bool"
  for V :: "(priority, 's) vec_api" and L :: "(tid, 'q) list_api" and board :: "plat \<Rightarrow> plat result"
    and items :: main_items where
  start_init: "board_ok board p \<Longrightarrow>
    at_start V L board items (rust_main_code items) (static_kernel V g) p"
| start_new: "\<not> bit (p_mstatus p) 3 \<Longrightarrow>
    at_start V L board items (drop 1 (rust_main_code items)) ((static_kernel V g)\<lparr>k_ipi := Some (ClintMsip True)\<rparr>) p"
| start_pin: "\<not> bit (p_mstatus p) 3 \<Longrightarrow>
    spawner_new V L (mi_n items) ((static_kernel V g)\<lparr>k_ipi := Some (ClintMsip True)\<rparr>) = Inr k \<Longrightarrow>
    at_start V L board items (drop 2 (rust_main_code items)) k p"
| start_main: "\<not> bit (p_mstatus p) 3 \<Longrightarrow> boot_kernel V L (ClintMsip True) (mi_n items) g = Inr k \<Longrightarrow>
    at_start V L board items (drop 3 (rust_main_code items)) k p"

lemmas rust_main_drop = rust_main_code_def drop_Suc_Cons

definition start_inv ::
  "(priority, 's) vec_api \<Rightarrow> (tid, 'q) list_api \<Rightarrow> (plat \<Rightarrow> plat result) \<Rightarrow> main_items \<Rightarrow>
   ('f, 'o, 'q, 's, 'g) system \<Rightarrow> bool" where
  "start_inv V L board items s \<longleftrightarrow> (\<exists>a k b. s_acts s = [a] \<and> a_call a = None
     \<and> s_kernel s = k\<lparr>k_msip := b\<rparr> \<and> at_start V L board items (a_code a) k (s_plat s))"

lemma start_new_msip:
  "spawner_new V L n (k\<lparr>k_msip := b\<rparr>) = rbind (spawner_new V L n k) (\<lambda>k'. Inr (k'\<lparr>k_msip := b\<rparr>))"
  by (cases "bitmap_new 64") (simp_all add: spawner_new_def)

lemma start_step:
  assumes "s_acts s = [a]" "a_call a = None" "s_kernel s = k\<lparr>k_msip := b\<rparr>"
    and "at_start V L board items (a_code a) k (s_plat s)"
    and "sys_exec V L fpoll board late Step s = Some (Inr s')"
  shows "start_inv V L board items s' \<or> mirrored V L fpoll (mi_n items) s'"
  using assms(4)
proof (cases rule: at_start.cases)
  case (start_init g)
  obtain l' p' where p': "board (s_plat s) = Inr p'"
      "s' = \<lparr>s_kernel = (static_kernel V g)\<lparr>k_ipi := Some (ClintMsip True)\<rparr>\<lparr>k_msip := b\<rparr>, s_log = l', s_plat = p',
        s_acts = [a\<lparr>a_code := drop 1 (rust_main_code items)\<rparr>]\<rparr>" "\<not> bit (p_mstatus p') 3"
    using assms start_init
    by (auto simp: rust_main_code_def platform_init_def board_ok_def rbind_Inr_iff split: sum.splits prod.splits)
  then show ?thesis
    using assms(2) at_start.start_new [OF p'(3), of V L board items g] unfolding start_inv_def by fastforce
next
  case (start_new g)
  obtain k' where k': "spawner_new V L (mi_n items) ((static_kernel V g)\<lparr>k_ipi := Some (ClintMsip True)\<rparr>) = Inr k'"
      "s' = s\<lparr>s_kernel := k'\<lparr>k_msip := b\<rparr>, s_acts := [a\<lparr>a_code := drop 2 (rust_main_code items)\<rparr>]\<rparr>"
    using assms start_new by (auto simp: rust_main_code_def rbind_Inr_iff start_new_msip)
  then show ?thesis
    using assms(2) at_start.start_pin [OF start_new(3) k'(1), of board] unfolding start_inv_def by fastforce
next
  case (start_pin g)
  have "boot_kernel V L (ClintMsip True) (mi_n items) g = Inr (spawner_init k)"
    using start_pin(3) by (simp add: boot_kernel_def static_kernel_def)
  moreover have "s' = s\<lparr>s_kernel := (spawner_init k)\<lparr>k_msip := b\<rparr>, s_acts := [a\<lparr>a_code := drop 3 (rust_main_code items)\<rparr>]\<rparr>"
    using assms start_pin by (auto simp: rust_main_code_def spawner_init_def)
  ultimately show ?thesis
    using assms(2) at_start.start_main [OF start_pin(2), of V L items g "spawner_init k" board]
    unfolding start_inv_def by fastforce
next
  case (start_main g)
  let ?m = "\<lparr>m_kernel = k, m_stack = [FIrq KBoot (a_ops a) None]\<rparr>"
  have m: "reachable V L fpoll (mi_n items) ?m"
    by (rule reach_boot [where g = g and ops = "a_ops a"]) (use start_main(3) in \<open>simp add: boot_machine_def\<close>)
  have "k_msip k = False" using start_main(3)
    by (auto simp: boot_kernel_def spawner_new_def spawner_init_def rbind_Inr_iff split: if_splits)
  then have "k\<lparr>k_msip := False\<rparr> = k" by (cases k) simp
  then have r: "reachable V L fpoll (mi_n items) (?m\<lparr>m_kernel := k\<lparr>k_msip := b\<rparr>\<rparr>)"
    using m reach_step [OF m, of RaiseMsi "?m\<lparr>m_kernel := k\<lparr>k_msip := True\<rparr>\<rparr>"] by (cases b) simp_all
  let ?a = "a\<lparr>a_code := [PlatformStart, LoopForever [PlatformIdle]], a_call := Some (FIrq KBoot (a_ops a) None)\<rparr>"
  have s': "s' = s\<lparr>s_acts := [?a]\<rparr>"
    using assms start_main by (auto simp: rust_main_code_def)
  have "at_main ?a False (FIrq KBoot (a_ops a) None)" by (rule main_runs) simp_all
  then have "at_stack (p_mstatus (s_plat s')) (s_acts s') [FIrq KBoot (a_ops a) None]"
    using start_main(2) s' by (auto intro: only_main)
  then show ?thesis using r s' assms(3) unfolding mirrored_def by auto
qed

lemma start_exec:
  assumes "start_inv V L board items s" "sys_exec V L fpoll board late ev s = Some (Inr s')"
  shows "start_inv V L board items s' \<or> mirrored V L fpoll (mi_n items) s'"
proof -
  obtain a k b where s: "s_acts s = [a]" "a_call a = None" "s_kernel s = k\<lparr>k_msip := b\<rparr>"
      "at_start V L board items (a_code a) k (s_plat s)"
    using assms(1) by (auto simp: start_inv_def)
  have off: "\<not> bit (p_mstatus (s_plat s)) 3" using s(4) by (auto simp: board_ok_def elim: at_start.cases)
  have same: "start_inv V L board items s'" if "s_acts s' = s_acts s" "s_kernel s' = k\<lparr>k_msip := c\<rparr>" "s_plat s' = s_plat s" for c
    using that s unfolding start_inv_def by auto
  show ?thesis
  proof (cases ev)
    case Step
    then show ?thesis using start_step [OF s] assms(2) by simp
  next
    case RaiseMsi
    then have "s' = s\<lparr>s_kernel := (s_kernel s)\<lparr>k_msip := True\<rparr>\<rparr>" using assms(2) by simp
    then show ?thesis using same [of True] s(3) by simp
  qed (use assms(2) off in simp_all)
qed

lemma sys_reachable_sim:
  assumes "bounded_vec V (mi_n items)" "intrusive_list L" "board_ok board p0"
    and "sys_reachable V L fpoll board late items p0 s"
  shows "start_inv V L board items s \<or> mirrored V L fpoll (mi_n items) s"
  using assms(4)
proof (induction rule: sys_reachable.induct)
  case (sys_boot l g ops)
  have "start_inv V L board items (sys_start V items l p0 g ops)"
    unfolding start_inv_def sys_start_def
    by (intro exI conjI) (auto intro!: start_init assms(3) simp: static_kernel_def)
  then show ?case ..
next
  case (sys_step s ev s')
  then show ?case
    using start_exec [of V L board items s fpoll late ev s'] mirrored_exec [OF assms(1,2)] by blast
qed

lemma start_inv_starting: "start_inv V L board items s \<Longrightarrow> starting s"
  by (auto simp: start_inv_def starting_def rust_main_code_def elim!: at_start.cases)

text \<open>
  C7. The generated code implements the machine.  Once \<open>__rust_main\<close> has called the user's \<open>main\<close>,
  every state that \<open>__rust_main\<close>, \<open>MachineSoft\<close> and the other handlers reach on the hart is, activation
  by activation, a state that the machine reaches; the kernel state is the same, and interrupts
  are enabled exactly where the relation \<open>at_stack\<close> has it: while an executor runs and in the idle
  loop, not in \<open>main\<close>, not in the hooks and handlers, and not around \<open>try_preempt\<close> and
  \<open>complete_executor\<close>.
\<close>

theorem generated_code_refines_machine:
  assumes "bounded_vec V (mi_n items)" "intrusive_list L" "board_ok board p0"
    and "sys_reachable V L fpoll board late items p0 s" "\<not> starting s"
  shows "\<exists>m. reachable V L fpoll (mi_n items) m \<and> m_kernel m = s_kernel s
    \<and> at_stack (p_mstatus (s_plat s)) (s_acts s) (m_stack m)"
proof -
  have "mirrored V L fpoll (mi_n items) s"
    using sys_reachable_sim [OF assms(1-4)] assms(5) start_inv_starting by blast
  then show ?thesis by (auto simp: mirrored_def)
qed

text \<open>A run of the generated code: a task is spawned by \<open>main\<close> and polled after the first interrupt.\<close>

fun sys_exec_all ::
  "(priority, 's) vec_api \<Rightarrow> (tid, 'q) list_api \<Rightarrow> (tid \<Rightarrow> 'f \<Rightarrow> ('f, 'o, 'g) prog) \<Rightarrow> (plat \<Rightarrow> plat result) \<Rightarrow>
   (plat \<Rightarrow> plat) \<Rightarrow> ('f, 'g) event list \<Rightarrow> ('f, 'o, 'q, 's, 'g) system \<Rightarrow> ('f, 'o, 'q, 's, 'g) system option" where
  "sys_exec_all V L fpoll board late [] s = Some s"
| "sys_exec_all V L fpoll board late (ev # evs) s =
     (case sys_exec V L fpoll board late ev s of
        Some (Inr s') \<Rightarrow> sys_exec_all V L fpoll board late evs s' | r \<Rightarrow> None)"

lemma sys_exec_all_reachable:
  "sys_exec_all V L fpoll board late evs s = Some s' \<Longrightarrow> sys_reachable V L fpoll board late items p0 s \<Longrightarrow>
    sys_reachable V L fpoll board late items p0 s'"
  by (induction evs arbitrary: s) (auto split: option.splits sum.splits intro: sys_step)

definition demo_items :: main_items where
  "demo_items = \<lparr>mi_log_level = LInfo, mi_spawner_pat = ''spawner'', mi_n = 4\<rparr>"

definition generated_run :: "(nat, nat, tid list, priority list, unit) system option" where
  "generated_run = sys_exec_all (list_vec 4) list_list demo_app qemu_board (\<lambda>p. p)
     (replicate 13 Step @ [TakeMsi []] @ replicate 8 Step)
     (sys_start (list_vec 4) demo_items \<lparr>log_set = False, log_max = 0\<rparr> (plat_new 0) () [IsrSpawn 0 0 (Priority 2)])"

lemma board_ok_qemu: "board_ok qemu_board (plat_new 0)"
  by code_simp

lemma generated_run_polls:
  "case generated_run of None \<Rightarrow> False
   | Some s \<Rightarrow> \<not> starting s \<and> bit (p_mstatus (s_plat s)) 3 \<and> length (s_acts s) = 2
       \<and> (case a_call (hd (s_acts s)) of Some (FPoll e t st p) \<Rightarrow> e = 2 \<and> t = 0 | _ \<Rightarrow> False)"
  by code_simp

lemma polling_handler: "at_handler a mie frs \<Longrightarrow> a_call a = Some (FPoll e t st p) \<Longrightarrow> frs = [FPoll e t st p]"
  by (auto elim: at_handlerE)

theorem generated_code_refines_machine_witness:
  "\<exists>s m st p. sys_reachable (list_vec 4) list_list demo_app qemu_board (\<lambda>p. p) demo_items (plat_new 0) s
     \<and> reachable (list_vec 4) list_list demo_app 4 m \<and> m_kernel m = s_kernel s
     \<and> hd (m_stack m) = FPoll 2 0 st p \<and> bit (p_mstatus (s_plat s)) 3"
proof -
  obtain s st p where s: "generated_run = Some s" "\<not> starting s" "bit (p_mstatus (s_plat s)) 3"
      "length (s_acts s) = 2" "a_call (hd (s_acts s)) = Some (FPoll 2 0 st p)"
    using generated_run_polls by (auto split: option.splits frame.splits)
  have r: "sys_reachable (list_vec 4) list_list demo_app qemu_board (\<lambda>p. p) demo_items (plat_new 0) s"
    by (rule sys_exec_all_reachable [OF s(1) [unfolded generated_run_def] sys_boot])
  have n: "mi_n demo_items = 4" by (simp add: demo_items_def)
  obtain m where m: "reachable (list_vec 4) list_list demo_app 4 m" "m_kernel m = s_kernel s"
      "at_stack (p_mstatus (s_plat s)) (s_acts s) (m_stack m)"
    using generated_code_refines_machine [OF _ list_list_intrusive board_ok_qemu r s(2), unfolded n]
      list_vec_bounded by blast
  from m(3) have "hd (m_stack m) = FPoll 2 0 st p"
  proof (cases rule: at_stack.cases)
    case (on_handler a frs acts stk)
    then show ?thesis using polling_handler [OF on_handler(3)] s(5) by simp
  qed (use s(4) in simp)
  then show ?thesis using r m(1,2) s(3) by blast
qed

end
