(* ===== verification/TaskLayout.thy ===== *)
theory TaskLayout
  imports Kernel
begin

text \<open>
  How a \<open>TaskRef\<close> finds the parts of a task: \<open>task/header.rs\<close>, the \<open>Linked\<close> implementation of
  \<open>task/run_queue.rs\<close> and \<open>TaskRef::new\<close> and \<open>join_state\<close> of \<open>task/storage.rs\<close> (of
  \<open>modules/executor/src\<close>).  The other theories have a number for a task and a record for its
  storage; here a \<open>TaskRef\<close> is the address that the code computes with, and the record is laid
  out in memory as \<open>#[repr(C)]\<close> prescribes.
\<close>

section \<open>Layouts\<close>

text \<open>\<open>size_of\<close> and \<open>align_of\<close> of a type; an alignment is a power of two that divides the size.\<close>

record layout =
  ly_size :: nat
  ly_align :: nat

definition layout_ok :: "layout \<Rightarrow> bool" where
  "layout_ok ly \<longleftrightarrow> list_ex (\<lambda>k. ly_align ly = 2 ^ k) [0..<64] \<and> ly_align ly dvd ly_size ly"

text \<open>\<open>usize::next_multiple_of\<close>.\<close>

definition next_multiple_of :: "nat \<Rightarrow> nat \<Rightarrow> nat" where
  "next_multiple_of n m = (let r = n mod m in if r = 0 then n else n + (m - r))"

text \<open>
  The algorithm of the Rust reference for \<open>#[repr(C)]\<close>: each field at the next offset that its
  alignment allows, the size rounded up to the largest alignment.
\<close>

definition padding_needed_for :: "nat \<Rightarrow> nat \<Rightarrow> nat" where
  "padding_needed_for offset align =
     (let misalignment = offset mod align in if 0 < misalignment then align - misalignment else 0)"

fun repr_c_offsets :: "nat \<Rightarrow> layout list \<Rightarrow> nat list \<times> nat" where
  "repr_c_offsets current [] = ([], current)"
| "repr_c_offsets current (ly # lys) =
     (let offset = current + padding_needed_for current (ly_align ly);
          (offsets, end_offset) = repr_c_offsets (offset + ly_size ly) lys
      in (offset # offsets, end_offset))"

definition repr_c :: "layout list \<Rightarrow> nat list \<times> layout" where
  "repr_c lys =
     (let align = foldr (\<lambda>ly. max (ly_align ly)) lys 1;
          (offsets, end_offset) = repr_c_offsets 0 lys
      in (offsets, \<lparr>ly_size = end_offset + padding_needed_for end_offset align, ly_align = align\<rparr>))"

section \<open>Task references\<close>

text \<open>
  \<open>TaskStorage<F>\<close>: the header, the join state (of the output type of \<open>F\<close>), the future.  \<open>ti\<close>,
  \<open>js\<close> and \<open>fut\<close> are the layouts of the three fields.
\<close>

definition task_storage_layout :: "layout \<Rightarrow> layout \<Rightarrow> layout \<Rightarrow> nat list \<times> layout" where
  "task_storage_layout ti js fut = repr_c [ti, js, fut]"

datatype task_ref = TaskRef u64

definition task_ref_new :: "u64 \<Rightarrow> task_ref" where
  "task_ref_new task = TaskRef task"

definition as_ptr :: "task_ref \<Rightarrow> u64" where
  "as_ptr r = (case r of TaskRef p \<Rightarrow> p)"

definition from_ptr :: "u64 \<Rightarrow> task_ref" where
  "from_ptr p = TaskRef p"

definition task_info :: "task_ref \<Rightarrow> u64" where
  "task_info r = (case r of TaskRef p \<Rightarrow> p)"

definition join_state :: "layout \<Rightarrow> layout \<Rightarrow> task_ref \<Rightarrow> u64" where
  "join_state ti js r =
     (let base = as_ptr r; offset = next_multiple_of (ly_size ti) (ly_align js) in base + of_nat offset)"

text \<open>
  The \<open>Linked\<close> implementation that the intrusive list asks for.  \<open>off\<close> is the offset of
  \<open>run_queue_item\<close> in \<open>TaskInfo\<close>, whose layout Rust leaves open.
\<close>

definition linked_into_ptr :: "task_ref \<Rightarrow> u64" where
  "linked_into_ptr r = (case r of TaskRef p \<Rightarrow> p)"

definition linked_from_ptr :: "u64 \<Rightarrow> task_ref" where
  "linked_from_ptr p = TaskRef p"

definition linked_links :: "nat \<Rightarrow> u64 \<Rightarrow> u64" where
  "linked_links off p = p + of_nat off"

text \<open>A waker carries the address; \<open>wake\<close> makes a \<open>TaskRef\<close> of it again.\<close>

definition raw_waker :: "task_ref \<Rightarrow> u64" where
  "raw_waker r = as_ptr r"

definition waker_task :: "u64 \<Rightarrow> task_ref" where
  "waker_task p = from_ptr p"

section \<open>The offsets meet\<close>

lemma next_multiple_of_padding: "next_multiple_of n m = n + padding_needed_for n m"
  by (simp add: next_multiple_of_def padding_needed_for_def Let_def)

lemma padded_dvd:
  assumes "0 < m"
  shows "m dvd n + padding_needed_for n m"
proof (cases "n mod m = 0")
  case False
  have "n + (m - n mod m) = n div m * m + m"
    using div_mult_mod_eq [of n m] mod_less_divisor [OF assms, of n] by linarith
  then show ?thesis using False by (simp add: padding_needed_for_def Let_def)
qed (auto simp: padding_needed_for_def)

text \<open>No smaller multiple is past \<open>n\<close>, so less than one alignment is padding.\<close>

lemma padding_less: "0 < m \<Longrightarrow> padding_needed_for n m < m"
  by (auto simp: padding_needed_for_def Let_def)

lemma layout_okD:
  assumes "layout_ok ly"
  shows "0 < ly_align ly" "\<exists>k. ly_align ly = 2 ^ k"
  using assms by (auto simp: layout_ok_def list_ex_iff)

lemma power_dvd_max:
  assumes "layout_ok x" "\<exists>k. m = (2::nat) ^ k"
  shows "ly_align x dvd max (ly_align x) m" "m dvd max (ly_align x) m" "\<exists>k. max (ly_align x) m = 2 ^ k"
  using layout_okD(2) [OF assms(1)] assms(2) by (auto simp: max_def le_imp_power_dvd)

lemma repr_c_align:
  assumes "\<forall>ly\<in>set lys. layout_ok ly"
  shows "(\<exists>k. foldr (\<lambda>ly. max (ly_align ly)) lys 1 = (2::nat) ^ k)
    \<and> (\<forall>ly\<in>set lys. ly_align ly dvd foldr (\<lambda>ly. max (ly_align ly)) lys 1)"
  using assms
proof (induction lys)
  case Nil
  then show ?case by (auto intro: exI [of _ 0])
next
  case (Cons ly lys)
  let ?m = "foldr (\<lambda>ly. max (ly_align ly)) lys (1::nat)"
  have IH: "\<exists>k. ?m = 2 ^ k" "\<forall>ly\<in>set lys. ly_align ly dvd ?m" using Cons by auto
  note max = power_dvd_max [OF _ IH(1), of ly]
  show ?case using max(1,2,3) Cons.prems IH(2) by (auto intro: dvd_trans)
qed

text \<open>The fields lie one after the other, each at its alignment, and inside the struct.\<close>

lemma repr_c_offsets_ok:
  assumes "\<forall>ly\<in>set lys. layout_ok ly" "repr_c_offsets current lys = (offs, e)"
  shows "length offs = length lys \<and> current \<le> e
    \<and> (\<forall>i<length lys. ly_align (lys ! i) dvd offs ! i \<and> current \<le> offs ! i
         \<and> offs ! i + ly_size (lys ! i) \<le> (offs @ [e]) ! Suc i \<and> (offs @ [e]) ! Suc i \<le> e)"
  using assms
proof (induction lys arbitrary: current offs)
  case (Cons ly lys)
  let ?o = "current + padding_needed_for current (ly_align ly)"
  obtain offs' where rest: "repr_c_offsets (?o + ly_size ly) lys = (offs', e)" "offs = ?o # offs'"
    using Cons.prems(2) by (auto simp: Let_def split: prod.splits)
  note IH = Cons.IH [OF _ rest(1)]
  have dvd: "ly_align ly dvd ?o" using Cons.prems(1) layout_okD(1) padded_dvd by auto
  have first: "?o + ly_size ly \<le> (offs' @ [e]) ! 0"
    using IH Cons.prems(1) by (cases lys; cases offs') auto
  have "(offs' @ [e]) ! 0 \<le> e"
  proof (cases offs')
    case (Cons x xs)
    then have "0 < length lys" using IH Cons.prems(1) by auto
    then have "offs' ! 0 + ly_size (lys ! 0) \<le> (offs' @ [e]) ! 1" "(offs' @ [e]) ! 1 \<le> e"
      using IH Cons.prems(1) by auto
    then show ?thesis using Cons by simp
  qed simp
  then show ?case
    using IH Cons.prems(1) rest(2) dvd first by (auto simp: less_Suc_eq_0_disj nth_append)
qed simp

text \<open>The pointers, one by one.\<close>

lemma storage_pointers:
  assumes ok: "layout_ok ti" "layout_ok js" "layout_ok fut"
    and at: "ly_align (snd (task_storage_layout ti js fut)) dvd unat task"
      "unat task + ly_size (snd (task_storage_layout ti js fut)) < 2 ^ 64"
  defines "offs \<equiv> fst (task_storage_layout ti js fut)"
  shows "unat (task_info (task_ref_new task)) = unat task + offs ! 0"
    "unat (join_state ti js (task_ref_new task)) = unat task + offs ! 1"
    "ly_align ti dvd unat task" "ly_align js dvd unat (join_state ti js (task_ref_new task))"
    "offs ! 0 + ly_size ti \<le> offs ! 1" "offs ! 1 + ly_size js \<le> offs ! 2"
    "offs ! 2 + ly_size fut \<le> ly_size (snd (task_storage_layout ti js fut))"
    "waker_task (raw_waker (task_ref_new task)) = task_ref_new task"
    "linked_from_ptr (linked_into_ptr (task_ref_new task)) = task_ref_new task"
proof -
  let ?lys = "[ti, js, fut]" let ?w = "snd (task_storage_layout ti js fut)"
  have lys: "\<forall>ly\<in>set ?lys. layout_ok ly" using ok by simp
  obtain os e where os: "repr_c_offsets 0 ?lys = (os, e)" by (cases "repr_c_offsets 0 ?lys")
  have offs: "offs = os" "e \<le> ly_size ?w" "ly_align ?w = foldr (\<lambda>ly. max (ly_align ly)) ?lys 1"
    using os by (simp_all add: offs_def task_storage_layout_def repr_c_def Let_def case_prod_beta)
  have dvd: "\<forall>ly\<in>set ?lys. ly_align ly dvd unat task"
    using conjunct2 [OF repr_c_align [OF lys]] at(1) offs(3) by (metis dvd_trans)
  note each = repr_c_offsets_ok [OF lys os, THEN conjunct2, THEN conjunct2, rule_format]
  have len: "length os = 3" using repr_c_offsets_ok [OF lys os] by simp
  have os0: "os ! 0 = 0" "os ! 1 = next_multiple_of (ly_size ti) (ly_align js)"
    using os by (auto simp: Let_def case_prod_beta padding_needed_for_def next_multiple_of_padding)
  have o: "os ! 0 + ly_size ti \<le> os ! 1" "os ! 1 + ly_size js \<le> os ! 2" "os ! 2 + ly_size fut \<le> e" "ly_align js dvd os ! 1"
    using each [of 0] each [of 1] each [of 2] len by (auto simp: nth_append numeral_2_eq_2)
  show o': "offs ! 0 + ly_size ti \<le> offs ! 1" "offs ! 1 + ly_size js \<le> offs ! 2" "offs ! 2 + ly_size fut \<le> ly_size ?w"
    using o offs by simp_all
  have bound: "unat task + os ! 1 < 2 ^ 64" using o(1-3) offs(2) at(2) by linarith
  have "unat (task + of_nat (os ! 1)) = unat task + os ! 1"
    using bound by (simp add: unat_word_ariths unat_of_nat)
  then show j: "unat (join_state ti js (task_ref_new task)) = unat task + offs ! 1"
    by (simp add: join_state_def task_ref_new_def as_ptr_def offs(1) Let_def flip: os0(2))
  show "ly_align js dvd unat (join_state ti js (task_ref_new task))" using j o(4) dvd offs(1) by simp
  show "unat (task_info (task_ref_new task)) = unat task + offs ! 0" "ly_align ti dvd unat task"
    using dvd os0 offs(1) by (simp_all add: task_info_def task_ref_new_def)
qed (simp_all add: waker_task_def raw_waker_def linked_from_ptr_def linked_into_ptr_def from_ptr_def as_ptr_def
  task_ref_new_def)

text \<open>
  C13. A \<open>TaskRef\<close> made from a \<open>TaskStorage\<close> of any future type, placed anywhere at its alignment, is
  the address of its first field, the \<open>TaskInfo\<close>, and the offset that \<open>join_state\<close> computes without
  knowing the future's type is the one that \<open>#[repr(C)]\<close> gives the \<open>JoinState\<close>: the reference is
  aligned, lies inside the storage behind the \<open>TaskInfo\<close> and before the future, and the address does
  not wrap around.  The pointers that wakers and the intrusive list keep lead back to the same task.
\<close>

theorem task_ref_finds_join_state:
  assumes ok: "layout_ok ti" "layout_ok js" "layout_ok fut"
    and at: "ly_align (snd (task_storage_layout ti js fut)) dvd unat task"
      "unat task + ly_size (snd (task_storage_layout ti js fut)) < 2 ^ 64"
  shows "let offs = fst (task_storage_layout ti js fut); r = task_ref_new task in
      unat (task_info r) = unat task + offs ! 0 \<and> unat (join_state ti js r) = unat task + offs ! 1
    \<and> ly_align ti dvd unat task \<and> ly_align js dvd unat (join_state ti js r)
    \<and> offs ! 0 + ly_size ti \<le> offs ! 1 \<and> offs ! 1 + ly_size js \<le> offs ! 2
    \<and> offs ! 2 + ly_size fut \<le> ly_size (snd (task_storage_layout ti js fut))
    \<and> waker_task (raw_waker r) = r \<and> linked_from_ptr (linked_into_ptr r) = r"
  unfolding Let_def by (intro conjI storage_pointers [OF assms])

text \<open>
  A \<open>TaskInfo\<close> of 40 bytes and an output with alignment 16: the join state is not directly behind
  the header.
\<close>

theorem task_ref_finds_join_state_witness:
  "unat (join_state \<lparr>ly_size = 40, ly_align = 8\<rparr> \<lparr>ly_size = 48, ly_align = 16\<rparr> (task_ref_new 0x80001000))
     = 0x80001000 + 48"
proof -
  let ?ti = "\<lparr>ly_size = 40, ly_align = 8\<rparr>" let ?js = "\<lparr>ly_size = 48, ly_align = 16\<rparr>"
  let ?fut = "\<lparr>ly_size = 16, ly_align = 8\<rparr>"
  have ok: "layout_ok ?ti" "layout_ok ?js" "layout_ok ?fut" by code_simp+
  have lay: "task_storage_layout ?ti ?js ?fut = ([0, 48, 96], \<lparr>ly_size = 112, ly_align = 16\<rparr>)" by code_simp
  show ?thesis
    using task_ref_finds_join_state [OF ok, of "0x80001000"] by (simp add: lay Let_def)
qed

section \<open>The unit tests\<close>

text \<open>
  The tests of \<open>task/header.rs\<close> (all but the formatting) and the one of \<open>task/storage.rs\<close> that
  casts; \<open>info\<close> and \<open>TASK\<close> are the addresses of their statics.  Copying and cloning a \<open>TaskRef\<close>
  copies the pointer.
\<close>

definition ut_task_ref_from_ptr_roundtrip :: "u64 \<Rightarrow> bool" where
  "ut_task_ref_from_ptr_roundtrip info = (let ptr = info; r = from_ptr ptr in as_ptr r = ptr)"

definition ut_task_ref_info_returns_same :: "u64 \<Rightarrow> bool" where
  "ut_task_ref_info_returns_same info = (let ptr = info; r = from_ptr ptr; info2 = task_info r in info = info2)"

definition ut_task_ref_equality :: "u64 \<Rightarrow> bool" where
  "ut_task_ref_equality info = (let ptr = info; r1 = from_ptr ptr; r2 = from_ptr ptr in r1 = r2)"

definition ut_task_ref_new_casts_correctly :: "tid \<Rightarrow> (tid \<Rightarrow> u64) \<Rightarrow> bool" where
  "ut_task_ref_new_casts_correctly t address =
     (case storage_spawn t () (\<lparr>k_tasks = (\<lambda>t. storage_new :: (unit, unit) task_storage), k_executors = [],
         k_bitmap = \<lparr>group_map = 0, group_table = []\<rparr>, k_prio_stack = (), k_pend_marker = False, k_ipi = None,
         k_msip = False, k_app = ()\<rparr> :: (unit, unit, unit, unit, unit) kernel) of
        (Inl SpawnError, k) \<Rightarrow> False
      | (Inr (SpawnToken r), k) \<Rightarrow> as_ptr (task_ref_new (address r)) = address t)"

lemma task_ref_tests_pass:
  "ut_task_ref_from_ptr_roundtrip info" "ut_task_ref_info_returns_same info" "ut_task_ref_equality info"
  "ut_task_ref_new_casts_correctly t address"
proof -
  show "ut_task_ref_from_ptr_roundtrip info" "ut_task_ref_info_returns_same info" "ut_task_ref_equality info"
    by (simp_all add: ut_task_ref_from_ptr_roundtrip_def ut_task_ref_info_returns_same_def
        ut_task_ref_equality_def from_ptr_def as_ptr_def task_info_def)
  have "fst (state_spawn state_new)" by simp
  then show "ut_task_ref_new_casts_correctly t address"
    by (simp add: ut_task_ref_new_casts_correctly_def storage_spawn_def storage_new_def case_prod_beta
        as_ptr_def task_ref_new_def)
qed

end
