(* ===== verification/WakeSlots.thy ===== *)
theory WakeSlots
  imports TimerTasks
begin

text \<open>
  Waiting for an interrupt on the machine.  A task that waits leaves its waker in a slot of the
  shared memory; a handler that finds it there takes it out and wakes the task.  Between the two
  the wake may be anywhere: an operation of a handler that was preempted, a call in progress, the
  run-queued flag.  Here it is shown that it is always somewhere: a task that waits is registered
  or on its way to run, whatever preempts what.
\<close>

section \<open>Programs that wait with a slot\<close>

text \<open>
  The slot, a predicate of the shared memory that its users rely on, the task that uses the slot
  and the states of its future in which it waits.
\<close>

record ('f, 'g) watch =
  wt_slot :: "'g \<Rightarrow> waker option"
  wt_inv :: "'g \<Rightarrow> bool"
  wt_task :: tid
  wt_waits :: "'f \<Rightarrow> bool"

text \<open>
  A poll of the task suspends in a waiting state only right after an access that has left the
  waker in the slot.  Other tasks keep off the slot, and nobody spawns the task in a waiting state.
\<close>

primrec prog_waits :: "('f, 'g) watch \<Rightarrow> bool \<Rightarrow> ('f, 'o, 'g) prog \<Rightarrow> bool" where
  "prog_waits W own (Ready out) = True"
| "prog_waits W own (Pending f) = (own \<longrightarrow> \<not> wt_waits W f)"
| "prog_waits W own (Wake w p) = prog_waits W own p"
| "prog_waits W own (Spawn t f prio c) =
     ((t = wt_task W \<longrightarrow> \<not> wt_waits W f) \<and> (\<forall>ok. prog_waits W own (c ok)))"
| "prog_waits W own (Join t c) = (\<forall>r. prog_waits W own (c r))"
| "prog_waits W own (Access u c) = (\<forall>g. wt_inv W g \<longrightarrow> wt_inv W (u g)
     \<and> (if own then prog_waits W own (c g) \<or> wt_slot W (u g) = Some (wt_task W) \<and> (\<exists>f. c g = Pending f)
        else wt_slot W (u g) = wt_slot W g \<and> prog_waits W own (c g)))"

fun wakes :: "tid \<Rightarrow> ('f, 'g) isr_op \<Rightarrow> bool" where
  "wakes w (IsrWake v) = (v = w)"
| "wakes w op = False"

text \<open>A handler leaves the slot alone, or takes the waker out and wakes it.\<close>

primrec op_waits :: "('f, 'g) watch \<Rightarrow> ('f, 'g) isr_op \<Rightarrow> bool" where
  "op_waits W (IsrWake v) = True"
| "op_waits W (IsrSpawn t f p) = (t = wt_task W \<longrightarrow> \<not> wt_waits W f)"
| "op_waits W (IsrAccess u c) = (\<forall>g. wt_inv W g \<longrightarrow> wt_inv W (u g)
     \<and> (wt_slot W (u g) = wt_slot W g \<or> list_ex (wakes (wt_task W)) (c g))
     \<and> list_all id (map (op_waits W) (c g)))"

lemma op_waits_access [simp]:
  "op_waits W (IsrAccess u c) \<longleftrightarrow> (\<forall>g. wt_inv W g \<longrightarrow> wt_inv W (u g)
     \<and> (wt_slot W (u g) = wt_slot W g \<or> list_ex (wakes (wt_task W)) (c g)) \<and> list_all (op_waits W) (c g))"
  by (simp add: list.pred_map)

declare op_waits.simps(3) [simp del]

fun event_waits :: "('f, 'g) watch \<Rightarrow> ('f, 'g) event \<Rightarrow> bool" where
  "event_waits W (TakeIsr ops) = list_all (op_waits W) ops"
| "event_waits W (TakeMsi ops) = list_all (op_waits W) ops"
| "event_waits W ev = True"

fun frame_waits :: "('f, 'g) watch \<Rightarrow> ('f, 'o, 'g) frame \<Rightarrow> bool" where
  "frame_waits W (FIrq kind ops st) = list_all (op_waits W) ops"
| "frame_waits W (FPoll e t st p) =
     (prog_waits W (t = wt_task W) p \<or> t = wt_task W \<and> (\<exists>f. p = Pending f))"
| "frame_waits W fr = True"

inductive watched ::
  "(priority, 's) vec_api \<Rightarrow> (tid, 'q) list_api \<Rightarrow> (tid \<Rightarrow> 'f \<Rightarrow> ('f, 'o, 'g) prog) \<Rightarrow> nat \<Rightarrow> ('f, 'g) watch \<Rightarrow>
   ('f, 'o, 'q, 's, 'g) machine \<Rightarrow> bool"
  for V :: "(priority, 's) vec_api" and L :: "(tid, 'q) list_api"
    and fpoll :: "tid \<Rightarrow> 'f \<Rightarrow> ('f, 'o, 'g) prog" and n :: nat and W :: "('f, 'g) watch" where
  watched_boot: "boot_machine V L (ClintMsip True) n g ops = Inr m \<Longrightarrow> wt_inv W g \<Longrightarrow> list_all (op_waits W) ops \<Longrightarrow>
    watched V L fpoll n W m"
| watched_step: "watched V L fpoll n W m \<Longrightarrow> disciplined n m \<Longrightarrow> event_waits W ev \<Longrightarrow>
    exec V L fpoll ev m = Some (Inr m') \<Longrightarrow> watched V L fpoll n W m'"

lemma watched_disciplined: "watched V L fpoll n W m \<Longrightarrow> reachable_disciplined V L fpoll n m"
  by (induction rule: watched.induct) (auto intro: disciplined_boot disciplined_step)

text \<open>A checked run whose events keep the rules.\<close>

lemma checked_exec_watched:
  "checked_exec V L fpoll n evs m = Some m' \<Longrightarrow> watched V L fpoll n W m \<Longrightarrow> list_all (event_waits W) evs \<Longrightarrow>
    watched V L fpoll n W m'"
proof (induction evs arbitrary: m)
  case (Cons ev evs)
  then obtain m1 where "disciplined n m" "exec V L fpoll ev m = Some (Inr m1)"
      "checked_exec V L fpoll n evs m1 = Some m'"
    by (auto split: if_splits option.splits sum.splits)
  then show ?case using Cons watched_step by fastforce
qed simp

lemma checked_run_watched:
  "checked_run fpoll n g ops evs = Some m \<Longrightarrow> wt_inv W g \<Longrightarrow> list_all (op_waits W) ops \<Longrightarrow>
    list_all (event_waits W) evs \<Longrightarrow> watched (list_vec n) list_list fpoll n W m"
  unfolding checked_run_def by (auto split: sum.splits intro: checked_exec_watched watched_boot)

section \<open>Where a wake is\<close>

fun stage_wakes :: "tid \<Rightarrow> stage option \<Rightarrow> bool" where
  "stage_wakes w (Some (W_Load t)) = (t = w)"
| "stage_wakes w (Some (W_Fetch e t)) = (t = w)"
| "stage_wakes w st = False"

fun waking :: "tid \<Rightarrow> ('f, 'o, 'g) frame \<Rightarrow> bool" where
  "waking w (FIrq kind ops st) = (list_ex (wakes w) ops \<or> stage_wakes w st)"
| "waking w (FPoll e t st p) = stage_wakes w st"
| "waking w fr = False"

definition attentive :: "('f, 'g) watch \<Rightarrow> ('f, 'o, 'q, 's, 'g) kernel \<Rightarrow> ('f, 'o, 'g) frame list \<Rightarrow> bool" where
  "attentive W k stk \<longleftrightarrow> wt_slot W (k_app k) = Some (wt_task W) \<or> flagged k (wt_task W)
     \<or> list_ex (waking (wt_task W)) stk"

definition owned :: "('f, 'g) watch \<Rightarrow> ('f, 'o, 'q, 's, 'g) kernel \<Rightarrow> bool" where
  "owned W k \<longleftrightarrow> ti_executor_ptr (k_tasks k (wt_task W)) \<noteq> None"

fun suspends :: "('f, 'g) watch \<Rightarrow> ('f, 'o, 'g) frame \<Rightarrow> bool" where
  "suspends W (FPoll e t st (Pending f)) = (t = wt_task W \<and> wt_waits W f)"
| "suspends W fr = False"

definition handles :: "tid \<Rightarrow> ('f, 'o, 'g) frame \<Rightarrow> bool" where
  "handles w fr \<longleftrightarrow> (case polled fr of None \<Rightarrow> False | Some (e, t) \<Rightarrow> t = w)"

definition sleeps :: "('f, 'g) watch \<Rightarrow> ('f, 'o, 'q, 's, 'g) kernel \<Rightarrow> bool" where
  "sleeps W k \<longleftrightarrow> (case ts_f (k_tasks k (wt_task W)) of Uninit \<Rightarrow> False | Init f \<Rightarrow> wt_waits W f)"

definition stored :: "('f, 'g) watch \<Rightarrow> ('f, 'o, 'q, 's, 'g) kernel \<Rightarrow> bool" where
  "stored W k \<longleftrightarrow> ts_f (k_tasks k (wt_task W)) = Uninit \<or> ti_poll_fn (k_tasks k (wt_task W)) = Some PollStorage"

definition wait_inv :: "('f, 'g) watch \<Rightarrow> ('f, 'o, 'q, 's, 'g) kernel \<Rightarrow> ('f, 'o, 'g) frame list \<Rightarrow> bool" where
  "wait_inv W k stk \<longleftrightarrow> wt_inv W (k_app k) \<and> list_all (frame_waits W) stk \<and> stored W k
     \<and> (owned W k \<longrightarrow> (sleeps W k \<and> \<not> list_ex (handles (wt_task W)) stk \<or> list_ex (suspends W) stk)
          \<longrightarrow> attentive W k stk)"

text \<open>A step that does not take the task up or put it down.\<close>

definition calm :: "tid \<Rightarrow> ('f, 'o, 'q, 's, 'g) kernel \<Rightarrow> ('f, 'o, 'q, 's, 'g) kernel \<Rightarrow> bool" where
  "calm w k k' \<longleftrightarrow> (flagged k w \<longrightarrow> flagged k' w) \<and> ts_f (k_tasks k' w) = ts_f (k_tasks k w)
     \<and> ti_poll_fn (k_tasks k' w) = ti_poll_fn (k_tasks k w)
     \<and> (ti_executor_ptr (k_tasks k' w) \<noteq> None \<longrightarrow> ti_executor_ptr (k_tasks k w) \<noteq> None \<or> flagged k' w)"

lemma calm_refl [simp]: "calm w k k"
  by (simp add: calm_def)

lemma calm_same_tasks: "k_tasks k' = k_tasks k \<Longrightarrow> calm w k k'"
  by (simp add: calm_def flagged_def)

lemma calm_stage:
  assumes "step_stage V L st k = Inr (st', k')" "pusher (Some st) = {#w#} \<longrightarrow> flagged k w"
  shows "calm w k k'"
    and "stage_wakes w (Some st) \<Longrightarrow> ti_executor_ptr (k_tasks k' w) \<noteq> None \<Longrightarrow> stage_wakes w st' \<or> flagged k' w"
proof -
  have push: "calm w k k'" if "enqueue_locked L e t k = Inr k'" "t = w \<longrightarrow> flagged k w" for e t
    using enqueue_locked_tasks [OF that(1)] that(2) by (auto simp: calm_def flagged_def)
  show "calm w k k'"
  proof (cases st)
    case (W_Push e t)
    then show ?thesis using assms by (auto simp: rbind_Inr_iff intro: push)
  next
    case (D_Push e t)
    then show ?thesis using assms by (auto simp: rbind_Inr_iff intro: push)
  next
    case W_Send
    then have "pend_send k = Inr k'" using assms by (auto simp: rbind_Inr_iff)
    then have "k_tasks k' = k_tasks k"
      by (auto simp: pend_send_def ipi_send_def split: option.splits ipi_dev.splits if_splits)
    then show ?thesis by (rule calm_same_tasks)
  next
    case D_Check
    then have "spawn_check V k = Inr k'" using assms by (auto simp: rbind_Inr_iff)
    then have "k_tasks k' = k_tasks k"
      by (auto simp: spawn_check_def rbind_Inr_iff Let_def dest: pend_tasks
          split: option.split_asm if_split_asm list.split_asm)
    then show ?thesis by (rule calm_same_tasks)
  qed (use assms in \<open>auto simp: calm_def fetch_enqueue_eq flagged_def pend_mark_def join_store_def
    split: option.splits if_splits\<close>)
  show "stage_wakes w st' \<or> flagged k' w"
    if "stage_wakes w (Some st)" "ti_executor_ptr (k_tasks k' w) \<noteq> None"
    using that assms(1) by (cases st) (auto simp: fetch_enqueue_eq split: option.splits if_splits)
qed

lemma calm_wake: "wake_task L t k = Inr k' \<Longrightarrow> calm w k k'"
  using wake_task_keeps [of L t k k' w] wake_task_core [of L t k k' w]
  by (auto simp: calm_def task_core_def)

lemma wait_calm:
  assumes inv: "wait_inv W k (fr # rest)" and calm: "calm (wt_task W) k k'"
    and app: "wt_inv W (k_app k')" "wt_slot W (k_app k') = wt_slot W (k_app k) \<or> list_ex (waking (wt_task W)) frs"
    and frames: "list_all (frame_waits W) frs"
    and hold: "handles (wt_task W) fr \<Longrightarrow> list_ex (handles (wt_task W)) frs \<or> \<not> sleeps W k'"
    and susp: "list_ex (suspends W) frs \<Longrightarrow> owned W k' \<Longrightarrow> suspends W fr \<or> attentive W k' (frs @ rest)"
    and wake: "waking (wt_task W) fr \<Longrightarrow> owned W k' \<Longrightarrow> list_ex (waking (wt_task W)) frs \<or> flagged k' (wt_task W)"
  shows "wait_inv W k' (frs @ rest)"
proof -
  let ?w = "wt_task W"
  have old: "stored W k" "list_all (frame_waits W) rest"
    "owned W k \<Longrightarrow> sleeps W k \<and> \<not> list_ex (handles ?w) (fr # rest) \<or> list_ex (suspends W) (fr # rest) \<Longrightarrow>
      attentive W k (fr # rest)"
    using inv by (simp_all add: wait_inv_def)
  have same: "sleeps W k' = sleeps W k" "stored W k' = stored W k"
    using calm by (simp_all add: calm_def sleeps_def stored_def)
  have "attentive W k' (frs @ rest)"
    if "owned W k'" "sleeps W k' \<and> \<not> list_ex (handles ?w) (frs @ rest) \<or> list_ex (suspends W) (frs @ rest)"
  proof (cases "owned W k")
    case False
    then have "flagged k' ?w" using calm that(1) by (auto simp: calm_def owned_def)
    then show ?thesis by (simp add: attentive_def)
  next
    case True
    show ?thesis
    proof (cases "attentive W k (fr # rest)")
      case True
      then show ?thesis
        using app(2) wake that(1) calm unfolding attentive_def calm_def by auto
    next
      case False
      then have "\<not> suspends W fr" "\<not> list_ex (suspends W) rest" "sleeps W k \<longrightarrow> list_ex (handles ?w) (fr # rest)"
        using old(3) True by auto
      then show ?thesis using that susp hold same(1) by auto
    qed
  qed
  then show ?thesis using app(1) frames old(1,2) same(2) by (simp add: wait_inv_def)
qed

section \<open>The steps\<close>

lemma calm_access [simp]: "calm w k (k\<lparr>k_app := g\<rparr>)"
  by (rule calm_same_tasks) simp

lemma pusher_flagged: "sched_inv V L n k (fr # rest) \<Longrightarrow> frame_stage fr = Some st \<Longrightarrow> pusher (Some st) = {#w#} \<longrightarrow> flagged k w"
  using sched_invD(3) [of V L n k "fr # rest"] by (auto simp: queue_inv_def count_eq_zero_iff dest: spec [of _ w] split: if_splits)

text \<open>A spawn puts the task down in a state in which it does not wait.\<close>

lemma wait_spawn:
  assumes inv: "wait_inv W k (fr # rest)" and step: "begin_spawn t f p k = Inr (ok, st', k')"
    and t: "t = wt_task W \<longrightarrow> \<not> wt_waits W f"
    and frames: "frame_waits W fr'" "suspends W fr' \<longrightarrow> suspends W fr" "handles (wt_task W) fr' = handles (wt_task W) fr"
      "waking (wt_task W) fr \<longrightarrow> waking (wt_task W) fr'"
  shows "wait_inv W k' (fr' # rest)"
proof (cases "t = wt_task W \<and> \<not> spawned (ti_state (k_tasks k t))")
  case False
  then have "calm (wt_task W) k k'" "k_app k' = k_app k"
    using step by (auto simp: begin_spawn_def storage_spawn_def case_prod_beta calm_def flagged_def app_simps
        split: if_splits)
  then show ?thesis
    using wait_calm [OF inv, of k' "[fr']"] inv frames by (auto simp: wait_inv_def)
next
  case True
  then have k': "k_app k' = k_app k" "flagged k (wt_task W) \<longrightarrow> flagged k' (wt_task W)"
      "ts_f (k_tasks k' (wt_task W)) = Init f" "ti_poll_fn (k_tasks k' (wt_task W)) = Some PollStorage"
      "owned W k' = owned W k"
    using step by (auto simp: begin_spawn_def storage_spawn_def case_prod_beta flagged_def app_simps owned_def
        split: if_splits)
  have "\<not> sleeps W k'" "stored W k'" using k' t True by (simp_all add: sleeps_def stored_def)
  then show ?thesis
    using inv k'(1,2,5) frames by (auto simp: wait_inv_def attentive_def)
qed

lemma handles_simps [simp]:
  "\<not> handles w (FIrq kind ops st)" "\<not> handles w (FLoop e)" "\<not> handles w FIdle"
  "handles w (FGot e t) \<longleftrightarrow> t = w" "handles w (FPoll e t st p) \<longleftrightarrow> t = w"
  by (simp_all add: handles_def)

lemma suspends_stage: "suspends W (FPoll e t st' p) = suspends W (FPoll e t st p)"
  by (cases p) simp_all

lemma wait_irq:
  assumes inv: "sched_inv V L n k (FIrq kind ops st # rest)" and w: "wait_inv W k (FIrq kind ops st # rest)"
    and step: "step_irq V L kind ops st k = Inr (frs, k')"
  shows "wait_inv W k' (frs @ rest)"
proof -
  have I: "wt_inv W (k_app k)" "list_all (op_waits W) ops" using w by (simp_all add: wait_inv_def)
  show ?thesis
  proof (cases st)
    case (Some st0)
    then obtain st' where st': "step_stage V L st0 k = Inr (st', k')" "frs = [FIrq kind ops st']"
      using step by (auto simp: rbind_Inr_iff)
    note c = calm_stage [OF st'(1), of "wt_task W"]
    have f: "pusher (Some st0) = {#wt_task W#} \<longrightarrow> flagged k (wt_task W)"
      by (rule pusher_flagged [OF inv]) (simp add: Some)
    show ?thesis
      using c(2) [OF f] I Some app_stage [OF st'(1)] unfolding st'(2)
      by (intro wait_calm [OF w c(1) [OF f]]) (auto simp: owned_def)
  next
    case None
    show ?thesis
    proof (cases ops)
      case Nil
      then have "k' = k" "list_all (frame_waits W) frs" "\<not> list_ex (suspends W) frs"
        using step None by (cases kind; auto)+
      then show ?thesis using I None Nil by (intro wait_calm [OF w]) simp_all
    next
      case (Cons op ops')
      show ?thesis
      proof (cases op)
        case (IsrWake v)
        then have "k' = k" "frs = [FIrq kind ops' (Some (W_Load v))]" using step None Cons by simp_all
        then show ?thesis using I None Cons IsrWake by (intro wait_calm [OF w]) auto
      next
        case (IsrSpawn t f p)
        then obtain ok st' where s: "begin_spawn t f p k = Inr (ok, st', k')" "frs = [FIrq kind ops' st']"
          using step None Cons by (auto simp: rbind_Inr_iff)
        then show ?thesis using wait_spawn [OF w s(1), of "FIrq kind ops' st'"] I None Cons IsrSpawn by simp
      next
        case (IsrAccess u c)
        then have s: "k' = k\<lparr>k_app := u (k_app k)\<rparr>" "frs = [FIrq kind (c (k_app k) @ ops') None]"
          using step None Cons by simp_all
        then show ?thesis using I None Cons IsrAccess by (intro wait_calm [OF w]) auto
      qed
    qed
  qed
qed

text \<open>
  The poll of the task itself is the only one of it on the stack; other polls leave the slot alone.
\<close>

lemma only_poll:
  assumes "distinct (map snd (polls (fr # rest)))" "handles w fr"
  shows "\<not> list_ex (handles w) rest" and "w = wt_task W \<Longrightarrow> \<not> list_ex (suspends W) rest"
proof -
  obtain e where fr: "polled fr = Some (e, w)" using assms(2) by (auto simp: handles_def split: option.splits)
  show "\<not> list_ex (handles w) rest"
  proof
    assume "list_ex (handles w) rest"
    then obtain f e' where "f \<in> set rest" "polled f = Some (e', w)"
      by (auto simp: list_ex_iff handles_def split: option.splits)
    then show False using polls_unique [OF assms(1) fr polled_in_polls] by blast
  qed
  moreover have "suspends W f \<Longrightarrow> handles (wt_task W) f" for f
    by (cases "(W, f)" rule: suspends.cases) simp_all
  ultimately show "w = wt_task W \<Longrightarrow> \<not> list_ex (suspends W) rest"
    by (auto simp: list_ex_iff)
qed

lemma wait_poll:
  assumes inv: "sched_inv V L n k (FPoll e t st p # rest)" and w: "wait_inv W k (FPoll e t st p # rest)"
    and step: "step_poll V L e t st p k = Inr (frs, k')" and one: "distinct (map snd (polls (FPoll e t st p # rest)))"
    and ok: "ti_poll_fn (k_tasks k t) = Some PollStorage"
  shows "wait_inv W k' (frs @ rest)"
proof -
  have I: "wt_inv W (k_app k)" "prog_waits W (t = wt_task W) p \<or> t = wt_task W \<and> (\<exists>f. p = Pending f)"
    using w by (simp_all add: wait_inv_def)
  show ?thesis
  proof (cases st)
    case (Some st0)
    then obtain st' where st': "step_stage V L st0 k = Inr (st', k')" "frs = [FPoll e t st' p]"
      using step by (auto simp: rbind_Inr_iff)
    note c = calm_stage [OF st'(1), of "wt_task W"]
    have f: "pusher (Some st0) = {#wt_task W#} \<longrightarrow> flagged k (wt_task W)"
      by (rule pusher_flagged [OF inv]) (simp add: Some)
    show ?thesis
      using c(2) [OF f] I Some app_stage [OF st'(1)] suspends_stage [of W e t st' p st] unfolding st'(2)
      by (intro wait_calm [OF w c(1) [OF f]]) (auto simp: owned_def)
  next
    case None
    show ?thesis
    proof (cases p)
      case (Ready out)
      then have "k' = k" "frs = [FReady e t out]" using step None by simp_all
      then show ?thesis using I None by (intro wait_calm [OF w]) (auto simp: handles_def)
    next
      case (Pending f)
      then have s: "k' = upd_task t (\<lambda>i. i\<lparr>ts_f := Init f\<rparr>) k" "frs = [FLoop e]" using step None by simp_all
      show ?thesis
      proof (cases "t = wt_task W")
        case False
        then show ?thesis using I None s by (intro wait_calm [OF w]) (auto simp: calm_def flagged_def app_simps)
      next
        case True
        have "\<not> list_ex (suspends W) rest" "\<not> list_ex (handles t) rest" using only_poll [OF one] True by simp_all
        moreover have "stored W k'" "owned W k' = owned W k" "sleeps W k' = wt_waits W f" "flagged k' t = flagged k t"
          using s(1) True ok by (simp_all add: stored_def owned_def sleeps_def flagged_def)
        ultimately show ?thesis
          using w s True None Pending by (auto simp: wait_inv_def attentive_def app_simps)
      qed
    next
      case (Wake v p')
      then have "k' = k" "frs = [FPoll e t (Some (W_Load v)) p']" using step None by simp_all
      moreover have "\<not> suspends W (FPoll e t (Some (W_Load v)) p')"
        using I(2) Wake by (cases p') auto
      ultimately show ?thesis using I None Wake by (intro wait_calm [OF w]) auto
    next
      case (Spawn t' f prio c)
      then obtain ok st' where s: "begin_spawn t' f prio k = Inr (ok, st', k')" "frs = [FPoll e t st' (c ok)]"
        using step None by (auto simp: rbind_Inr_iff)
      have "prog_waits W (t = wt_task W) (c ok)" using I(2) Spawn by auto
      then have "frame_waits W (FPoll e t st' (c ok))" "\<not> suspends W (FPoll e t st' (c ok))"
        by (cases "c ok"; auto)+
      then show ?thesis using wait_spawn [OF w s(1), of "FPoll e t st' (c ok)"] I(2) None Spawn s(2) by auto
    next
      case (Join t' c)
      then obtain st' r where s: "frs = [FPoll e t st' (c r)]" "calm (wt_task W) k k'" "k_app k' = k_app k"
          "st' = None \<or> (\<exists>x. st' = Some (J_Store t' x))"
        using step None by (auto simp: join_take_def calm_def flagged_def app_simps split: option.splits)
      have "prog_waits W (t = wt_task W) (c r)" using I(2) Join by auto
      then have "frame_waits W (FPoll e t st' (c r))" "\<not> suspends W (FPoll e t st' (c r))"
        by (cases "c r"; auto)+
      then show ?thesis using I None s by (intro wait_calm [OF w s(2)]) auto
    next
      case (Access u c)
      let ?g = "k_app k"
      have s: "k' = k\<lparr>k_app := u ?g\<rparr>" "frs = [FPoll e t None (c ?g)]" using step None Access by simp_all
      show ?thesis
      proof (cases "t = wt_task W")
        case False
        then have "prog_waits W False (c ?g)" "wt_slot W (u ?g) = wt_slot W ?g" "wt_inv W (u ?g)"
          using I Access by auto
        then show ?thesis using I None s False suspends.simps
          by (intro wait_calm [OF w]) (auto simp: elim: suspends.elims)
      next
        case True
        then have "wt_inv W (u ?g)" "prog_waits W True (c ?g) \<or> wt_slot W (u ?g) = Some (wt_task W) \<and> (\<exists>f. c ?g = Pending f)"
          using I Access by auto
        moreover have "prog_waits W True (c ?g) \<Longrightarrow> \<not> suspends W (FPoll e t None (c ?g))" by (cases "c ?g") auto
        moreover have "\<not> list_ex (suspends W) rest" "\<not> list_ex (handles t) rest" using only_poll [OF one] True by simp_all
        ultimately show ?thesis using w s True by (auto simp: wait_inv_def attentive_def stored_def)
      qed
    qed
  qed
qed

lemma wait_loop:
  assumes rt: "runtime V n L" and inv: "sched_inv V L n k (FLoop e # rest)" and w: "wait_inv W k (FLoop e # rest)"
    and step: "step_frame V L fpoll (FLoop e) k = Inr (frs, k')" and one: "distinct (map snd (polls (frs @ rest)))"
  shows "wait_inv W k' (frs @ rest)"
proof -
  note I = sched_invD [OF inv]
  have e: "e < n" using I(2) by (simp add: stack_inv_def)
  have app: "k_app k' = k_app k"
    using step by (auto simp: rbind_Inr_iff dest: app_run_next split: option.splits)
  have inv_app: "wt_inv W (k_app k)" using w by (simp add: wait_inv_def)
  show ?thesis
  proof (cases rule: runtime.run_next_ok [OF rt I(1) e, case_names task empty])
    case (task t k2)
    then have s: "frs = [FGot e t]" "k_tasks k' = (k_tasks k)(t := (k_tasks k t)\<lparr>ti_state := state_run_dequeue (ti_state (k_tasks k t))\<rparr>)"
      using step by auto
    show ?thesis
    proof (cases "t = wt_task W")
      case False
      then show ?thesis using s app inv_app by (intro wait_calm [OF w]) (auto simp: calm_def flagged_def)
    next
      case True
      have "\<not> list_ex (suspends W) rest"
        by (rule only_poll(2) [of "FGot e t"]) (use one s(1) True in \<open>simp_all add: handles_def\<close>)
      then show ?thesis using w s True app inv_app by (auto simp: wait_inv_def stored_def handles_def)
    qed
  next
    case (empty k2)
    then show ?thesis using step app inv_app
      by (intro wait_calm [OF w]) (auto intro: calm_same_tasks simp: handles_def)
  qed
qed

lemma wait_got:
  assumes w: "wait_inv W k (FGot e t # rest)" and step: "step_frame V L fpoll (FGot e t) k = Inr (frs, k')"
    and prog: "\<And>t f. prog_waits W (t = wt_task W) (fpoll t f)"
  shows "wait_inv W k' (frs @ rest)"
proof -
  have old: "wt_inv W (k_app k)" "stored W k" using w by (simp_all add: wait_inv_def)
  obtain pf where pf: "ti_poll_fn (k_tasks k t) = Some pf" using step by (auto split: option.splits)
  show ?thesis
  proof (cases pf)
    case PollStorage
    then obtain f where s: "frs = [FPoll e t None (fpoll t f)]" "k' = k"
      using step pf by (auto simp: rbind_Inr_iff)
    have "\<not> suspends W (FPoll e t None (fpoll t f))" using prog [of t f] by (cases "fpoll t f") auto
    then show ?thesis using s old prog by (intro wait_calm [OF w]) (auto simp: handles_def)
  next
    case PollExited
    then have "frs = [FLoop e]" "k' = k" using step pf by simp_all
    moreover have "t = wt_task W \<longrightarrow> \<not> sleeps W k" using old(2) pf PollExited by (auto simp: stored_def sleeps_def)
    ultimately show ?thesis using old by (intro wait_calm [OF w]) (auto simp: handles_def)
  qed
qed

lemma wait_drop:
  assumes w: "wait_inv W k (FDrop e t # rest)" and step: "step_frame V L fpoll (FDrop e t) k = Inr (frs, k')"
    and one: "distinct (map snd (polls (FDrop e t # rest)))"
  shows "wait_inv W k' (frs @ rest)"
proof -
  have s: "k' = upd_task t (\<lambda>i. i\<lparr>ts_f := Uninit, ti_poll_fn := Some PollExited\<rparr>) k" "frs = [FDespawn e t]"
    using step by (auto simp: poll_drop_future_def rbind_Inr_iff cell_drop_in_place_def split: cell.splits)
  show ?thesis
  proof (cases "t = wt_task W")
    case False
    then show ?thesis using s w
      by (intro wait_calm [OF w]) (auto simp: calm_def flagged_def app_simps wait_inv_def handles_def)
  next
    case True
    have "\<not> list_ex (suspends W) rest"
      by (rule only_poll(2) [OF one]) (use True in \<open>simp_all add: handles_def\<close>)
    then show ?thesis using s w True by (auto simp: wait_inv_def stored_def sleeps_def app_simps)
  qed
qed

lemma wait_despawn:
  assumes w: "wait_inv W k (FDespawn e t # rest)" and step: "step_frame V L fpoll (FDespawn e t) k = Inr (frs, k')"
    and ok: "ti_poll_fn (k_tasks k t) = Some PollExited"
  shows "wait_inv W k' (frs @ rest)"
proof -
  have d: "poll_despawn L t k = Inr k'" "frs = [FLoop e]" using step by (auto simp: rbind_Inr_iff)
  let ?k1 = "put_state t (state_despawn (ti_state (k_tasks k t))) k"
  have k1: "calm v k ?k1" "calm v k (upd_task t (\<lambda>i. i\<lparr>js_waker := None\<rparr>) ?k1)" for v
    by (auto simp: calm_def flagged_def)
  have "calm (wt_task W) k k'"
  proof (cases "js_waker (k_tasks k t)")
    case None
    then show ?thesis using d(1) k1(1) by (simp add: poll_despawn_def)
  next
    case (Some v)
    then have "wake_task L v (upd_task t (\<lambda>i. i\<lparr>js_waker := None\<rparr>) ?k1) = Inr k'"
      using d(1) by (simp add: poll_despawn_def waker_wake_def)
    from calm_wake [OF this, of "wt_task W"] k1(2) [of "wt_task W"] show ?thesis by (auto simp: calm_def)
  qed
  moreover have "t = wt_task W \<longrightarrow> \<not> sleeps W k" using w ok by (auto simp: wait_inv_def stored_def sleeps_def)
  moreover have "sleeps W k' = sleeps W k" using \<open>calm (wt_task W) k k'\<close> by (simp add: calm_def sleeps_def)
  ultimately show ?thesis
    using d(2) app_despawn [OF d(1)] w by (intro wait_calm [OF w]) (auto simp: wait_inv_def handles_def)
qed

lemma preempt_tasks: "try_preempt V k = Inr (r, k') \<Longrightarrow> k_tasks k' = k_tasks k"
proof (cases "bitmap_highest (k_bitmap k)")
  case (Inr h)
  then show "try_preempt V k = Inr (r, k') \<Longrightarrow> k_tasks k' = k_tasks k"
    by (cases h) (auto simp: try_preempt_def Let_def split: option.split_asm list.split_asm if_split_asm)
qed (simp add: try_preempt_def)

lemma wait_frame:
  assumes rt: "runtime V n L" and inv: "sched_inv V L n k (fr # rest)" and w: "wait_inv W k (fr # rest)"
    and step: "step_frame V L fpoll fr k = Inr (frs, k')"
    and one: "distinct (map snd (polls (fr # rest)))" "distinct (map snd (polls (frs @ rest)))"
    and ok: "frame_task_ok k fr" and prog: "\<And>t f. prog_waits W (t = wt_task W) (fpoll t f)"
  shows "wait_inv W k' (frs @ rest)"
proof -
  have app: "wt_inv W (k_app k)" using w by (simp add: wait_inv_def)
  show ?thesis
  proof (cases fr)
    case (FIrq kind ops st)
    then show ?thesis using wait_irq inv w step by simp
  next
    case FClear
    then have "k_tasks k' = k_tasks k" "k_app k' = k_app k" "frs \<in> {[FSched], []}"
      using step app_pend(3) by (auto simp: rbind_Inr_iff clear_pend_def Let_def ipi_clear_def split: option.splits ipi_dev.splits if_splits)
    then show ?thesis using app FClear
      by (intro wait_calm [OF w [unfolded FClear]]) (auto intro: calm_same_tasks simp: handles_def)
  next
    case FSched
    obtain r k2 where pre: "try_preempt V k = Inr (r, k2)" using step FSched by (auto simp: rbind_Inr_iff)
    have "k' = k2 \<and> (frs = [] \<or> (\<exists>e. frs = [FLoop e]))"
    proof (cases r)
      case (Some y)
      then show ?thesis using step pre FSched by (cases y) (auto split: if_splits)
    qed (use step pre FSched in simp)
    then have "k_tasks k' = k_tasks k" "k_app k' = k_app k" "frs = [] \<or> (\<exists>e. frs = [FLoop e])"
      using preempt_tasks [OF pre] app_preempt [OF pre] by auto
    then show ?thesis using app FSched
      by (intro wait_calm [OF w [unfolded FSched]]) (auto intro: calm_same_tasks simp: handles_def)
  next
    case (FLoop e)
    then show ?thesis using wait_loop [OF rt] inv w step one(2) by simp
  next
    case (FGot e t)
    show ?thesis by (rule wait_got [OF w [unfolded FGot] step [unfolded FGot] prog])
  next
    case (FPoll e t st p)
    then show ?thesis using wait_poll inv w step one(1) ok by simp
  next
    case (FReady e t out)
    then have "k' = poll_store_result t out k" "frs = [FNull e t]" using step by simp_all
    then show ?thesis using app FReady
      by (intro wait_calm [OF w [unfolded FReady]])
        (auto simp: handles_def calm_def flagged_def poll_store_result_def app_simps)
  next
    case (FNull e t)
    then have "k' = poll_clear_executor t k" "frs = [FDrop e t]" using step by simp_all
    then show ?thesis using app FNull
      by (intro wait_calm [OF w [unfolded FNull]])
        (auto simp: handles_def calm_def flagged_def poll_clear_executor_def app_simps)
  next
    case (FDrop e t)
    then show ?thesis using wait_drop w step one(1) by simp
  next
    case (FDespawn e t)
    show ?thesis by (rule wait_despawn [OF w [unfolded FDespawn] step [unfolded FDespawn]]) (use ok FDespawn in simp)
  next
    case (FRunEnd e)
    then show ?thesis using app step
      by (intro wait_calm [OF w [unfolded FRunEnd]]) (auto simp: handles_def)
  next
    case (FComplete e)
    then show ?thesis using app step
      by (intro wait_calm [OF w [unfolded FComplete]])
        (auto simp: handles_def complete_executor_def intro: calm_same_tasks)
  next
    case FIdle
    then show ?thesis using app step by (intro wait_calm [OF w [unfolded FIdle]]) (auto simp: handles_def)
  qed
qed

text \<open>The hypothesis on the programs: every poll of every task keeps the rules of the slot.\<close>

definition polls_wait :: "('f, 'g) watch \<Rightarrow> (tid \<Rightarrow> 'f \<Rightarrow> ('f, 'o, 'g) prog) \<Rightarrow> bool" where
  "polls_wait W fpoll \<longleftrightarrow> (\<forall>t f. prog_waits W (t = wt_task W) (fpoll t f))"

lemma wait_push_irq:
  assumes "wait_inv W k stk" "list_all (op_waits W) ops" "stk \<noteq> []"
  shows "wait_inv W k (FIrq kind ops None # stk)"
  using assms by (auto simp: wait_inv_def attentive_def)

lemma wait_exec:
  assumes rt: "runtime V n L" and r: "reachable_disciplined V L fpoll n m" and w: "wait_inv W (m_kernel m) (m_stack m)"
    and d: "disciplined n m" and ev: "event_waits W ev" and step: "exec V L fpoll ev m = Some (Inr m')"
    and prog: "polls_wait W fpoll"
  shows "wait_inv W (m_kernel m') (m_stack m')"
proof (cases ev)
  case Step
  then obtain fr rest frs where s: "m_stack m = fr # rest" "m_stack m' = frs @ rest"
      "step_frame V L fpoll fr (m_kernel m) = Inr (frs, m_kernel m')"
    using step by (auto simp: rbind_Inr_iff split: list.splits)
  note T = task_invD [OF runtime.disciplined_inv [OF rt r]]
  have T': "distinct (map snd (polls (m_stack m')))"
    by (rule task_invD [OF runtime.disciplined_inv [OF rt disciplined_step [OF r d step]]])
  have inv: "sched_inv V L n (m_kernel m) (m_stack m)"
    by (rule runtime.reachable_inv [OF rt reachable_disciplined_reachable [OF r]])
  have p: "prog_waits W (t = wt_task W) (fpoll t f)" for t f using prog by (simp add: polls_wait_def)
  show ?thesis
    unfolding s(2)
    by (rule wait_frame [OF rt inv [unfolded s(1)] w [unfolded s(1)] s(3) _ _ _ p])
      (use T(1,8) T' s in simp_all)
next
  case RaiseMsi
  then show ?thesis using step w by (auto simp: wait_inv_def attentive_def owned_def sleeps_def stored_def flagged_def)
next
  case (TakeIsr ops)
  then obtain fr rest where "m_stack m = fr # rest" "m' = m\<lparr>m_stack := FIrq KIsr ops None # m_stack m\<rparr>"
    using step by (auto split: list.splits if_splits)
  then show ?thesis using wait_push_irq [OF w, of ops KIsr] ev TakeIsr by simp
next
  case (TakeMsi ops)
  then obtain fr rest where "m_stack m = fr # rest" "m' = m\<lparr>m_stack := FIrq KHook ops None # m_stack m\<rparr>"
    using step by (auto split: list.splits if_splits)
  then show ?thesis using wait_push_irq [OF w, of ops KHook] ev TakeMsi by simp
qed

lemma watched_inv:
  assumes rt: "runtime V n L" and prog: "polls_wait W fpoll"
  shows "watched V L fpoll n W m \<Longrightarrow> wait_inv W (m_kernel m) (m_stack m)"
proof (induction rule: watched.induct)
  case (watched_boot g ops m)
  have "0 < n" "n \<le> 4096"
    using watched_boot(1) by (auto simp: boot_machine_def boot_kernel_def spawner_new_def split: if_splits)
  moreover obtain b where "bitmap_new 64 = Inr b" by (rule bitmap_new_ok [of 64]) simp_all
  ultimately have "k_app (m_kernel m) = g" "m_stack m = [FIrq KBoot ops None]" "k_tasks (m_kernel m) = (\<lambda>t. storage_new)"
    using watched_boot(1) by (auto simp: boot_machine_def boot_kernel_def spawner_new_def spawner_init_def)
  then show ?case using watched_boot(2,3)
    by (simp add: wait_inv_def stored_def owned_def storage_new_def cell_uninit_def)
next
  case (watched_step m ev m')
  then show ?case using wait_exec [OF rt] watched_disciplined prog by blast
qed

text \<open>In an idle machine nothing is on its way: a task that sleeps is registered.\<close>

lemma idle_registered:
  assumes rt: "bounded_vec V n" "intrusive_list L" and prog: "polls_wait W fpoll" and m: "watched V L fpoll n W m"
    and idle: "m_stack m = [FIdle]" "\<not> (k_pend_marker (m_kernel m) \<and> k_msip (m_kernel m))"
    and t: "owned W (m_kernel m)" "sleeps W (m_kernel m)"
  shows "wt_slot W (k_app (m_kernel m)) = Some (wt_task W)" "wt_inv W (k_app (m_kernel m))"
proof -
  note I = sched_invD [OF inv_of [OF rt reachable_disciplined_reachable [OF watched_disciplined [OF m]]]]
  have "queue L (m_kernel m) p = []" if "p < n" for p
    by (rule idle_means_no_work [OF rt reachable_disciplined_reachable [OF watched_disciplined [OF m]] idle that])
  then have "queued L n (m_kernel m) = {#}" by (simp add: queued_def)
  then have "\<not> flagged (m_kernel m) (wt_task W)"
    using I(3) idle(1) by (auto simp: queue_inv_def dest: spec [of _ "wt_task W"] split: if_splits)
  moreover have w: "wait_inv W (m_kernel m) (m_stack m)" by (rule watched_inv [OF runtime.intro [OF rt] prog m])
  ultimately show "wt_slot W (k_app (m_kernel m)) = Some (wt_task W)" "wt_inv W (k_app (m_kernel m))"
    using idle(1) t by (auto simp: wait_inv_def attentive_def)
qed

end
