(* ===== verification/Latency.thy ===== *)
theory Latency
  imports TimerTasks
begin

text \<open>
  From the interrupt to the task: how many steps of the runtime lie between an interrupt whose
  handler wakes a task and the first step of the task's poll, when nothing that outranks it is in
  the way.
\<close>

section \<open>The loop of an executor takes up a task\<close>

lemma loop_polls:
  assumes rt: "bounded_vec V n" "intrusive_list L" and m: "reachable V L fpoll n m"
    and stk: "m_stack m = FLoop e # rest" and q: "queue L (m_kernel m) e = t # ts"
    and f: "ti_poll_fn (k_tasks (m_kernel m) t) = Some PollStorage" "ts_f (k_tasks (m_kernel m) t) = Init f"
  shows "\<exists>m'. exec_all V L fpoll [Step, Step] m = Some (Inr m') \<and> m_stack m' = FPoll e t None (fpoll t f) # rest
    \<and> k_app (m_kernel m') = k_app (m_kernel m)"
proof -
  note I = sched_invD [OF inv_of [OF rt m]]
  have e: "e < n" using I(2) stk by (simp add: stack_inv_def)
  show ?thesis
  proof (cases rule: runtime.run_next_ok [OF runtime.intro [OF rt] I(1) e, case_names task empty])
    case (task t' k2)
    then have "t' = t" using q by simp
    then have "ti_poll_fn (k_tasks k2 t) = Some PollStorage" "ts_f (k_tasks k2 t) = Init f"
      using task f by auto
    then show ?thesis using task stk \<open>t' = t\<close> app_run_next [OF task(1)] by simp
  next
    case (empty k2)
    then show ?thesis using q by simp
  qed
qed

text \<open>
  A task that is alone at the top of what is queued, with a reschedule pending: the interrupt of
  the scheduler and five steps start its poll on top of the interrupted code.
\<close>

lemma queued_polls:
  assumes rt: "bounded_vec V n" "intrusive_list L" and m: "reachable V L fpoll n m"
    and stk: "m_stack m = fr # rest" "frame_mie fr" and pend: "k_pend_marker (m_kernel m)" "k_msip (m_kernel m)"
    and e: "e < n" "outranks e (current (m_stack m))" and q: "queue L (m_kernel m) e = t # ts"
    and top: "\<forall>p<n. queue L (m_kernel m) p \<noteq> [] \<longrightarrow> e \<le> p"
    and f: "ti_poll_fn (k_tasks (m_kernel m) t) = Some PollStorage" "ts_f (k_tasks (m_kernel m) t) = Init f"
  shows "\<exists>m'. exec_all V L fpoll [TakeMsi [], Step, Step, Step, Step, Step] m = Some (Inr m')
    \<and> m_stack m' = FPoll e t None (fpoll t f) # m_stack m \<and> k_app (m_kernel m') = k_app (m_kernel m)"
proof -
  have work: "queue L (m_kernel m) e \<noteq> []" using q by simp
  obtain e' m2 where m2: "exec_all V L fpoll [TakeMsi [], Step, Step, Step] m = Some (Inr m2)"
      "m_stack m2 = FLoop e' # m_stack m" "e' \<le> e" "queue L (m_kernel m2) e' \<noteq> []"
      "queue L (m_kernel m2) = queue L (m_kernel m)" "k_tasks (m_kernel m2) = k_tasks (m_kernel m)"
      "k_app (m_kernel m2) = k_app (m_kernel m)"
    using reschedule_served [OF rt m stk pend e(1) work e(2)] by blast
  have "e \<le> e'" using top m2(3-5) e(1) by (metis le_less_trans)
  then have e': "e' = e" using m2(3) by simp
  obtain m' where m': "exec_all V L fpoll [Step, Step] m2 = Some (Inr m')"
      "m_stack m' = FPoll e t None (fpoll t f) # m_stack m" "k_app (m_kernel m') = k_app (m_kernel m2)"
    using loop_polls [OF rt exec_all_reachable [OF m2(1) m] m2(2) [unfolded e']] q f m2(5,6) by auto
  have "exec_all V L fpoll ([TakeMsi [], Step, Step, Step] @ [Step, Step]) m = Some (Inr m')"
    by (simp only: exec_all_then [OF m2(1)] m'(1))
  then show ?thesis using m'(2,3) m2(7) by (intro exI [of _ m']) simp
qed

text \<open>
  C6. From interrupt to task in a bounded number of steps.  If an interrupt comes while interrupts
  are enabled and its handler wakes a task that is not run-queued, outranks the running executor
  and is of higher priority than all that is queued, then the handler, the pending interrupt of the
  scheduler and the executor's loop take at most twelve steps, whatever the number of tasks and
  priorities, until the task's poll starts on the stack of the interrupted code.
\<close>

theorem interrupt_to_poll_bounded:
  assumes rt: "bounded_vec V n" "intrusive_list L" and m: "reachable V L fpoll n m"
    and stk: "m_stack m = fr # rest" "frame_mie fr"
    and t: "ti_executor_ptr (k_tasks (m_kernel m) t) = Some e" "\<not> run_queued (ti_state (k_tasks (m_kernel m) t))"
      "ti_poll_fn (k_tasks (m_kernel m) t) = Some PollStorage" "ts_f (k_tasks (m_kernel m) t) = Init f"
    and top: "outranks e (current (m_stack m))" "\<forall>p<n. queue L (m_kernel m) p \<noteq> [] \<longrightarrow> e < p"
  shows "\<exists>i\<le>7. \<exists>m'. exec_all V L fpoll
      (TakeIsr [IsrWake t] # replicate i Step @ [TakeMsi [], Step, Step, Step, Step, Step]) m = Some (Inr m')
    \<and> m_stack m' = FPoll e t None (fpoll t f) # m_stack m"
proof -
  let ?k = "m_kernel m"
  note I = sched_invD [OF inv_of [OF rt m]]
  obtain k1 where k1: "wake_task L t ?k = Inr k1" "wake_effect L t ?k k1"
    using wake_task_ok [OF rt I(1,3,5)] by blast
  then have w: "queue L k1 = (queue L ?k)(e := queue L ?k e @ [t])" "k_pend_marker k1" "k_msip k1"
    using t(1,2) by (simp_all add: wake_effect_def)
  have e: "e < n" using I(5) t(1) by (auto simp: ptr_inv_def)
  then have empty: "queue L ?k e = []" using top(2) by blast
  obtain i where i: "i \<le> 6" "exec_all V L fpoll (replicate i Step)
      \<lparr>m_kernel = ?k, m_stack = FIrq KIsr (IsrWake t # []) None # m_stack m\<rparr>
      = Some (Inr \<lparr>m_kernel = k1, m_stack = FIrq KIsr [] None # m_stack m\<rparr>)"
    using handler_wake [OF k1(1)] by blast
  let ?m1 = "\<lparr>m_kernel = k1, m_stack = m_stack m\<rparr>"
  have "exec_all V L fpoll [Step] \<lparr>m_kernel = k1, m_stack = FIrq KIsr [] None # m_stack m\<rparr> = Some (Inr ?m1)"
    by simp
  with i(2) have "exec_all V L fpoll (replicate i Step @ [Step])
      \<lparr>m_kernel = ?k, m_stack = FIrq KIsr (IsrWake t # []) None # m_stack m\<rparr> = Some (Inr ?m1)"
    by (simp add: exec_all_append)
  then have m1: "exec_all V L fpoll (TakeIsr [IsrWake t] # replicate (Suc i) Step) m = Some (Inr ?m1)"
    using stk by (simp add: replicate_append_same)
  obtain m' where m': "exec_all V L fpoll [TakeMsi [], Step, Step, Step, Step, Step] ?m1 = Some (Inr m')"
      "m_stack m' = FPoll e t None (fpoll t f) # m_stack m"
  proof -
    have "ti_poll_fn (k_tasks k1 t) = Some PollStorage" "ts_f (k_tasks k1 t) = Init f"
      using wake_task_core [OF k1(1), of t] t(3,4) by (simp_all add: task_core_def)
    moreover have "queue L k1 e = t # []" using w(1) empty by simp
    moreover have "\<forall>p<n. queue L k1 p \<noteq> [] \<longrightarrow> e \<le> p" using w(1) top(2) by auto
    ultimately show thesis
      using queued_polls [OF rt exec_all_reachable [OF m1 m], of fr rest e t "[]" f] stk w(2,3) e top(1) that by auto
  qed
  have "exec_all V L fpoll ((TakeIsr [IsrWake t] # replicate (Suc i) Step)
      @ [TakeMsi [], Step, Step, Step, Step, Step]) m = Some (Inr m')"
    by (simp only: exec_all_then [OF m1] m'(1))
  then show ?thesis using i(1) m'(2) by (intro exI [of _ "Suc i"] conjI exI [of _ m']) simp_all
qed

theorem interrupt_to_poll_bounded_witness:
  "\<exists>m m' evs. reachable (list_vec 4) list_list (delay_task 3 1000000) 4 m \<and> m_stack m = [FIdle]
     \<and> exec_all (list_vec 4) list_list (delay_task 3 1000000) evs m = Some (Inr m')
     \<and> (\<exists>p. m_stack m' = [FPoll 0 0 None p, FIdle])"
proof -
  have "ends_in (\<lambda>m. (case m_stack m of [FIdle] \<Rightarrow> True | _ \<Rightarrow> False)
      \<and> ti_executor_ptr (k_tasks (m_kernel m) 0) = Some 0 \<and> \<not> run_queued (ti_state (k_tasks (m_kernel m) 0))
      \<and> ti_poll_fn (k_tasks (m_kernel m) 0) = Some PollStorage
      \<and> (case ts_f (k_tasks (m_kernel m) 0) of Init f \<Rightarrow> True | _ \<Rightarrow> False)
      \<and> list_all (\<lambda>p. queue list_list (m_kernel m) p = []) [0, 1, 2, 3])
    (plain_run (delay_task 3 1000000) 4 timer_statics_new [IsrSpawn 0 0 (Priority 0)] waiting_run)" by code_simp
  then obtain m f where m: "m_stack m = FIdle # []" "ti_executor_ptr (k_tasks (m_kernel m) 0) = Some 0"
      "\<not> run_queued (ti_state (k_tasks (m_kernel m) 0))" "ti_poll_fn (k_tasks (m_kernel m) 0) = Some PollStorage"
      "ts_f (k_tasks (m_kernel m) 0) = Init f" "list_all (\<lambda>p. queue list_list (m_kernel m) p = []) [0, 1, 2, 3]"
      "reachable (list_vec 4) list_list (delay_task 3 1000000) 4 m"
    by (rule plain_run_obtain) (auto split: list.splits frame.splits cell.splits)
  have mie: "frame_mie FIdle" and top: "outranks 0 (current (m_stack m))" using m(1) by (simp_all add: current_def)
  have "\<forall>p<4. queue list_list (m_kernel m) p \<noteq> [] \<longrightarrow> 0 < p"
    using m(6) by (auto simp: less_Suc_eq numeral_eq_Suc)
  from interrupt_to_poll_bounded [OF list_vec_bounded list_list_intrusive m(7,1) mie m(2-5) top this]
  obtain evs m' where "exec_all (list_vec 4) list_list (delay_task 3 1000000) evs m = Some (Inr m')"
      "m_stack m' = FPoll 0 0 None (delay_task 3 1000000 0 f) # m_stack m"
    by (elim exE conjE) (rule that)
  then show ?thesis using m(1,7)
    by (intro exI [of _ m] exI [of _ m'] exI [of _ evs] conjI) simp_all
qed

end
