(* ===== verification/AwaitTasks.thy ===== *)
theory AwaitTasks
  imports WakeSlots SerialRx Irq Latency
begin

text \<open>
  Awaiting interrupts on the machine: tasks that wait for bytes of the serial port or for a latch,
  and the external interrupt, which runs the handler registered for its number on the interrupted
  stack.
\<close>

section \<open>Polls in a task\<close>

text \<open>
  The part of a poll that runs with interrupts masked, and the whole poll: looking for an event,
  which an interrupt may follow, and the masked part.  \<open>fail\<close> stands for a panic.
\<close>

definition await_masked ::
  "('s \<Rightarrow> ('v option \<times> 's) result) \<Rightarrow> nat \<Rightarrow> 's chan \<Rightarrow> ('v option \<times> 's chan) result" where
  "await_masked tk w c =
     rbind (slot_register w c) (\<lambda>c1.
     rbind (chan_take tk c1) (\<lambda>(v, c2).
       case v of
         Some x \<Rightarrow> rbind (slot_cancel c2) (\<lambda>c3. Inr (Some x, c3))
       | None \<Rightarrow> Inr (None, c2)))"

definition do_await ::
  "('s \<Rightarrow> ('v option \<times> 's) result) \<Rightarrow> ('g \<Rightarrow> 's chan) \<Rightarrow> ('s chan \<Rightarrow> 'g \<Rightarrow> 'g) \<Rightarrow> waker \<Rightarrow> 'f \<Rightarrow>
   ('f, 'o, 'g) prog \<Rightarrow> ('v \<Rightarrow> ('f, 'o, 'g) prog) \<Rightarrow> ('f, 'o, 'g) prog" where
  "do_await tk get put w pc fail c =
     Access (\<lambda>g. case chan_take tk (get g) of Inl e \<Rightarrow> g | Inr (v, c1) \<Rightarrow> put c1 g)
       (\<lambda>g. case chan_take tk (get g) of
          Inl e \<Rightarrow> fail
        | Inr (Some x, c1) \<Rightarrow> c x
        | Inr (None, c1) \<Rightarrow>
            Access (\<lambda>g. case await_masked tk w (get g) of Inl e \<Rightarrow> g | Inr (v, c2) \<Rightarrow> put c2 g)
              (\<lambda>g. case await_masked tk w (get g) of
                 Inl e \<Rightarrow> fail
               | Inr (Some x, c2) \<Rightarrow> c x
               | Inr (None, c2) \<Rightarrow> Pending pc))"

text \<open>Undisturbed, the two parts are the poll of theory \<open>AwaitIrq\<close>.\<close>

lemma await_poll_parts:
  "await_poll tk w c = rbind (chan_take tk c) (\<lambda>(v, c1).
     case v of Some x \<Rightarrow> Inr (Some x, c1) | None \<Rightarrow> await_masked tk w c1)"
  unfolding await_poll_def await_masked_def ..

definition chan_slot :: "'s chan \<Rightarrow> waker option" where
  "chan_slot c = (case ch_slot c of Uninit \<Rightarrow> None | Init w \<Rightarrow> Some w)"

definition chan_sound :: "('s \<Rightarrow> bool) \<Rightarrow> ('s \<Rightarrow> bool) \<Rightarrow> waker \<Rightarrow> 's chan \<Rightarrow> bool" where
  "chan_sound good ready w c \<longleftrightarrow> good (ch_src c) \<and> (ch_has c = 0 \<longleftrightarrow> ch_slot c = Uninit)
     \<and> (ch_slot c \<noteq> Uninit \<longrightarrow> ch_slot c = Init w \<and> \<not> ready (ch_src c))"

definition chan_watch ::
  "('s \<Rightarrow> bool) \<Rightarrow> ('s \<Rightarrow> bool) \<Rightarrow> ('g \<Rightarrow> 's chan) \<Rightarrow> tid \<Rightarrow> ('f \<Rightarrow> bool) \<Rightarrow> ('f, 'g) watch" where
  "chan_watch good ready get w waits = \<lparr>wt_slot = (\<lambda>g. chan_slot (get g)),
     wt_inv = (\<lambda>g. chan_sound good ready w (get g)), wt_task = w, wt_waits = waits\<rparr>"

lemma chan_watch_simps [simp]:
  "wt_slot (chan_watch good ready get w waits) g = chan_slot (get g)"
  "wt_inv (chan_watch good ready get w waits) g = chan_sound good ready w (get g)"
  "wt_task (chan_watch good ready get w waits) = w" "wt_waits (chan_watch good ready get w waits) = waits"
  by (simp_all add: chan_watch_def)

locale task_source = event_source tk post good ready real
  for tk :: "'s \<Rightarrow> ('v option \<times> 's) result" and post :: "'e \<Rightarrow> 's \<Rightarrow> 's result"
    and good :: "'s \<Rightarrow> bool" and ready :: "'s \<Rightarrow> bool" and real :: "'e \<Rightarrow> bool" +
  fixes get :: "'g \<Rightarrow> 's chan" and put :: "'s chan \<Rightarrow> 'g \<Rightarrow> 'g"
  assumes get_put: "get (put c g) = c"
begin

lemma take_sound:
  assumes "chan_sound good ready w c"
  obtains (some) v c' where "chan_take tk c = Inr (Some v, c')" "chan_sound good ready w c'" "chan_slot c' = chan_slot c"
  | (none) c' where "chan_take tk c = Inr (None, c')" "chan_sound good ready w c'" "chan_slot c' = chan_slot c"
proof -
  have good: "good (ch_src c)" using assms by (simp add: chan_sound_def)
  show ?thesis
    by (cases rule: chan_take_cases [OF good])
      (use assms that in \<open>auto simp: chan_sound_def chan_slot_def\<close>)
qed

lemma masked_sound:
  assumes "chan_sound good ready w c"
  obtains (some) v c' where "await_masked tk w c = Inr (Some v, c')" "chan_sound good ready w c'"
  | (none) c' where "await_masked tk w c = Inr (None, c')" "chan_sound good ready w c'" "chan_slot c' = Some w"
proof -
  let ?c = "c\<lparr>ch_slot := Init w, ch_has := 1\<rparr>"
  have c: "good (ch_src ?c)" "slot_register w c = Inr ?c"
    using assms by (simp_all add: chan_sound_def slot_register_ok)
  show ?thesis
    by (cases rule: chan_take_cases [OF c(1)])
      (use that c(2) in \<open>auto simp: await_masked_def chan_sound_def chan_slot_def slot_cancel_ok\<close>)
qed

text \<open>The poll keeps the rules of the slot, and suspends only when it is registered.\<close>

lemma await_waits:
  assumes "\<And>v. prog_waits (chan_watch good ready get w waits) True (c v)"
    and "prog_waits (chan_watch good ready get w waits) True fail"
  shows "prog_waits (chan_watch good ready get w waits) True (do_await tk get put w pc fail c)"
proof -
  let ?W = "chan_watch good ready get w waits"
  let ?masked = "Access (\<lambda>g. case await_masked tk w (get g) of Inl e \<Rightarrow> g | Inr (v, c2) \<Rightarrow> put c2 g)
      (\<lambda>g. case await_masked tk w (get g) of Inl e \<Rightarrow> fail | Inr (Some x, c2) \<Rightarrow> c x | Inr (None, c2) \<Rightarrow> Pending pc)"
  have masked: "prog_waits ?W True ?masked"
  proof (simp only: prog_waits.simps chan_watch_simps if_True, intro allI impI)
    fix g assume "chan_sound good ready w (get g)"
    then show "chan_sound good ready w (get (case await_masked tk w (get g) of Inl e \<Rightarrow> g | Inr (v, c2) \<Rightarrow> put c2 g))
      \<and> (prog_waits ?W True (case await_masked tk w (get g) of Inl e \<Rightarrow> fail | Inr (Some x, c2) \<Rightarrow> c x | Inr (None, c2) \<Rightarrow> Pending pc)
         \<or> chan_slot (get (case await_masked tk w (get g) of Inl e \<Rightarrow> g | Inr (v, c2) \<Rightarrow> put c2 g)) = Some w
           \<and> (\<exists>f. (case await_masked tk w (get g) of Inl e \<Rightarrow> fail | Inr (Some x, c2) \<Rightarrow> c x | Inr (None, c2) \<Rightarrow> Pending pc) = Pending f))"
      by (cases rule: masked_sound) (use assms in \<open>simp_all add: get_put\<close>)
  qed
  show ?thesis
    unfolding do_await_def
  proof (simp only: prog_waits.simps chan_watch_simps if_True, intro allI impI)
    fix g assume "chan_sound good ready w (get g)"
    then show "chan_sound good ready w (get (case chan_take tk (get g) of Inl e \<Rightarrow> g | Inr (v, c1) \<Rightarrow> put c1 g))
      \<and> (prog_waits ?W True (case chan_take tk (get g) of Inl e \<Rightarrow> fail | Inr (Some x, c1) \<Rightarrow> c x | Inr (None, c1) \<Rightarrow> ?masked)
         \<or> chan_slot (get (case chan_take tk (get g) of Inl e \<Rightarrow> g | Inr (v, c1) \<Rightarrow> put c1 g)) = Some w
           \<and> (\<exists>f. (case chan_take tk (get g) of Inl e \<Rightarrow> fail | Inr (Some x, c1) \<Rightarrow> c x | Inr (None, c1) \<Rightarrow> ?masked) = Pending f))"
    proof (cases rule: take_sound)
      case (none c')
      then show ?thesis using masked by (simp only: get_put sum.case prod.case option.case) simp
    qed (use assms in \<open>simp_all add: get_put\<close>)
  qed
qed

text \<open>What a handler's notification does to the slot.\<close>

lemma notify_sound:
  assumes "chan_sound good ready w c"
  obtains wk c' where "chan_notify post e c = Inr (wk, c')" "chan_sound good ready w c'"
    "wk = chan_slot c" "wk = None \<or> wk = Some w" "chan_slot c' = None" "\<exists>s. post e (ch_src c) = Inr s \<and> ch_src c' = s"
proof -
  have c: "good (ch_src c)" "ch_has c = 0 \<longleftrightarrow> ch_slot c = Uninit" using assms by (simp_all add: chan_sound_def)
  obtain s' where s': "post e (ch_src c) = Inr s'" "good s'" using post_ok [OF c(1)] by blast
  show ?thesis
  proof (cases "ch_slot c")
    case Uninit
    then show ?thesis using s' c(2) that by (simp add: chan_notify_def slot_wake_def chan_sound_def chan_slot_def)
  next
    case (Init v)
    then have "v = w" "ch_has c \<noteq> 0" using assms c(2) by (simp_all add: chan_sound_def)
    then show ?thesis using Init s' that by (simp add: chan_notify_def slot_wake_def chan_sound_def chan_slot_def)
  qed
qed

end

section \<open>The external interrupt\<close>

text \<open>
  The shared memory: the handler table, the receive side of the serial port, a latch, the
  interrupts that were completed at the controller, and what tasks note of their results.
\<close>

datatype ext_handler = RxHandler | LatchHandler

record ext_statics =
  xs_table :: "ext_handler option list"
  xs_rx :: "ring chan"
  xs_latch :: "u8 chan"
  xs_done :: "u32 list"
  xs_got :: "u8 list"
  xs_failed :: bool

type_synonym 'f ext_isr = "ext_statics \<times> ('f, ext_statics) isr_op list"

definition wake_ops :: "waker option \<Rightarrow> ('f, 'g) isr_op list" where
  "wake_ops wk = (case wk of None \<Rightarrow> [] | Some w \<Rightarrow> [IsrWake w])"

text \<open>
  A handler works on the shared memory at once, since nothing interrupts it, and leaves the wakes
  as the operations that follow; \<open>fifo\<close> is what the receive FIFO of the device holds.
\<close>

fun ext_call :: "u8 list \<Rightarrow> ext_handler \<Rightarrow> u32 \<Rightarrow> 'f ext_isr \<Rightarrow> 'f ext_isr result" where
  "ext_call fifo RxHandler irq (g, ops) =
     rbind (rx_handler fifo (xs_rx g)) (\<lambda>(wk, c). Inr (g\<lparr>xs_rx := c\<rparr>, ops @ wake_ops wk))"
| "ext_call fifo LatchHandler irq (g, ops) =
     rbind (latch_notify (xs_latch g)) (\<lambda>(wk, c). Inr (g\<lparr>xs_latch := c\<rparr>, ops @ wake_ops wk))"

definition ext_complete :: "u32 \<Rightarrow> 'f ext_isr \<Rightarrow> 'f ext_isr" where
  "ext_complete irq s = (case s of (g, ops) \<Rightarrow>
     (g, ops @ [IsrAccess (\<lambda>g. g\<lparr>xs_done := xs_done g @ [irq]\<rparr>) (\<lambda>g. [])]))"

definition ext_dispatch :: "u32 \<Rightarrow> u8 list \<Rightarrow> ext_statics \<Rightarrow> 'f ext_isr result" where
  "ext_dispatch irq fifo g =
     dispatch_external True (\<lambda>s. (irq, s)) ext_complete (ext_call fifo) (xs_table g) (g, [])"

text \<open>\<open>irq\<close> is the number the claim returns.\<close>

definition machine_external :: "u32 \<Rightarrow> u8 list \<Rightarrow> ('f, ext_statics) isr_op" where
  "machine_external irq fifo = IsrAccess
     (\<lambda>g. case ext_dispatch irq fifo g :: 'f ext_isr result of Inl e \<Rightarrow> g\<lparr>xs_failed := True\<rparr> | Inr (g', ops) \<Rightarrow> g')
     (\<lambda>g. case ext_dispatch irq fifo g of Inl e \<Rightarrow> [] | Inr (g', ops) \<Rightarrow> ops)"

interpretation rx_task: task_source rx_pop rx_drain ring_ok "\<lambda>r. contents r \<noteq> []" "\<lambda>bs. bs \<noteq> []"
    xs_rx "\<lambda>c g. g\<lparr>xs_rx := c\<rparr>"
  by unfold_locales simp

interpretation latch_task: task_source latch_take latch_post "\<lambda>p. True" "\<lambda>p. p \<noteq> 0" "\<lambda>e. True"
    xs_latch "\<lambda>c g. g\<lparr>xs_latch := c\<rparr>"
  by unfold_locales simp

definition rx_watch :: "tid \<Rightarrow> ('f \<Rightarrow> bool) \<Rightarrow> ('f, ext_statics) watch" where
  "rx_watch = chan_watch ring_ok (\<lambda>r. contents r \<noteq> []) xs_rx"

definition latch_watch :: "tid \<Rightarrow> ('f \<Rightarrow> bool) \<Rightarrow> ('f, ext_statics) watch" where
  "latch_watch = chan_watch (\<lambda>p. True) (\<lambda>p. p \<noteq> 0) xs_latch"

lemma ext_watch_simps [simp]:
  "wt_slot (rx_watch w waits) g = chan_slot (xs_rx g)" "wt_task (rx_watch w waits) = w"
  "wt_inv (rx_watch w waits) g = chan_sound ring_ok (\<lambda>r. contents r \<noteq> []) w (xs_rx g)"
  "wt_waits (rx_watch w waits) = waits"
  "wt_slot (latch_watch w waits) g = chan_slot (xs_latch g)" "wt_task (latch_watch w waits) = w"
  "wt_inv (latch_watch w waits) g = chan_sound (\<lambda>p. True) (\<lambda>p. p \<noteq> 0) w (xs_latch g)"
  "wt_waits (latch_watch w waits) = waits"
  by (simp_all add: rx_watch_def latch_watch_def)

text \<open>\<open>SerialRx\<close> and \<open>IrqFuture\<close> awaited in a task.\<close>

definition do_serial_rx ::
  "serial_dev option \<Rightarrow> waker \<Rightarrow> 'f \<Rightarrow> ('f, 'o, ext_statics) prog \<Rightarrow> (u8 \<Rightarrow> ('f, 'o, ext_statics) prog) \<Rightarrow>
   ('f, 'o, ext_statics) prog" where
  "do_serial_rx console w pc fail c =
     (case console of
        None \<Rightarrow> fail
      | Some StdSerial \<Rightarrow> Pending pc
      | Some Ns16550a \<Rightarrow> do_await rx_pop xs_rx (\<lambda>c g. g\<lparr>xs_rx := c\<rparr>) w pc fail c)"

definition do_irq_wait ::
  "waker \<Rightarrow> 'f \<Rightarrow> ('f, 'o, ext_statics) prog \<Rightarrow> (unit \<Rightarrow> ('f, 'o, ext_statics) prog) \<Rightarrow> ('f, 'o, ext_statics) prog" where
  "do_irq_wait w pc fail c = do_await latch_take xs_latch (\<lambda>c g. g\<lparr>xs_latch := c\<rparr>) w pc fail c"

lemma serial_rx_waits:
  "(\<And>b. prog_waits (rx_watch w waits) True (c b)) \<Longrightarrow> prog_waits (rx_watch w waits) True fail \<Longrightarrow>
   prog_waits (rx_watch w waits) True (do_serial_rx (Some Ns16550a) w pc fail c)"
  unfolding rx_watch_def do_serial_rx_def by (simp add: rx_task.await_waits)

lemma irq_wait_waits:
  "(\<And>u. prog_waits (latch_watch w waits) True (c u)) \<Longrightarrow> prog_waits (latch_watch w waits) True fail \<Longrightarrow>
   prog_waits (latch_watch w waits) True (do_irq_wait w pc fail c)"
  unfolding latch_watch_def do_irq_wait_def by (simp add: latch_task.await_waits)

text \<open>A task that uses the one leaves the slot of the other alone.\<close>

lemma irq_wait_waits_rx:
  assumes "\<And>u. prog_waits (rx_watch w waits) False (c u)" "prog_waits (rx_watch w waits) False fail"
  shows "prog_waits (rx_watch w waits) False (do_irq_wait v pc fail c)"
  using assms unfolding rx_watch_def do_irq_wait_def do_await_def
  by (auto split: sum.splits option.splits)

lemma serial_rx_waits_latch:
  assumes "\<And>u. prog_waits (latch_watch w waits) False (c u)" "prog_waits (latch_watch w waits) False fail"
  shows "prog_waits (latch_watch w waits) False (do_serial_rx console v pc fail c)"
  using assms unfolding latch_watch_def do_serial_rx_def do_await_def
  by (auto split: sum.splits option.splits serial_dev.splits)

section \<open>The handlers keep the rules\<close>

lemma wake_ops_waits: "list_all (op_waits W) (wake_ops wk)" "list_ex (wakes w) (wake_ops wk) \<longleftrightarrow> wk = Some w"
  by (auto simp: wake_ops_def split: option.splits)

text \<open>What the interrupt does, by cases of the number and the handler.\<close>

lemma ext_dispatch_cases:
  assumes "ext_dispatch irq fifo g = Inr (g', ops)"
  obtains (quiet) "g' = g" "ops = [IsrAccess (\<lambda>g. g\<lparr>xs_done := xs_done g @ [irq]\<rparr>) (\<lambda>g. [])]"
  | (rx) wk c where "rx_handler fifo (xs_rx g) = Inr (wk, c)" "g' = g\<lparr>xs_rx := c\<rparr>"
      "ops = wake_ops wk @ [IsrAccess (\<lambda>g. g\<lparr>xs_done := xs_done g @ [irq]\<rparr>) (\<lambda>g. [])]"
  | (latch) wk c where "latch_notify (xs_latch g) = Inr (wk, c)" "g' = g\<lparr>xs_latch := c\<rparr>"
      "ops = wake_ops wk @ [IsrAccess (\<lambda>g. g\<lparr>xs_done := xs_done g @ [irq]\<rparr>) (\<lambda>g. [])]"
proof (cases "irq = 0 \<or> xs_table g ! unat irq = None")
  case True
  then show ?thesis using assms quiet
    by (auto simp: ext_dispatch_def dispatch_external_def ext_complete_def split: if_splits)
next
  case False
  then obtain h where h: "xs_table g ! unat irq = Some h" by auto
  show ?thesis
    by (cases h) (use assms False h rx latch in
      \<open>auto simp: ext_dispatch_def dispatch_external_def ext_complete_def rbind_Inr_iff split: if_splits\<close>)
qed

lemma external_waits_rx: "op_waits (rx_watch w waits) (machine_external irq fifo)"
proof -
  let ?W = "rx_watch w waits"
  have "wt_inv ?W g' \<and> (wt_slot ?W g' = wt_slot ?W g \<or> list_ex (wakes w) ops) \<and> list_all (op_waits ?W) ops"
    if "ext_dispatch irq fifo g = Inr (g', ops)" "wt_inv ?W g" for g g' ops
    using that(1)
  proof (cases rule: ext_dispatch_cases)
    case (rx wk c)
    have s: "chan_sound ring_ok (\<lambda>r. contents r \<noteq> []) w (xs_rx g)" using that(2) by (simp add: rx_watch_def)
    show ?thesis
      by (rule rx_task.notify_sound [OF s, of fifo])
        (use rx in \<open>auto simp: rx_handler_def rx_watch_def wake_ops_waits\<close>)
  qed (use that(2) in \<open>auto simp: rx_watch_def wake_ops_waits\<close>)
  then show ?thesis
    by (auto simp: machine_external_def rx_watch_def split: sum.splits)
qed

lemma external_waits_latch: "op_waits (latch_watch w waits) (machine_external irq fifo)"
proof -
  let ?W = "latch_watch w waits"
  have "wt_inv ?W g' \<and> (wt_slot ?W g' = wt_slot ?W g \<or> list_ex (wakes w) ops) \<and> list_all (op_waits ?W) ops"
    if "ext_dispatch irq fifo g = Inr (g', ops)" "wt_inv ?W g" for g g' ops
    using that(1)
  proof (cases rule: ext_dispatch_cases)
    case (latch wk c)
    have s: "chan_sound (\<lambda>p. True) (\<lambda>p. p \<noteq> 0) w (xs_latch g)" using that(2) by (simp add: latch_watch_def)
    show ?thesis
      by (rule latch_task.notify_sound [OF s, of "()"])
        (use latch in \<open>auto simp: latch_notify_def latch_watch_def wake_ops_waits\<close>)
  qed (use that(2) in \<open>auto simp: latch_watch_def wake_ops_waits\<close>)
  then show ?thesis
    by (auto simp: machine_external_def latch_watch_def split: sum.splits)
qed

section \<open>A reader asleep\<close>

text \<open>A handler that wakes one task and then works on the shared memory.\<close>

lemma handler_wakes_then:
  assumes rt: "bounded_vec V n" "intrusive_list L" and m: "reachable V L fpoll n m"
    and stk: "m_stack m = FIrq KIsr [IsrWake w, IsrAccess u (\<lambda>g. [])] None # rest"
  shows "\<exists>j\<le>8. \<exists>m' k1. exec_all V L fpoll (replicate j Step) m = Some (Inr m') \<and> m_stack m' = rest
    \<and> wake_task L w (m_kernel m) = Inr k1 \<and> wake_effect L w (m_kernel m) k1
    \<and> m_kernel m' = k1\<lparr>k_app := u (k_app (m_kernel m))\<rparr>"
proof -
  note I = sched_invD [OF inv_of [OF rt m]]
  obtain k1 where k1: "wake_task L w (m_kernel m) = Inr k1" "wake_effect L w (m_kernel m) k1"
    using wake_task_ok [OF rt I(1,3,5)] by blast
  have "m = \<lparr>m_kernel = m_kernel m, m_stack = FIrq KIsr (IsrWake w # [IsrAccess u (\<lambda>g. [])]) None # rest\<rparr>"
    using stk by simp
  then obtain i where i: "i \<le> 6" "exec_all V L fpoll (replicate i Step) m
      = Some (Inr \<lparr>m_kernel = k1, m_stack = FIrq KIsr [IsrAccess u (\<lambda>g. [])] None # rest\<rparr>)"
    using handler_wake [OF k1(1), of V fpoll KIsr "[IsrAccess u (\<lambda>g. [])]" rest] by metis
  let ?m' = "\<lparr>m_kernel = k1\<lparr>k_app := u (k_app k1)\<rparr>, m_stack = rest\<rparr>"
  have "exec_all V L fpoll (replicate 2 Step) \<lparr>m_kernel = k1, m_stack = FIrq KIsr [IsrAccess u (\<lambda>g. [])] None # rest\<rparr>
      = Some (Inr ?m')"
    by (simp add: numeral_2_eq_2)
  then have j: "exec_all V L fpoll (replicate (i + 2) Step) m = Some (Inr ?m')"
    using steps_append [OF i(2)] by blast
  show ?thesis
    by (intro exI [of _ "i + 2"] exI [of _ ?m'] exI [of _ k1] conjI j k1)
      (use i(1) app_wake [OF k1(1)] in simp_all)
qed

text \<open>A task that waits in an idle machine and that a handler wakes is polled next.\<close>

lemma woken_idle_polls:
  assumes rt: "bounded_vec V n" "intrusive_list L" and m: "reachable V L fpoll n m"
    and idle: "m_stack m = [FIdle]" "\<not> (k_pend_marker (m_kernel m) \<and> k_msip (m_kernel m))"
    and t: "ti_executor_ptr (k_tasks (m_kernel m) t) = Some e" "ti_poll_fn (k_tasks (m_kernel m) t) = Some PollStorage"
      "ts_f (k_tasks (m_kernel m) t) = Init f"
    and run: "exec_all V L fpoll evs m = Some (Inr m2)" "m_stack m2 = [FIdle]"
    and k1: "wake_task L t ((m_kernel m)\<lparr>k_app := g\<rparr>) = Inr k1" "wake_effect L t ((m_kernel m)\<lparr>k_app := g\<rparr>) k1"
      "m_kernel m2 = k1\<lparr>k_app := h\<rparr>"
  shows "\<exists>m'. exec_all V L fpoll (evs @ [TakeMsi [], Step, Step, Step, Step, Step]) m = Some (Inr m')
    \<and> m_stack m' = [FPoll e t None (fpoll t f), FIdle] \<and> k_app (m_kernel m') = h"
proof -
  let ?k = "m_kernel m"
  note I = sched_invD [OF inv_of [OF rt m]] and empty = idle_means_no_work [OF rt m idle]
  have e: "e < n" using I(5) t(1) by (auto simp: ptr_inv_def)
  have "queued L n ?k = {#}" using empty by (simp add: queued_def)
  then have free: "\<not> flagged ?k t"
    using I(3) idle(1) by (auto simp: queue_inv_def dest: spec [of _ t] split: if_splits)
  have w: "queue L k1 = (queue L ?k)(e := [t])" "k_pend_marker k1" "k_msip k1"
    using k1(2) t(1) free empty [OF e] by (simp_all add: wake_effect_def flagged_def fun_eq_iff)
  have f: "ti_poll_fn (k_tasks k1 t) = Some PollStorage" "ts_f (k_tasks k1 t) = Init f"
    using wake_task_core [OF k1(1), of t] t(2,3) by (simp_all add: task_core_def)
  have "m_stack m2 = FIdle # []" "frame_mie FIdle" "outranks e (current (m_stack m2))" "queue L (m_kernel m2) e = t # []"
      "\<forall>p<n. queue L (m_kernel m2) p \<noteq> [] \<longrightarrow> e \<le> p"
    using run(2) k1(3) w(1) empty by (auto simp: current_def)
  then obtain m' where m': "exec_all V L fpoll [TakeMsi [], Step, Step, Step, Step, Step] m2 = Some (Inr m')"
      "m_stack m' = FPoll e t None (fpoll t f) # m_stack m2" "k_app (m_kernel m') = k_app (m_kernel m2)"
    using queued_polls [OF rt exec_all_reachable [OF run(1) m], of FIdle "[]" e t "[]" f] w(2,3) f e k1(3) by auto
  have "exec_all V L fpoll (evs @ [TakeMsi [], Step, Step, Step, Step, Step]) m = Some (Inr m')"
    by (simp only: exec_all_then [OF run(1)] m'(1))
  then show ?thesis using m'(2,3) run(2) k1(3) by (intro exI [of _ m']) simp
qed

lemma idle_wake_polls:
  assumes rt: "bounded_vec V n" "intrusive_list L" and m: "reachable V L fpoll n m"
    and idle: "m_stack m = [FIdle]" "\<not> (k_pend_marker (m_kernel m) \<and> k_msip (m_kernel m))"
    and t: "ti_executor_ptr (k_tasks (m_kernel m) t) = Some e" "ti_poll_fn (k_tasks (m_kernel m) t) = Some PollStorage"
      "ts_f (k_tasks (m_kernel m) t) = Init f"
    and isr: "exec_all V L fpoll [TakeIsr ops, Step] m = Some (Inr \<lparr>m_kernel = (m_kernel m)\<lparr>k_app := g\<rparr>,
      m_stack = FIrq KIsr [IsrWake t, IsrAccess u (\<lambda>g. [])] None # [FIdle]\<rparr>)"
  shows "\<exists>j\<le>9. \<exists>m'. exec_all V L fpoll
      (TakeIsr ops # replicate j Step @ [TakeMsi [], Step, Step, Step, Step, Step]) m = Some (Inr m')
    \<and> m_stack m' = [FPoll e t None (fpoll t f), FIdle] \<and> k_app (m_kernel m') = u g"
proof -
  let ?m1 = "\<lparr>m_kernel = (m_kernel m)\<lparr>k_app := g\<rparr>, m_stack = FIrq KIsr [IsrWake t, IsrAccess u (\<lambda>g. [])] None # [FIdle]\<rparr>"
  have r1: "reachable V L fpoll n ?m1" by (rule exec_all_reachable [OF isr m])
  obtain j m2 k1 where j: "j \<le> 8" "exec_all V L fpoll (replicate j Step) ?m1 = Some (Inr m2)" "m_stack m2 = [FIdle]"
      "wake_task L t ((m_kernel m)\<lparr>k_app := g\<rparr>) = Inr k1" "wake_effect L t ((m_kernel m)\<lparr>k_app := g\<rparr>) k1"
      "m_kernel m2 = k1\<lparr>k_app := u g\<rparr>"
    using handler_wakes_then [OF rt r1] by auto
  have "exec_all V L fpoll (TakeIsr ops # replicate (Suc j) Step) m = Some (Inr m2)"
    using exec_all_then [OF isr, of "replicate j Step"] j(2) by simp
  from woken_idle_polls [OF rt m idle t this j(3-6)] show ?thesis
    using j(1) by (intro exI [of _ "Suc j"]) simp
qed

text \<open>
  C24. A byte reaches the task that waits for it, whatever preempted what before.  Assume programs and
  handlers that keep the rules of the waker slot: one task uses it, and suspends in a waiting state
  only after it has left its waker there; a handler that takes the waker wakes it; nobody spawns the
  task in a waiting state (\<open>polls_wait\<close>, \<open>watched\<close>, which also asks for disciplined spawns).  In an idle
  machine with no reschedule pending, that task, if it awaits a \<open>SerialRx\<close>, faces an empty ring; and when an
  interrupt that the receive handler is registered for brings bytes, the handler, the completion of the interrupt, the scheduler and the executor's loop take a
  bounded number of steps until the task has the first byte; the others, as far as they fit, are in
  the ring in their order.
\<close>

theorem external_interrupt_resumes_reader:
  assumes rt: "bounded_vec V n" "intrusive_list L" and prog: "polls_wait (rx_watch t waits) fpoll"
    and m: "watched V L fpoll n (rx_watch t waits) m"
    and idle: "m_stack m = [FIdle]" "\<not> (k_pend_marker (m_kernel m) \<and> k_msip (m_kernel m))"
    and t: "ti_executor_ptr (k_tasks (m_kernel m) t) = Some e" "ts_f (k_tasks (m_kernel m) t) = Init f" "waits f"
      "fpoll t f = do_serial_rx (Some Ns16550a) t f fail c"
  shows "contents (ch_src (xs_rx (k_app (m_kernel m)))) = []
    \<and> (irq \<noteq> 0 \<and> unat irq < length (xs_table (k_app (m_kernel m)))
         \<and> xs_table (k_app (m_kernel m)) ! unat irq = Some RxHandler \<longrightarrow>
       (\<exists>j\<le>9. \<exists>m'. exec_all V L fpoll (TakeIsr [machine_external irq (b # bs)] # replicate j Step
            @ [TakeMsi [], Step, Step, Step, Step, Step, Step]) m = Some (Inr m')
          \<and> m_stack m' = [FPoll e t None (c b), FIdle]
          \<and> contents (ch_src (xs_rx (k_app (m_kernel m')))) = take 254 bs
          \<and> xs_done (k_app (m_kernel m')) = xs_done (k_app (m_kernel m)) @ [irq]))"
proof -
  let ?g = "k_app (m_kernel m)" let ?W = "rx_watch t waits"
  have "owned ?W (m_kernel m)" "sleeps ?W (m_kernel m)"
    using t by (simp_all add: owned_def sleeps_def rx_watch_def)
  from idle_registered [OF rt prog m idle this]
  have slot: "chan_slot (xs_rx ?g) = Some t" and sound: "chan_sound ring_ok (\<lambda>r. contents r \<noteq> []) t (xs_rx ?g)"
    by (simp_all add: rx_watch_def)
  have pf: "ti_poll_fn (k_tasks (m_kernel m) t) = Some PollStorage"
    using watched_inv [OF runtime.intro [OF rt] prog m] t(2) by (simp add: wait_inv_def stored_def)
  from slot sound have ring: "contents (ch_src (xs_rx ?g)) = []" "ring_ok (ch_src (xs_rx ?g))"
    by (auto simp: chan_slot_def chan_sound_def split: cell.splits)
  moreover have "\<exists>j\<le>9. \<exists>m'. exec_all V L fpoll (TakeIsr [machine_external irq (b # bs)] # replicate j Step
        @ [TakeMsi [], Step, Step, Step, Step, Step, Step]) m = Some (Inr m')
      \<and> m_stack m' = [FPoll e t None (c b), FIdle]
      \<and> contents (ch_src (xs_rx (k_app (m_kernel m')))) = take 254 bs
      \<and> xs_done (k_app (m_kernel m')) = xs_done ?g @ [irq]"
    if irq: "irq \<noteq> 0" "unat irq < length (xs_table ?g)" "xs_table ?g ! unat irq = Some RxHandler"
  proof -
    let ?u = "\<lambda>g. g\<lparr>xs_done := xs_done g @ [irq]\<rparr>"
    obtain ch s where ch: "rx_handler (b # bs) (xs_rx ?g) = Inr (Some t, ch)" "rx_drain (b # bs) (ch_src (xs_rx ?g)) = Inr s"
        "ch_src ch = s"
      by (rule rx_task.notify_sound [OF sound, of "b # bs"]) (auto simp: rx_handler_def slot)
    have d: "ext_dispatch irq (b # bs) ?g = Inr (?g\<lparr>xs_rx := ch\<rparr>, [IsrWake t, IsrAccess ?u (\<lambda>g. [])])"
      using irq ch(1) by (simp add: ext_dispatch_def dispatch_external_def ext_complete_def wake_ops_def)
    have isr: "exec_all V L fpoll [TakeIsr [machine_external irq (b # bs)], Step] m
        = Some (Inr \<lparr>m_kernel = (m_kernel m)\<lparr>k_app := ?g\<lparr>xs_rx := ch\<rparr>\<rparr>,
            m_stack = FIrq KIsr [IsrWake t, IsrAccess ?u (\<lambda>g. [])] None # [FIdle]\<rparr>)"
      using idle(1) by (simp add: machine_external_def d)
    have r: "reachable V L fpoll n m" by (rule reachable_disciplined_reachable [OF watched_disciplined [OF m]])
    obtain j m1 where j: "j \<le> 9" "exec_all V L fpoll (TakeIsr [machine_external irq (b # bs)] # replicate j Step
          @ [TakeMsi [], Step, Step, Step, Step, Step]) m = Some (Inr m1)"
        "m_stack m1 = [FPoll e t None (fpoll t f), FIdle]" "k_app (m_kernel m1) = ?u (?g\<lparr>xs_rx := ch\<rparr>)"
      using idle_wake_polls [OF rt r idle t(1) pf t(2) isr] by blast
    have s: "ring_ok s" "contents s = b # take 254 bs"
      using rx_drain_spec [OF ring(2), of "b # bs"] ch(2) ring(1) by (auto simp: numeral_eq_Suc)
    obtain s' where s': "rx_pop s = Inr (Some b, s')" "contents s' = take 254 bs"
      using rx_pop_spec [OF s(1)] s(2) by auto
    let ?m' = "\<lparr>m_kernel = (m_kernel m1)\<lparr>k_app := ?u (?g\<lparr>xs_rx := ch\<lparr>ch_src := s'\<rparr>\<rparr>)\<rparr>, m_stack = [FPoll e t None (c b), FIdle]\<rparr>"
    have "exec_all V L fpoll [Step] m1 = Some (Inr ?m')"
      using j(3,4) ch(3) s'(1) by (simp add: t(4) do_serial_rx_def do_await_def chan_take_def)
    then have "exec_all V L fpoll ((TakeIsr [machine_external irq (b # bs)] # replicate j Step
        @ [TakeMsi [], Step, Step, Step, Step, Step]) @ [Step]) m = Some (Inr ?m')"
      by (simp only: exec_all_then [OF j(2)])
    then show ?thesis using j(1) s'(2)
      by (intro exI [of _ j] conjI exI [of _ ?m']) simp_all
  qed
  ultimately show ?thesis by blast
qed

text \<open>The same for a task that awaits the latch: the notification makes its \<open>IrqFuture\<close> ready.\<close>

lemma external_interrupt_resumes_latch_waiter:
  assumes rt: "bounded_vec V n" "intrusive_list L" and prog: "polls_wait (latch_watch t waits) fpoll"
    and m: "watched V L fpoll n (latch_watch t waits) m"
    and idle: "m_stack m = [FIdle]" "\<not> (k_pend_marker (m_kernel m) \<and> k_msip (m_kernel m))"
    and t: "ti_executor_ptr (k_tasks (m_kernel m) t) = Some e" "ts_f (k_tasks (m_kernel m) t) = Init f" "waits f"
      "fpoll t f = do_irq_wait t f fail c"
    and irq: "irq \<noteq> 0" "unat irq < length (xs_table (k_app (m_kernel m)))"
      "xs_table (k_app (m_kernel m)) ! unat irq = Some LatchHandler"
  shows "\<exists>j\<le>9. \<exists>m'. exec_all V L fpoll (TakeIsr [machine_external irq fifo] # replicate j Step
        @ [TakeMsi [], Step, Step, Step, Step, Step, Step]) m = Some (Inr m')
      \<and> m_stack m' = [FPoll e t None (c ()), FIdle] \<and> ch_src (xs_latch (k_app (m_kernel m'))) = 0"
proof -
  let ?g = "k_app (m_kernel m)" let ?W = "latch_watch t waits"
  let ?u = "\<lambda>g. g\<lparr>xs_done := xs_done g @ [irq]\<rparr>"
  have "owned ?W (m_kernel m)" "sleeps ?W (m_kernel m)"
    using t by (simp_all add: owned_def sleeps_def latch_watch_def)
  from idle_registered [OF rt prog m idle this]
  have slot: "chan_slot (xs_latch ?g) = Some t" and sound: "chan_sound (\<lambda>p. True) (\<lambda>p. p \<noteq> 0) t (xs_latch ?g)"
    by (simp_all add: latch_watch_def)
  have pf: "ti_poll_fn (k_tasks (m_kernel m) t) = Some PollStorage"
    using watched_inv [OF runtime.intro [OF rt] prog m] t(2) by (simp add: wait_inv_def stored_def)
  obtain ch where ch: "latch_notify (xs_latch ?g) = Inr (Some t, ch)" "ch_src ch = 1"
    by (rule latch_task.notify_sound [OF sound, of "()"]) (auto simp: latch_notify_def latch_post_def slot)
  have d: "ext_dispatch irq fifo ?g = Inr (?g\<lparr>xs_latch := ch\<rparr>, [IsrWake t, IsrAccess ?u (\<lambda>g. [])])"
    using irq ch(1) by (simp add: ext_dispatch_def dispatch_external_def ext_complete_def wake_ops_def)
  have isr: "exec_all V L fpoll [TakeIsr [machine_external irq fifo], Step] m
      = Some (Inr \<lparr>m_kernel = (m_kernel m)\<lparr>k_app := ?g\<lparr>xs_latch := ch\<rparr>\<rparr>,
          m_stack = FIrq KIsr [IsrWake t, IsrAccess ?u (\<lambda>g. [])] None # [FIdle]\<rparr>)"
    using idle(1) by (simp add: machine_external_def d)
  have r: "reachable V L fpoll n m" by (rule reachable_disciplined_reachable [OF watched_disciplined [OF m]])
  obtain j m1 where j: "j \<le> 9" "exec_all V L fpoll (TakeIsr [machine_external irq fifo] # replicate j Step
        @ [TakeMsi [], Step, Step, Step, Step, Step]) m = Some (Inr m1)"
      "m_stack m1 = [FPoll e t None (fpoll t f), FIdle]" "k_app (m_kernel m1) = ?u (?g\<lparr>xs_latch := ch\<rparr>)"
    using idle_wake_polls [OF rt r idle t(1) pf t(2) isr] by blast
  let ?m' = "\<lparr>m_kernel = (m_kernel m1)\<lparr>k_app := ?u (?g\<lparr>xs_latch := ch\<lparr>ch_src := 0\<rparr>\<rparr>)\<rparr>, m_stack = [FPoll e t None (c ()), FIdle]\<rparr>"
  have "exec_all V L fpoll [Step] m1 = Some (Inr ?m')"
    using j(3,4) ch(2) by (simp add: t(4) do_irq_wait_def do_await_def chan_take_def latch_take_def)
  then have "exec_all V L fpoll ((TakeIsr [machine_external irq fifo] # replicate j Step
      @ [TakeMsi [], Step, Step, Step, Step, Step]) @ [Step]) m = Some (Inr ?m')"
    by (simp only: exec_all_then [OF j(2)])
  then show ?thesis using j(1) by (intro exI [of _ j] conjI exI [of _ ?m']) simp_all
qed

section \<open>An application that waits\<close>

text \<open>
  A task that reads \<open>n\<close> bytes, \<open>for _ in 0..n { got.push(SerialRx::new().await) }\<close>; its state is the
  number of bytes left while it waits, and 0 before it starts.  Beside it a task that awaits the
  latch once.
\<close>

definition ext_fail :: "(nat, nat, ext_statics) prog" where
  "ext_fail = Access (\<lambda>g. g\<lparr>xs_failed := True\<rparr>) (\<lambda>g. Ready 1)"

definition do_got :: "u8 \<Rightarrow> (nat, nat, ext_statics) prog \<Rightarrow> (nat, nat, ext_statics) prog" where
  "do_got b c = Access (\<lambda>g. g\<lparr>xs_got := xs_got g @ [b]\<rparr>) (\<lambda>g. c)"

primrec read_bytes :: "waker \<Rightarrow> nat \<Rightarrow> (nat, nat, ext_statics) prog" where
  "read_bytes w 0 = Ready 0"
| "read_bytes w (Suc n) = do_serial_rx (Some Ns16550a) w (Suc n) ext_fail (\<lambda>b. do_got b (read_bytes w n))"

definition reader_app :: "nat \<Rightarrow> tid \<Rightarrow> nat \<Rightarrow> (nat, nat, ext_statics) prog" where
  "reader_app n t f =
     (if t = 0 then read_bytes 0 (if f = 0 then n else f)
      else do_irq_wait t 1 ext_fail (\<lambda>u. do_got 255 (Ready 0)))"

lemma reader_waits: "prog_waits (rx_watch w waits) True (read_bytes w n)"
proof (induction n)
  case (Suc n)
  then show ?case
    by (auto intro!: serial_rx_waits simp: do_got_def ext_fail_def)
qed simp

lemma reader_app_waits: "polls_wait (rx_watch 0 waits) (reader_app n)"
  unfolding polls_wait_def reader_app_def using reader_waits [of 0 waits]
  by (auto simp: do_got_def ext_fail_def intro!: irq_wait_waits_rx)

definition ext_statics_new :: ext_statics where
  "ext_statics_new = \<lparr>xs_table = (replicate MAX_IRQ None)[10 := Some RxHandler, 11 := Some LatchHandler],
     xs_rx = \<lparr>ch_src = ring_new, ch_has = 0, ch_slot = Uninit\<rparr>, xs_latch = latch_new,
     xs_done = [], xs_got = [], xs_failed = False\<rparr>"

definition ext_ops :: "(nat, ext_statics) isr_op list" where
  "ext_ops = [IsrSpawn 0 0 (Priority 0), IsrSpawn 1 0 (Priority 1)]"

definition ext_wait :: "(nat, ext_statics) event list" where
  "ext_wait = replicate 9 Step @ TakeMsi [] # replicate 25 Step"

definition ext_irq :: "u32 \<Rightarrow> u8 list \<Rightarrow> (nat, ext_statics) event list" where
  "ext_irq irq fifo = TakeIsr [machine_external irq fifo] # replicate 9 Step @ TakeMsi [] # replicate 25 Step"

text \<open>Two interrupts bring the three bytes, one the notification of the latch, between them.\<close>

lemma reader_app_reads:
  "run_ends (\<lambda>m. xs_got (k_app (m_kernel m)) = [104, 105, 255, 33] \<and> xs_done (k_app (m_kernel m)) = [10, 11, 10]
       \<and> \<not> xs_failed (k_app (m_kernel m)) \<and> js_result (k_tasks (m_kernel m) 0) = Some 0)
     (checked_run (reader_app 3) 4 ext_statics_new ext_ops
       (ext_wait @ ext_irq 10 [104, 105] @ ext_irq 11 [] @ ext_irq 10 [33]))"
  by code_simp

theorem external_interrupt_resumes_reader_witness:
  "\<exists>m m' evs p. reachable (list_vec 4) list_list (reader_app 3) 4 m \<and> m_stack m = [FIdle]
     \<and> exec_all (list_vec 4) list_list (reader_app 3) evs m = Some (Inr m')
     \<and> m_stack m' = [FPoll 0 0 None (do_got 104 (read_bytes 0 2)), FIdle]
     \<and> contents (ch_src (xs_rx (k_app (m_kernel m')))) = [105]"
proof -
  have "run_ends (\<lambda>m. (case m_stack m of [FIdle] \<Rightarrow> True | _ \<Rightarrow> False)
      \<and> \<not> (k_pend_marker (m_kernel m) \<and> k_msip (m_kernel m)) \<and> ti_executor_ptr (k_tasks (m_kernel m) 0) = Some 0
      \<and> (case ts_f (k_tasks (m_kernel m) 0) of Init f \<Rightarrow> f = 3 | _ \<Rightarrow> False)
      \<and> length (xs_table (k_app (m_kernel m))) = 96 \<and> xs_table (k_app (m_kernel m)) ! 10 = Some RxHandler)
    (checked_run (reader_app 3) 4 ext_statics_new ext_ops ext_wait)" by code_simp
  then obtain m where m: "checked_run (reader_app 3) 4 ext_statics_new ext_ops ext_wait = Some m"
      "m_stack m = [FIdle]" "\<not> (k_pend_marker (m_kernel m) \<and> k_msip (m_kernel m))"
      "ti_executor_ptr (k_tasks (m_kernel m) 0) = Some 0" "ts_f (k_tasks (m_kernel m) 0) = Init 3"
      "length (xs_table (k_app (m_kernel m))) = 96" "xs_table (k_app (m_kernel m)) ! 10 = Some RxHandler"
      "reachable (list_vec 4) list_list (reader_app 3) 4 m"
    by (rule checked_run_obtain) (auto split: list.splits frame.splits cell.splits)
  have w: "watched (list_vec 4) list_list (reader_app 3) 4 (rx_watch 0 (\<lambda>f. 0 < f)) m"
    by (rule checked_run_watched [OF m(1)])
      (simp_all add: ext_statics_new_def chan_sound_def ring_new_ok ext_ops_def ext_wait_def list_all_iff)
  have p: "reader_app 3 0 3 = do_serial_rx (Some Ns16550a) 0 3 ext_fail (\<lambda>b. do_got b (read_bytes 0 2))"
    by (simp add: reader_app_def numeral_3_eq_3 numeral_2_eq_2)
  obtain evs m' where "exec_all (list_vec 4) list_list (reader_app 3) evs m = Some (Inr m')"
      "m_stack m' = [FPoll 0 0 None (do_got 104 (read_bytes 0 2)), FIdle]"
      "contents (ch_src (xs_rx (k_app (m_kernel m')))) = [105]"
    using external_interrupt_resumes_reader [OF list_vec_bounded list_list_intrusive reader_app_waits w m(2,3,4,5) _ p,
        of 10 104 "[105]"] m(6,7)
    by (auto simp del: exec_all.simps)
  then show ?thesis using m(2,8) by blast
qed

end
