(* ===== verification/Devices.thy ===== *)
theory Devices
  imports Startup DelayFuture
begin

text \<open>
  The devices behind the models.  The contracts of the traits \<open>Timer\<close> and \<open>Ipi\<close> of
  \<open>platform/src/device.rs\<close>, met by the registers of the CLINT and by the two fields (the pending
  bit of the kernel, the compare register of the delays) that the executor's model has instead;
  the receive loop against the FIFO of the serial port; and the test \<open>timer.rs\<close>, which uses the
  timer of the platform directly.
\<close>

section \<open>Timer and IPI\<close>

locale timer_trait =
  fixes set_dl :: "u64 \<Rightarrow> 'd \<Rightarrow> 'd" and compare :: "'d \<Rightarrow> nat" and good :: "'d \<Rightarrow> bool"
  assumes good_deadline: "good d \<Longrightarrow> good (set_dl t d)"
    and compare_deadline: "good d \<Longrightarrow> compare (set_dl t d) = unat t"

locale ipi_trait =
  fixes send :: "'d \<Rightarrow> 'd" and clear :: "'d \<Rightarrow> 'd" and pending :: "'d \<Rightarrow> bool" and good :: "'d \<Rightarrow> bool"
  assumes good_ipi: "good d \<Longrightarrow> good (send d)" "good d \<Longrightarrow> good (clear d)"
    and pending_send: "good d \<Longrightarrow> pending (send d)"
    and pending_clear: "good d \<Longrightarrow> \<not> pending (clear d)"

text \<open>A CLINT is both, and using the one leaves the other alone.\<close>

datatype dev_op = SendIpi | ClearIpi | SetDeadline u64

fun dev_step :: "(u64 \<Rightarrow> 'd \<Rightarrow> 'd) \<Rightarrow> ('d \<Rightarrow> 'd) \<Rightarrow> ('d \<Rightarrow> 'd) \<Rightarrow> dev_op \<Rightarrow> 'd \<Rightarrow> 'd" where
  "dev_step set_dl send clear SendIpi d = send d"
| "dev_step set_dl send clear ClearIpi d = clear d"
| "dev_step set_dl send clear (SetDeadline t) d = set_dl t d"

locale clint_trait = timer_trait set_dl compare good + ipi_trait send clear pending good
  for set_dl :: "u64 \<Rightarrow> 'd \<Rightarrow> 'd" and compare :: "'d \<Rightarrow> nat" and good :: "'d \<Rightarrow> bool"
    and send :: "'d \<Rightarrow> 'd" and clear :: "'d \<Rightarrow> 'd" and pending :: "'d \<Rightarrow> bool" +
  assumes compare_ipi: "good d \<Longrightarrow> compare (send d) = compare d" "good d \<Longrightarrow> compare (clear d) = compare d"
    and pending_deadline: "good d \<Longrightarrow> pending (set_dl t d) = pending d"
begin

lemma good_run: "good d \<Longrightarrow> good (fold (dev_step set_dl send clear) ops d)"
proof (induction ops arbitrary: d)
  case (Cons op ops)
  then have "good (dev_step set_dl send clear op d)" using good_deadline good_ipi by (cases op) simp_all
  then show ?case using Cons by simp
qed simp

lemma run_board:
  "good d \<Longrightarrow> (pending (fold (dev_step set_dl send clear) ops d), compare (fold (dev_step set_dl send clear) ops d))
     = fold (dev_step (\<lambda>t (b, c). (b, unat t)) (\<lambda>(b, c). (True, c)) (\<lambda>(b, c). (False, c))) ops (pending d, compare d)"
proof (induction ops arbitrary: d)
  case (Cons op ops)
  have g: "good (dev_step set_dl send clear op d)"
    using Cons.prems good_deadline good_ipi by (cases op) simp_all
  have "(pending (dev_step set_dl send clear op d), compare (dev_step set_dl send clear op d))
      = dev_step (\<lambda>t (b, c). (b, unat t)) (\<lambda>(b, c). (True, c)) (\<lambda>(b, c). (False, c)) op (pending d, compare d)"
    using Cons.prems compare_deadline pending_send pending_clear compare_ipi pending_deadline
    by (cases op) simp_all
  then show ?case using Cons.IH [OF g] by simp
qed simp

end

section \<open>The registers of the CLINT\<close>

definition msip_pending :: "plat \<Rightarrow> bool" where
  "msip_pending p = (case msip_regs p of None \<Rightarrow> False | Some r \<Rightarrow> bit (p_mem32 p r) 0)"

text \<open>What the two probes leave when their nodes have the same base address: the registers of
  hart \<open>h\<close>.\<close>

definition clint_of :: "u32 \<Rightarrow> plat \<Rightarrow> bool" where
  "clint_of h p \<longleftrightarrow> p_ms_ready p \<noteq> 0 \<and> p_ct_base p = p_ms_base p
     \<and> p_ct_off p = OFF_MTIMECMP_BASE + ucast h * MTIMECMP_STRIDE \<and> p_ms_off p = ucast h * MSIP_STRIDE"

lemma probes_clint:
  assumes "probe_clint_timer h nd p = Inr p1" "probe_clint_msip h nd' p1 = Inr p2"
    "node_first_reg nd = node_first_reg nd'"
  shows "clint_of h p2"
  using assms by (auto simp: probe_clint_timer_def probe_clint_msip_def clint_of_def rbind_Inr_iff Let_def)

text \<open>Whatever the hart, its \<open>msip\<close> is neither half of its \<open>mtimecmp\<close>.\<close>

lemma clint_disjoint:
  assumes "clint_of h p"
  shows "p_ms_base p + p_ms_off p \<noteq> mtimecmp_addr p" "p_ms_base p + p_ms_off p \<noteq> mtimecmp_addr p + 4"
proof -
  let ?h = "ucast h :: u64"
  have "unat ?h \<le> unat h" by (subst unsigned_ucast_eq) (rule take_bit_nat_less_eq_self)
  moreover have "unat h < 2 ^ 32" using unsigned_less [of h, where ?'a = nat] by simp
  ultimately have h: "unat ?h < 2 ^ 32" by (rule le_less_trans)
  have "unat (?h * 4) = 4 * unat ?h" "unat (0x4000 + ?h * 8) = 0x4000 + 8 * unat ?h"
    "unat (0x4004 + ?h * 8) = 0x4004 + 8 * unat ?h"
    using h by (simp_all add: unat_word_ariths)
  then have "?h * 4 \<noteq> 0x4000 + ?h * 8" "?h * 4 \<noteq> 0x4004 + ?h * 8" by (intro notI; simp)+
  then show "p_ms_base p + p_ms_off p \<noteq> mtimecmp_addr p" "p_ms_base p + p_ms_off p \<noteq> mtimecmp_addr p + 4"
    using assms by (simp_all add: clint_of_def mtimecmp_addr_def OFF_MTIMECMP_BASE_def MTIMECMP_STRIDE_def MSIP_STRIDE_def
        add.assoc)
qed

lemma clint_of_updates [simp]: "clint_of h (p\<lparr>p_mem32 := m\<rparr>) = clint_of h p"
  by (simp add: clint_of_def)

lemma mtimecmp_addr_mem [simp]: "mtimecmp_addr (p\<lparr>p_mem32 := m\<rparr>) = mtimecmp_addr p"
  by (simp add: mtimecmp_addr_def)

lemma clint_ops:
  assumes "clint_of h p"
  shows "msip_send p = p\<lparr>p_mem32 := (p_mem32 p)(p_ms_base p + p_ms_off p := 1)\<rparr>"
    and "msip_clear p = p\<lparr>p_mem32 := (p_mem32 p)(p_ms_base p + p_ms_off p := 0)\<rparr>"
    and "msip_pending p = bit (p_mem32 p (p_ms_base p + p_ms_off p)) 0"
    and "timer_set_deadline ClintTimer t p = p\<lparr>p_mem32 := (p_mem32 p)
      (mtimecmp_addr p + 4 := ucast (drop_bit 32 t), mtimecmp_addr p := ucast t)\<rparr>"
  using assms
  by (simp_all add: clint_of_def msip_send_def msip_clear_def msip_pending_def msip_regs_def timer_set_deadline_def
      clint_write_lo_def clint_write_hi_def)

interpretation clint: clint_trait "timer_set_deadline ClintTimer" mtimecmp "clint_of h" msip_send msip_clear msip_pending
  for h
proof
  fix p t assume p: "clint_of h p"
  note ops = clint_ops [OF p] and dis = clint_disjoint [OF p]
  show "clint_of h (timer_set_deadline ClintTimer t p)" "clint_of h (msip_send p)" "clint_of h (msip_clear p)"
    using p by (simp_all add: ops)
  show "mtimecmp (timer_set_deadline ClintTimer t p) = unat t"
    by (simp add: timer_set_deadline_def mtimecmp_after(2))
  show "mtimecmp (msip_send p) = mtimecmp p" "mtimecmp (msip_clear p) = mtimecmp p"
    using dis by (simp_all add: ops mtimecmp_def)
  show "msip_pending (msip_send p)" "\<not> msip_pending (msip_clear p)"
    using p by (simp_all add: ops clint_ops(3) [where h = h])
  show "msip_pending (timer_set_deadline ClintTimer t p) = msip_pending p"
    using p dis by (simp add: ops clint_ops(3) [where h = h])
qed

text \<open>The same in the models of the executor and of the delays.\<close>

interpretation fields: clint_trait "\<lambda>t (k, s). (k, set_deadline t s)" "\<lambda>(k, s). unat (sys_compare s)"
    "\<lambda>(k, s). k_ipi k = Some (ClintMsip True)" "\<lambda>(k, s). (ipi_send (ClintMsip True) k, s)"
    "\<lambda>(k, s). (ipi_clear (ClintMsip True) k, s)" "\<lambda>(k, s). k_msip k"
  by unfold_locales (auto simp: set_deadline_def ipi_send_def ipi_clear_def split: prod.splits)

text \<open>
  C35. The pending bit of the executor's model and the compare register of the delays' model are the
  registers of the board: whatever sequence of \<open>Ipi::send\<close>, \<open>Ipi::clear\<close> and
  \<open>Timer::set_deadline\<close> the program performs, on any hart, bit 0 of \<open>msip\<close> and the two halves of
  \<open>mtimecmp\<close> hold what the models hold; the two drivers never write to each other's registers.
\<close>

theorem registers_refine_models:
  assumes p: "clint_of h p" and k: "k_ipi k = Some (ClintMsip True)"
    and start: "msip_pending p = k_msip k" "mtimecmp p = unat (sys_compare s)"
    and run: "fold (dev_step (timer_set_deadline ClintTimer) msip_send msip_clear) ops p = p'"
      "fold (dev_step (\<lambda>t (k, s). (k, set_deadline t s)) (\<lambda>(k, s). (ipi_send (ClintMsip True) k, s))
        (\<lambda>(k, s). (ipi_clear (ClintMsip True) k, s))) ops (k, s) = (k', s')"
  shows "msip_pending p' = k_msip k' \<and> mtimecmp p' = unat (sys_compare s')"
proof -
  let ?run = "fold (dev_step (\<lambda>t (b, c). (b, unat t)) (\<lambda>(b, c). (True, c)) (\<lambda>(b, c). (False, c))) ops
    (k_msip k, unat (sys_compare s))"
  have "(msip_pending p', mtimecmp p') = ?run"
    using clint.run_board [OF p, of ops] start run(1) by simp
  moreover have "(k_msip k', unat (sys_compare s')) = ?run"
    using fields.run_board [of "(k, s)" ops] k run(2) by simp
  ultimately have "(msip_pending p', mtimecmp p') = (k_msip k', unat (sys_compare s'))" by (rule trans [OF _ sym])
  then show ?thesis by simp
qed

theorem registers_refine_models_witness:
  "\<exists>p. qemu_board (plat_new 0) = Inr p
     \<and> (\<exists>p'. fold (dev_step (timer_set_deadline ClintTimer) msip_send msip_clear) [SendIpi, SetDeadline 12345] p = p'
          \<and> msip_pending p' \<and> mtimecmp p' = 12345)"
proof -
  have "case qemu_board (plat_new 0) of Inl e \<Rightarrow> False
    | Inr p \<Rightarrow> clint_of 0 p \<and> p_ms_ready p = 1 \<and> p_ms_base p = 0x2000000 \<and> p_ms_off p = 0 \<and> p_ct_base p = 0x2000000
        \<and> p_ct_off p = 0x4000 \<and> p_mem32 p 0x2000000 = 0 \<and> p_mem32 p 0x2004000 = 0 \<and> p_mem32 p 0x2004004 = 0"
    by code_simp
  then obtain p where q: "qemu_board (plat_new 0) = Inr p" "clint_of 0 p" "p_ms_ready p = 1" "p_ms_base p = 0x2000000"
      "p_ms_off p = 0" "p_ct_base p = 0x2000000" "p_ct_off p = 0x4000" "p_mem32 p 0x2000000 = 0"
      "p_mem32 p 0x2004000 = 0" "p_mem32 p 0x2004004 = 0"
    by (auto split: sum.splits)
  have p: "qemu_board (plat_new 0) = Inr p" "clint_of 0 p" "\<not> msip_pending p" "mtimecmp p = 0"
    using q by (simp_all add: msip_pending_def msip_regs_def mtimecmp_def mtimecmp_addr_def)
  define k :: "(nat, nat, nat list, nat list, unit) kernel" where
    "k = undefined\<lparr>k_ipi := Some (ClintMsip True), k_msip := False\<rparr>"
  define s :: "nat timer_sys" where "s = \<lparr>sys_queue = 0, sys_compare = 0, sys_delays = (\<lambda>a. None)\<rparr>"
  obtain p' where "fold (dev_step (timer_set_deadline ClintTimer) msip_send msip_clear) [SendIpi, SetDeadline 12345] p = p'"
    by blast
  with registers_refine_models [OF p(2) _ _ _ this, of k s] p(3,4)
  show ?thesis using p(1) by (auto simp: k_def s_def ipi_send_def set_deadline_def)
qed

section \<open>The receive loop\<close>

text \<open>
  The receive FIFO as the loop of \<open>rx_handler\<close> sees it: the data-ready bit of the line status is
  set while there are bytes, and reading the buffer register takes the first one.
\<close>

definition hw_lsr :: "u8 list \<Rightarrow> u8" where
  "hw_lsr fifo = (if fifo = [] then 0x60 else 0x61)"

definition hw_read :: "u64 \<Rightarrow> u8 list \<Rightarrow> (u8 option \<times> u8 list) result" where
  "hw_read base fifo =
     rbind (ns_read base (hw_lsr fifo) (case fifo of [] \<Rightarrow> 0 | b # bs \<Rightarrow> b)) (\<lambda>v. Inr (v, tl fifo))"

partial_function (option) rx_loop :: "u64 \<Rightarrow> u8 list \<Rightarrow> ring \<Rightarrow> (u8 list \<times> ring) result option" where
  "rx_loop base fifo r =
     (case hw_read base fifo of
        Inl e \<Rightarrow> Some (Inl e)
      | Inr (None, fifo') \<Rightarrow> Some (Inr (fifo', r))
      | Inr (Some b, fifo') \<Rightarrow>
          (case rx_push b r of Inl e \<Rightarrow> Some (Inl e) | Inr r' \<Rightarrow> rx_loop base fifo' r'))"

lemma hw_read_simps:
  "base \<noteq> 0 \<Longrightarrow> hw_read base [] = Inr (None, [])" "base \<noteq> 0 \<Longrightarrow> hw_read base (b # bs) = Inr (Some b, bs)"
  by (simp_all add: hw_read_def hw_lsr_def ns_read_def ns_regs_def bit_numeral_rec)

text \<open>The loop ends and is the function \<open>rx_drain\<close> that the handler's model uses.\<close>

lemma rx_loop_drains:
  assumes "base \<noteq> 0"
  shows "rx_loop base fifo r = Some (case rx_drain fifo r of Inl e \<Rightarrow> Inl e | Inr r' \<Rightarrow> Inr ([], r'))"
proof (induction fifo arbitrary: r)
  case Nil
  then show ?case by (subst rx_loop.simps) (simp add: hw_read_simps [OF assms])
next
  case (Cons b bs)
  then show ?case by (subst rx_loop.simps) (simp add: hw_read_simps [OF assms] rbind_def split: sum.splits)
qed

text \<open>\<open>Serial::has_data\<close> by default is whether a read succeeds; the serial driver's own agrees.\<close>

definition serial_has_data :: "(u8 option \<times> u8 list) result \<Rightarrow> bool result" where
  "serial_has_data r = rbind r (\<lambda>(v, fifo). Inr (v \<noteq> None))"

lemma has_data_default: "ns_has_data base (hw_lsr fifo) = serial_has_data (hw_read base fifo)"
  by (auto simp: ns_has_data_def serial_has_data_def hw_read_def ns_read_def ns_regs_def)

section \<open>The timer test\<close>

text \<open>
  \<open>apps/test/src/bin/timer.rs\<close>.  Time is a sequence of instants: \<open>bus i a\<close> is what reading the
  64-bit register at \<open>a\<close> returns at instant \<open>i\<close>.  \<open>irq_window\<close> is the point between two
  instructions at which the timer interrupt is taken if it is enabled and due; what the handler notes
  in \<open>ISR_TICK\<close> (and \<open>TIMER_FIRED\<close>) is the first component of the state.
\<close>

definition timer_now :: "timer_dev \<Rightarrow> (u64 \<Rightarrow> u64) \<Rightarrow> plat \<Rightarrow> u64" where
  "timer_now dev read p = (case dev of ClintTimer \<Rightarrow> read (p_ct_base p + OFF_MTIME) | StdTimer \<Rightarrow> 0)"

definition timer_test_isr :: "(u64 \<Rightarrow> u64) \<Rightarrow> plat \<Rightarrow> (u64 option \<times> plat) result" where
  "timer_test_isr read p =
     rbind (timer p) (\<lambda>dev. Inr (Some (timer_now dev read p), timer_set_deadline dev (- 1) p))"

definition timer_due :: "(u64 \<Rightarrow> u64) \<Rightarrow> plat \<Rightarrow> bool" where
  "timer_due read p \<longleftrightarrow> bit (p_mie p) 7 \<and> bit (p_mstatus p) 3 \<and> mtimecmp p \<le> unat (read (p_ct_base p + OFF_MTIME))"

definition irq_window :: "(nat \<Rightarrow> u64 \<Rightarrow> u64) \<Rightarrow> nat \<Rightarrow> u64 option \<times> plat \<Rightarrow> (u64 option \<times> plat) result" where
  "irq_window bus i s = (if timer_due (bus i) (snd s) then timer_test_isr (bus (Suc i)) (snd s) else Inr s)"

text \<open>\<open>wfi\<close>: the first instant from \<open>i\<close> on at which the timer interrupt is pending.\<close>

partial_function (option) wfi_until :: "(nat \<Rightarrow> u64 \<Rightarrow> u64) \<Rightarrow> plat \<Rightarrow> nat \<Rightarrow> nat option" where
  "wfi_until bus p i = (if timer_due (bus i) p then Some i else wfi_until bus p (Suc i))"

text \<open>\<open>while !TIMER_FIRED.load(Acquire) { idle(); }\<close>, with a window before the load and before \<open>wfi\<close>.\<close>

partial_function (option) wait_fired ::
  "(nat \<Rightarrow> u64 \<Rightarrow> u64) \<Rightarrow> nat \<Rightarrow> u64 option \<times> plat \<Rightarrow> (u64 \<times> plat) result option" where
  "wait_fired bus i s =
     (case irq_window bus i s of
        Inl e \<Rightarrow> Some (Inl e)
      | Inr (Some t, p) \<Rightarrow> Some (Inr (t, p))
      | Inr (None, p) \<Rightarrow>
          (case irq_window bus (i + 2) (None, p) of
             Inl e \<Rightarrow> Some (Inl e)
           | Inr s' \<Rightarrow> (case wfi_until bus (snd s') (i + 4) of None \<Rightarrow> None | Some j \<Rightarrow> wait_fired bus j s')))"

text \<open>
  A failed test writes the code of failure to the finisher register and loops there.  The
  addition of the two tick counts is checked, as the tests are built; \<open>write\<close> prints, \<open>msg\<close> and
  \<open>passed\<close> are the messages.
\<close>

definition timer_fail_test :: "(serial_dev \<Rightarrow> u8 list \<Rightarrow> plat \<Rightarrow> plat result) \<Rightarrow> u8 list \<Rightarrow> plat \<Rightarrow> plat result" where
  "timer_fail_test write msg p =
     rbind (console p) (\<lambda>dev. rbind (write dev msg p) (\<lambda>p.
       Inr (p\<lparr>p_mem32 := (p_mem32 p)(0x100000 := 0x3333 OR push_bit 16 1)\<rparr>)))"

definition timer_test_main ::
  "(serial_dev \<Rightarrow> u8 list \<Rightarrow> plat \<Rightarrow> plat result) \<Rightarrow> u8 list \<Rightarrow> u8 list \<Rightarrow> (nat \<Rightarrow> u64 \<Rightarrow> u64) \<Rightarrow> log_state \<Rightarrow> plat \<Rightarrow>
   plat result option" where
  "timer_test_main write msg passed bus l p =
     (case platform_init qemu_board 3 (l, p) of
        Inl e \<Rightarrow> Some (Inl e)
      | Inr (l, p) \<Rightarrow> (case timer p of
        Inl e \<Rightarrow> Some (Inl e)
      | Inr dev \<Rightarrow>
          let t0 = timer_now dev (bus 0) p; t1 = timer_now dev (bus 1) p in
          if t1 < t0 then Some (timer_fail_test write msg p)
          else
            let ticks_per_ms = ucast (timer_freq_hz dev p) div 1000; now = timer_now dev (bus 2) p in
            if 2 ^ 64 \<le> unat now + unat ticks_per_ms then Some (Inl AssertionFailed)
            else
              let deadline = now + ticks_per_ms;
                  p1 = timer_set_deadline dev (- 1) p;
                  p2 = timer_set_deadline dev deadline (enable_mtimer p1) in
              (case wait_fired bus 3 (None, enable_interrupts p2) of
                 None \<Rightarrow> None
               | Some (Inl e) \<Rightarrow> Some (Inl e)
               | Some (Inr (isr_tick, p3)) \<Rightarrow>
                   if isr_tick < deadline then Some (timer_fail_test write msg p3)
                   else Some (rbind (console p3) (\<lambda>con. rbind (write con passed p3) (\<lambda>p4.
                     rbind (reset p4) (\<lambda>r. case r of SifiveTest \<Rightarrow> sifive_shutdown p4 | StdReset \<Rightarrow> Inr p4)))))))"

text \<open>A counter that reaches the deadline wakes the hart; at its maximum the compare register never does.\<close>

lemma wfi_returns:
  assumes "i \<le> j" "timer_due (bus j) p"
  shows "\<exists>k\<ge>i. timer_due (bus k) p \<and> wfi_until bus p i = Some k"
  using assms
proof (induction "j - i" arbitrary: i)
  case 0
  then show ?case by (subst wfi_until.simps) auto
next
  case (Suc d)
  show ?case
  proof (cases "timer_due (bus i) p")
    case True
    then show ?thesis by (subst wfi_until.simps) auto
  next
    case False
    have "d = j - Suc i" "Suc i \<le> j" using Suc.hyps(2) by simp_all
    then obtain k where "k \<ge> Suc i" "timer_due (bus k) p" "wfi_until bus p (Suc i) = Some k"
      using Suc.hyps(1) Suc.prems(2) by blast
    then show ?thesis using False by (subst wfi_until.simps) (auto intro: exI [of _ k])
  qed
qed

lemma wfi_result:
  assumes "wfi_until bus p i = Some j"
  shows "timer_due (bus j) p"
  by (rule wfi_until.raw_induct [OF _ assms]) (auto split: if_splits)

text \<open>What the test needs of the platform, before and after it has set the deadline.\<close>

definition timer_board :: "plat \<Rightarrow> bool" where
  "timer_board p \<longleftrightarrow> timer p = Inr ClintTimer \<and> (\<exists>c. console p = Inr c) \<and> reset p = Inr SifiveTest
     \<and> p_ct_base p = 0x2000000 \<and> p_ct_off p = 0x4000 \<and> p_st_base p = 0x100000"

definition timer_set :: "u64 \<Rightarrow> plat \<Rightarrow> bool" where
  "timer_set d p \<longleftrightarrow> timer_board p \<and> bit (p_mie p) 7 \<and> bit (p_mstatus p) 3 \<and> mtimecmp p = unat d"

abbreviation mtime :: "(nat \<Rightarrow> u64 \<Rightarrow> u64) \<Rightarrow> nat \<Rightarrow> u64" where
  "mtime bus i \<equiv> bus i 0x200BFF8"

lemma timer_board_keeps [simp]:
  "timer_board (timer_set_deadline dev t p) = timer_board p" "timer_board (enable_mtimer p) = timer_board p"
  "timer_board (enable_interrupts p) = timer_board p"
  by (simp_all add: timer_board_def timer_set_deadline_def clint_write_lo_def clint_write_hi_def enable_mtimer_def
      enable_interrupts_def timer_def console_def reset_def split: timer_dev.splits)

lemma deadline_keeps [simp]:
  "p_mie (timer_set_deadline dev t p) = p_mie p" "p_mstatus (timer_set_deadline dev t p) = p_mstatus p"
  "mtimecmp (timer_set_deadline ClintTimer t p) = unat t"
  by (simp_all add: timer_set_deadline_def mtimecmp_after(2) split: timer_dev.splits)
    (simp_all add: clint_write_lo_def clint_write_hi_def)

lemma timer_set_due: "timer_set d p \<Longrightarrow> timer_due (bus i) p \<longleftrightarrow> d \<le> mtime bus i"
  by (simp add: timer_set_def timer_board_def timer_due_def OFF_MTIME_def word_le_nat_alt)

lemma timer_set_window:
  assumes "timer_set d p"
  shows "irq_window bus i (None, p) =
    (if d \<le> mtime bus i then Inr (Some (mtime bus (Suc i)), timer_set_deadline ClintTimer (- 1) p) else Inr (None, p))"
  using assms timer_set_due [OF assms, of bus i]
  by (simp add: irq_window_def timer_test_isr_def timer_now_def timer_set_def timer_board_def OFF_MTIME_def)

lemma wait_fired_returns:
  assumes p: "timer_set d p" and mono: "\<And>i j. i \<le> j \<Longrightarrow> mtime bus i \<le> mtime bus j"
    and reach: "d \<le> mtime bus j" and race: "d \<le> mtime bus (i + 2) \<longrightarrow> d \<le> mtime bus i"
  shows "\<exists>t. d \<le> t \<and> wait_fired bus i (None, p) = Some (Inr (t, timer_set_deadline ClintTimer (- 1) p))"
proof -
  note win = timer_set_window [OF p, of bus] and due = timer_set_due [OF p, of bus]
  have fired: "wait_fired bus k (None, p) = Some (Inr (mtime bus (Suc k), timer_set_deadline ClintTimer (- 1) p))"
    if "d \<le> mtime bus k" for k
    using that win [of k] by (subst wait_fired.simps) simp
  have later: "d \<le> mtime bus (Suc k)" if "d \<le> mtime bus k" for k
    using that mono [of k "Suc k"] by simp
  show ?thesis
  proof (cases "d \<le> mtime bus i")
    case True
    then show ?thesis using fired later by blast
  next
    case False
    have "d \<le> mtime bus (max j (i + 4))" by (rule order.trans [OF reach mono]) simp
    then obtain k where k: "timer_due (bus k) p" "wfi_until bus p (i + 4) = Some k"
      using wfi_returns [of "i + 4" "max j (i + 4)" bus p] due by auto
    have "wait_fired bus i (None, p) = wait_fired bus k (None, p)"
      using False race win [of i] win [of "i + 2"] k(2) by (subst wait_fired.simps) simp
    then show ?thesis using fired [of k] later [of k] k(1) due by auto
  qed
qed

text \<open>An interrupt between the load of \<open>TIMER_FIRED\<close> and \<open>wfi\<close> is the only one, so the test never ends.\<close>

lemma wait_fired_sleeps:
  assumes p: "timer_set d p" and "\<not> d \<le> mtime bus i" "d \<le> mtime bus (i + 2)" "\<And>j. mtime bus j \<noteq> - 1"
  shows "wait_fired bus i (None, p) = None"
proof -
  let ?p = "timer_set_deadline ClintTimer (- 1) p"
  have "timer_set (- 1) ?p" using p by (simp add: timer_set_def)
  from timer_set_due [OF this, of bus] have "\<not> timer_due (bus j) ?p" for j
    using assms(4) by (simp add: word_order.extremum_unique)
  then have "wfi_until bus ?p (i + 4) = None" using wfi_result by (metis option.exhaust)
  then show ?thesis
    using assms(2,3) timer_set_window [OF p, of bus] by (subst wait_fired.simps) simp
qed

lemma qemu_timer_board:
  obtains p where "qemu_board (plat_new 0) = Inr p" "timer_board p" "p_ct_freq p = 10000000"
proof -
  have "case qemu_board (plat_new 0) of Inl e \<Rightarrow> False
    | Inr p \<Rightarrow> timer p = Inr ClintTimer \<and> console p = Inr Ns16550a \<and> reset p = Inr SifiveTest
        \<and> p_ct_base p = 0x2000000 \<and> p_ct_off p = 0x4000 \<and> p_st_base p = 0x100000 \<and> p_ct_freq p = 10000000"
    by code_simp
  then show ?thesis using that by (auto simp: timer_board_def split: sum.splits)
qed

text \<open>
  C38. The test of the timer passes.  However the ticks of the \<open>mtime\<close> register are spread over the
  instructions, if they never decrease and reach one millisecond after the third reading, the test
  writes the code of success: \<open>freq_hz\<close> is what the device tree says, the interrupt comes, and not
  before the deadline.  (Unless the deadline falls between the load of \<open>TIMER_FIRED\<close> and \<open>wfi\<close>.)
\<close>

theorem timer_test_passes:
  assumes mono: "\<And>i j. i \<le> j \<Longrightarrow> mtime bus i \<le> mtime bus j" and reach: "mtime bus 2 + 10000 \<le> mtime bus j"
    and range: "unat (mtime bus 2) + 10000 < 2 ^ 64"
    and race: "mtime bus 2 + 10000 \<le> mtime bus 5 \<longrightarrow> mtime bus 2 + 10000 \<le> mtime bus 3"
    and prints: "\<And>dev msg p. \<exists>p'. write dev msg p = Inr p' \<and> p_reset p' = p_reset p \<and> p_st_base p' = p_st_base p"
    and l: "log_set l = False"
  shows "\<exists>p. timer_test_main write msg passed bus l (plat_new 0) = Some (Inr p) \<and> p_mem32 p 0x100000 = FINISHER_PASS"
proof -
  obtain p where p: "qemu_board (plat_new 0) = Inr p" "timer_board p" "p_ct_freq p = 10000000"
    by (rule qemu_timer_board)
  let ?d = "mtime bus 2 + 10000"
  define q where "q = enable_interrupts (timer_set_deadline ClintTimer ?d (enable_mtimer (timer_set_deadline ClintTimer (- 1) p)))"
  have q: "timer_set ?d q"
    using p(2) by (simp add: q_def timer_set_def state_simps set_mie_def bit_put_bit)
  obtain t where t: "?d \<le> t" "wait_fired bus 3 (None, q) = Some (Inr (t, timer_set_deadline ClintTimer (- 1) q))"
    using wait_fired_returns [where bus = bus and i = 3 and j = j, OF q mono reach] race by auto
  let ?q = "timer_set_deadline ClintTimer (- 1) q"
  have b: "timer_board ?q" using q by (simp add: timer_set_def)
  then obtain con where con: "console ?q = Inr con" by (auto simp: timer_board_def)
  obtain w where w: "write con passed ?q = Inr w" "p_reset w = p_reset ?q" "p_st_base w = p_st_base ?q"
    using prints by blast
  have now: "timer_now ClintTimer (bus i) p = mtime bus i" for i
    using p(2) by (simp add: timer_now_def timer_board_def OFF_MTIME_def)
  have ok: "\<not> mtime bus (Suc 0) < mtime bus 0" "\<not> t < ?d" using mono [of 0 "Suc 0"] t(1) by (simp_all add: not_less)
  have "timer_freq_hz ClintTimer p = 10000000" by (simp add: timer_freq_hz_def p(3))
  then have "timer_test_main write msg passed bus l (plat_new 0)
      = Some (rbind (console ?q) (\<lambda>con. rbind (write con passed ?q) (\<lambda>p4.
          rbind (reset p4) (\<lambda>r. case r of SifiveTest \<Rightarrow> sifive_shutdown p4 | StdReset \<Rightarrow> Inr p4))))"
    using p range
    by (simp add: timer_test_main_def platform_init_def logger_init_def timer_board_def now Let_def ok t(2) flip: q_def)
  then show ?thesis
    using con w b by (simp add: sifive_shutdown_def timer_board_def reset_def)
qed

theorem timer_test_passes_witness:
  "\<exists>p. timer_test_main (\<lambda>dev msg p. Inr p) [] [] (\<lambda>i a. of_nat (min i 20000)) \<lparr>log_set = False, log_max = 0\<rparr> (plat_new 0)
      = Some (Inr p) \<and> p_mem32 p 0x100000 = FINISHER_PASS"
proof (rule timer_test_passes [where j = 15000])
  show "(of_nat (min i 20000) :: u64) \<le> of_nat (min j 20000)" if "i \<le> j" for i j
  proof -
    have "unat (of_nat (min k 20000) :: u64) = min k 20000" for k
      unfolding unsigned_of_nat using take_bit_nat_eq_self [of "min k 20000" 64] by simp
    then show ?thesis using that by (simp only: word_le_nat_alt min.mono order.refl)
  qed
qed (simp_all add: word_le_nat_alt)

end
