(* ===== verification/WorkLeft.thy ===== *)
theory WorkLeft
  imports WakeSlots
begin

text \<open>
  How much work a state of the machine has left, as a measure that every step makes smaller: the
  polls that the futures have left, the code of the activations that are in the middle of something
  (programs are trees that may branch infinitely, so this part is a multiset of programs under the
  order of the continuations), the tasks that are queued, and what the scheduler has begun.
  \<open>Quiescence\<close> concludes from it that the system comes to rest.
\<close>

section \<open>Funded programs\<close>

text \<open>
  \<open>rank t f\<close> bounds the polls that the future \<open>f\<close> of task \<open>t\<close> and all that it spawns have left.
  A program is funded by \<open>b\<close> if what it spawns and what it leaves pending ranks at most \<open>b\<close>.
\<close>

inductive prog_pays :: "(tid \<Rightarrow> 'f \<Rightarrow> nat) \<Rightarrow> tid \<Rightarrow> ('f, 'o, 'g) prog \<Rightarrow> nat \<Rightarrow> bool"
  for rank :: "tid \<Rightarrow> 'f \<Rightarrow> nat" and t :: tid where
  pays_ready: "prog_pays rank t (Ready out) b"
| pays_pending: "rank t f \<le> b \<Longrightarrow> prog_pays rank t (Pending f) b"
| pays_wake: "prog_pays rank t p b \<Longrightarrow> prog_pays rank t (Wake w p) b"
| pays_spawn: "(\<And>ok. prog_pays rank t (c ok) b) \<Longrightarrow> rank t' f + b \<le> b' \<Longrightarrow>
    prog_pays rank t (Spawn t' f prio c) b'"
| pays_join: "(\<And>r. prog_pays rank t (c r) b) \<Longrightarrow> prog_pays rank t (Join t' c) b"
| pays_access: "(\<And>g. prog_pays rank t (c g) b) \<Longrightarrow> prog_pays rank t (Access u c) b"

inductive ops_pay :: "(tid \<Rightarrow> 'f \<Rightarrow> nat) \<Rightarrow> ('f, 'g) isr_op list \<Rightarrow> nat \<Rightarrow> bool"
  for rank :: "tid \<Rightarrow> 'f \<Rightarrow> nat" where
  pay_nil: "ops_pay rank [] b"
| pay_wake: "ops_pay rank ops b \<Longrightarrow> ops_pay rank (IsrWake w # ops) b"
| pay_spawn: "ops_pay rank ops b \<Longrightarrow> rank t f + b \<le> b' \<Longrightarrow> ops_pay rank (IsrSpawn t f p # ops) b'"
| pay_access: "(\<And>g. ops_pay rank (c g @ ops) b) \<Longrightarrow> ops_pay rank (IsrAccess u c # ops) b"

inductive_cases prog_pays_cases:
  "prog_pays rank t (Pending f) b" "prog_pays rank t (Wake w p) b" "prog_pays rank t (Spawn t' f prio c) b"
  "prog_pays rank t (Join t' c) b" "prog_pays rank t (Access u c) b"

inductive_cases ops_pay_cases:
  "ops_pay rank (IsrWake w # ops) b" "ops_pay rank (IsrSpawn t f p # ops) b"
  "ops_pay rank (IsrAccess u c # ops) b"

fun frame_pays :: "(tid \<Rightarrow> 'f \<Rightarrow> nat) \<Rightarrow> ('f, 'o, 'g) frame \<Rightarrow> nat \<Rightarrow> bool" where
  "frame_pays rank (FPoll e t st p) b = prog_pays rank t p b"
| "frame_pays rank (FIrq kind ops st) b = ops_pay rank ops b"
| "frame_pays rank fr b = True"

definition payable :: "(tid \<Rightarrow> 'f \<Rightarrow> nat) \<Rightarrow> ('f, 'o, 'g) frame \<Rightarrow> bool" where
  "payable rank fr \<longleftrightarrow> (\<exists>b. frame_pays rank fr b)"

definition funded :: "(tid \<Rightarrow> 'f \<Rightarrow> nat) \<Rightarrow> ('f, 'o, 'g) frame list \<Rightarrow> bool" where
  "funded rank stk \<longleftrightarrow> list_all (payable rank) stk"

lemma payable_simps [simp]:
  "payable rank FIdle" "payable rank FClear" "payable rank FSched" "payable rank (FLoop e)"
  "payable rank (FGot e t)" "payable rank (FReady e t out)" "payable rank (FNull e t)" "payable rank (FDrop e t)"
  "payable rank (FDespawn e t)" "payable rank (FRunEnd e)" "payable rank (FComplete e)"
  by (simp_all add: payable_def)

lemma payableI:
  "prog_pays rank t p b \<Longrightarrow> payable rank (FPoll e t st p)" "ops_pay rank ops b \<Longrightarrow> payable rank (FIrq kind ops st)"
  by (auto simp: payable_def)

text \<open>The least budget.\<close>

definition frame_cost :: "(tid \<Rightarrow> 'f \<Rightarrow> nat) \<Rightarrow> ('f, 'o, 'g) frame \<Rightarrow> nat" where
  "frame_cost rank fr = (LEAST b. frame_pays rank fr b)"

lemma frame_cost_pays: "frame_pays rank fr b \<Longrightarrow> frame_pays rank fr (frame_cost rank fr)"
  unfolding frame_cost_def by (rule LeastI)

lemma frame_cost_le: "frame_pays rank fr b \<Longrightarrow> frame_cost rank fr \<le> b"
  unfolding frame_cost_def by (rule Least_le)

lemma frame_cost_0 [simp]:
  "frame_cost rank FIdle = 0" "frame_cost rank FClear = 0" "frame_cost rank FSched = 0"
  "frame_cost rank (FLoop e) = 0" "frame_cost rank (FGot e t) = 0" "frame_cost rank (FReady e t out) = 0"
  "frame_cost rank (FNull e t) = 0" "frame_cost rank (FDrop e t) = 0" "frame_cost rank (FDespawn e t) = 0"
  "frame_cost rank (FRunEnd e) = 0" "frame_cost rank (FComplete e) = 0" "frame_cost rank (FIrq kind [] st) = 0"
  by (simp_all add: frame_cost_def Least_eq_0 pay_nil)

section \<open>The code that an activation has left\<close>

text \<open>The continuations of a program and of the code of a handler.\<close>

primrec prog_next :: "('f, 'o, 'g) prog \<Rightarrow> ('f, 'o, 'g) prog set" where
  "prog_next (Ready out) = {}"
| "prog_next (Pending f) = {}"
| "prog_next (Wake w p) = {p}"
| "prog_next (Spawn t f prio c) = range c"
| "prog_next (Join t c) = range c"
| "prog_next (Access u c) = range c"

fun ops_next :: "('f, 'g) isr_op list \<Rightarrow> ('f, 'g) isr_op list set" where
  "ops_next [] = {}"
| "ops_next (IsrAccess u c # ops) = range (\<lambda>g. c g @ ops)"
| "ops_next (op # ops) = {ops}"

datatype ('f, 'o, 'g) code = Tail | Prog "('f, 'o, 'g) prog" | Ops "('f, 'g) isr_op list"

inductive shorter :: "(tid \<Rightarrow> 'f \<Rightarrow> nat) \<Rightarrow> ('f, 'o, 'g) code \<Rightarrow> ('f, 'o, 'g) code \<Rightarrow> bool"
  for rank :: "tid \<Rightarrow> 'f \<Rightarrow> nat" where
  shorter_tail: "shorter rank Tail (Prog p)"
| shorter_prog: "q \<in> prog_next p \<Longrightarrow> shorter rank (Prog q) (Prog p)"
| shorter_ops: "ops' \<in> ops_next ops \<Longrightarrow> ops_pay rank ops b \<Longrightarrow> shorter rank (Ops ops') (Ops ops)"

inductive_cases shorter_cases:
  "shorter rank c Tail" "shorter rank c (Prog p)" "shorter rank c (Ops ops)"

lemma shorter_ends: "Wellfounded.accp (shorter rank) c"
proof (cases c)
  case Tail
  then show ?thesis by (auto intro: accpI elim: shorter_cases)
next
  case (Prog p)
  have "Wellfounded.accp (shorter rank) (Prog p)"
    by (induction p) (rule accpI, erule shorter_cases, auto intro: accpI elim: shorter_cases)+
  then show ?thesis using Prog by simp
next
  case (Ops ops)
  have "Wellfounded.accp (shorter rank) (Ops ops)" if "ops_pay rank ops b" for b
    using that by (induction rule: ops_pay.induct) (rule accpI, erule shorter_cases, auto)+
  then show ?thesis unfolding Ops by (auto intro: accpI elim: shorter_cases)
qed

lemma wf_shorter: "wf {(c', c). shorter rank c' c}"
  using accp_wfpI [of "shorter rank"] by (simp add: shorter_ends wfp_def)

text \<open>The activations that are in the middle of something, with the code and the steps they have left.\<close>

fun stages_left :: "stage option \<Rightarrow> nat" where
  "stages_left None = 0"
| "stages_left (Some st) = stage_left st"

fun frame_left :: "('f, 'o, 'g) frame \<Rightarrow> (('f, 'o, 'g) code \<times> nat) option" where
  "frame_left (FPoll e t st p) = Some (Prog p, stages_left st)"
| "frame_left (FReady e t out) = Some (Tail, 4)"
| "frame_left (FNull e t) = Some (Tail, 3)"
| "frame_left (FDrop e t) = Some (Tail, 2)"
| "frame_left (FDespawn e t) = Some (Tail, 1)"
| "frame_left (FIrq KHook [] None) = None"
| "frame_left (FIrq kind ops st) = Some (Ops ops, stages_left st)"
| "frame_left fr = None"

lemma frame_left_irq:
  "frame_left (FIrq kind ops st) =
    (if kind = KHook \<and> ops = [] \<and> st = None then None else Some (Ops ops, stages_left st))"
  by (cases kind; cases ops; cases st) simp_all

definition code_left :: "('f, 'o, 'g) frame list \<Rightarrow> (('f, 'o, 'g) code \<times> nat) multiset" where
  "code_left stk = mset (List.map_filter frame_left stk)"

lemma code_left_simps [simp]:
  "code_left [] = {#}"
  "code_left (fr # stk) = (case frame_left fr of None \<Rightarrow> code_left stk | Some x \<Rightarrow> add_mset x (code_left stk))"
  by (simp_all add: code_left_def List.map_filter_simps split: option.split)

lemma in_code_left: "x \<in># code_left stk \<longleftrightarrow> (\<exists>fr\<in>set stk. frame_left fr = Some x)"
  by (induction stk) (auto split: option.splits)

section \<open>The polls that are left\<close>

definition slots :: "('f, 'o, 'q, 's, 'g) kernel \<Rightarrow> tid \<Rightarrow> 'f cell" where
  "slots k t = ts_f (k_tasks k t)"

fun worth :: "(tid \<Rightarrow> 'f \<Rightarrow> nat) \<Rightarrow> tid \<Rightarrow> 'f cell \<Rightarrow> nat" where
  "worth rank t Uninit = 0"
| "worth rank t (Init f) = rank t f"

text \<open>The futures in the slots, except those of the tasks in \<open>X\<close>.\<close>

definition slots_worth :: "(tid \<Rightarrow> 'f \<Rightarrow> nat) \<Rightarrow> (tid \<Rightarrow> 'f cell) \<Rightarrow> tid set \<Rightarrow> nat" where
  "slots_worth rank s X = (\<Sum>t | s t \<noteq> Uninit \<and> t \<notin> X. worth rank t (s t))"

abbreviation live :: "(tid \<Rightarrow> 'f cell) \<Rightarrow> tid set" where
  "live s \<equiv> {t. s t \<noteq> Uninit}"

lemma slots_worth_mono:
  assumes "finite (live s)" "\<And>t. t \<in> X - X' \<Longrightarrow> s t = Uninit"
  shows "slots_worth rank s X' \<le> slots_worth rank s X"
  unfolding slots_worth_def using assms by (intro sum_mono2) (auto intro: rev_finite_subset)

lemma slots_worth_update:
  assumes "finite (live s)" "X \<subseteq> insert t X'"
  shows "slots_worth rank (s(t := Init f)) X' \<le> slots_worth rank s X + rank t f"
proof -
  let ?A = "{u. (s(t := Init f)) u \<noteq> Uninit \<and> u \<notin> X'}"
  have fin: "finite ?A" by (rule rev_finite_subset [of "insert t (live s)"]) (use assms(1) in auto)
  have "slots_worth rank (s(t := Init f)) X' \<le> (\<Sum>u\<in>insert t (?A - {t}). worth rank u ((s(t := Init f)) u))"
    unfolding slots_worth_def using fin by (intro sum_mono2) auto
  also have "\<dots> = rank t f + (\<Sum>u\<in>?A - {t}. worth rank u (s u))"
    using fin by (subst sum.insert) (auto intro!: sum.cong)
  also have "(\<Sum>u\<in>?A - {t}. worth rank u (s u)) \<le> slots_worth rank s X"
    unfolding slots_worth_def using assms by (intro sum_mono2) (auto intro: rev_finite_subset)
  finally show ?thesis by simp
qed

lemma slots_worth_take:
  assumes "finite (live s)" "t \<notin> X" "s t = Init f"
  shows "slots_worth rank s (insert t X) + rank t f = slots_worth rank s X"
proof -
  let ?A = "{u. s u \<noteq> Uninit \<and> u \<notin> insert t X}"
  have "{u. s u \<noteq> Uninit \<and> u \<notin> X} = insert t ?A" using assms by auto
  moreover have "finite ?A" using assms(1) by (rule rev_finite_subset) auto
  ultimately show ?thesis using assms(3) by (simp add: slots_worth_def)
qed

lemma slots_worth_drop:
  assumes "finite (live s)" "X \<subseteq> insert t X'"
  shows "slots_worth rank (s(t := Uninit)) X' \<le> slots_worth rank s X"
proof -
  have "slots_worth rank (s(t := Uninit)) X' = (\<Sum>u | (s(t := Uninit)) u \<noteq> Uninit \<and> u \<notin> X'. worth rank u (s u))"
    unfolding slots_worth_def by (rule sum.cong) auto
  also have "\<dots> \<le> slots_worth rank s X"
    unfolding slots_worth_def using assms by (intro sum_mono2) (auto intro: rev_finite_subset)
  finally show ?thesis .
qed

text \<open>The tasks whose future is being polled or dropped.\<close>

fun taken :: "('f, 'o, 'g) frame \<Rightarrow> tid set" where
  "taken (FPoll e t st p) = {t}"
| "taken (FReady e t out) = {t}"
| "taken (FNull e t) = {t}"
| "taken (FDrop e t) = {t}"
| "taken fr = {}"

lemma taken_polls: "u \<in> \<Union>(taken ` set stk) \<Longrightarrow> u \<in> snd ` set (polls stk)"
proof (induction stk)
  case (Cons fr stk)
  then show ?case by (cases fr) force+
qed simp

definition polls_left :: "(tid \<Rightarrow> 'f \<Rightarrow> nat) \<Rightarrow> ('f, 'o, 'q, 's, 'g) kernel \<Rightarrow> ('f, 'o, 'g) frame list \<Rightarrow> nat" where
  "polls_left rank k stk = slots_worth rank (slots k) (\<Union>(taken ` set stk)) + sum_list (map (frame_cost rank) stk)"

section \<open>What the scheduler has begun\<close>

fun frame_sched :: "(tid, 'q) list_api \<Rightarrow> ('f, 'o, 'q, 's, 'g) kernel \<Rightarrow> ('f, 'o, 'g) frame \<Rightarrow> nat" where
  "frame_sched L k (FIrq KHook [] None) = 3"
| "frame_sched L k FClear = 2"
| "frame_sched L k FSched = 1"
| "frame_sched L k (FLoop e) = (if queue L k e = [] then 4 else 0)"
| "frame_sched L k (FGot e t) = 5"
| "frame_sched L k (FRunEnd e) = 3"
| "frame_sched L k (FComplete e) = 2"
| "frame_sched L k fr = 0"

definition sched_left :: "(tid, 'q) list_api \<Rightarrow> ('f, 'o, 'q, 's, 'g) kernel \<Rightarrow> ('f, 'o, 'g) frame list \<Rightarrow> nat" where
  "sched_left L k stk = (if k_msip k \<and> (case stk of [] \<Rightarrow> True | fr # rest \<Rightarrow> \<not> is_hook fr) then 4 else 0)
     + sum_list (map (frame_sched L k) stk)"

section \<open>The measure\<close>

definition left_rel ::
  "(tid \<Rightarrow> 'f \<Rightarrow> nat) \<Rightarrow> ((nat \<times> (('f, 'o, 'g) code \<times> nat) multiset \<times> nat \<times> nat)
     \<times> (nat \<times> (('f, 'o, 'g) code \<times> nat) multiset \<times> nat \<times> nat)) set" where
  "left_rel rank = less_than <*lex*> mult ({(c', c). shorter rank c' c} <*lex*> less_than) <*lex*> less_than <*lex*> less_than"

lemma wf_left_rel: "wf (left_rel rank)"
  unfolding left_rel_def by (intro wf_lex_prod wf_less_than wf_mult wf_shorter)

definition left ::
  "(tid \<Rightarrow> 'f \<Rightarrow> nat) \<Rightarrow> (tid, 'q) list_api \<Rightarrow> nat \<Rightarrow> ('f, 'o, 'q, 's, 'g) kernel \<Rightarrow> ('f, 'o, 'g) frame list \<Rightarrow>
   nat \<times> (('f, 'o, 'g) code \<times> nat) multiset \<times> nat \<times> nat" where
  "left rank L n k stk = (polls_left rank k stk, code_left stk, size (queued L n k), sched_left L k stk)"

text \<open>The ways a step makes it smaller.\<close>

lemma left_polls:
  "polls_left rank k' stk' < polls_left rank k stk \<Longrightarrow> (left rank L n k' stk', left rank L n k stk) \<in> left_rel rank"
  by (simp add: left_def left_rel_def)

lemma left_code:
  assumes "polls_left rank k' (frs @ rest) \<le> polls_left rank k (fr # rest)" "frame_left fr = Some (c, i)"
    and "\<And>fr'. fr' \<in> set frs \<Longrightarrow> case frame_left fr' of None \<Rightarrow> True
      | Some (c', i') \<Rightarrow> shorter rank c' c \<or> c' = c \<and> i' < i"
  shows "(left rank L n k' (frs @ rest), left rank L n k (fr # rest)) \<in> left_rel rank"
proof -
  let ?r = "{(c', c). shorter rank c' c} <*lex*> less_than"
  have "code_left (frs @ rest) = code_left rest + code_left frs"
    by (induction frs) (simp_all split: option.split)
  moreover have "(code_left rest + code_left frs, code_left rest + {#(c, i)#}) \<in> mult ?r"
  proof (rule one_step_implies_mult)
    show "\<forall>x\<in>#code_left frs. \<exists>y\<in>#{#(c, i)#}. (x, y) \<in> ?r"
      using assms(3) by (fastforce simp: in_code_left split: option.splits)
  qed simp
  ultimately show ?thesis
    using assms(1,2) by (simp add: left_def left_rel_def le_less)
qed

lemma left_queued:
  assumes "polls_left rank k' stk' \<le> polls_left rank k stk" "code_left stk' = code_left stk"
    and "size (queued L n k') < size (queued L n k)"
  shows "(left rank L n k' stk', left rank L n k stk) \<in> left_rel rank"
  using assms by (auto simp: left_def left_rel_def le_less)

lemma left_sched:
  assumes "polls_left rank k' stk' \<le> polls_left rank k stk" "code_left stk' = code_left stk"
    and "size (queued L n k') \<le> size (queued L n k)" "sched_left L k' stk' < sched_left L k stk"
  shows "(left rank L n k' stk', left rank L n k stk) \<in> left_rel rank"
  using assms by (auto simp: left_def left_rel_def le_less)

section \<open>What the steps do to the slots\<close>

lemma slots_cong: "k_tasks k' = k_tasks k \<Longrightarrow> slots k' = slots k"
  by (simp add: slots_def fun_eq_iff)

lemma slots_upd: "slots (upd_task t g k) = (slots k)(t := ts_f (g (k_tasks k t)))"
  by (auto simp: slots_def fun_eq_iff)

lemma slots_upd_exec [simp]: "slots (upd_exec e g k) = slots k"
  by (rule slots_cong) simp

lemma slots_put_state [simp]: "slots (put_state t w k) = slots k"
  by (auto simp: slots_def fun_eq_iff)

lemma slots_upd_same [simp]: "ts_f (g (k_tasks k t)) = ts_f (k_tasks k t) \<Longrightarrow> slots (upd_task t g k) = slots k"
  by (auto simp: slots_def fun_eq_iff)

lemma slots_upd_init: "slots (upd_task t (\<lambda>i. i\<lparr>ts_f := c\<rparr>) k) = (slots k)(t := c)"
  by (simp add: slots_upd)

lemma tasks_pend_send: "pend_send k = Inr k' \<Longrightarrow> k_tasks k' = k_tasks k"
  by (auto simp: pend_send_def ipi_send_def split: option.splits ipi_dev.splits if_splits)

lemma tasks_pend: "pend k = Inr k' \<Longrightarrow> k_tasks k' = k_tasks k"
  by (auto simp: pend_def pend_mark_def dest: tasks_pend_send)

lemma tasks_spawn_check: "spawn_check V k = Inr k' \<Longrightarrow> k_tasks k' = k_tasks k"
  by (auto simp: spawn_check_def rbind_Inr_iff Let_def dest: tasks_pend split: option.splits if_splits list.splits)

lemma tasks_ops: "ops_set x k = Inr k' \<Longrightarrow> k_tasks k' = k_tasks k" "ops_clear x k = Inr k' \<Longrightarrow> k_tasks k' = k_tasks k"
  by (auto simp: ops_set_def ops_clear_def bm_set_def bm_clear_def rbind_Inr_iff split: bitmap_ops.splits)

lemma slots_enqueue_locked: "enqueue_locked L e t k = Inr k' \<Longrightarrow> slots k' = slots k"
  by (auto simp: enqueue_locked_def run_queue_enqueue_def Let_def dest!: tasks_ops slots_cong [OF tasks_ops(1)])

lemma slots_run_next: "run_next L e k = Inr (r, k') \<Longrightarrow> slots k' = slots k"
  by (auto simp: run_next_def run_queue_dequeue_def rbind_Inr_iff Let_def dest!: tasks_ops(2)
      split: prod.splits option.splits intro: slots_cong)

lemma slots_fetch: "fetch_enqueue t k = (b, k') \<Longrightarrow> slots k' = slots k"
  by (auto simp: fetch_enqueue_def split: prod.splits)

lemma slots_stage: "step_stage V L st k = Inr (st', k') \<Longrightarrow> slots k' = slots k"
  by (cases st) (auto simp: rbind_Inr_iff join_store_def pend_mark_def
      dest: slots_enqueue_locked slots_fetch slots_cong [OF tasks_pend_send] slots_cong [OF tasks_spawn_check]
      split: prod.splits option.splits if_splits intro: slots_cong)

lemma slots_wake: "wake_task L t k = Inr k' \<Longrightarrow> slots k' = slots k"
  by (auto simp: wake_task_def executor_enqueue_def run_enqueue_def rbind_Inr_iff
      dest!: slots_enqueue_locked slots_cong [OF tasks_pend] split: option.splits if_splits prod.splits)

lemma slots_spawn:
  "begin_spawn t f p k = Inr (ok, st, k') \<Longrightarrow> slots k' = slots k \<or> slots k' = (slots k)(t := Init f)"
  by (auto simp: begin_spawn_def storage_spawn_def slots_upd Let_def split: prod.splits if_splits)

text \<open>A step changes at most one slot, so only finitely many are ever in use.\<close>

definition one_slot :: "('f, 'o, 'q, 's, 'g) kernel \<Rightarrow> ('f, 'o, 'q, 's, 'g) kernel \<Rightarrow> bool" where
  "one_slot k k' \<longleftrightarrow> (\<exists>t. \<forall>u. u \<noteq> t \<longrightarrow> slots k' u = slots k u)"

lemma one_slotI: "slots k' = slots k \<Longrightarrow> one_slot k k'" "slots k' = (slots k)(t := c) \<Longrightarrow> one_slot k k'"
  by (auto simp: one_slot_def)

lemma one_slot_same: "k_tasks k' = k_tasks k \<Longrightarrow> one_slot k k'"
  by (intro one_slotI slots_cong)

lemma one_slot_spawn: "begin_spawn t f p k = Inr (ok, st, k') \<Longrightarrow> one_slot k k'"
  by (drule slots_spawn) (blast intro: one_slotI)

lemma sched_step:
  assumes "step_frame V L fpoll FSched k = Inr (frs, k')"
  obtains (none) "try_preempt V k = Inr (None, k')" "frs = []"
  | (run) e where "try_preempt V k = Inr (Some (RunToken (Priority e)), k')" "frs = [FLoop e]"
proof -
  obtain r k2 where pre: "try_preempt V k = Inr (r, k2)" using assms by (auto simp: rbind_Inr_iff)
  show ?thesis
  proof (cases r)
    case (Some y)
    obtain p where "y = RunToken p" by (cases y)
    then show ?thesis using assms pre Some run by (cases p) (auto split: if_splits)
  qed (use assms pre none in simp)
qed

lemma slots_step:
  assumes "step_frame V L fpoll fr k = Inr (frs, k')"
  shows "one_slot k k'"
proof (cases fr)
  case (FIrq kind ops st)
  then show ?thesis using assms
    by (cases "(V, L, kind, ops, st, k)" rule: step_irq.cases)
      (auto simp: rbind_Inr_iff dest: slots_stage one_slot_spawn intro: one_slotI one_slot_same)
next
  case (FPoll e t st p)
  then show ?thesis using assms
    by (cases "(V, L, e, t, st, p, k)" rule: step_poll.cases)
      (auto simp: rbind_Inr_iff join_take_def slots_upd_init dest: slots_stage one_slot_spawn intro: one_slotI one_slot_same split: option.splits)
next
  case FClear
  then show ?thesis using assms
    by (auto simp: clear_pend_def Let_def ipi_clear_def rbind_Inr_iff split: option.splits ipi_dev.splits intro!: one_slot_same)
next
  case FSched
  then show ?thesis using assms by (blast elim: sched_step intro: one_slot_same dest: preempt_tasks)
next
  case (FLoop e)
  then show ?thesis using assms by (auto simp: rbind_Inr_iff dest: slots_run_next intro: one_slotI split: option.splits)
next
  case (FGot e t)
  then show ?thesis using assms by (auto simp: rbind_Inr_iff intro: one_slotI split: option.splits poll_fn.splits)
next
  case (FDespawn e t)
  then show ?thesis using assms
    by (auto simp: poll_despawn_def waker_wake_def Let_def rbind_Inr_iff dest!: slots_wake intro: one_slotI split: option.splits)
next
  case (FComplete e)
  then show ?thesis using assms by (auto simp: complete_executor_def intro!: one_slot_same)
next
  case (FDrop e t)
  then show ?thesis using assms by (auto simp: poll_drop_future_def rbind_Inr_iff slots_upd intro: one_slotI)
next
  case (FReady e t out)
  then show ?thesis using assms by (auto simp: poll_store_result_def intro: one_slotI)
next
  case (FNull e t)
  then show ?thesis using assms by (auto simp: poll_clear_executor_def intro: one_slotI)
qed (use assms in \<open>auto intro: one_slotI\<close>)

lemma one_slot_finite: "one_slot k k' \<Longrightarrow> finite (live (slots k)) \<Longrightarrow> finite (live (slots k'))"
proof -
  assume "one_slot k k'" "finite (live (slots k))"
  then obtain t where t: "\<And>u. u \<noteq> t \<Longrightarrow> slots k' u = slots k u" by (auto simp: one_slot_def)
  have "live (slots k') \<subseteq> insert t (live (slots k))"
  proof
    fix u assume "u \<in> live (slots k')"
    then show "u \<in> insert t (live (slots k))" using t [of u] by (cases "u = t") simp_all
  qed
  then show "finite (live (slots k'))" using \<open>finite (live (slots k))\<close> by (metis finite_insert rev_finite_subset)
qed

lemma finite_slots: "reachable V L fpoll n m \<Longrightarrow> finite (live (slots (m_kernel m)))"
proof (induction rule: reachable.induct)
  case (reach_boot g ops m)
  then have "slots (m_kernel m) = (\<lambda>t. Uninit)"
    by (auto simp: boot_machine_def boot_kernel_def spawner_new_def spawner_init_def rbind_Inr_iff storage_new_def
        cell_uninit_def slots_def fun_eq_iff split: if_splits)
  then show ?case by simp
next
  case (reach_step m ev m')
  have "one_slot (m_kernel m) (m_kernel m')"
    using reach_step.hyps(2)
    by (cases ev) (auto simp: rbind_Inr_iff dest: slots_step intro: one_slot_same split: list.splits if_splits)
  then show ?case using reach_step.IH by (rule one_slot_finite)
qed

section \<open>Every step makes the measure smaller\<close>

lemma polls_left_keep:
  assumes "finite (live (slots k))" "slots k' = slots k"
    and "\<And>t. t \<in> taken fr \<Longrightarrow> t \<notin> \<Union>(taken ` set frs) \<Longrightarrow> slots k t = Uninit"
    and "sum_list (map (frame_cost rank) frs) \<le> frame_cost rank fr"
  shows "polls_left rank k' (frs @ rest) \<le> polls_left rank k (fr # rest)"
proof -
  have "slots_worth rank (slots k) (\<Union>(taken ` set (frs @ rest))) \<le> slots_worth rank (slots k) (\<Union>(taken ` set (fr # rest)))"
    using assms(1,3) by (intro slots_worth_mono) auto
  then show ?thesis using assms(2,4) by (simp add: polls_left_def)
qed

lemma polls_left_put:
  assumes "finite (live (slots k))" "slots k' = (slots k)(t := Init f)"
    and "taken fr \<subseteq> insert t (\<Union>(taken ` set frs))"
    and "sum_list (map (frame_cost rank) frs) + rank t f \<le> frame_cost rank fr"
  shows "polls_left rank k' (frs @ rest) \<le> polls_left rank k (fr # rest)"
proof -
  have "slots_worth rank ((slots k)(t := Init f)) (\<Union>(taken ` set (frs @ rest)))
      \<le> slots_worth rank (slots k) (\<Union>(taken ` set (fr # rest))) + rank t f"
    using assms(1,3) by (intro slots_worth_update) auto
  then show ?thesis using assms(2,4) by (simp add: polls_left_def)
qed

lemma polls_left_spawn:
  assumes "finite (live (slots k))" "begin_spawn t f p k = Inr (ok, st, k')" "taken fr \<subseteq> \<Union>(taken ` set frs)"
    and "sum_list (map (frame_cost rank) frs) + rank t f \<le> frame_cost rank fr"
  shows "polls_left rank k' (frs @ rest) \<le> polls_left rank k (fr # rest)"
  using slots_spawn [OF assms(2)]
proof
  assume "slots k' = slots k"
  then show ?thesis by (rule polls_left_keep [OF assms(1)]) (use assms(3,4) in auto)
next
  assume "slots k' = (slots k)(t := Init f)"
  then show ?thesis by (rule polls_left_put [OF assms(1)]) (use assms(3,4) in auto)
qed

text \<open>The cost of what follows, from the cost of what is there.\<close>

lemma cost_after:
  assumes "frame_pays rank fr b" "\<And>b. frame_pays rank fr b \<Longrightarrow> \<exists>b'. frame_pays rank fr' b' \<and> b' + d \<le> b"
  shows "frame_cost rank fr' + d \<le> frame_cost rank fr"
  using assms(2) [OF frame_cost_pays [OF assms(1)]] frame_cost_le [of rank fr'] by fastforce

text \<open>A call in progress makes a step: the activation stays, with the same code left.\<close>

lemma left_stage:
  assumes step: "step_stage V L st k = Inr (st', k')" and fin: "finite (live (slots k))"
    and fr: "frame_left fr = Some (c, stage_left st)" "taken fr' = taken fr" "frame_cost rank fr' = frame_cost rank fr"
    and fr': "frame_left fr' \<in> {None, Some (c, stages_left st')}"
  shows "(left rank L n k' ([fr'] @ rest), left rank L n k (fr # rest)) \<in> left_rel rank"
proof (rule left_code [OF _ fr(1)])
  show "polls_left rank k' ([fr'] @ rest) \<le> polls_left rank k (fr # rest)"
    by (rule polls_left_keep [OF fin slots_stage [OF step]]) (simp_all add: fr)
  show "case frame_left x of None \<Rightarrow> True | Some (c', i') \<Rightarrow> shorter rank c' c \<or> c' = c \<and> i' < stage_left st"
    if "x \<in> set [fr']" for x
    using that fr' step_stage_left [of V L st k _ k'] step by (cases st') auto
qed

text \<open>It goes on to the next piece of the runtime's own code, or is over.\<close>

lemma left_next:
  assumes "finite (live (slots k))" "slots k' = slots k" "taken fr \<subseteq> \<Union>(taken ` set frs)"
    and "frame_left fr = Some (c, i)" "sum_list (map (frame_cost rank) frs) = 0"
    and "\<And>fr'. fr' \<in> set frs \<Longrightarrow> frame_left fr' = None \<or> (\<exists>j<i. frame_left fr' = Some (c, j))"
  shows "(left rank L n k' (frs @ rest), left rank L n k (fr # rest)) \<in> left_rel rank"
proof (rule left_code [OF polls_left_keep [OF assms(1,2)] assms(4)])
  show "case frame_left fr' of None \<Rightarrow> True | Some (c', i') \<Rightarrow> shorter rank c' c \<or> c' = c \<and> i' < i"
    if "fr' \<in> set frs" for fr'
    using assms(6) [OF that] by auto
qed (use assms(3) in blast, simp only: assms(5) le0)

lemma left_irq:
  assumes step: "step_irq V L kind ops st k = Inr (frs, k')" and fin: "finite (live (slots k))"
    and pay: "ops_pay rank ops b" and busy: "kind \<noteq> KHook \<or> ops \<noteq> [] \<or> st \<noteq> None"
  shows "(left rank L n k' (frs @ rest), left rank L n k (FIrq kind ops st # rest)) \<in> left_rel rank"
proof -
  let ?fr = "FIrq kind ops st"
  have fl: "frame_left ?fr = Some (Ops ops, stages_left st)" using busy by (auto simp: frame_left_irq)
  note C = cost_after [of rank ?fr b, simplified, OF pay]
  have one: "(left rank L n k' (frs @ rest), left rank L n k (?fr # rest)) \<in> left_rel rank"
    if "polls_left rank k' (frs @ rest) \<le> polls_left rank k (?fr # rest)" "frs = [FIrq kind ops' st']" "ops' \<in> ops_next ops"
    for ops' st'
    by (rule left_code [OF that(1) fl]) (use that(2,3) pay in \<open>auto simp: frame_left_irq intro: shorter_ops\<close>)
  show ?thesis
  proof (cases st)
    case (Some s)
    then obtain st' where st': "step_stage V L s k = Inr (st', k')" "frs = [FIrq kind ops st']"
      using step by (auto simp: rbind_Inr_iff)
    show ?thesis
      unfolding st'(2) by (rule left_stage [OF st'(1) fin]) (auto simp: Some frame_left_irq frame_cost_def)
  next
    case None
    show ?thesis
    proof (cases ops)
      case Nil
      then have "k' = k" "frs = (if kind = KBoot then [FIdle] else [])" using step busy None by (cases kind; simp)+
      then show ?thesis by (intro left_next [OF fin _ _ fl]) auto
    next
      case (Cons op ops')
      show ?thesis
      proof (cases op)
        case (IsrWake w)
        then have s: "frs = [FIrq kind ops' (Some (W_Load w))]" "k' = k" using step Cons None by simp_all
        have "frame_cost rank (FIrq kind ops' (Some (W_Load w))) + 0 \<le> frame_cost rank ?fr"
          by (rule C) (use Cons IsrWake in \<open>auto elim: ops_pay_cases\<close>)
        then show ?thesis using s Cons IsrWake
          by (intro one [OF polls_left_keep [OF fin] s(1)]) simp_all
      next
        case (IsrSpawn t f p)
        then obtain ok st' where s: "begin_spawn t f p k = Inr (ok, st', k')" "frs = [FIrq kind ops' st']"
          using step Cons None by (auto simp: rbind_Inr_iff)
        have "frame_cost rank (FIrq kind ops' st') + rank t f \<le> frame_cost rank ?fr"
          by (rule C) (use Cons IsrSpawn in \<open>auto elim!: ops_pay_cases simp: add.commute\<close>)
        then show ?thesis using s Cons IsrSpawn
          by (intro one [OF polls_left_spawn [OF fin s(1)] s(2)]) simp_all
      next
        case (IsrAccess u c)
        then have s: "frs = [FIrq kind (c (k_app k) @ ops') None]" "k' = k\<lparr>k_app := u (k_app k)\<rparr>"
          using step Cons None by simp_all
        have "frame_cost rank (FIrq kind (c (k_app k) @ ops') None) + 0 \<le> frame_cost rank ?fr"
          by (rule C) (use Cons IsrAccess in \<open>auto elim: ops_pay_cases\<close>)
        then show ?thesis using s Cons IsrAccess
          by (intro one [OF polls_left_keep [OF fin slots_cong] s(1)]) simp_all
      qed
    qed
  qed
qed

lemma left_poll:
  assumes step: "step_poll V L e t st p k = Inr (frs, k')" and fin: "finite (live (slots k))"
    and pay: "prog_pays rank t p b"
  shows "(left rank L n k' (frs @ rest), left rank L n k (FPoll e t st p # rest)) \<in> left_rel rank"
proof -
  let ?fr = "FPoll e t st p"
  have fl: "frame_left ?fr = Some (Prog p, stages_left st)" by simp
  note C = cost_after [of rank ?fr b, simplified, OF pay]
  have one: "(left rank L n k' (frs @ rest), left rank L n k (?fr # rest)) \<in> left_rel rank"
    if "polls_left rank k' (frs @ rest) \<le> polls_left rank k (?fr # rest)" "frs = [FPoll e t st' p']" "p' \<in> prog_next p"
    for p' st'
    by (rule left_code [OF that(1) fl]) (use that(2,3) in \<open>auto intro: shorter_prog\<close>)
  show ?thesis
  proof (cases st)
    case (Some s)
    then obtain st' where st': "step_stage V L s k = Inr (st', k')" "frs = [FPoll e t st' p]"
      using step by (auto simp: rbind_Inr_iff)
    show ?thesis
      unfolding st'(2) by (rule left_stage [OF st'(1) fin]) (simp_all add: Some frame_cost_def)
  next
    case None
    show ?thesis
    proof (cases p)
      case (Ready out)
      then show ?thesis using step None
        by (intro left_code [OF polls_left_keep [OF fin] fl]) (auto intro: shorter_tail)
    next
      case (Pending f)
      then have s: "frs = [FLoop e]" "k' = upd_task t (\<lambda>i. i\<lparr>ts_f := Init f\<rparr>) k" using step None by simp_all
      have "frame_cost rank (FLoop e) + rank t f \<le> frame_cost rank ?fr"
        by (rule C) (use Pending in \<open>auto elim!: prog_pays_cases intro: exI [of _ 0]\<close>)
      then show ?thesis using s
        by (intro left_code [OF polls_left_put [OF fin] fl]) (auto simp: slots_upd)
    next
      case (Wake w p')
      then have s: "frs = [FPoll e t (Some (W_Load w)) p']" "k' = k" using step None by simp_all
      have "frame_cost rank (FPoll e t (Some (W_Load w)) p') + 0 \<le> frame_cost rank ?fr"
        by (rule C) (use Wake in \<open>auto elim: prog_pays_cases\<close>)
      then show ?thesis using s Wake by (intro one [OF polls_left_keep [OF fin] s(1)]) simp_all
    next
      case (Spawn t' f prio c)
      then obtain ok st' where s: "begin_spawn t' f prio k = Inr (ok, st', k')" "frs = [FPoll e t st' (c ok)]"
        using step None by (auto simp: rbind_Inr_iff)
      have "frame_cost rank (FPoll e t st' (c ok)) + rank t' f \<le> frame_cost rank ?fr"
        by (rule C) (use Spawn in \<open>auto elim!: prog_pays_cases simp: add.commute\<close>)
      then show ?thesis using s Spawn by (intro one [OF polls_left_spawn [OF fin s(1)] s(2)]) simp_all
    next
      case (Join t' c)
      then obtain r st' where s: "frs = [FPoll e t st' (c r)]" "k' = upd_task t' (\<lambda>i. i\<lparr>js_result := None\<rparr>) k"
        using step None by (auto simp: join_take_def split: option.splits)
      have "frame_cost rank (FPoll e t st' (c r)) + 0 \<le> frame_cost rank ?fr"
        by (rule C) (use Join in \<open>auto elim: prog_pays_cases\<close>)
      then show ?thesis using s Join by (intro one [OF polls_left_keep [OF fin] s(1)]) simp_all
    next
      case (Access u c)
      then have s: "frs = [FPoll e t None (c (k_app k))]" "k' = k\<lparr>k_app := u (k_app k)\<rparr>"
        using step None by simp_all
      have "frame_cost rank (FPoll e t None (c (k_app k))) + 0 \<le> frame_cost rank ?fr"
        by (rule C) (use Access in \<open>auto elim: prog_pays_cases\<close>)
      then show ?thesis using s Access by (intro one [OF polls_left_keep [OF fin slots_cong] s(1)]) simp_all
    qed
  qed
qed

context runtime
begin

lemma size_queued_less:
  fixes k k' :: "('f, 'o, 'q, 's, 'g) kernel"
  assumes "e < n" "queue L k e = t # queue L k' e" "\<forall>e'. e' \<noteq> e \<longrightarrow> queue L k' e' = queue L k e'"
  shows "size (queued L n k') < size (queued L n k)"
proof -
  have "queued L n k' + {#t#} = queued L n k + {#}"
    by (rule queued_change [OF assms(1)]) (use assms(2,3) in auto)
  then have "size (queued L n k' + {#t#}) = size (queued L n k)" by simp
  then show ?thesis by simp
qed

lemma same_queues:
  assumes "\<And>e. queue L k' e = queue L k e"
  shows "frame_sched L k' = frame_sched L k" "queued L n k' = queued L n k"
proof
  show "frame_sched L k' fr = frame_sched L k fr" for fr
    using assms by (cases "(L, k, fr)" rule: frame_sched.cases) simp_all
qed (use assms in \<open>simp add: queued_def\<close>)

text \<open>A step that only moves the scheduler on.\<close>

lemma left_move:
  fixes k k' :: "('f, 'o, 'q, 's, 'g) kernel"
  assumes fin: "finite (live (slots k))" and k: "slots k' = slots k" "\<And>e. queue L k' e = queue L k e" "k_msip k' \<longrightarrow> k_msip k"
    and fr: "frame_left fr = None" "taken fr = {}" "frs \<in> {[], [fr']}" "frame_left fr' = None" "frame_cost rank fr' = 0"
    and hook: "is_hook fr \<longrightarrow> is_hook fr' \<and> frs = [fr'] \<or> \<not> k_msip k'"
    and less: "sum_list (map (frame_sched L k) frs) < frame_sched L k fr"
  shows "(left rank L n k' (frs @ rest), left rank L n k (fr # rest)) \<in> left_rel rank"
proof (rule left_sched)
  show "polls_left rank k' (frs @ rest) \<le> polls_left rank k (fr # rest)"
    using fr by (intro polls_left_keep [OF fin k(1)]) auto
  show "code_left (frs @ rest) = code_left (fr # rest)" using fr by auto
  show "size (queued L n k') \<le> size (queued L n k)" by (simp add: same_queues(2) [OF k(2)])
  show "sched_left L k' (frs @ rest) < sched_left L k (fr # rest)"
    using fr(3) k(3) hook less by (auto simp: sched_left_def same_queues(1) [OF k(2)])
qed

lemma left_got:
  fixes k :: "('f, 'o, 'q, 's, 'g) kernel"
  assumes inv: "task_inv L n k (FGot e t # rest)" and fin: "finite (live (slots k))"
    and f: "ts_f (k_tasks k t) = Init f" and b: "b < rank t f" "prog_pays rank t p b"
  shows "(left rank L n k (FPoll e t None p # rest), left rank L n k (FGot e t # rest)) \<in> left_rel rank"
proof (rule left_polls)
  have "t \<notin> \<Union>(taken ` set rest)"
    using task_invD(1) [OF inv] taken_polls [of t rest] by auto
  from slots_worth_take [OF fin this, of f rank]
  have "slots_worth rank (slots k) (insert t (\<Union>(taken ` set rest))) + rank t f
      = slots_worth rank (slots k) (\<Union>(taken ` set rest))"
    using f by (simp add: slots_def [of k t])
  moreover have "frame_cost rank (FPoll e t None p) \<le> b" using b(2) by (intro frame_cost_le) simp
  ultimately show "polls_left rank k (FPoll e t None p # rest) < polls_left rank k (FGot e t # rest)"
    using b(1) by (simp add: polls_left_def)
qed

lemma left_drop:
  fixes k :: "('f, 'o, 'q, 's, 'g) kernel"
  assumes fin: "finite (live (slots k))" and step: "poll_drop_future t k = Inr k'"
  shows "(left rank L n k' (FDespawn e t # rest), left rank L n k (FDrop e t # rest)) \<in> left_rel rank"
proof -
  have k': "slots k' = (slots k)(t := Uninit)"
    using step by (auto simp: poll_drop_future_def rbind_Inr_iff cell_drop_in_place_def slots_upd split: cell.splits)
  have "slots_worth rank (slots k') (\<Union>(taken ` set rest)) \<le> slots_worth rank (slots k) (insert t (\<Union>(taken ` set rest)))"
    unfolding k' by (rule slots_worth_drop [OF fin]) simp
  then have "polls_left rank k' ([FDespawn e t] @ rest) \<le> polls_left rank k (FDrop e t # rest)"
    by (simp add: polls_left_def)
  from left_code [OF this, of Tail 2] show ?thesis by simp
qed

lemma left_loop:
  fixes k :: "('f, 'o, 'q, 's, 'g) kernel"
  assumes w: "wired n k" "e < n" and fin: "finite (live (slots k))"
    and step: "step_frame V L fpoll (FLoop e) k = Inr (frs, k')"
  shows "(left rank L n k' (frs @ rest), left rank L n k (FLoop e # rest)) \<in> left_rel rank"
proof (cases rule: run_next_ok [OF w, case_names task empty])
  case (task t k2)
  then have s: "frs = [FGot e t]" "k' = k2" using step by simp_all
  show ?thesis
    by (rule left_queued [OF polls_left_keep [OF fin slots_run_next [OF task(1), folded s(2)]]])
      (use s size_queued_less [OF w(2) task(2,5)] in simp_all)
next
  case (empty k2)
  then have s: "frs = [FRunEnd e]" "k' = k2" using step by simp_all
  have q: "queue L k' e' = queue L k e'" for e' using empty s(2) by (cases "e' = e") auto
  show ?thesis
    by (rule left_move [OF fin slots_run_next [OF empty(1), folded s(2)] q])
      (use s empty in \<open>auto simp: same_sched_def\<close>)
qed

lemma left_preempt:
  fixes k :: "('f, 'o, 'q, 's, 'g) kernel"
  assumes sinv: "sched_inv V L n k (FSched # rest)" and fin: "finite (live (slots k))"
    and step: "step_frame V L fpoll FSched k = Inr (frs, k')"
  shows "(left rank L n k' (frs @ rest), left rank L n k (FSched # rest)) \<in> left_rel rank"
proof -
  note I = sched_invD [OF sinv]
  have st: "stack_inv V n (k_prio_stack k) (actives rest)" using I(2) by simp
  have sub: "ready_bits k \<subseteq> {..<n}" using I(4) by (simp add: bits_inv_def)
  show ?thesis
  proof (cases rule: try_preempt_ok [OF I(1) st sub, case_names none token])
    case none
    then show ?thesis using step by (intro left_move [OF fin, where fr' = FIdle]) auto
  next
    case (token p ps)
    then have s: "frs = [FLoop p]" "k' = k\<lparr>k_prio_stack := ps\<rparr>"
      using step by (auto split: if_splits)
    have "queue L k p \<noteq> []" by (rule started_has_work [OF I(4) token(2,5)])
    then show ?thesis using s by (intro left_move [OF fin slots_cong]) auto
  qed
qed

lemma left_step:
  fixes k :: "('f, 'o, 'q, 's, 'g) kernel"
  assumes sinv: "sched_inv V L n k (fr # rest)" and inv: "task_inv L n k (fr # rest)"
    and step: "step_frame V L fpoll fr k = Inr (frs, k')" and fin: "finite (live (slots k))"
    and pay: "frame_pays rank fr b" and busy: "fr \<noteq> FIdle"
    and fut: "\<And>t f. \<exists>b<rank t f. prog_pays rank t (fpoll t f) b"
  shows "(left rank L n k' (frs @ rest), left rank L n k (fr # rest)) \<in> left_rel rank"
proof -
  note I = sched_invD [OF sinv]
  show ?thesis
  proof (cases fr)
    case (FIrq kind ops st)
    show ?thesis
    proof (cases "kind = KHook \<and> ops = [] \<and> st = None")
      case True
      then show ?thesis using step FIrq by (intro left_move [OF fin, where fr' = FClear]) auto
    qed (use left_irq [OF _ fin] step pay FIrq in auto)
  next
    case FClear
    then show ?thesis using step
      by (intro left_move [OF fin slots_cong, where fr' = FSched]) (auto simp: clear_pend_wired [OF I(1)] split: if_splits)
  next
    case FSched
    then show ?thesis using left_preempt [OF _ fin] sinv step by simp
  next
    case (FLoop e)
    then have "e < n" using I(2) by (simp add: stack_inv_def)
    then show ?thesis using left_loop [OF I(1) _ fin] step FLoop by simp
  next
    case (FGot e t)
    then obtain pf where pf: "ti_poll_fn (k_tasks k t) = Some pf" using step by (auto split: option.splits)
    show ?thesis
    proof (cases pf)
      case PollExited
      then show ?thesis using FGot step pf by (intro left_move [OF fin, where fr' = "FLoop e"]) auto
    next
      case PollStorage
      then obtain f where f: "ts_f (k_tasks k t) = Init f" using FGot step pf by (cases "ts_f (k_tasks k t)") auto
      obtain b' where "b' < rank t f" "prog_pays rank t (fpoll t f) b'" using fut by blast
      from left_got [where rank = rank and p = "fpoll t f", OF inv [unfolded FGot] fin f this] show ?thesis using f PollStorage pf step FGot by auto
    qed
  next
    case (FPoll e t st p)
    then show ?thesis using left_poll [OF _ fin] step pay by simp
  next
    case (FReady e t out)
    then show ?thesis using step
      by (intro left_next [OF fin, where c = Tail and i = 4]) (auto simp: poll_store_result_def)
  next
    case (FNull e t)
    then show ?thesis using step
      by (intro left_next [OF fin, where c = Tail and i = 3]) (auto simp: poll_clear_executor_def)
  next
    case (FDrop e t)
    then show ?thesis using step left_drop [OF fin] by (auto simp: rbind_Inr_iff)
  next
    case (FDespawn e t)
    then have "poll_despawn L t k = Inr k'" "frs = [FLoop e]" using step by (auto simp: rbind_Inr_iff)
    moreover have "slots k' = slots k"
      using calculation(1) by (auto simp: poll_despawn_def waker_wake_def Let_def dest!: slots_wake split: option.splits)
    ultimately show ?thesis using FDespawn by (intro left_next [OF fin, where c = Tail and i = 1]) auto
  next
    case (FRunEnd e)
    then show ?thesis using step by (intro left_move [OF fin, where fr' = "FComplete e"]) auto
  next
    case (FComplete e)
    then show ?thesis using step
      by (intro left_move [OF fin slots_cong, where fr' = FSched]) (auto simp: complete_executor_def)
  qed (use busy in simp)
qed

lemma funded_step:
  assumes step: "step_frame V L fpoll fr k = Inr (frs, k')" and pay: "frame_pays rank fr b"
    and fut: "\<And>t f. \<exists>b<rank t f. prog_pays rank t (fpoll t f) b"
  shows "funded rank frs"
proof (cases fr)
  case (FIrq kind ops st)
  then show ?thesis using step pay
    by (cases "(V, L, kind, ops, st, k)" rule: step_irq.cases)
      (fastforce simp: funded_def rbind_Inr_iff elim!: ops_pay_cases intro: payableI)+
next
  case (FPoll e t st p)
  then show ?thesis using step pay
    by (cases "(V, L, e, t, st, p, k)" rule: step_poll.cases)
      (fastforce simp: funded_def rbind_Inr_iff elim!: prog_pays_cases intro: payableI split: prod.splits option.splits)+
next
  case (FGot e t)
  have "payable rank (FPoll e t None (fpoll t f))" for f using fut [of t f] by (auto intro: payableI)
  then show ?thesis using step FGot
    by (auto simp: funded_def rbind_Inr_iff split: option.splits poll_fn.splits)
next
  case FSched
  show ?thesis by (rule sched_step [OF step [unfolded FSched]]) (simp_all add: funded_def)
qed (use step in \<open>auto simp: funded_def rbind_Inr_iff split: if_splits option.splits\<close>)

lemma left_take:
  fixes k :: "('f, 'o, 'q, 's, 'g) kernel"
  assumes fin: "finite (live (slots k))" and "frame_mie fr" "k_msip k"
  shows "(left rank L n k (FIrq KHook [] None # fr # rest), left rank L n k (fr # rest)) \<in> left_rel rank"
proof (rule left_sched)
  have "\<not> is_hook fr" using assms(2) by (cases fr) auto
  then show "sched_left L k (FIrq KHook [] None # fr # rest) < sched_left L k (fr # rest)"
    using assms(3) by (simp add: sched_left_def)
qed (simp_all add: polls_left_def)

end

end
