(* ===== verification/Quiescence.thy ===== *)
theory Quiescence
  imports WorkLeft
begin

text \<open>
  The system comes to rest.  If every future completes after finitely many polls and spawns a
  bounded amount of further work, then without further interrupts from outside the machine reaches
  the idle loop, with nothing queued and no reschedule pending, in whatever order the pending bit
  of the scheduler and the running code are served.
\<close>

section \<open>Runs that end\<close>

text \<open>Whatever steps are made, a state with the property is reached, and none gets stuck before.\<close>

inductive inevitable :: "('m \<Rightarrow> 'm \<Rightarrow> bool) \<Rightarrow> ('m \<Rightarrow> bool) \<Rightarrow> 'm \<Rightarrow> bool"
  for R :: "'m \<Rightarrow> 'm \<Rightarrow> bool" and P :: "'m \<Rightarrow> bool" where
  inevitable_now: "P m \<Longrightarrow> inevitable R P m"
| inevitable_next: "R m m' \<Longrightarrow> (\<And>m'. R m m' \<Longrightarrow> inevitable R P m') \<Longrightarrow> inevitable R P m"

text \<open>A step without an interrupt from outside: the idle loop waits for one, so it makes none.\<close>

definition quiet_step ::
  "(priority, 's) vec_api \<Rightarrow> (tid, 'q) list_api \<Rightarrow> (tid \<Rightarrow> 'f \<Rightarrow> ('f, 'o, 'g) prog) \<Rightarrow>
   ('f, 'o, 'q, 's, 'g) machine \<Rightarrow> ('f, 'o, 'q, 's, 'g) machine \<Rightarrow> bool" where
  "quiet_step V L fpoll m m' \<longleftrightarrow>
     (case m_stack m of FIdle # rest \<Rightarrow> False | _ \<Rightarrow> exec V L fpoll Step m = Some (Inr m'))
   \<or> exec V L fpoll (TakeMsi []) m = Some (Inr m')"

lemma quiet_cases:
  assumes "quiet_step V L fpoll m m'" "m_stack m = fr # rest"
  obtains (step) frs where "fr \<noteq> FIdle" "step_frame V L fpoll fr (m_kernel m) = Inr (frs, m_kernel m')"
      "m_stack m' = frs @ rest"
  | (take) "frame_mie fr" "k_msip (m_kernel m)" "m' = m\<lparr>m_stack := FIrq KHook [] None # fr # rest\<rparr>"
proof -
  have "fr \<noteq> FIdle \<and> exec V L fpoll Step m = Some (Inr m') \<or> exec V L fpoll (TakeMsi []) m = Some (Inr m')"
    using assms by (cases fr) (simp_all add: quiet_step_def del: exec.simps)
  then show ?thesis
  proof (elim disjE conjE)
    assume "fr \<noteq> FIdle" "exec V L fpoll Step m = Some (Inr m')"
    then show ?thesis using assms(2) step by (cases "step_frame V L fpoll fr (m_kernel m)") auto
  qed (use assms(2) take in \<open>auto split: if_splits\<close>)
qed

definition resting :: "nat \<Rightarrow> (tid, 'q) list_api \<Rightarrow> ('f, 'o, 'q, 's, 'g) machine \<Rightarrow> bool" where
  "resting n L m \<longleftrightarrow> m_stack m = [FIdle] \<and> \<not> k_msip (m_kernel m) \<and> (\<forall>p<n. queue L (m_kernel m) p = [])"

section \<open>Every quiet step uses up work\<close>

context runtime
begin

lemma quiet_left:
  fixes m m' :: "('f, 'o, 'q, 's, 'g) machine"
  assumes m: "reachable_disciplined V L fpoll n m" and pay: "funded rank (m_stack m)"
    and fut: "\<And>t f. \<exists>b<rank t f. prog_pays rank t (fpoll t f) b" and q: "quiet_step V L fpoll m m'"
  shows "(left rank L n (m_kernel m') (m_stack m'), left rank L n (m_kernel m) (m_stack m)) \<in> left_rel rank
    \<and> funded rank (m_stack m')"
proof -
  note r = reachable_disciplined_reachable [OF m]
  note fin = finite_slots [OF r]
  obtain fr rest where stk: "m_stack m = fr # rest" using q by (cases "m_stack m") (simp_all add: quiet_step_def)
  obtain b where b: "frame_pays rank fr b" using pay stk by (auto simp: funded_def payable_def)
  show ?thesis
    using q stk
  proof (cases rule: quiet_cases)
    case (step frs)
    then show ?thesis
      using left_step [OF _ _ step(2) fin b step(1) fut] funded_step [OF step(2) b fut] pay stk
        reachable_inv [OF r] disciplined_inv [OF m] by (auto simp: funded_def)
  next
    case take
    then show ?thesis using left_take [OF fin] pay stk by (auto simp: funded_def intro: payableI pay_nil)
  qed
qed

end

section \<open>Rest\<close>

text \<open>The idle loop is the bottom of the stack, once \<open>main\<close> has returned.\<close>

fun is_base :: "('f, 'o, 'g) frame \<Rightarrow> bool" where
  "is_base FIdle = True"
| "is_base (FIrq KBoot ops st) = True"
| "is_base fr = False"

definition based :: "('f, 'o, 'g) frame list \<Rightarrow> bool" where
  "based stk \<longleftrightarrow> (\<exists>frs fr. stk = frs @ [fr] \<and> is_base fr \<and> list_all (\<lambda>x. \<not> is_base x) frs)"

lemma step_frame_base:
  assumes "step_frame V L fpoll fr k = Inr (frs, k')"
  shows "if is_base fr then \<exists>fr'. frs = [fr'] \<and> is_base fr' else list_all (\<lambda>x. \<not> is_base x) frs"
proof (cases fr)
  case (FIrq kind ops st)
  then show ?thesis using assms
    by (cases "(V, L, kind, ops, st, k)" rule: step_irq.cases; cases kind) (auto simp: rbind_Inr_iff)
next
  case (FPoll e t st p)
  then show ?thesis using assms
    by (cases "(V, L, e, t, st, p, k)" rule: step_poll.cases) (auto simp: rbind_Inr_iff split: prod.splits option.splits)
next
  case FSched
  show ?thesis by (rule sched_step [OF assms [unfolded FSched]]) (simp_all add: FSched)
qed (use assms in \<open>auto simp: rbind_Inr_iff split: option.splits poll_fn.splits if_splits\<close>)

lemma based_replace:
  assumes "based (fr # rest)"
    and "if is_base fr then \<exists>fr'. frs = [fr'] \<and> is_base fr' else list_all (\<lambda>x. \<not> is_base x) frs"
  shows "based (frs @ rest)"
proof -
  obtain xs b where b: "fr # rest = xs @ [b]" "is_base b" "list_all (\<lambda>x. \<not> is_base x) xs"
    using assms(1) by (auto simp: based_def)
  show ?thesis
  proof (cases xs)
    case Nil
    then show ?thesis using b assms(2) by (auto simp: based_def)
  next
    case (Cons x ys)
    then have "frs @ rest = (frs @ ys) @ [b]" "list_all (\<lambda>x. \<not> is_base x) (frs @ ys)"
      using b assms(2) by auto
    then show ?thesis using b(2) unfolding based_def by blast
  qed
qed

lemma based_push: "based stk \<Longrightarrow> \<not> is_base fr \<Longrightarrow> based (fr # stk)"
  unfolding based_def by (metis append_Cons list.pred_inject(2))

lemma reachable_based: "reachable V L fpoll n m \<Longrightarrow> based (m_stack m)"
proof (induction rule: reachable.induct)
  case (reach_boot g ops m)
  then have "m_stack m = [FIrq KBoot ops None]" by (auto simp: boot_machine_def rbind_Inr_iff)
  then show ?case by (simp add: based_def)
next
  case (reach_step m ev m')
  show ?case
  proof (cases ev)
    case Step
    then obtain fr rest where stk: "m_stack m = fr # rest" using reach_step.hyps(2) by (cases "m_stack m") auto
    then obtain frs where "step_frame V L fpoll fr (m_kernel m) = Inr (frs, m_kernel m')" "m_stack m' = frs @ rest"
      using reach_step.hyps(2) Step by (cases "step_frame V L fpoll fr (m_kernel m)") auto
    then show ?thesis using based_replace reach_step.IH stk step_frame_base by metis
  qed (use reach_step in \<open>auto split: list.splits if_splits intro!: based_push\<close>)
qed

lemma rest_or_step:
  assumes rt: "bounded_vec V n" "intrusive_list L" and m: "reachable_disciplined V L fpoll n m" "disciplined n m"
  shows "resting n L m \<or> (\<exists>m'. quiet_step V L fpoll m m')"
proof -
  note r = reachable_disciplined_reachable [OF m(1)]
  obtain fr rest where stk: "m_stack m = fr # rest"
    using reachable_based [OF r] by (cases "m_stack m") (auto simp: based_def)
  show ?thesis
  proof (cases "fr = FIdle")
    case False
    obtain m' where "exec V L fpoll Step m = Some (Inr m')"
      using runtime.next_step [OF runtime.intro [OF rt] m stk] by metis
    then have "quiet_step V L fpoll m m'"
      using False stk by (cases fr) (simp_all add: quiet_step_def del: exec.simps)
    then show ?thesis by blast
  next
    case True
    then have idle: "m_stack m = [FIdle]"
      using reachable_based [OF r] stk by (auto simp: based_def Cons_eq_append_conv)
    show ?thesis
    proof (cases "k_msip (m_kernel m)")
      case True
      then show ?thesis using idle by (auto simp: quiet_step_def)
    next
      case False
      then show ?thesis using idle_means_no_work [OF rt r idle] idle by (simp add: resting_def)
    qed
  qed
qed

lemma quiet_disciplined:
  assumes "reachable_disciplined V L fpoll n m" "disciplined n m" "quiet_step V L fpoll m m'"
  shows "reachable_disciplined V L fpoll n m'"
proof -
  obtain ev where "exec V L fpoll ev m = Some (Inr m')"
    using assms(3) by (auto simp: quiet_step_def split: list.splits frame.splits simp del: exec.simps)
  then show ?thesis by (rule disciplined_step [OF assms(1,2)])
qed

text \<open>Systems in which nothing is spawned any more are disciplined throughout.\<close>

fun frame_still :: "('f, 'o, 'g) frame \<Rightarrow> bool" where
  "frame_still (FPoll e t st p) = spawns_ok (\<lambda>t prio. False) p"
| "frame_still (FIrq kind ops st) = (case ops of [] \<Rightarrow> True | _ \<Rightarrow> False)"
| "frame_still fr = True"

lemma still_step:
  assumes step: "step_frame V L fpoll fr k = Inr (frs, k')" and "frame_still fr"
    and fut: "\<And>t f. spawns_ok (\<lambda>t prio. False) (fpoll t f)"
  shows "list_all frame_still frs"
proof (cases fr)
  case (FIrq kind ops st)
  then show ?thesis using assms
    by (cases "(V, L, kind, ops, st, k)" rule: step_irq.cases) (auto simp: rbind_Inr_iff)
next
  case (FPoll e t st p)
  then show ?thesis using assms
    by (cases "(V, L, e, t, st, p, k)" rule: step_poll.cases) (auto simp: rbind_Inr_iff split: prod.splits option.splits)
next
  case FSched
  show ?thesis by (rule sched_step [OF step [unfolded FSched]]) simp_all
qed (use assms in \<open>auto simp: rbind_Inr_iff split: option.splits poll_fn.splits if_splits\<close>)

lemma still_quiet:
  assumes "quiet_step V L fpoll m m'" "list_all frame_still (m_stack m)"
    and fut: "\<And>t f. spawns_ok (\<lambda>t prio. False) (fpoll t f)"
  shows "list_all frame_still (m_stack m')"
proof -
  obtain fr rest where stk: "m_stack m = fr # rest" using assms(1) by (cases "m_stack m") (simp_all add: quiet_step_def)
  show ?thesis
    using assms(1) stk
  proof (cases rule: quiet_cases)
    case (step frs)
    then show ?thesis using still_step [OF step(2) _ fut] assms(2) stk by simp
  qed (use assms(2) stk in simp)
qed

lemma still_disciplined: "list_all frame_still (m_stack m) \<Longrightarrow> disciplined n m"
proof (cases "m_stack m")
  case (Cons fr rest)
  assume "list_all frame_still (m_stack m)"
  then have "spawn_target fr = None" using Cons by (cases fr rule: spawn_target.cases) auto
  then show ?thesis using Cons by (simp add: disciplined_def)
qed (simp add: disciplined_def)

lemma still_always_disciplined:
  assumes "(quiet_step V L fpoll)\<^sup>*\<^sup>* m m'" "list_all frame_still (m_stack m)"
    and fut: "\<And>t f. spawns_ok (\<lambda>t prio. False) (fpoll t f)"
  shows "disciplined n m'"
proof -
  have "list_all frame_still (m_stack m')"
    using assms(1,2) by (induction rule: rtranclp_induct) (auto intro: still_quiet [OF _ _ fut])
  then show ?thesis by (rule still_disciplined)
qed

text \<open>Two tasks of different priorities that wake each other and themselves.\<close>

definition ping_pong :: "tid \<Rightarrow> nat \<Rightarrow> (nat, nat, unit) prog" where
  "ping_pong t f = (if f = 0 then Ready 7 else Wake (1 - t) (Wake t (Pending (f - 1))))"

lemma ping_pong_starts:
  "run_ends (\<lambda>m. (case m_stack m of [FIdle] \<Rightarrow> True | _ \<Rightarrow> False) \<and> queue list_list (m_kernel m) 1 = [0]
     \<and> queue list_list (m_kernel m) 0 = [1])
   (checked_run ping_pong 2 () [IsrSpawn 0 3 (Priority 1), IsrSpawn 1 4 (Priority 0)] (replicate 9 Step))"
  by code_simp

section \<open>Polls under way\<close>

text \<open>
  If every future is funded, then so is all that the stack of a reachable state has left of their
  polls.  What remains to be said of a state is that its handlers are.
\<close>

definition paid_unless_irq :: "(tid \<Rightarrow> 'f \<Rightarrow> nat) \<Rightarrow> ('f, 'o, 'g) frame \<Rightarrow> bool" where
  "paid_unless_irq rank fr \<longleftrightarrow> (case fr of FIrq kind ops st \<Rightarrow> True | _ \<Rightarrow> payable rank fr)"

lemma paid_unless_irq_simps [simp]:
  "paid_unless_irq rank (FIrq kind ops st)" "paid_unless_irq rank FIdle" "paid_unless_irq rank FClear"
  "paid_unless_irq rank (FPoll e t st p) = payable rank (FPoll e t st p)"
  by (simp_all add: paid_unless_irq_def)

lemma payable_paid: "payable rank fr \<Longrightarrow> paid_unless_irq rank fr"
  by (cases fr) (simp_all add: paid_unless_irq_def)

context runtime
begin

lemma step_frame_paid:
  assumes step: "step_frame V L fpoll fr k = Inr (frs, k')" and paid: "paid_unless_irq rank fr"
    and fut: "\<And>t f. \<exists>b<rank t f. prog_pays rank t (fpoll t f) b"
  shows "list_all (paid_unless_irq rank) frs"
proof (cases "payable rank fr")
  case True
  then obtain b where "frame_pays rank fr b" by (auto simp: payable_def)
  from funded_step [OF step this fut] show ?thesis by (auto simp: funded_def list_all_iff intro: payable_paid)
next
  case False
  then obtain kind ops st where "fr = FIrq kind ops st" using paid by (cases fr) (auto simp: paid_unless_irq_def)
  then show ?thesis using step
    by (cases "(V, L, kind, ops, st, k)" rule: step_irq.cases) (auto simp: rbind_Inr_iff)
qed

lemma reachable_paid:
  assumes "reachable V L fpoll n m" and fut: "\<And>t f. \<exists>b<rank t f. prog_pays rank t (fpoll t f) b"
  shows "list_all (paid_unless_irq rank) (m_stack m)"
  using assms(1)
proof (induction rule: reachable.induct)
  case (reach_boot g ops m)
  then show ?case by (auto simp: boot_machine_def rbind_Inr_iff)
next
  case (reach_step m ev m')
  show ?case
  proof (cases ev)
    case Step
    then show ?thesis using reach_step.hyps(2) reach_step.IH step_frame_paid [OF _ _ fut]
      by (auto simp: rbind_Inr_iff split: list.splits)
  qed (use reach_step in \<open>auto split: list.splits if_splits\<close>)
qed

lemma handlers_funded:
  assumes "reachable V L fpoll n m" and fut: "\<And>t f. \<exists>b<rank t f. prog_pays rank t (fpoll t f) b"
    and "\<And>kind ops st. FIrq kind ops st \<in> set (m_stack m) \<Longrightarrow> \<exists>b. ops_pay rank ops b"
  shows "funded rank (m_stack m)"
proof -
  have "payable rank fr" if "fr \<in> set (m_stack m)" for fr
    using reachable_paid [OF assms(1) fut] assms(3) that
    by (cases fr) (auto simp: list_all_iff paid_unless_irq_def payable_def)
  then show ?thesis by (simp add: funded_def list_all_iff)
qed

end

text \<open>
  C5. The system comes to rest.  Assume a measure of futures such that the poll of a future, on every
  result of its calls, spawns and leaves pending no more than what ranks below the future itself (so
  every future completes after finitely many polls, and spawns finitely many others).  Assume a
  reachable, disciplined state, with any polls under way, and with handlers under way that spawn
  a bounded amount of work each; and that no spawn made from then on is out of range or breaks the
  discipline (every state that follows from it without an interrupt from outside is disciplined).
  Then, in whatever order the running code and the scheduler's interrupt are served, with a hook of
  the user's in that interrupt that makes no calls, and with no other interrupt, the machine reaches the idle loop with every run queue empty and no reschedule
  pending: no panic, no livelock between tasks that wake each other, no endless rescheduling, and no
  work that is left behind.
\<close>

theorem system_comes_to_rest:
  assumes rt: "bounded_vec V n" "intrusive_list L"
    and m: "reachable_disciplined V L fpoll n m"
    and irqs: "\<And>kind ops st. FIrq kind ops st \<in> set (m_stack m) \<Longrightarrow> \<exists>b. ops_pay rank ops b"
    and fut: "\<And>t f. \<exists>b<rank t f. prog_pays rank t (fpoll t f) b"
    and spawns: "\<And>m'. (quiet_step V L fpoll)\<^sup>*\<^sup>* m m' \<Longrightarrow> disciplined n m'"
  shows "inevitable (quiet_step V L fpoll) (resting n L) m"
proof -
  let ?left = "\<lambda>m. left rank L n (m_kernel m) (m_stack m)"
  have "reachable_disciplined V L fpoll n m \<Longrightarrow> funded rank (m_stack m) \<Longrightarrow>
      (\<And>m'. (quiet_step V L fpoll)\<^sup>*\<^sup>* m m' \<Longrightarrow> disciplined n m') \<Longrightarrow>
      inevitable (quiet_step V L fpoll) (resting n L) m"
  proof (induction m rule: wf_induct_rule [OF wf_inv_image [OF wf_left_rel [of rank], of ?left]])
    case (1 m)
    note q = runtime.quiet_left [OF runtime.intro [OF rt] 1(2,3) fut]
    have d: "disciplined n m" using 1(4) by blast
    have next_ok: "inevitable (quiet_step V L fpoll) (resting n L) m'" if "quiet_step V L fpoll m m'" for m'
      using q [OF that] quiet_disciplined [OF 1(2) d that] 1(4) that
      by (intro 1(1)) (auto simp: in_inv_image intro: converse_rtranclp_into_rtranclp)
    show ?case
      using rest_or_step [OF rt 1(2) d] next_ok by (auto intro: inevitable.intros)
  qed
  moreover have "funded rank (m_stack m)"
    by (rule runtime.handlers_funded [OF runtime.intro [OF rt] reachable_disciplined_reachable [OF m] fut]) (rule irqs)
  ultimately show ?thesis using m spawns by blast
qed

theorem system_comes_to_rest_witness:
  "\<exists>m. reachable_disciplined (list_vec 2) list_list ping_pong 2 m \<and> queue list_list (m_kernel m) 1 = [0]
     \<and> queue list_list (m_kernel m) 0 = [1]
     \<and> inevitable (quiet_step (list_vec 2) list_list ping_pong) (resting 2 list_list) m"
proof -
  obtain m where m: "m_stack m = [FIdle]" "queue list_list (m_kernel m) 1 = [0]" "queue list_list (m_kernel m) 0 = [1]"
      "reachable_disciplined (list_vec 2) list_list ping_pong 2 m"
    by (rule checked_run_obtain [OF ping_pong_starts]) (auto split: list.splits frame.splits)
  have pays: "\<exists>b<Suc f. prog_pays (\<lambda>t f. Suc f) t (ping_pong t f) b" for t f
    by (intro exI [of _ f]) (auto simp: ping_pong_def intro!: pays_ready pays_wake pays_pending)
  have still: "spawns_ok (\<lambda>t prio. False) (ping_pong t f)" for t f
    by (simp add: ping_pong_def)
  have stk: "FIrq kind ops st \<in> set (m_stack m) \<Longrightarrow> \<exists>b. ops_pay (\<lambda>t f. Suc f) ops b" "list_all frame_still (m_stack m)"
    for kind ops st unfolding m(1) by simp_all
  have "inevitable (quiet_step (list_vec 2) list_list ping_pong) (resting 2 list_list) m"
    by (rule system_comes_to_rest [OF list_vec_bounded list_list_intrusive m(4) stk(1) pays
          still_always_disciplined [OF _ stk(2) still]])
  then show ?thesis using m by blast
qed

end
