(* ===== verification/DemoHandlers.thy ===== *)
theory DemoHandlers
  imports DemoApps TimerTasks
begin

text \<open>
  The demonstrations that write their \<open>MachineSoft\<close> by hand (\<open>async_fn.rs\<close>,
  \<open>preempt_test.rs\<close> and \<open>manual_future.rs\<close> of \<open>apps/demo/src/bin\<close>).  Unlike the generated handler they
  do not look at the marker: two call \<open>clear_pend\<close> and ignore what it returns, the third writes the
  register of the interrupt itself and never resets the marker.  What follows is the loop of the
  generated handler.  The invariant of the scheduler holds with any of them.  Last, the demonstration
  of the timer.
\<close>

section \<open>Handlers written by hand\<close>

text \<open>
  What a handler does before its loop, which is the activation \<open>FSched\<close>: \<open>while let Some(rt) =
  try_preempt()\<close>, with interrupts enabled around \<open>run\<close> and disabled around \<open>complete_executor\<close>.
\<close>

type_synonym ('f, 'o, 'q, 's, 'g) soft_handler =
  "('f, 'o, 'q, 's, 'g) kernel \<Rightarrow> (('f, 'o, 'g) frame list \<times> ('f, 'o, 'q, 's, 'g) kernel) result"

definition async_fn_soft :: "('f, 'o, 'q, 's, 'g) soft_handler" where
  "async_fn_soft k = rbind (clear_pend k) (\<lambda>(is_system, k'). Inr ([FSched], k'))"

definition preempt_test_soft :: "('f, 'o, 'q, 's, 'g) soft_handler" where
  "preempt_test_soft k = rbind (clear_pend k) (\<lambda>(is_system, k'). Inr ([FSched], k'))"

definition manual_future_soft :: "('f, 'o, 'q, 's, 'g) soft_handler" where
  "manual_future_soft k = Inr ([FSched], k\<lparr>k_msip := False\<rparr>)"

text \<open>The machine with such a handler in the place of the generated one.\<close>

fun hand_exec ::
  "('f, 'o, 'q, 's, 'g) soft_handler \<Rightarrow> (priority, 's) vec_api \<Rightarrow> (tid, 'q) list_api \<Rightarrow>
   (tid \<Rightarrow> 'f \<Rightarrow> ('f, 'o, 'g) prog) \<Rightarrow> ('f, 'g) event \<Rightarrow>
   ('f, 'o, 'q, 's, 'g) machine \<Rightarrow> ('f, 'o, 'q, 's, 'g) machine result option" where
  "hand_exec soft V L fpoll Step m =
     (case m_stack m of
        FClear # rest \<Rightarrow> Some (rbind (soft (m_kernel m)) (\<lambda>(frs, k'). Inr \<lparr>m_kernel = k', m_stack = frs @ rest\<rparr>))
      | _ \<Rightarrow> exec V L fpoll Step m)"
| "hand_exec soft V L fpoll (TakeMsi ops) m =
     (case m_stack m of
        [] \<Rightarrow> None
      | fr # rest \<Rightarrow> if frame_mie fr \<and> k_msip (m_kernel m)
          then Some (Inr (m\<lparr>m_stack := FClear # fr # rest\<rparr>)) else None)"
| "hand_exec soft V L fpoll ev m = exec V L fpoll ev m"

inductive hand_reachable ::
  "('f, 'o, 'q, 's, 'g) soft_handler \<Rightarrow> (priority, 's) vec_api \<Rightarrow> (tid, 'q) list_api \<Rightarrow>
   (tid \<Rightarrow> 'f \<Rightarrow> ('f, 'o, 'g) prog) \<Rightarrow> nat \<Rightarrow> ('f, 'o, 'q, 's, 'g) machine \<Rightarrow> bool"
  for soft :: "('f, 'o, 'q, 's, 'g) soft_handler" and V :: "(priority, 's) vec_api" and L :: "(tid, 'q) list_api"
    and fpoll :: "tid \<Rightarrow> 'f \<Rightarrow> ('f, 'o, 'g) prog" and n :: nat where
  hand_boot: "boot_machine V L (ClintMsip True) n g ops = Inr m \<Longrightarrow> hand_reachable soft V L fpoll n m"
| hand_step: "hand_reachable soft V L fpoll n m \<Longrightarrow> hand_exec soft V L fpoll ev m = Some (Inr m') \<Longrightarrow>
    hand_reachable soft V L fpoll n m'"

section \<open>The scheduler's invariant holds with them\<close>

text \<open>A handler may do to the pending bits what it likes, as long as it goes on to the loop.\<close>

definition soft_ok :: "('f, 'o, 'q, 's, 'g) soft_handler \<Rightarrow> bool" where
  "soft_ok soft \<longleftrightarrow> (\<forall>k frs k'. soft k = Inr (frs, k') \<longrightarrow>
     frs = [FSched] \<and> (\<exists>a b. k' = k\<lparr>k_pend_marker := a, k_msip := b\<rparr>))"

lemma clear_pend_bits:
  "clear_pend k = Inr (sys, k') \<Longrightarrow> \<exists>a b. k' = k\<lparr>k_pend_marker := a, k_msip := b\<rparr>"
  by (cases k) (auto simp: clear_pend_def ipi_clear_def Let_def split: option.splits ipi_dev.splits if_splits)

lemma clear_msip_bits: "k\<lparr>k_msip := False\<rparr> = k\<lparr>k_pend_marker := k_pend_marker k, k_msip := False\<rparr>"
  by (cases k) simp

lemma hand_soft_ok: "soft_ok async_fn_soft" "soft_ok preempt_test_soft" "soft_ok manual_future_soft"
  by (auto simp: soft_ok_def async_fn_soft_def preempt_test_soft_def manual_future_soft_def rbind_Inr_iff
    dest: clear_pend_bits intro: clear_msip_bits)

context runtime
begin

lemma sched_inv_soft:
  assumes inv: "sched_inv V L n k (FClear # rest)"
  shows "sched_inv V L n (k\<lparr>k_pend_marker := a, k_msip := b\<rparr>) (FSched # rest)"
  using sched_invD [OF inv] unfolding sched_inv_def pend_inv_def
  by (auto simp: queue_inv_def bits_inv_def ptr_inv_def looping_Cons loops_def attended_def)

lemma sched_inv_clear:
  assumes inv: "sched_inv V L n k (fr # rest)" and "frame_mie fr"
  shows "sched_inv V L n k (FClear # fr # rest)"
proof -
  have "sched_inv V L n k (FIrq KHook [] None # fr # rest)" by (rule sched_inv_interrupt [OF assms])
  from step_frame_inv [OF this, of fpoll "[FClear]" k for fpoll] show ?thesis by simp
qed

lemma hand_inv:
  assumes "soft_ok soft"
  shows "hand_reachable soft V L fpoll n m \<Longrightarrow> sched_inv V L n (m_kernel m) (m_stack m)"
proof (induction rule: hand_reachable.induct)
  case (hand_step m ev m')
  have old: ?case if "exec V L fpoll ev m = Some (Inr m')" by (rule exec_inv [OF hand_step.IH that])
  show ?case
  proof (cases ev)
    case Step
    show ?thesis
    proof (cases "\<exists>rest. m_stack m = FClear # rest")
      case True
      then obtain rest where "m_stack m = FClear # rest" by blast
      then obtain a b where "m_kernel m' = (m_kernel m)\<lparr>k_pend_marker := a, k_msip := b\<rparr>" "m_stack m' = FSched # rest"
        using hand_step.hyps(2) Step assms by (fastforce simp: rbind_Inr_iff soft_ok_def)
      then show ?thesis using sched_inv_soft hand_step.IH \<open>m_stack m = FClear # rest\<close> by simp
    next
      case False
      then show ?thesis using hand_step.hyps(2) Step by (intro old) (auto split: list.splits frame.splits simp del: exec.simps)
    qed
  next
    case (TakeMsi ops)
    then show ?thesis using hand_step by (auto split: list.splits if_splits intro: sched_inv_clear)
  qed (use hand_step.hyps(2) old in simp_all)
qed (fact boot_inv)

end

text \<open>
  With any of the three handlers, too, an executor that runs with interrupts enabled, and with no
  interrupt of the scheduler pending, outranks or equals every executor that has work.
\<close>

lemma hand_highest_priority_runs:
  assumes "bounded_vec V n" "intrusive_list L" "hand_reachable soft V L fpoll n m" "soft_ok soft"
    and "m_stack m = fr # rest" "active fr = Some e" "frame_mie fr" "frame_stage fr = None"
    and "\<not> k_msip (m_kernel m)" "p < n" "queue L (m_kernel m) p \<noteq> []"
  shows "e \<le> p"
proof (rule ccontr)
  assume "\<not> e \<le> p"
  note I = sched_invD [OF runtime.hand_inv [OF runtime.intro [OF assms(1,2)] assms(4,3)]]
  have "outranks p (current (m_stack m))" using assms(5,6) \<open>\<not> e \<le> p\<close> by (simp add: current_def)
  then have "attended (m_kernel m) (m_stack m)"
    using I(7) queued_ready [OF I(4) assms(10,11)] unfolding pend_inv_def by blast
  then show False using assms(5-9) by (cases fr) (auto simp: attended_def)
qed

section \<open>What the demonstrations log\<close>

fun hand_run ::
  "(nat, nat, tid list, priority list, string list) soft_handler \<Rightarrow> (tid \<Rightarrow> nat \<Rightarrow> demo_prog) \<Rightarrow> nat \<Rightarrow>
   (nat, nat, tid list, priority list, string list) machine \<Rightarrow>
   (nat, nat, tid list, priority list, string list) machine option" where
  "hand_run soft fpoll 0 m = None"
| "hand_run soft fpoll (Suc fuel) m =
     (if idle m \<and> \<not> k_msip (m_kernel m) then Some m
      else case hand_exec soft (list_vec 4) list_list fpoll (take_msi [] m) m of
             Some (Inr m') \<Rightarrow> hand_run soft fpoll fuel m'
           | _ \<Rightarrow> None)"

definition hand_demo ::
  "(nat, nat, tid list, priority list, string list) soft_handler \<Rightarrow> (tid \<Rightarrow> nat \<Rightarrow> demo_prog) \<Rightarrow>
   (nat, string list) isr_op list \<Rightarrow> (string list \<times> bool) option" where
  "hand_demo soft fpoll ops =
     (case boot_machine (list_vec 4) list_list (ClintMsip True) 4 [] ops of
        Inl e \<Rightarrow> None
      | Inr m \<Rightarrow> map_option (\<lambda>m. (k_app (m_kernel m), k_pend_marker (m_kernel m))) (hand_run soft fpoll 400 m))"

text \<open>
  The logs are those of the generated handler.  After \<open>manual_future.rs\<close> the marker is still set: an
  interrupt that another hart raises then would be taken for the scheduler's.
\<close>

lemma async_fn_hand:
  "hand_demo async_fn_soft async_fn [IsrSpawn 0 0 (Priority 0), IsrSpawn 1 0 (Priority 1)]
     = Some ([''hello 1'', ''hello 2''], False)"
  by code_simp

lemma manual_future_hand:
  "hand_demo manual_future_soft manual_future [IsrSpawn 0 0 (Priority 0), IsrSpawn 1 0 (Priority 1)]
     = Some ([''CountTask'', ''poll'', ''pending'', ''poll'', ''pending'', ''poll'', ''done''], True)"
  by code_simp

lemma preempt_test_hand:
  "map_option fst (hand_demo preempt_test_soft preempt_test [IsrSpawn 0 0 (Priority 2), IsrSpawn 1 0 (Priority 1)])
     = preempt_test_main"
  unfolding preempt_test_log by code_simp

section \<open>The demonstration of the timer\<close>

text \<open>
  \<open>timer_async.rs\<close>: five delays of a second, each followed by a line of the log; the line is noted
  with its number and the tick.  \<open>MachineTimer\<close> is \<open>handle_timer_isr\<close>.
\<close>

definition tick_task :: "tid \<Rightarrow> nat \<Rightarrow> timer_prog" where
  "tick_task = delay_task 5 1000000000"

definition tick_isr :: "(nat, timer_statics) isr_op" where
  "tick_isr = timer_handler TIMER_QUEUE tm_timer (\<lambda>s g. g\<lparr>tm_timer := s\<rparr>) tm_now"

definition tick_main :: "(nat, timer_statics) isr_op list" where
  "tick_main = [IsrSpawn 0 0 (Priority 0)]"

text \<open>The first second: the task waits in the idle loop with the timer set to ten million ticks.\<close>

lemma tick_waits:
  "ends_in (\<lambda>m. idle m \<and> sys_compare (tm_timer (k_app (m_kernel m))) = 10000000
       \<and> sys_delays (tm_timer (k_app (m_kernel m))) 0
         = Some \<lparr>td_deadline = 10000000, td_registered = True, td_waker = Some 0\<rparr>)
     (plain_run tick_task 4 timer_statics_new tick_main waiting_run)"
  by code_simp

end
