(* ===== verification/DelayProtocol.thy ===== *)
theory DelayProtocol
  imports WakeSlots DemoHandlers
begin

text \<open>
  The tasks of an application that wait for delays, and nothing else, and the interrupt handlers it
  has beside that of the timer: which programs they may be, what a program relies on wherever it may
  be interrupted, and what each access to the timer does to that.  \<open>DelayTokens\<close> carries this over to
  the machine.
\<close>

section \<open>The application\<close>

text \<open>
  The tasks that wait for delays, the task that each address of a delay belongs to, the executor that
  they all run on, and the states in which they may be spawned.
\<close>

record delay_setup =
  ds_tasks :: "tid set"
  ds_home :: "nat \<Rightarrow> tid"
  ds_exec :: nat
  ds_start :: "tid \<Rightarrow> nat \<Rightarrow> bool"

definition may_spawn :: "delay_setup \<Rightarrow> tid \<Rightarrow> nat \<Rightarrow> priority \<Rightarrow> bool" where
  "may_spawn S t f p \<longleftrightarrow> (t \<in> ds_tasks S \<longrightarrow> to_usize p = ds_exec S \<and> ds_start S t f)"

definition same_timer :: "timer_statics \<Rightarrow> timer_statics \<Rightarrow> bool" where
  "same_timer g g' \<longleftrightarrow> tm_timer g' = tm_timer g \<and> tm_now g' = tm_now g"

text \<open>Other tasks keep off the timer, and do not wake a task that waits for a delay.\<close>

primrec quiet_prog :: "delay_setup \<Rightarrow> timer_prog \<Rightarrow> bool" where
  "quiet_prog S (Ready out) = True"
| "quiet_prog S (Pending f) = True"
| "quiet_prog S (Wake w p) = (w \<notin> ds_tasks S \<and> quiet_prog S p)"
| "quiet_prog S (Spawn t f p c) = (may_spawn S t f p \<and> (\<forall>ok. quiet_prog S (c ok)))"
| "quiet_prog S (Join t c) = (\<forall>r. quiet_prog S (c r))"
| "quiet_prog S (Access u c) = (\<forall>g. same_timer g (u g) \<and> quiet_prog S (c g))"

text \<open>
  What a task does between two delays, the next delay included: \<open>after(duration).await\<close>, whose future is
  at an address of the task, with its waker.  It ends by returning, not by suspending itself.
\<close>

inductive runs :: "delay_setup \<Rightarrow> (tid \<Rightarrow> nat \<Rightarrow> timer_prog) \<Rightarrow> tid \<Rightarrow> timer_prog \<Rightarrow> bool"
  for S :: delay_setup and fpoll :: "tid \<Rightarrow> nat \<Rightarrow> timer_prog" and t :: tid where
  runs_ready: "runs S fpoll t (Ready out)"
| runs_wake: "w \<notin> ds_tasks S \<Longrightarrow> runs S fpoll t p \<Longrightarrow> runs S fpoll t (Wake w p)"
| runs_spawn: "may_spawn S t' f p \<Longrightarrow> (\<And>ok. runs S fpoll t (c ok)) \<Longrightarrow> runs S fpoll t (Spawn t' f p c)"
| runs_access: "(\<And>g. same_timer g (u g)) \<Longrightarrow> (\<And>g. runs S fpoll t (c g)) \<Longrightarrow> runs S fpoll t (Access u c)"
| runs_after: "ds_home S a = t \<Longrightarrow> fpoll t pc = do_poll_delay a t pc c \<Longrightarrow> runs S fpoll t c \<Longrightarrow>
    runs S fpoll t (do_after a t duration pc c)"

text \<open>At most sixteen tasks wait for delays, which is the capacity of the queue.\<close>

definition delay_programs :: "delay_setup \<Rightarrow> (tid \<Rightarrow> nat \<Rightarrow> timer_prog) \<Rightarrow> bool" where
  "delay_programs S fpoll \<longleftrightarrow> finite (ds_tasks S) \<and> card (ds_tasks S) \<le> 16
     \<and> (\<forall>t f. t \<notin> ds_tasks S \<longrightarrow> quiet_prog S (fpoll t f))
     \<and> (\<forall>t\<in>ds_tasks S. \<forall>f. ds_start S t f \<longrightarrow> runs S fpoll t (fpoll t f))"

text \<open>
  Handlers: \<open>handle_timer_isr\<close>, at any time, also when nothing is due, and others that keep off the
  timer.  Time may pass in them, as little or as much as it likes.
\<close>

inductive delay_op :: "delay_setup \<Rightarrow> (nat, timer_statics) isr_op \<Rightarrow> bool" for S :: delay_setup where
  op_timer: "delay_op S tick_isr"
| op_wake: "w \<notin> ds_tasks S \<Longrightarrow> delay_op S (IsrWake w)"
| op_spawn: "may_spawn S t f p \<Longrightarrow> delay_op S (IsrSpawn t f p)"
| op_access: "(\<And>g. tm_timer (u g) = tm_timer g \<and> tm_now g \<le> tm_now (u g)) \<Longrightarrow>
    (\<And>g op. op \<in> set (c g) \<Longrightarrow> delay_op S op) \<Longrightarrow> delay_op S (IsrAccess u c)"

section \<open>What a program relies on\<close>

abbreviation entries :: "timer_statics \<Rightarrow> (timer_callback, nat) timer_entry list" where
  "entries g \<equiv> vec_items TIMER_QUEUE (sys_queue (tm_timer g))"

abbreviation delays :: "timer_statics \<Rightarrow> nat \<Rightarrow> delay option" where
  "delays g \<equiv> sys_delays (tm_timer g)"

definition entries_of :: "delay_setup \<Rightarrow> timer_statics \<Rightarrow> tid \<Rightarrow> nat" where
  "entries_of S g t = size {#x \<in># mset (entries g). ds_home S (te_data x) = t#}"

text \<open>
  Every entry belongs to a delay that is alive, with its deadline and the waker of its task.  (It need
  not be marked as registered, as in \<open>linked\<close>: the mark is set last.)
\<close>

definition delays_linked :: "delay_setup \<Rightarrow> timer_statics \<Rightarrow> bool" where
  "delays_linked S g \<longleftrightarrow> distinct (map te_data (entries g))
     \<and> (\<forall>x\<in>set (entries g). ds_home S (te_data x) \<in> ds_tasks S \<and> (\<exists>d. delays g (te_data x) = Some d
          \<and> td_deadline d = te_deadline x \<and> td_waker d = Some (ds_home S (te_data x))))"

text \<open>A task waits on its delay: the entry is queued, or it was due and is gone.\<close>

definition waiting_on :: "delay_setup \<Rightarrow> tid \<Rightarrow> nat \<Rightarrow> delay \<Rightarrow> timer_statics \<Rightarrow> bool" where
  "waiting_on S t a d g \<longleftrightarrow> delays g a = Some d
     \<and> (\<forall>x\<in>set (entries g). ds_home S (te_data x) = t \<longrightarrow> te_data x = a)
     \<and> (a \<in> te_data ` set (entries g) \<or> td_deadline d \<le> tm_now g)"

definition waits_at :: "delay_setup \<Rightarrow> (tid \<Rightarrow> nat \<Rightarrow> timer_prog) \<Rightarrow> tid \<Rightarrow> nat \<Rightarrow> timer_statics \<Rightarrow> bool" where
  "waits_at S fpoll t f g \<longleftrightarrow> (\<exists>a c d. ds_home S a = t \<and> fpoll t f = do_poll_delay a t f c \<and> runs S fpoll t c
     \<and> waiting_on S t a d g \<and> td_registered d)"

text \<open>The accesses of \<open>do_poll_delay\<close> after the first.\<close>

definition drop_step :: "nat \<Rightarrow> timer_prog \<Rightarrow> timer_prog" where
  "drop_step a c = Access (on_timer (\<lambda>s. case delay_drop TIMER_QUEUE a s of Inl e \<Rightarrow> s | Inr s' \<Rightarrow> s'))
     (\<lambda>g. case delay_drop TIMER_QUEUE a (tm_timer g) of Inl e \<Rightarrow> timer_fail | Inr s \<Rightarrow> c)"

definition unmark_step :: "nat \<Rightarrow> delay \<Rightarrow> timer_prog \<Rightarrow> timer_prog" where
  "unmark_step a d c = Access (on_timer (put_delay a (d\<lparr>td_registered := False\<rparr>))) (\<lambda>g. drop_step a c)"

definition mark_step :: "nat \<Rightarrow> delay \<Rightarrow> waker \<Rightarrow> nat \<Rightarrow> timer_prog" where
  "mark_step a d w pc = Access (on_timer (delay_mark a d w)) (\<lambda>g. Pending pc)"

definition arm_step :: "bool \<Rightarrow> nat \<Rightarrow> delay \<Rightarrow> waker \<Rightarrow> nat \<Rightarrow> timer_prog" where
  "arm_step e a d w pc = Access (on_timer (delay_arm e d)) (\<lambda>g. mark_step a d w pc)"

definition schedule_step :: "nat \<Rightarrow> delay \<Rightarrow> waker \<Rightarrow> nat \<Rightarrow> timer_prog" where
  "schedule_step a d w pc = Access
     (on_timer (\<lambda>s. case delay_schedule TIMER_QUEUE a d w s of Inl e \<Rightarrow> s | Inr (b, s') \<Rightarrow> s'))
     (\<lambda>g. case delay_schedule TIMER_QUEUE a d w (tm_timer g) of
        Inl e \<Rightarrow> timer_fail | Inr (is_earliest, s) \<Rightarrow> arm_step is_earliest a d w pc)"

lemma do_poll_delay_steps:
  "do_poll_delay a w pc c = Access id (\<lambda>g. case delays g a of
       None \<Rightarrow> timer_fail
     | Some d \<Rightarrow> if td_deadline d \<le> tm_now g then unmark_step a d c
         else if \<not> td_registered d then schedule_step a d w pc else Pending pc)"
  unfolding do_poll_delay_def unmark_step_def drop_step_def schedule_step_def arm_step_def mark_step_def ..

text \<open>
  Where the poll of such a task stands, and what it relies on there.  The first flag is whether the
  task has not yet handed the duty to continue it to the timer queue, the second whether the compare
  register is still to be programmed.
\<close>

inductive delay_at ::
  "delay_setup \<Rightarrow> (tid \<Rightarrow> nat \<Rightarrow> timer_prog) \<Rightarrow> tid \<Rightarrow> timer_statics \<Rightarrow> timer_prog \<Rightarrow> bool \<Rightarrow> bool \<Rightarrow> bool"
  for S :: delay_setup and fpoll :: "tid \<Rightarrow> nat \<Rightarrow> timer_prog" and t :: tid and g :: timer_statics where
  at_run: "runs S fpoll t p \<Longrightarrow> delay_at S fpoll t g p True False"
| at_poll: "ds_home S a = t \<Longrightarrow> fpoll t pc = do_poll_delay a t pc c \<Longrightarrow> runs S fpoll t c \<Longrightarrow>
    delays g a = Some d \<Longrightarrow> td_registered d \<longrightarrow> td_deadline d \<le> tm_now g \<Longrightarrow>
    delay_at S fpoll t g (do_poll_delay a t pc c) True False"
| at_unmark: "ds_home S a = t \<Longrightarrow> runs S fpoll t c \<Longrightarrow> delay_at S fpoll t g (unmark_step a d c) True False"
| at_drop: "ds_home S a = t \<Longrightarrow> runs S fpoll t c \<Longrightarrow> delays g a = Some d \<Longrightarrow> \<not> td_registered d \<Longrightarrow>
    delay_at S fpoll t g (drop_step a c) True False"
| at_schedule: "ds_home S a = t \<Longrightarrow> fpoll t pc = do_poll_delay a t pc c \<Longrightarrow> runs S fpoll t c \<Longrightarrow>
    delay_at S fpoll t g (schedule_step a d t pc) True False"
| at_arm: "ds_home S a = t \<Longrightarrow> fpoll t pc = do_poll_delay a t pc c \<Longrightarrow> runs S fpoll t c \<Longrightarrow>
    waiting_on S t a (d\<lparr>td_waker := Some t\<rparr>) g \<Longrightarrow> (e \<longrightarrow> (\<forall>x\<in>set (entries g). td_deadline d \<le> te_deadline x)) \<Longrightarrow>
    delay_at S fpoll t g (arm_step e a d t pc) False e"
| at_mark: "ds_home S a = t \<Longrightarrow> fpoll t pc = do_poll_delay a t pc c \<Longrightarrow> runs S fpoll t c \<Longrightarrow>
    waiting_on S t a (d\<lparr>td_waker := Some t\<rparr>) g \<Longrightarrow> delay_at S fpoll t g (mark_step a d t pc) False False"
| at_pending: "waits_at S fpoll t pc g \<Longrightarrow> delay_at S fpoll t g (Pending pc) False False"

lemmas step_defs = do_poll_delay_steps do_after_def unmark_step_def drop_step_def schedule_step_def arm_step_def mark_step_def

inductive_cases runsE: "runs S fpoll t (Ready out)" "runs S fpoll t (Pending f)" "runs S fpoll t (Wake w p)"
  "runs S fpoll t (Spawn t' f p c)" "runs S fpoll t (Join t' c)"

lemma runs_simps:
  "\<not> runs S fpoll t (Pending f)" "\<not> runs S fpoll t (Join t' c')"
  "runs S fpoll t (Wake w p) \<longleftrightarrow> w \<notin> ds_tasks S \<and> runs S fpoll t p"
  "runs S fpoll t (Spawn t' f prio c) \<longleftrightarrow> may_spawn S t' f prio \<and> (\<forall>ok. runs S fpoll t (c ok))"
  by (subst runs.simps; auto simp: do_after_def)+

text \<open>The other calls of such a poll.\<close>

lemma delay_at_simps:
  "delay_at S fpoll t g (Ready out) r ar \<longleftrightarrow> r \<and> \<not> ar"
  "delay_at S fpoll t g (Pending f) r ar \<longleftrightarrow> waits_at S fpoll t f g \<and> \<not> r \<and> \<not> ar"
  "delay_at S fpoll t g (Wake w p) r ar \<longleftrightarrow> r \<and> \<not> ar \<and> w \<notin> ds_tasks S \<and> runs S fpoll t p"
  "delay_at S fpoll t g (Spawn t' f prio c) r ar \<longleftrightarrow>
     r \<and> \<not> ar \<and> may_spawn S t' f prio \<and> (\<forall>ok. runs S fpoll t (c ok))"
  "\<not> delay_at S fpoll t g (Join t' c') r ar"
  by (subst delay_at.simps; auto simp: step_defs runs_simps intro: runs_ready)+

section \<open>Interference\<close>

text \<open>What tasks other than \<open>t\<close>, and handlers, do to what \<open>t\<close> relies on.\<close>

definition others :: "delay_setup \<Rightarrow> tid \<Rightarrow> timer_statics \<Rightarrow> timer_statics \<Rightarrow> bool" where
  "others S t g g' \<longleftrightarrow> tm_now g \<le> tm_now g' \<and> (\<forall>a. ds_home S a = t \<longrightarrow> delays g' a = delays g a)
     \<and> (\<forall>x. ds_home S (te_data x) = t \<longrightarrow> (x \<in> set (entries g') \<longrightarrow> x \<in> set (entries g))
          \<and> (x \<in> set (entries g) \<longrightarrow> x \<in> set (entries g') \<or> te_deadline x \<le> tm_now g'))"

lemma others_same [simp]: "same_timer g g' \<Longrightarrow> others S t g g'"
  by (simp add: others_def same_timer_def)

lemma waiting_on_others:
  assumes w: "waiting_on S t a d g" and a: "ds_home S a = t" and linked: "delays_linked S g" and o: "others S t g g'"
  shows "waiting_on S t a d g'"
proof -
  have d: "delays g a = Some d" using w by (simp add: waiting_on_def)
  have "a \<in> te_data ` set (entries g') \<or> td_deadline d \<le> tm_now g'"
  proof (cases "a \<in> te_data ` set (entries g)")
    case True
    then obtain x where x: "x \<in> set (entries g)" "te_data x = a" by blast
    then have "te_deadline x = td_deadline d" using linked d by (auto simp: delays_linked_def)
    then show ?thesis using o x a unfolding others_def by (metis image_eqI)
  next
    case False
    then show ?thesis using w o by (auto simp: waiting_on_def others_def)
  qed
  then show ?thesis using w o a by (auto simp: waiting_on_def others_def)
qed

lemma waits_at_others:
  "waits_at S fpoll t f g \<Longrightarrow> delays_linked S g \<Longrightarrow> others S t g g' \<Longrightarrow> waits_at S fpoll t f g'"
  unfolding waits_at_def using waiting_on_others by blast

lemma delay_at_others:
  assumes at: "delay_at S fpoll t g p r ar" and linked: "delays_linked S g" and o: "others S t g g'"
    and sub: "set (entries g') \<subseteq> set (entries g)"
  shows "delay_at S fpoll t g' p r ar"
  using at
proof cases
  case (at_poll a pc c d)
  have "delays g' a = Some d" "tm_now g \<le> tm_now g'" using at_poll o by (auto simp: others_def)
  moreover from this have "td_registered d \<longrightarrow> td_deadline d \<le> tm_now g'" using at_poll(8) by auto
  ultimately show ?thesis using at_poll delay_at.at_poll by simp
next
  case (at_drop a c d)
  then have "delays g' a = Some d" using o by (auto simp: others_def)
  then show ?thesis using at_drop delay_at.at_drop by simp
next
  case (at_arm a pc c d)
  then show ?thesis using sub waiting_on_others [OF _ _ linked o] delay_at.at_arm by blast
next
  case (at_mark a pc c d)
  then show ?thesis using waiting_on_others [OF _ _ linked o] delay_at.at_mark by blast
next
  case (at_pending pc)
  then show ?thesis using waits_at_others [OF _ linked o] delay_at.at_pending by simp
qed (auto intro: delay_at.intros)

section \<open>The timer interrupt\<close>

lemma count_image_size: "count (image_mset f M) y = size {#x \<in># M. f x = y#}"
  by (induction M) simp_all

lemma size_filter_split:
  "size {#x \<in># filter_mset P M. Q x#} + size {#x \<in># {#x \<in># M. \<not> P x#}. Q x#} = size (filter_mset Q M)"
  by (induction M) simp_all

lemma entries_of_mset: "mset (entries g') = mset (entries g) \<Longrightarrow> entries_of S g' t = entries_of S g t"
  by (simp add: entries_of_def)

lemma linked_waker:
  "delays_linked S g \<Longrightarrow> x \<in> set (entries g) \<Longrightarrow> entry_waker (delays g) x = ds_home S (te_data x)"
  by (auto simp: delays_linked_def entry_waker_def)

lemma timer_isr_ok:
  assumes linked: "delays_linked S g"
  obtains ws s where "handle_timer_isr TIMER_QUEUE (tm_now g) (tm_timer g) = Some (Inr (ws, s))"
    "armed TIMER_QUEUE s" "delays_linked S (g\<lparr>tm_timer := s\<rparr>)" "\<And>t. others S t g (g\<lparr>tm_timer := s\<rparr>)"
    "set (vec_items TIMER_QUEUE (sys_queue s)) \<subseteq> set (entries g)"
    "\<And>t. count (mset ws) t + entries_of S (g\<lparr>tm_timer := s\<rparr>) t = entries_of S g t"
    "mset ws = image_mset (\<lambda>x. ds_home S (te_data x)) (filter_mset (expired (tm_now g)) (mset (entries g)))"
proof -
  have alive: "\<forall>x\<in>set (entries g). entry_alive (delays g) x"
    using linked by (auto simp: delays_linked_def entry_alive_def)
  obtain ws s where r: "handle_timer_isr TIMER_QUEUE (tm_now g) (tm_timer g) = Some (Inr (ws, s))" "armed TIMER_QUEUE s"
      "sys_delays s = delays g"
      "mset ws = image_mset (entry_waker (delays g)) (filter_mset (expired (tm_now g)) (mset (entries g)))"
      "mset (vec_items TIMER_QUEUE (sys_queue s)) = filter_mset (\<lambda>x. \<not> expired (tm_now g) x) (mset (entries g))"
    using deadline_queue.isr_fires [OF vec_deadline_queue [OF list_vec_bounded [of 16], folded TIMER_QUEUE_def] alive, of "tm_now g"]
    by blast
  let ?g = "g\<lparr>tm_timer := s\<rparr>" and ?h = "\<lambda>x. ds_home S (te_data x)"
  have ws: "mset ws = image_mset ?h (filter_mset (expired (tm_now g)) (mset (entries g)))"
    unfolding r(4) by (rule image_mset_cong) (simp add: linked_waker [OF linked])
  have set: "set (vec_items TIMER_QUEUE (sys_queue s)) = {x \<in> set (entries g). \<not> expired (tm_now g) x}"
    using arg_cong [OF r(5), of set_mset] by auto
  have sub: "set (vec_items TIMER_QUEUE (sys_queue s)) \<subseteq> set (entries g)" using set by auto
  have "mset (vec_items TIMER_QUEUE (sys_queue s)) = mset (filter (\<lambda>x. \<not> expired (tm_now g) x) (entries g))"
    using r(5) by simp
  then have "distinct (map te_data (vec_items TIMER_QUEUE (sys_queue s)))"
    by (rule distinct_map_mset) (use linked in \<open>simp add: delays_linked_def distinct_map_filter\<close>)
  then have l: "delays_linked S ?g" using linked sub r(3) by (auto simp: delays_linked_def)
  have o: "others S t g ?g" for t
    using sub by (auto simp: others_def r(3) set expired_def)
  have "count (mset ws) t + entries_of S ?g t = entries_of S g t" for t
    unfolding ws count_image_size by (simp add: entries_of_def r(5) size_filter_split)
  then show ?thesis using that [OF r(1,2) l o sub _ ws] by blast
qed

section \<open>The accesses of a poll\<close>

text \<open>
  An access of the task's own poll leads to a point whose assertion holds, keeps what the other tasks
  rely on, and conserves the duty to continue the task: what the poll gives up, the timer queue has.
\<close>

definition own_step ::
  "delay_setup \<Rightarrow> (tid \<Rightarrow> nat \<Rightarrow> timer_prog) \<Rightarrow> tid \<Rightarrow> timer_statics \<Rightarrow> bool \<Rightarrow> bool \<Rightarrow>
   timer_statics \<Rightarrow> timer_prog \<Rightarrow> bool \<Rightarrow> bool \<Rightarrow> bool" where
  "own_step S fpoll t g r ar g' p' r' ar' \<longleftrightarrow> delay_at S fpoll t g' p' r' ar' \<and> delays_linked S g'
     \<and> of_bool r' + entries_of S g' t = (of_bool r + entries_of S g t :: nat)
     \<and> (\<forall>u. u \<noteq> t \<longrightarrow> entries_of S g' u = entries_of S g u \<and> others S u g g')
     \<and> (armed TIMER_QUEUE (tm_timer g) \<or> ar \<longrightarrow> armed TIMER_QUEUE (tm_timer g') \<or> ar')"

lemma no_entries: "entries_of S g t = 0 \<longleftrightarrow> (\<forall>x\<in>set (entries g). ds_home S (te_data x) \<noteq> t)"
  by (auto simp: entries_of_def filter_mset_eq_conv)

text \<open>Accesses that leave the queue alone, and only touch a delay of the task.\<close>

lemma own_quiet:
  assumes "delay_at S fpoll t g' p' r ar" "delays_linked S g" "entries g' = entries g" "tm_now g' = tm_now g"
    and "sys_compare (tm_timer g') = sys_compare (tm_timer g)"
    and "\<And>b. delays g' b \<noteq> delays g b \<Longrightarrow> ds_home S b = t \<and> b \<notin> te_data ` set (entries g)"
  shows "own_step S fpoll t g r ar g' p' r ar"
proof -
  have "delays g' (te_data x) = delays g (te_data x)" if "x \<in> set (entries g)" for x using assms(6) that by blast
  then have "delays_linked S g'" using assms(2,3) by (auto simp: delays_linked_def)
  moreover have "others S u g g'" if "u \<noteq> t" for u using assms(3,4,6) that by (auto simp: others_def)
  ultimately show ?thesis using assms(1,3,5) by (simp add: own_step_def entries_of_def armed_def)
qed

lemma own_put:
  assumes "delays_linked S g" "entries_of S g t = 0" "ds_home S a = t"
    and "delay_at S fpoll t (on_timer (put_delay a d) g) p' True False"
  shows "own_step S fpoll t g True False (on_timer (put_delay a d) g) p' True False"
  by (rule own_quiet [OF assms(4,1)]) (use assms(2,3) in \<open>auto simp: on_timer_def put_delay_def no_entries split: if_splits\<close>)

lemma own_run:
  assumes run: "runs S fpoll t (Access u c)" and linked: "delays_linked S g" and none: "entries_of S g t = 0"
  shows "own_step S fpoll t g True False (u g) (c g) True False"
  using run
proof cases
  case runs_access
  then have "same_timer g (u g)" "delay_at S fpoll t (u g) (c g) True False" by (auto intro: at_run)
  then show ?thesis by (intro own_quiet linked) (simp_all add: same_timer_def)
next
  case (runs_after a pc c' duration)
  let ?d = "after 10000000 (tm_now g) duration"
  have u: "u g = on_timer (put_delay a ?d) g" "c g = do_poll_delay a t pc c'"
    using runs_after(1) by (simp_all add: do_after_def)
  have "delay_at S fpoll t (on_timer (put_delay a ?d) g) (do_poll_delay a t pc c') True False"
    by (rule at_poll [OF runs_after(2-4), of _ ?d]) (simp_all add: on_timer_def put_delay_def after_def Let_def)
  then show ?thesis unfolding u by (rule own_put [OF linked none runs_after(2)])
qed

lemma own_poll:
  assumes a: "ds_home S a = t" "fpoll t pc = do_poll_delay a t pc c'" "runs S fpoll t c'" "delays g a = Some d"
      "td_registered d \<longrightarrow> td_deadline d \<le> tm_now g"
    and p: "Access u c = do_poll_delay a t pc c'" and linked: "delays_linked S g"
  shows "own_step S fpoll t g True False (u g) (c g) True False"
proof -
  have u: "u g = g" "c g = (if td_deadline d \<le> tm_now g then unmark_step a d c' else schedule_step a d t pc)"
    using p a(4,5) by (auto simp: do_poll_delay_steps)
  have "delay_at S fpoll t g (c g) True False"
    unfolding u(2) using a at_unmark at_schedule by auto
  then show ?thesis unfolding u(1) by (rule own_quiet [OF _ linked]) simp_all
qed

lemma own_drop:
  assumes a: "ds_home S a = t" "runs S fpoll t c'" "delays g a = Some d" "\<not> td_registered d"
    and p: "Access u c = drop_step a c'" and linked: "delays_linked S g" and none: "entries_of S g t = 0"
  shows "own_step S fpoll t g True False (u g) (c g) True False"
proof -
  have "delay_drop TIMER_QUEUE a (tm_timer g) = Inr ((tm_timer g)\<lparr>sys_delays := (delays g)(a := None)\<rparr>)"
    using a(3,4) by (simp add: delay_drop_def)
  then have u: "u g = on_timer (\<lambda>s. s\<lparr>sys_delays := (delays g)(a := None)\<rparr>) g" "c g = c'"
    using p by (simp_all add: drop_step_def on_timer_def)
  show ?thesis
    unfolding u by (rule own_quiet [OF at_run [OF a(2)] linked])
      (use none a(1) in \<open>auto simp: on_timer_def no_entries split: if_splits\<close>)
qed

lemma own_schedule:
  assumes a: "ds_home S a = t" "fpoll t pc = do_poll_delay a t pc c'" "runs S fpoll t c'" and t: "t \<in> ds_tasks S"
    and p: "Access u c = schedule_step a d t pc" and linked: "delays_linked S g" and none: "entries_of S g t = 0"
    and room: "length (entries g) < 16"
  shows "\<exists>ar. own_step S fpoll t g True False (u g) (c g) False ar"
proof -
  let ?x = "\<lparr>te_deadline = td_deadline d, te_callback = WakeTrampoline, te_data = a\<rparr>" and ?d = "d\<lparr>td_waker := Some t\<rparr>"
  obtain q' e where q': "schedule TIMER_QUEUE (td_deadline d) WakeTrampoline a (sys_queue (tm_timer g)) = Inr (e, q')"
      "mset (vec_items TIMER_QUEUE q') = add_mset ?x (mset (entries g))"
      "e \<longleftrightarrow> (\<forall>x\<in>set (entries g). td_deadline d < te_deadline x)"
    using deadline_queue.schedule_law [OF vec_deadline_queue [OF list_vec_bounded [of 16], folded TIMER_QUEUE_def] room] by blast
  let ?s = "(put_delay a ?d (tm_timer g))\<lparr>sys_queue := q'\<rparr>"
  have "delay_schedule TIMER_QUEUE a d t (tm_timer g) = Inr (e, ?s)" by (simp add: delay_schedule_def q'(1))
  then have u: "u g = g\<lparr>tm_timer := ?s\<rparr>" "c g = arm_step e a d t pc"
    using p by (simp_all add: schedule_step_def on_timer_def)
  have g': "delays (u g) = (delays g)(a \<mapsto> ?d)" "tm_now (u g) = tm_now g" "mset (entries (u g)) = add_mset ?x (mset (entries g))"
      "sys_compare (tm_timer (u g)) = sys_compare (tm_timer g)"
    by (simp_all add: u(1) put_delay_def q'(2))
  have set: "set (entries (u g)) = insert ?x (set (entries g))" using arg_cong [OF g'(3), of set_mset] by simp
  have fresh: "a \<notin> te_data ` set (entries g)" using none a(1) by (auto simp: no_entries)
  then have "distinct (map te_data (entries (u g)))"
    using linked distinct_map_mset [of "entries (u g)" "?x # entries g" te_data] g'(3) by (simp add: delays_linked_def)
  moreover have "\<exists>d'. delays (u g) (te_data x) = Some d' \<and> td_deadline d' = te_deadline x
      \<and> td_waker d' = Some (ds_home S (te_data x))" if "x \<in> set (entries (u g))" for x
    using that linked fresh a(1) by (cases "x = ?x") (auto simp: g'(1) set delays_linked_def)
  ultimately have l: "delays_linked S (u g)" using linked t a(1) by (auto simp: delays_linked_def set)
  have "waiting_on S t a ?d (u g)" using none a(1) by (auto simp: waiting_on_def g'(1) set no_entries)
  moreover have "e \<longrightarrow> (\<forall>x\<in>set (entries (u g)). td_deadline d \<le> te_deadline x)" using q'(3) by (auto simp: set intro: less_imp_le)
  ultimately have at: "delay_at S fpoll t (u g) (c g) False e" unfolding u(2) by (rule at_arm [OF a])
  have "armed TIMER_QUEUE (tm_timer (u g)) \<or> e" if "armed TIMER_QUEUE (tm_timer g)"
  proof (cases e)
    case False
    then obtain x where "x \<in> set (entries g)" "te_deadline x \<le> td_deadline d" using q'(3) by (auto simp: not_less)
    then have "sys_compare (tm_timer g) \<le> td_deadline d" using that by (auto simp: armed_def intro: order.trans)
    then show ?thesis using that by (auto simp: armed_def set g'(4))
  qed simp
  moreover have "entries_of S (u g) v = (if v = t then 1 else 0) + entries_of S g v" for v
    by (simp add: entries_of_def g'(3) a(1))
  moreover have "others S v g (u g)" if "v \<noteq> t" for v using that a(1) by (auto simp: others_def set g'(1,2))
  ultimately show ?thesis using at l by (intro exI [of _ e]) (simp add: own_step_def)
qed

lemma own_arm:
  assumes a: "ds_home S a = t" "fpoll t pc = do_poll_delay a t pc c'" "runs S fpoll t c'"
      "waiting_on S t a (d\<lparr>td_waker := Some t\<rparr>) g" "e \<longrightarrow> (\<forall>x\<in>set (entries g). td_deadline d \<le> te_deadline x)"
    and p: "Access u c = arm_step e a d t pc" and linked: "delays_linked S g"
  shows "own_step S fpoll t g False e (u g) (c g) False False"
proof -
  have u: "u g = on_timer (delay_arm e d) g" "c g = mark_step a d t pc" using p by (simp_all add: arm_step_def)
  have g': "delays (u g) = delays g" "tm_now (u g) = tm_now g" "entries (u g) = entries g"
      "sys_compare (tm_timer (u g)) = (if e then td_deadline d else sys_compare (tm_timer g))"
    by (simp_all add: u(1) on_timer_def delay_arm_def set_deadline_def)
  have "waiting_on S t a (d\<lparr>td_waker := Some t\<rparr>) (u g)" using a(4) by (simp add: waiting_on_def g')
  then have "delay_at S fpoll t (u g) (c g) False False" unfolding u(2) by (rule at_mark [OF a(1-3)])
  then show ?thesis
    using linked a(5) by (auto simp: own_step_def delays_linked_def others_def entries_of_def armed_def g' split: if_splits)
qed

lemma own_mark:
  assumes a: "ds_home S a = t" "fpoll t pc = do_poll_delay a t pc c'" "runs S fpoll t c'"
      "waiting_on S t a (d\<lparr>td_waker := Some t\<rparr>) g"
    and p: "Access u c = mark_step a d t pc" and linked: "delays_linked S g"
  shows "own_step S fpoll t g False False (u g) (c g) False False"
proof -
  let ?d = "d\<lparr>td_waker := Some t, td_registered := True\<rparr>"
  have u: "u g = on_timer (delay_mark a d t) g" "c g = Pending pc" using p by (simp_all add: mark_step_def)
  have g': "delays (u g) = (delays g)(a \<mapsto> ?d)" "tm_now (u g) = tm_now g" "entries (u g) = entries g"
      "sys_compare (tm_timer (u g)) = sys_compare (tm_timer g)"
    by (simp_all add: u(1) on_timer_def delay_mark_def put_delay_def)
  have "waiting_on S t a ?d (u g)" using a(4) by (auto simp: waiting_on_def g')
  then have "waits_at S fpoll t pc (u g)" using a(1-3) by (force simp: waits_at_def)
  then have at: "delay_at S fpoll t (u g) (c g) False False" unfolding u(2) by (rule at_pending)
  have "\<exists>d'. delays (u g) (te_data x) = Some d' \<and> td_deadline d' = te_deadline x
      \<and> td_waker d' = Some (ds_home S (te_data x))" if "x \<in> set (entries g)" for x
  proof -
    obtain d' where d': "delays g (te_data x) = Some d'" "td_deadline d' = te_deadline x" "td_waker d' = Some (ds_home S (te_data x))"
      using linked \<open>x \<in> set (entries g)\<close> unfolding delays_linked_def by blast
    show ?thesis
    proof (cases "te_data x = a")
      case True
      then have "d' = d\<lparr>td_waker := Some t\<rparr>" using d'(1) a(4) by (simp add: waiting_on_def)
      then show ?thesis using True d'(2,3) by (simp add: g'(1))
    qed (use d' in \<open>simp add: g'(1)\<close>)
  qed
  then have "delays_linked S (u g)" using linked by (auto simp: delays_linked_def g')
  then show ?thesis
    using at a(1) by (auto simp: own_step_def others_def entries_of_def armed_def g')
qed

text \<open>All of them.\<close>

lemma own_access:
  assumes at: "delay_at S fpoll t g (Access u c) r ar" and t: "t \<in> ds_tasks S" and linked: "delays_linked S g"
    and none: "r \<Longrightarrow> entries_of S g t = 0" and room: "r \<Longrightarrow> length (entries g) < 16"
  shows "\<exists>r' ar'. own_step S fpoll t g r ar (u g) (c g) r' ar'"
  using at
proof cases
  case at_run
  then show ?thesis using own_run linked none by blast
next
  case (at_poll a pc c' d)
  then show ?thesis using own_poll [OF at_poll(4-8) at_poll(1) linked] by blast
next
  case (at_unmark a c' d)
  then have u: "u g = on_timer (put_delay a (d\<lparr>td_registered := False\<rparr>)) g" "c g = drop_step a c'"
    by (simp_all add: unmark_step_def)
  have "delay_at S fpoll t (u g) (c g) True False"
    unfolding u using at_unmark by (intro at_drop [where d = "d\<lparr>td_registered := False\<rparr>"]) (simp_all add: on_timer_def put_delay_def)
  then show ?thesis using own_put [OF linked none at_unmark(4)] at_unmark(2,3) unfolding u by simp blast
next
  case (at_drop a c' d)
  then show ?thesis using own_drop [OF at_drop(4-7) at_drop(1) linked none] by simp blast
next
  case (at_schedule a pc c' d)
  then show ?thesis using own_schedule [OF at_schedule(4-6) t at_schedule(1) linked none room] by simp blast
next
  case (at_arm a pc c' d)
  then show ?thesis using own_arm [OF at_arm(3-7) at_arm(1) linked] by simp blast
next
  case (at_mark a pc c' d)
  then show ?thesis using own_mark [OF at_mark(4-7) at_mark(1) linked] by simp blast
qed

section \<open>The accesses of a handler\<close>

lemma delay_op_simps:
  "delay_op S (IsrWake w) \<longleftrightarrow> w \<notin> ds_tasks S"
  "delay_op S (IsrSpawn t f p) \<longleftrightarrow> may_spawn S t f p"
  by (subst delay_op.simps; auto simp: tick_isr_def timer_handler_def)+

lemma delay_op_no_wake: "delay_op S op \<Longrightarrow> t \<in> ds_tasks S \<Longrightarrow> \<not> wakes t op"
  by (cases op) (auto simp: delay_op_simps)

lemma wakes_none: "\<forall>op\<in>set ops. delay_op S op \<Longrightarrow> t \<in> ds_tasks S \<Longrightarrow> filter (wakes t) ops = []"
  using delay_op_no_wake by (fastforce simp: filter_empty_conv)

lemma handed_wakes: "length (filter (wakes t \<circ> IsrWake) ws) = count (mset ws) t"
  by (induction ws) auto

lemma op_access_ok:
  assumes op: "delay_op S (IsrAccess u c)" and linked: "delays_linked S g"
  shows "delays_linked S (u g) \<and> (\<forall>t. others S t g (u g)) \<and> set (entries (u g)) \<subseteq> set (entries g)
    \<and> (armed TIMER_QUEUE (tm_timer g) \<longrightarrow> armed TIMER_QUEUE (tm_timer (u g)))
    \<and> (\<forall>op\<in>set (c g). delay_op S op \<or> (\<exists>x\<in>set (entries g). op = IsrWake (ds_home S (te_data x))))
    \<and> (\<forall>t\<in>ds_tasks S. length (filter (wakes t) (c g)) + entries_of S (u g) t = entries_of S g t)"
  using op
proof cases
  case op_timer
  obtain ws s where r: "handle_timer_isr TIMER_QUEUE (tm_now g) (tm_timer g) = Some (Inr (ws, s))"
      "armed TIMER_QUEUE s" "delays_linked S (g\<lparr>tm_timer := s\<rparr>)" "\<And>t. others S t g (g\<lparr>tm_timer := s\<rparr>)"
      "set (vec_items TIMER_QUEUE (sys_queue s)) \<subseteq> set (entries g)"
      "\<And>t. count (mset ws) t + entries_of S (g\<lparr>tm_timer := s\<rparr>) t = entries_of S g t"
    using timer_isr_ok [OF linked] by metis
  have u: "u g = g\<lparr>tm_timer := s\<rparr>" "c g = map IsrWake ws"
    using op_timer r(1) by (simp_all add: tick_isr_def timer_handler_def)
  have "\<exists>x\<in>set (entries g). w = ds_home S (te_data x)" if "w \<in> set ws" for w
  proof -
    have "0 < count (mset ws) w" using that by simp
    then have "entries_of S g w \<noteq> 0" using r(6) [of w] by linarith
    then show ?thesis by (auto simp: no_entries)
  qed
  then show ?thesis using r(2-6) by (auto simp: u handed_wakes)
next
  case op_access
  have s: "tm_timer (u g) = tm_timer g" "tm_now g \<le> tm_now (u g)" using op_access(1) by simp_all
  have "others S t g (u g)" for t using s by (simp add: others_def)
  moreover have "entries_of S (u g) t = entries_of S g t" for t using s by (simp add: entries_of_def)
  moreover have "filter (wakes t) (c g) = []" if "t \<in> ds_tasks S" for t
    by (rule wakes_none [OF _ that]) (use op_access(2) in blast)
  ultimately show ?thesis using s linked op_access(2) by (auto simp: delays_linked_def)
qed

end
