(* ===== verification/DelayTokens.thy ===== *)
theory DelayTokens
  imports DelayProtocol
begin

text \<open>
  Delays on the machine.  For every task that waits for delays there is exactly one duty to continue
  it, from its spawn to its end: with the call that spawns it, in its run-queued flag, with the
  activation that polls it, as an entry of the timer queue, or with the handler that took the entry
  out and wakes it.  No step duplicates the duty and no step loses it.
\<close>

section \<open>The duty to continue a task\<close>

fun stage_duty :: "tid \<Rightarrow> stage option \<Rightarrow> nat" where
  "stage_duty t (Some (W_Load u)) = of_bool (u = t)"
| "stage_duty t (Some (W_Fetch e u)) = of_bool (u = t)"
| "stage_duty t (Some (D_Fetch e u)) = of_bool (u = t)"
| "stage_duty t st = 0"

fun frame_duty :: "tid \<Rightarrow> bool \<Rightarrow> (nat, 'o, 'g) frame \<Rightarrow> nat" where
  "frame_duty t r (FIrq kind ops st) = length (filter (wakes t) ops) + stage_duty t st"
| "frame_duty t r (FPoll e u st p) = of_bool (r \<and> u = t) + stage_duty t st"
| "frame_duty t r (FGot e u) = of_bool (u = t)"
| "frame_duty t r (FReady e u out) = of_bool (u = t)"
| "frame_duty t r (FNull e u) = of_bool (u = t)"
| "frame_duty t r (FDrop e u) = of_bool (u = t)"
| "frame_duty t r (FDespawn e u) = of_bool (u = t)"
| "frame_duty t r fr = 0"

definition duty :: "tid \<Rightarrow> bool \<Rightarrow> (nat, 'o, 'g) frame list \<Rightarrow> nat" where
  "duty t r stk = sum_list (map (frame_duty t r) stk)"

lemma duty_simps [simp]:
  "duty t r [] = 0" "duty t r (fr # stk) = frame_duty t r fr + duty t r stk"
  "duty t r (frs @ stk) = duty t r frs + duty t r stk"
  by (simp_all add: duty_def)

type_synonym ('q, 's) timer_kernel = "(nat, nat, 'q, 's, timer_statics) kernel"

type_synonym timer_frame = "(nat, nat, timer_statics) frame"

section \<open>What the activations and calls hold\<close>

text \<open>A task that has been polled is linked to its executor; a call that was made for it aims there.\<close>

definition homed :: "delay_setup \<Rightarrow> ('q, 's) timer_kernel \<Rightarrow> tid \<Rightarrow> bool" where
  "homed S k t \<longleftrightarrow> (t \<in> ds_tasks S \<longrightarrow> ti_executor_ptr (k_tasks k t) = Some (ds_exec S))"

definition aimed_at :: "delay_setup \<Rightarrow> nat \<Rightarrow> tid \<Rightarrow> bool" where
  "aimed_at S e t \<longleftrightarrow> (t \<in> ds_tasks S \<longrightarrow> e = ds_exec S)"

fun stage_held :: "delay_setup \<Rightarrow> ('q, 's) timer_kernel \<Rightarrow> stage option \<Rightarrow> bool" where
  "stage_held S k (Some (W_Load t)) = homed S k t"
| "stage_held S k (Some (W_Fetch e t)) = (aimed_at S e t \<and> homed S k t)"
| "stage_held S k (Some (W_Push e t)) = aimed_at S e t"
| "stage_held S k (Some (D_Fetch e t)) = aimed_at S e t"
| "stage_held S k (Some (D_Push e t)) = aimed_at S e t"
| "stage_held S k (Some (J_Store t w)) = (w \<notin> ds_tasks S)"
| "stage_held S k st = True"

text \<open>An operation of a handler is one of the application's, or a wake that the timer's handler adds.\<close>

definition op_held :: "delay_setup \<Rightarrow> ('q, 's) timer_kernel \<Rightarrow> (nat, timer_statics) isr_op \<Rightarrow> bool" where
  "op_held S k op \<longleftrightarrow> delay_op S op \<or> (\<exists>w. op = IsrWake w \<and> homed S k w)"

fun frame_held ::
  "delay_setup \<Rightarrow> (tid \<Rightarrow> nat \<Rightarrow> timer_prog) \<Rightarrow> bool \<Rightarrow> bool \<Rightarrow> ('q, 's) timer_kernel \<Rightarrow> timer_frame \<Rightarrow> bool" where
  "frame_held S fpoll r ar k (FIrq kind ops st) = (list_all (op_held S k) ops \<and> stage_held S k st)"
| "frame_held S fpoll r ar k (FPoll e t st p) =
     (stage_held S k st \<and> aimed_at S e t \<and> homed S k t
      \<and> (if t \<in> ds_tasks S then delay_at S fpoll t (k_app k) p r ar else quiet_prog S p))"
| "frame_held S fpoll r ar k (FGot e t) = (aimed_at S e t \<and> homed S k t)"
| "frame_held S fpoll r ar k (FReady e t out) = (aimed_at S e t \<and> homed S k t)"
| "frame_held S fpoll r ar k (FNull e t) = (aimed_at S e t \<and> homed S k t)"
| "frame_held S fpoll r ar k (FDrop e t) = aimed_at S e t"
| "frame_held S fpoll r ar k (FDespawn e t) = aimed_at S e t"
| "frame_held S fpoll r ar k fr = True"

section \<open>The invariant\<close>

fun timer_poll :: "delay_setup \<Rightarrow> timer_frame \<Rightarrow> bool" where
  "timer_poll S (FPoll e t st p) = (t \<in> ds_tasks S)"
| "timer_poll S fr = False"

fun busy :: "tid \<Rightarrow> timer_frame \<Rightarrow> bool" where
  "busy t (FPoll e u st p) = (u = t)"
| "busy t (FReady e u out) = (u = t)"
| "busy t (FNull e u) = (u = t)"
| "busy t (FDrop e u) = (u = t)"
| "busy t (FDespawn e u) = (u = t)"
| "busy t fr = False"

definition task_spawned :: "('q, 's) timer_kernel \<Rightarrow> tid \<Rightarrow> bool" where
  "task_spawned k t \<longleftrightarrow> spawned (ti_state (k_tasks k t))"

text \<open>The future of a task that is not being polled: new, or waiting for a delay.\<close>

definition rests :: "delay_setup \<Rightarrow> (tid \<Rightarrow> nat \<Rightarrow> timer_prog) \<Rightarrow> ('q, 's) timer_kernel \<Rightarrow> tid \<Rightarrow> bool" where
  "rests S fpoll k t \<longleftrightarrow> ti_poll_fn (k_tasks k t) = Some PollStorage \<and> (\<exists>f. ts_f (k_tasks k t) = Init f
     \<and> (waits_at S fpoll t f (k_app k) \<or> ds_start S t f \<and> entries_of S (k_app k) t = 0))"

definition continued ::
  "delay_setup \<Rightarrow> (tid \<Rightarrow> nat \<Rightarrow> timer_prog) \<Rightarrow> bool \<Rightarrow> ('q, 's) timer_kernel \<Rightarrow> timer_frame list \<Rightarrow> tid \<Rightarrow> bool" where
  "continued S fpoll r k stk t \<longleftrightarrow>
     duty t r stk + of_bool (flagged k t) + entries_of S (k_app k) t = of_bool (task_spawned k t)
     \<and> (0 < entries_of S (k_app k) t \<longrightarrow> homed S k t)
     \<and> (flagged k t \<and> t \<notin># pushing stk \<longrightarrow> homed S k t)
     \<and> (task_spawned k t \<and> \<not> list_ex (busy t) stk \<longrightarrow> rests S fpoll k t)"

definition no_joiner :: "delay_setup \<Rightarrow> ('q, 's) timer_kernel \<Rightarrow> bool" where
  "no_joiner S k \<longleftrightarrow> (\<forall>u w. js_waker (k_tasks k u) = Some w \<longrightarrow> w \<notin> ds_tasks S)"

definition delay_inv ::
  "delay_setup \<Rightarrow> (tid \<Rightarrow> nat \<Rightarrow> timer_prog) \<Rightarrow> bool \<Rightarrow> bool \<Rightarrow> ('q, 's) timer_kernel \<Rightarrow> timer_frame list \<Rightarrow> bool" where
  "delay_inv S fpoll r ar k stk \<longleftrightarrow> delays_linked S (k_app k) \<and> no_joiner S k
     \<and> list_all (frame_held S fpoll r ar k) stk \<and> (\<forall>t\<in>ds_tasks S. continued S fpoll r k stk t)
     \<and> (armed TIMER_QUEUE (tm_timer (k_app k)) \<or> ar \<and> list_ex (timer_poll S) stk)"

lemma delay_invD:
  assumes "delay_inv S fpoll r ar k stk"
  shows "delays_linked S (k_app k)" "no_joiner S k" "list_all (frame_held S fpoll r ar k) stk"
    "t \<in> ds_tasks S \<Longrightarrow> continued S fpoll r k stk t"
    "armed TIMER_QUEUE (tm_timer (k_app k)) \<or> ar \<and> list_ex (timer_poll S) stk"
  using assms by (simp_all add: delay_inv_def)

section \<open>Steps\<close>

lemma frame_held_mono:
  assumes "frame_held S fpoll r ar k fr" "\<And>t. homed S k t \<Longrightarrow> homed S k' t" "k_app k' = k_app k"
  shows "frame_held S fpoll r ar k' fr"
proof -
  have st: "stage_held S k st \<Longrightarrow> stage_held S k' st" for st
    using assms(2) by (cases "(S, k, st)" rule: stage_held.cases) auto
  have op: "op_held S k op \<Longrightarrow> op_held S k' op" for op using assms(2) by (auto simp: op_held_def)
  show ?thesis
    using assms st by (cases fr) (auto simp: list_all_iff intro: op)
qed

lemma rests_cong:
  "k_app k' = k_app k \<Longrightarrow> ti_poll_fn (k_tasks k' t) = ti_poll_fn (k_tasks k t) \<Longrightarrow> ts_f (k_tasks k' t) = ts_f (k_tasks k t) \<Longrightarrow>
    rests S fpoll k' t = rests S fpoll k t"
  by (simp add: rests_def)

text \<open>
  A step that does not access the timer and keeps the links to the executors.  For each task the duty
  that the running activation and the flag had is still there.
\<close>

definition passes_on ::
  "delay_setup \<Rightarrow> (tid \<Rightarrow> nat \<Rightarrow> timer_prog) \<Rightarrow> bool \<Rightarrow> ('q, 's) timer_kernel \<Rightarrow> ('q, 's) timer_kernel \<Rightarrow>
   timer_frame \<Rightarrow> timer_frame list \<Rightarrow> tid \<Rightarrow> bool" where
  "passes_on S fpoll r k k' fr frs t \<longleftrightarrow>
     duty t r frs + of_bool (flagged k' t) + of_bool (task_spawned k t)
       = frame_duty t r fr + of_bool (flagged k t) + of_bool (task_spawned k' t)
     \<and> (flagged k' t \<longrightarrow> flagged k t \<and> (t \<in># pusher (frame_stage fr) \<longrightarrow> t \<in># pushing frs) \<or> t \<in># pushing frs \<or> homed S k' t)
     \<and> (task_spawned k' t \<and> \<not> list_ex (busy t) frs \<longrightarrow> rests S fpoll k' t
          \<or> task_spawned k t \<and> \<not> busy t fr \<and> ti_poll_fn (k_tasks k' t) = ti_poll_fn (k_tasks k t)
            \<and> ts_f (k_tasks k' t) = ts_f (k_tasks k t))"

lemma pushing_append: "pushing (frs @ rest) = pushing frs + pushing rest"
  by (induction frs) (simp_all add: ac_simps)

lemma continued_passes:
  assumes c: "continued S fpoll r k (fr # rest) t" and p: "passes_on S fpoll r k k' fr frs t"
    and app: "k_app k' = k_app k" and home: "homed S k t \<Longrightarrow> homed S k' t"
  shows "continued S fpoll r k' (frs @ rest) t"
  unfolding continued_def
proof (intro conjI impI)
  show "duty t r (frs @ rest) + of_bool (flagged k' t) + entries_of S (k_app k') t = of_bool (task_spawned k' t)"
    using c p app by (simp add: continued_def passes_on_def)
  show "homed S k' t" if "0 < entries_of S (k_app k') t" using that c app home by (simp add: continued_def)
  show "homed S k' t" if "flagged k' t \<and> t \<notin># pushing (frs @ rest)"
    using that c p home by (auto simp: continued_def passes_on_def pushing_append)
  show "rests S fpoll k' t" if "task_spawned k' t \<and> \<not> list_ex (busy t) (frs @ rest)"
    using that c p rests_cong [OF app] by (auto simp: continued_def passes_on_def)
qed

lemma delay_inv_pass:
  assumes inv: "delay_inv S fpoll r ar k (fr # rest)"
    and app: "k_app k' = k_app k" and home: "\<And>t. homed S k t \<Longrightarrow> homed S k' t" and js: "no_joiner S k'"
    and held: "list_all (frame_held S fpoll r ar k') frs" and tp: "timer_poll S fr \<Longrightarrow> ar \<Longrightarrow> list_ex (timer_poll S) frs"
    and tasks: "\<And>t. t \<in> ds_tasks S \<Longrightarrow> passes_on S fpoll r k k' fr frs t"
  shows "delay_inv S fpoll r ar k' (frs @ rest)"
proof -
  note I = delay_invD [OF inv]
  have "list_all (frame_held S fpoll r ar k') rest"
    using I(3) frame_held_mono [OF _ home app] by (auto simp: list_all_iff)
  moreover have "continued S fpoll r k' (frs @ rest) t" if "t \<in> ds_tasks S" for t
    by (rule continued_passes [OF I(4) tasks app home]) (rule that)+
  moreover have "armed TIMER_QUEUE (tm_timer (k_app k')) \<or> ar \<and> list_ex (timer_poll S) (frs @ rest)"
    using I(5) tp app by auto
  ultimately show ?thesis using I(1) js held app by (simp add: delay_inv_def)
qed

text \<open>The stages of a call.\<close>

definition stage_passes ::
  "delay_setup \<Rightarrow> ('q, 's) timer_kernel \<Rightarrow> ('q, 's) timer_kernel \<Rightarrow> stage option \<Rightarrow> stage option \<Rightarrow> tid \<Rightarrow> bool" where
  "stage_passes S k k' st st' t \<longleftrightarrow> task_spawned k' t = task_spawned k t
     \<and> ti_poll_fn (k_tasks k' t) = ti_poll_fn (k_tasks k t) \<and> ts_f (k_tasks k' t) = ts_f (k_tasks k t)
     \<and> stage_duty t st' + of_bool (flagged k' t) = stage_duty t st + of_bool (flagged k t)
     \<and> (flagged k' t \<longrightarrow> flagged k t \<and> (t \<in># pusher st \<longrightarrow> t \<in># pusher st') \<or> t \<in># pusher st' \<or> homed S k' t)"

lemma spawn_check_tasks: "spawn_check V k = Inr k' \<Longrightarrow> k_tasks k' = k_tasks k"
  by (auto simp: spawn_check_def rbind_Inr_iff Let_def dest: pend_tasks
      split: option.split_asm if_split_asm list.split_asm)

lemma pend_send_tasks: "pend_send k = Inr k' \<Longrightarrow> k_tasks k' = k_tasks k"
  by (auto simp: pend_send_def ipi_send_def split: option.splits ipi_dev.splits if_splits)

lemma stage_ok_delay:
  assumes step: "step_stage V L st k = Inr (st', k')" and held: "stage_held S k (Some st)" and js: "no_joiner S k"
    and one: "\<forall>t\<in>ds_tasks S. stage_duty t (Some st) = 1 \<longrightarrow> \<not> flagged k t"
  shows "stage_held S k' st'" "no_joiner S k'" "homed S k t \<Longrightarrow> homed S k' t"
    "t \<in> ds_tasks S \<Longrightarrow> stage_passes S k k' (Some st) st' t"
proof -
  have fetch: "stage_held S k' st' \<and> no_joiner S k' \<and> (homed S k t \<longrightarrow> homed S k' t)
      \<and> (t \<in> ds_tasks S \<longrightarrow> stage_passes S k k' (Some st) st' t)"
    if "k' = put_state u (snd (state_run_enqueue (ti_state (k_tasks k u)))) k"
      "st' = (if \<not> flagged k u then Some x else None)" "\<And>v. stage_duty v (Some st) = of_bool (u = v)"
      "pusher (Some x) = {#u#}" "stage_held S k' (Some x) = aimed_at S e u" "aimed_at S e u"
      "\<And>v. stage_duty v (Some x) = 0" "pusher (Some st) = {#}" for u x e
    using that js one by (auto simp: no_joiner_def homed_def stage_passes_def flagged_def task_spawned_def)
  have push: "stage_held S k' st' \<and> no_joiner S k' \<and> (homed S k t \<longrightarrow> homed S k' t)
      \<and> (t \<in> ds_tasks S \<longrightarrow> stage_passes S k k' (Some st) st' t)"
    if "enqueue_locked L e u k = Inr k'" "aimed_at S e u" "\<And>v. stage_duty v (Some st) = 0" "stage_held S k' st'"
      "\<And>v. stage_duty v st' = 0" "pusher (Some st) = {#u#}" for e u
    using that js enqueue_locked_tasks [OF that(1)]
    by (auto simp: no_joiner_def homed_def stage_passes_def flagged_def task_spawned_def aimed_at_def)
  have same: "stage_held S k' st' \<and> no_joiner S k' \<and> (homed S k t \<longrightarrow> homed S k' t)
      \<and> (t \<in> ds_tasks S \<longrightarrow> stage_passes S k k' (Some st) st' t)"
    if "k_tasks k' = k_tasks k" "stage_held S k' st'" "\<And>v. v \<in> ds_tasks S \<Longrightarrow> stage_duty v st' = stage_duty v (Some st)"
      "pusher (Some st) = {#}"
    using that js by (auto simp: no_joiner_def homed_def stage_passes_def flagged_def task_spawned_def)
  have "stage_held S k' st' \<and> no_joiner S k' \<and> (homed S k t \<longrightarrow> homed S k' t)
      \<and> (t \<in> ds_tasks S \<longrightarrow> stage_passes S k k' (Some st) st' t)"
  proof (cases st)
    case (W_Load u)
    then show ?thesis using step held
      by (intro same) (auto simp: homed_def aimed_at_def split: option.splits if_splits)
  next
    case (W_Fetch e u)
    then show ?thesis using step held by (intro fetch [of u "W_Push e u" e]) (auto simp: fetch_enqueue_eq split: if_splits)
  next
    case (D_Fetch e u)
    then show ?thesis using step held by (intro fetch [of u "D_Push e u" e]) (auto simp: fetch_enqueue_eq split: if_splits)
  next
    case (W_Push e u)
    then show ?thesis using step held by (intro push [of e u]) (auto simp: rbind_Inr_iff)
  next
    case (D_Push e u)
    then show ?thesis using step held by (intro push [of e u]) (auto simp: rbind_Inr_iff)
  next
    case W_Mark
    then show ?thesis using step by (intro same) (auto simp: pend_mark_def)
  next
    case W_Send
    then show ?thesis using step by (intro same) (auto simp: rbind_Inr_iff dest: pend_send_tasks)
  next
    case D_Check
    then show ?thesis using step by (intro same) (auto simp: rbind_Inr_iff dest: spawn_check_tasks)
  next
    case (J_Store u w)
    then have "k' = join_store u w k" "st' = None" "w \<notin> ds_tasks S" using step held by simp_all
    then show ?thesis using js J_Store
      by (auto simp: no_joiner_def homed_def stage_passes_def flagged_def task_spawned_def join_store_def waker_clone_def)
  qed
  then show "stage_held S k' st'" "no_joiner S k'" "homed S k t \<Longrightarrow> homed S k' t"
    "t \<in> ds_tasks S \<Longrightarrow> stage_passes S k k' (Some st) st' t" by blast+
qed

text \<open>A spawn.\<close>

lemma spawn_ok_delay:
  assumes step: "begin_spawn u f p k = Inr (ok, st', k')" and may: "may_spawn S u f p" and inv: "delay_inv S fpoll r ar k stk"
  shows "stage_held S k' st'" "no_joiner S k'" "homed S k t \<Longrightarrow> homed S k' t" "k_app k' = k_app k"
    "pusher st' = {#}"
    "t \<in> ds_tasks S \<Longrightarrow> flagged k' t = flagged k t \<and> stage_duty t st' + of_bool (task_spawned k t) = of_bool (task_spawned k' t)
       \<and> (task_spawned k' t \<longrightarrow> rests S fpoll k' t \<or> task_spawned k t
            \<and> ti_poll_fn (k_tasks k' t) = ti_poll_fn (k_tasks k t) \<and> ts_f (k_tasks k' t) = ts_f (k_tasks k t))"
proof -
  have app: "k_app k' = k_app k" using app_spawn [OF step] .
  note js = delay_invD(2) [OF inv] and c = delay_invD(4) [OF inv]
  consider (old) "task_spawned k u" "st' = None" "k' = put_state u (snd (state_spawn (ti_state (k_tasks k u)))) k"
    | (new) "\<not> task_spawned k u" "st' = Some (D_Fetch (to_usize p) u)"
      "k_tasks k' = (k_tasks k)(u := (k_tasks k u)\<lparr>ti_state := snd (state_spawn (ti_state (k_tasks k u))), js_result := None,
         js_waker := None, ti_poll_fn := Some PollStorage, ts_f := Init f\<rparr>)"
    using step by (auto simp: begin_spawn_def storage_spawn_def task_spawned_def case_prod_beta cell_write_in_place_def
      split: if_splits)
  then have "stage_held S k' st' \<and> no_joiner S k' \<and> (homed S k t \<longrightarrow> homed S k' t) \<and> pusher st' = {#}
    \<and> (t \<in> ds_tasks S \<longrightarrow> flagged k' t = flagged k t \<and> stage_duty t st' + of_bool (task_spawned k t) = of_bool (task_spawned k' t)
       \<and> (task_spawned k' t \<longrightarrow> rests S fpoll k' t \<or> task_spawned k t
            \<and> ti_poll_fn (k_tasks k' t) = ti_poll_fn (k_tasks k t) \<and> ts_f (k_tasks k' t) = ts_f (k_tasks k t)))"
  proof cases
    case old
    then show ?thesis using js by (auto simp: no_joiner_def homed_def flagged_def task_spawned_def)
  next
    case new
    have "rests S fpoll k' u" if "u \<in> ds_tasks S"
      using new(1,3) that may c [OF that] app by (simp add: rests_def may_spawn_def continued_def)
    then show ?thesis using new js may
      by (auto simp: no_joiner_def homed_def flagged_def task_spawned_def may_spawn_def aimed_at_def)
  qed
  then show "stage_held S k' st'" "no_joiner S k'" "homed S k t \<Longrightarrow> homed S k' t" "k_app k' = k_app k" "pusher st' = {#}"
    "t \<in> ds_tasks S \<Longrightarrow> flagged k' t = flagged k t \<and> stage_duty t st' + of_bool (task_spawned k t) = of_bool (task_spawned k' t)
       \<and> (task_spawned k' t \<longrightarrow> rests S fpoll k' t \<or> task_spawned k t
            \<and> ti_poll_fn (k_tasks k' t) = ti_poll_fn (k_tasks k t) \<and> ts_f (k_tasks k' t) = ts_f (k_tasks k t))"
    using app by blast+
qed

section \<open>Accesses to the shared memory\<close>

lemma rests_app:
  assumes "rests S fpoll k t" "delays_linked S (k_app k)" "others S t (k_app k) g" "entries_of S g t \<le> entries_of S (k_app k) t"
  shows "rests S fpoll (k\<lparr>k_app := g\<rparr>) t"
  using assms waits_at_others unfolding rests_def by fastforce

lemma op_held_app [simp]: "op_held S (k\<lparr>k_app := g\<rparr>) = op_held S k"
  by (simp add: op_held_def homed_def fun_eq_iff)

lemma frame_held_app:
  assumes "frame_held S fpoll r ar k fr" "delays_linked S (k_app k)" "\<And>t. others S t (k_app k) g"
    and "set (entries g) \<subseteq> set (entries (k_app k))"
  shows "frame_held S fpoll r ar (k\<lparr>k_app := g\<rparr>) fr"
proof -
  have h: "homed S (k\<lparr>k_app := g\<rparr>) t = homed S k t" for t by (simp add: homed_def)
  have st: "stage_held S (k\<lparr>k_app := g\<rparr>) st = stage_held S k st" for st
    by (cases "(S, k, st)" rule: stage_held.cases) (simp_all add: h)
  show ?thesis using assms(1) delay_at_others [OF _ assms(2) assms(3) assms(4)]
    by (cases fr) (auto simp: h st)
qed

lemma delay_inv_op:
  assumes inv: "delay_inv S fpoll r ar k (FIrq kind (IsrAccess u c # ops) None # rest)"
  shows "delay_inv S fpoll r ar (k\<lparr>k_app := u (k_app k)\<rparr>) (FIrq kind (c (k_app k) @ ops) None # rest)"
proof -
  let ?g = "k_app k" and ?k = "k\<lparr>k_app := u (k_app k)\<rparr>"
  note I = delay_invD [OF inv]
  have "delay_op S (IsrAccess u c)" using I(3) by (simp add: op_held_def)
  note a = op_access_ok [OF this I(1)]
  have homes: "homed S k w" if "x \<in> set (entries ?g)" "w = ds_home S (te_data x)" for x w
  proof -
    have t: "w \<in> ds_tasks S" using I(1) that by (auto simp: delays_linked_def)
    have "entries_of S ?g w \<noteq> 0" using that by (auto simp: no_entries)
    then show ?thesis using I(4) [OF t] by (simp add: continued_def)
  qed
  have "op_held S ?k op" if "op \<in> set (c ?g)" for op
    using a that homes by (fastforce simp: op_held_def homed_def)
  moreover have "list_all (op_held S ?k) ops" using I(3) by simp
  ultimately have top: "frame_held S fpoll r ar ?k (FIrq kind (c ?g @ ops) None)" by (auto simp: list_all_iff)
  have "list_all (frame_held S fpoll r ar ?k) rest"
    using I(3) frame_held_app [OF _ I(1)] a by (auto simp: list_all_iff)
  moreover have "continued S fpoll r ?k (FIrq kind (c ?g @ ops) None # rest) t" if t: "t \<in> ds_tasks S" for t
  proof -
    have e: "length (filter (wakes t) (c ?g)) + entries_of S (u ?g) t = entries_of S ?g t" using a t by blast
    then have "rests S fpoll ?k t" if "rests S fpoll k t"
      using a by (intro rests_app [OF that I(1)]) auto
    then show ?thesis using e I(4) [OF t]
      by (auto simp: continued_def task_spawned_def homed_def)
  qed
  ultimately show ?thesis using a I(2,5) top by (auto simp: delay_inv_def no_joiner_def)
qed

section \<open>The handler's steps\<close>

lemma held_one:
  assumes inv: "delay_inv S fpoll r ar k (fr # rest)" and t: "t \<in> ds_tasks S" and d: "0 < frame_duty t r fr"
  shows "\<not> flagged k t" "entries_of S (k_app k) t = 0" "duty t r rest = 0" "task_spawned k t" "frame_duty t r fr = 1"
proof -
  have "frame_duty t r fr + duty t r rest + of_bool (flagged k t) + entries_of S (k_app k) t = of_bool (task_spawned k t)"
    using delay_invD(4) [OF inv t] by (simp add: continued_def)
  then show "\<not> flagged k t" "entries_of S (k_app k) t = 0" "duty t r rest = 0" "task_spawned k t" "frame_duty t r fr = 1"
    using d by (cases "flagged k t"; cases "task_spawned k t"; simp)+
qed

lemma delay_irq:
  assumes inv: "delay_inv S fpoll r ar k (FIrq kind ops st # rest)" and step: "step_irq V L kind ops st k = Inr (frs, k')"
  shows "delay_inv S fpoll r ar k' (frs @ rest)"
proof -
  note I = delay_invD [OF inv]
  have held: "list_all (op_held S k) ops" "stage_held S k st" using I(3) by simp_all
  show ?thesis
  proof (cases st)
    case (Some st0)
    then obtain st' where st': "step_stage V L st0 k = Inr (st', k')" "frs = [FIrq kind ops st']"
      using step by (auto simp: rbind_Inr_iff)
    have one: "\<forall>t\<in>ds_tasks S. stage_duty t (Some st0) = 1 \<longrightarrow> \<not> flagged k t"
      using held_one(1) [OF inv] Some by simp
    note s = stage_ok_delay [OF st'(1) held(2) [unfolded Some] I(2) one]
    have ops: "list_all (op_held S k') ops" using held(1) s(3) by (fastforce simp: list_all_iff op_held_def)
    have "passes_on S fpoll r k k' (FIrq kind ops st) frs t" if "t \<in> ds_tasks S" for t
      using s(4) [OF that] unfolding passes_on_def stage_passes_def st'(2) Some by auto
    then show ?thesis using s(1,2) ops st'(2) app_stage [OF st'(1)]
      by (intro delay_inv_pass [OF inv _ s(3)]) auto
  next
    case None
    show ?thesis
    proof (cases ops)
      case Nil
      then have "k' = k" "list_all (frame_held S fpoll r ar k) frs" "\<And>t. duty t r frs = 0" "\<not> timer_poll S (FIrq kind ops st)"
          "\<And>t. \<not> list_ex (busy t) frs" "pushing frs = {#}"
        using step None by (cases kind; auto)+
      then show ?thesis using I(2) None Nil
        by (intro delay_inv_pass [OF inv]) (auto simp: passes_on_def)
    next
      case (Cons op ops')
      show ?thesis
      proof (cases op)
        case (IsrWake v)
        then have k': "k' = k" "frs = [FIrq kind ops' (Some (W_Load v))]" using step None Cons by simp_all
        moreover have "homed S k v" using held(1) Cons IsrWake by (auto simp: op_held_def delay_op_simps homed_def)
        ultimately show ?thesis using I(2) None Cons IsrWake held(1)
          by (intro delay_inv_pass [OF inv]) (auto simp: passes_on_def)
      next
        case (IsrSpawn u f p)
        then obtain ok st' where s: "begin_spawn u f p k = Inr (ok, st', k')" "frs = [FIrq kind ops' st']"
          using step None Cons by (auto simp: rbind_Inr_iff)
        have may: "may_spawn S u f p" using held(1) Cons IsrSpawn by (auto simp: op_held_def delay_op_simps)
        note b = spawn_ok_delay [OF s(1) may inv]
        have ops: "list_all (op_held S k') ops'" using held(1) b(3) Cons by (fastforce simp: list_all_iff op_held_def)
        have "passes_on S fpoll r k k' (FIrq kind ops st) frs t" if "t \<in> ds_tasks S" for t
          using b(5) b(6) [OF that] unfolding passes_on_def s(2) None Cons IsrSpawn by auto
        then show ?thesis using b ops s(2) by (intro delay_inv_pass [OF inv _ b(3)]) auto
      next
        case (IsrAccess u c)
        then have "k' = k\<lparr>k_app := u (k_app k)\<rparr>" "frs = [FIrq kind (c (k_app k) @ ops') None]"
          using step None Cons by simp_all
        then show ?thesis using delay_inv_op inv None Cons IsrAccess by simp
      qed
    qed
  qed
qed

section \<open>The steps of a poll\<close>

text \<open>The tasks run on one executor, so that one of them at most is being polled.\<close>

lemma actives_member: "fr \<in> set stk \<Longrightarrow> active fr = Some e \<Longrightarrow> e \<in> set (actives stk)"
  by (induction stk) (auto split: option.splits)

lemma no_other_poll:
  assumes inv: "sched_inv V L n k (fr # rest)" and act: "active fr = Some (ds_exec S)"
    and held: "list_all (frame_held S fpoll r ar k) rest"
  shows "\<not> list_ex (timer_poll S) rest"
proof
  assume "list_ex (timer_poll S) rest"
  then obtain f where f: "f \<in> set rest" "timer_poll S f" by (auto simp: list_ex_iff)
  have "frame_held S fpoll r ar k f" using f(1) held by (simp add: list_all_iff)
  then have "active f = Some (ds_exec S)" using f(2) by (cases f) (simp_all add: aimed_at_def)
  then have "ds_exec S \<in> set (actives rest)" using f(1) actives_member by blast
  moreover have "sorted_wrt (<) (actives (fr # rest))" using sched_invD(2) [OF inv] by (simp add: stack_inv_def)
  ultimately show False using act by auto
qed

lemma held_no_poll:
  assumes "frame_held S fpoll r ar k fr" "\<not> timer_poll S fr"
  shows "frame_held S fpoll r' ar' (k\<lparr>k_app := g\<rparr>) fr"
proof -
  have h: "homed S (k\<lparr>k_app := g\<rparr>) t = homed S k t" for t by (simp add: homed_def)
  have "stage_held S (k\<lparr>k_app := g\<rparr>) st = stage_held S k st" for st
    by (cases "(S, k, st)" rule: stage_held.cases) (simp_all add: h)
  then show ?thesis using assms by (cases fr) (auto simp: h)
qed

lemma duty_no_poll: "t \<in> ds_tasks S \<Longrightarrow> \<not> list_ex (timer_poll S) stk \<Longrightarrow> duty t r stk = duty t r' stk"
proof (induction stk)
  case (Cons fr stk)
  then show ?case by (cases fr) auto
qed simp

lemma room_left:
  assumes progs: "delay_programs S fpoll" and inv: "delay_inv S fpoll r ar k stk"
    and t: "t \<in> ds_tasks S" and none: "entries_of S (k_app k) t = 0"
  shows "length (entries (k_app k)) < 16"
proof -
  let ?T = "ds_tasks S" and ?h = "\<lambda>x. ds_home S (te_data x)" and ?g = "k_app k"
  have fin: "finite ?T" "card ?T \<le> 16" using progs by (simp_all add: delay_programs_def)
  have sum: "size M = (\<Sum>u\<in>?T. size {#x \<in># M. ?h x = u#})" if "\<forall>x\<in>#M. ?h x \<in> ?T" for M :: "(timer_callback, nat) timer_entry multiset"
    using that
  proof (induction M)
    case (add x M)
    have "size {#y \<in># add_mset x M. ?h y = u#} = (if u = ?h x then 1 else 0) + size {#y \<in># M. ?h y = u#}" for u by simp
    then show ?case using add fin(1) by (simp add: sum.distrib sum.delta')
  qed simp
  have "\<forall>x\<in>set (entries ?g). ?h x \<in> ?T" using delay_invD(1) [OF inv] by (simp add: delays_linked_def)
  then have "length (entries ?g) = (\<Sum>u\<in>?T. entries_of S ?g u)" using sum [of "mset (entries ?g)"] by (simp add: entries_of_def)
  also have "\<dots> = (\<Sum>u\<in>?T - {t}. entries_of S ?g u)" using none by (simp add: sum.remove [OF fin(1) t])
  also have "\<dots> \<le> (\<Sum>u\<in>?T - {t}. 1)"
  proof (rule sum_mono)
    fix u assume "u \<in> ?T - {t}"
    then have "continued S fpoll r k stk u" using delay_invD(4) [OF inv] by blast
    then show "entries_of S ?g u \<le> 1" by (cases "task_spawned k u") (simp_all add: continued_def)
  qed
  also have "\<dots> = card ?T - 1" using fin(1) t by simp
  also have "\<dots> < 16" using fin t card_gt_0_iff [of ?T] by auto
  finally show ?thesis .
qed

lemma delay_own_access:
  assumes progs: "delay_programs S fpoll" and sched: "sched_inv V L n k (FPoll e t None (Access u c) # rest)"
    and inv: "delay_inv S fpoll r ar k (FPoll e t None (Access u c) # rest)" and t: "t \<in> ds_tasks S"
  shows "\<exists>r ar. delay_inv S fpoll r ar (k\<lparr>k_app := u (k_app k)\<rparr>) (FPoll e t None (c (k_app k)) # rest)"
proof -
  let ?g = "k_app k" and ?k = "k\<lparr>k_app := u (k_app k)\<rparr>"
  note I = delay_invD [OF inv]
  have top: "aimed_at S e t" "homed S k t" "delay_at S fpoll t ?g (Access u c) r ar" using I(3) t by simp_all
  have none: "r \<Longrightarrow> entries_of S ?g t = 0" using held_one(2) [OF inv t] by simp
  have other: "\<not> list_ex (timer_poll S) rest"
    by (rule no_other_poll [OF sched, of S fpoll r ar]) (use I(3) top(1) t in \<open>simp_all add: aimed_at_def\<close>)
  obtain r' ar' where own: "own_step S fpoll t ?g r ar (u ?g) (c ?g) r' ar'"
    using own_access [OF top(3) t I(1) none room_left [OF progs inv t none]] by blast
  have "list_all (frame_held S fpoll r' ar' ?k) rest"
    using I(3) other held_no_poll by (fastforce simp: list_all_iff list_ex_iff)
  moreover have "frame_held S fpoll r' ar' ?k (FPoll e t None (c ?g))"
    using own top(1,2) t by (simp add: own_step_def homed_def)
  moreover have "continued S fpoll r' ?k (FPoll e t None (c ?g) # rest) v" if v: "v \<in> ds_tasks S" for v
  proof (cases "v = t")
    case True
    then show ?thesis using I(4) [OF v] own top(2) duty_no_poll [OF v other, of r r']
      by (auto simp: continued_def own_step_def task_spawned_def homed_def)
  next
    case False
    then have o: "entries_of S (u ?g) v = entries_of S ?g v" "others S v ?g (u ?g)" using own by (simp_all add: own_step_def)
    have "rests S fpoll ?k v" if "rests S fpoll k v"
      using o by (intro rests_app [OF that I(1)]) simp_all
    then show ?thesis using I(4) [OF v] o(1) False duty_no_poll [OF v other, of r r']
      by (auto simp: continued_def task_spawned_def homed_def)
  qed
  moreover have "armed TIMER_QUEUE (tm_timer ?g) \<or> ar" using I(5) by blast
  ultimately show ?thesis
    using own I(2) t by (intro exI [of _ r'] exI [of _ ar']) (auto simp: delay_inv_def own_step_def no_joiner_def)
qed

lemma same_timer_inv:
  assumes inv: "delay_inv S fpoll r ar k (fr # rest)" and g: "same_timer (k_app k) g"
    and fr: "frame_held S fpoll r ar (k\<lparr>k_app := g\<rparr>) fr'" "timer_poll S fr' = timer_poll S fr"
      "\<And>t. t \<in> ds_tasks S \<Longrightarrow> frame_duty t r fr' = frame_duty t r fr \<and> busy t fr' = busy t fr"
      "pusher (frame_stage fr') = pusher (frame_stage fr)"
  shows "delay_inv S fpoll r ar (k\<lparr>k_app := g\<rparr>) (fr' # rest)"
proof -
  note I = delay_invD [OF inv]
  have g': "tm_timer g = tm_timer (k_app k)" "tm_now g = tm_now (k_app k)" using g by (simp_all add: same_timer_def)
  have "list_all (frame_held S fpoll r ar (k\<lparr>k_app := g\<rparr>)) rest"
    using I(3) frame_held_app [OF _ I(1) others_same [OF g]] g'(1) by (auto simp: list_all_iff)
  moreover have "rests S fpoll (k\<lparr>k_app := g\<rparr>) t" if "rests S fpoll k t" for t
    by (rule rests_app [OF that I(1) others_same [OF g]]) (simp add: entries_of_def g')
  then have "continued S fpoll r (k\<lparr>k_app := g\<rparr>) (fr' # rest) t" if "t \<in> ds_tasks S" for t
    using I(4) [OF that] fr(3) [OF that] fr(4)
    by (auto simp: continued_def entries_of_def g' task_spawned_def homed_def)
  ultimately show ?thesis using I fr(1,2) g' by (auto simp: delay_inv_def delays_linked_def no_joiner_def)
qed

lemma delay_poll_stage:
  assumes inv: "delay_inv S fpoll r ar k (FPoll e t (Some st) p # rest)" and step: "step_stage V L st k = Inr (st', k')"
  shows "delay_inv S fpoll r ar k' (FPoll e t st' p # rest)"
proof -
  note I = delay_invD [OF inv]
  have held: "stage_held S k (Some st)" using I(3) by simp
  have one: "\<forall>v\<in>ds_tasks S. stage_duty v (Some st) = 1 \<longrightarrow> \<not> flagged k v"
    using held_one(1) [OF inv] by simp
  note s = stage_ok_delay [OF step held I(2) one]
  have "passes_on S fpoll r k k' (FPoll e t (Some st) p) [FPoll e t st' p] v" if "v \<in> ds_tasks S" for v
    using s(4) [OF that] unfolding passes_on_def stage_passes_def by auto
  then have "delay_inv S fpoll r ar k' ([FPoll e t st' p] @ rest)"
    using s(1,2) I(3) s(3) app_stage [OF step] by (intro delay_inv_pass [OF inv _ s(3)]) auto
  then show ?thesis by simp
qed

lemma delay_poll_spawn:
  assumes inv: "delay_inv S fpoll r ar k (FPoll e t None (Spawn u f prio c) # rest)"
    and step: "begin_spawn u f prio k = Inr (ok, st', k')" and may: "may_spawn S u f prio"
    and p: "frame_held S fpoll r ar k (FPoll e t None (c ok))"
  shows "delay_inv S fpoll r ar k' (FPoll e t st' (c ok) # rest)"
proof -
  note I = delay_invD [OF inv]
  note b = spawn_ok_delay [OF step may inv]
  have "passes_on S fpoll r k k' (FPoll e t None (Spawn u f prio c)) [FPoll e t st' (c ok)] v" if "v \<in> ds_tasks S" for v
    using b(5) b(6) [OF that] unfolding passes_on_def by auto
  then have "delay_inv S fpoll r ar k' ([FPoll e t st' (c ok)] @ rest)"
    using b p by (intro delay_inv_pass [OF inv _ b(3)]) auto
  then show ?thesis by simp
qed

lemma delay_poll:
  assumes progs: "delay_programs S fpoll" and sched: "sched_inv V L n k (FPoll e t st p # rest)"
    and inv: "delay_inv S fpoll r ar k (FPoll e t st p # rest)" and ok: "ti_poll_fn (k_tasks k t) = Some PollStorage"
    and step: "step_poll V L e t st p k = Inr (frs, k')"
  shows "\<exists>r ar. delay_inv S fpoll r ar k' (frs @ rest)"
proof -
  note I = delay_invD [OF inv]
  have top: "aimed_at S e t" "homed S k t" "if t \<in> ds_tasks S then delay_at S fpoll t (k_app k) p r ar else quiet_prog S p"
    using I(3) by simp_all
  show ?thesis
  proof (cases st)
    case (Some st0)
    then show ?thesis using delay_poll_stage inv step by (fastforce simp: rbind_Inr_iff)
  next
    case None
    have pass: "\<exists>r ar. delay_inv S fpoll r ar k' (frs @ rest)"
      if "k_app k' = k_app k" "\<And>u. homed S k u \<Longrightarrow> homed S k' u" "no_joiner S k'" "list_all (frame_held S fpoll r ar k') frs"
        "t \<in> ds_tasks S \<Longrightarrow> ar \<Longrightarrow> list_ex (timer_poll S) frs"
        "\<And>u. u \<in> ds_tasks S \<Longrightarrow> passes_on S fpoll r k k' (FPoll e t st p) frs u"
      using delay_inv_pass [OF inv that(1-4) _ that(6)] that(5) by auto
    show ?thesis
    proof (cases p)
      case (Ready out)
      then have "k' = k" "frs = [FReady e t out]" using step None by simp_all
      then show ?thesis using top I(2) None Ready
        by (intro pass) (auto simp: delay_at_simps passes_on_def split: if_splits)
    next
      case (Pending f)
      then have k': "k' = upd_task t (\<lambda>i. i\<lparr>ts_f := Init f\<rparr>) k" "frs = [FLoop e]" using step None by simp_all
      have same: "flagged k' u = flagged k u" "task_spawned k' u = task_spawned k u" "homed S k' u = homed S k u"
          "ti_poll_fn (k_tasks k' u) = ti_poll_fn (k_tasks k u)" "ts_f (k_tasks k' u) = (if u = t then Init f else ts_f (k_tasks k u))"
          "k_app k' = k_app k" for u
        by (simp_all add: k' flagged_def task_spawned_def homed_def app_simps)
      have "rests S fpoll k' t" if "t \<in> ds_tasks S"
        using that top(3) Pending ok by (simp add: rests_def same delay_at_simps)
      moreover have "no_joiner S k'" using I(2) by (simp add: no_joiner_def k'(1))
      moreover have "t \<in> ds_tasks S \<Longrightarrow> \<not> r \<and> \<not> ar" using top(3) Pending by (simp add: delay_at_simps)
      ultimately show ?thesis
        using None Pending same(6) by (intro pass) (auto simp: passes_on_def same(1-5) k'(2))
    next
      case (Wake v p')
      then have k': "k' = k" "frs = [FPoll e t (Some (W_Load v)) p']" using step None by simp_all
      have "v \<notin> ds_tasks S" "if t \<in> ds_tasks S then delay_at S fpoll t (k_app k) p' r ar else quiet_prog S p'"
        using top(3) Wake by (auto simp: delay_at_simps intro: at_run split: if_splits)
      then show ?thesis using top I(2) None Wake k'
        by (intro pass) (auto simp: passes_on_def homed_def)
    next
      case (Spawn u f prio c)
      then obtain ok' st' where s: "begin_spawn u f prio k = Inr (ok', st', k')" "frs = [FPoll e t st' (c ok')]"
        using step None by (auto simp: rbind_Inr_iff)
      have "may_spawn S u f prio" "frame_held S fpoll r ar k (FPoll e t None (c ok'))"
        using top Spawn by (auto simp: delay_at_simps intro: at_run split: if_splits)
      then show ?thesis using delay_poll_spawn [OF inv [unfolded None Spawn] s(1)] s(2) by auto
    next
      case (Join u c)
      have t: "t \<notin> ds_tasks S" using top(3) Join by (auto simp: delay_at_simps split: if_splits)
      obtain st' x where s: "frs = [FPoll e t st' (c x)]" "st' = None \<or> st' = Some (J_Store u (waker_from_task t))"
          "k' = snd (join_take u k)"
        using step None Join by (auto simp: join_take_def split: option.splits)
      have k': "k_app k' = k_app k" "homed S k' v = homed S k v" "flagged k' v = flagged k v" "task_spawned k' v = task_spawned k v"
          "ti_poll_fn (k_tasks k' v) = ti_poll_fn (k_tasks k v)" "ts_f (k_tasks k' v) = ts_f (k_tasks k v)" "no_joiner S k'" for v
        using I(2) by (auto simp: s(3) join_take_def app_simps homed_def flagged_def task_spawned_def no_joiner_def)
      have "stage_held S k' st'" "pusher st' = {#}" "\<And>v. stage_duty v st' = 0" using s(2) t by (auto simp: waker_from_task_def)
      then show ?thesis using top t None Join k' s(1) by (intro pass) (auto simp: passes_on_def)
    next
      case (Access u c)
      then have k': "k' = k\<lparr>k_app := u (k_app k)\<rparr>" "frs = [FPoll e t None (c (k_app k))]" using step None by simp_all
      show ?thesis
      proof (cases "t \<in> ds_tasks S")
        case True
        then show ?thesis using delay_own_access [OF progs _ _ True] sched inv None Access k' by simp
      next
        case False
        then have "same_timer (k_app k) (u (k_app k))" "quiet_prog S (c (k_app k))" using top(3) Access by simp_all
        then have "delay_inv S fpoll r ar k' (FPoll e t None (c (k_app k)) # rest)"
          unfolding k'(1) by (intro same_timer_inv [OF inv]) (use top False None in \<open>auto simp: homed_def\<close>)
        then show ?thesis using k'(2) by auto
      qed
    qed
  qed
qed

section \<open>The steps of the scheduler\<close>

text \<open>Activations that hold no task and touch none.\<close>

lemma delay_inv_tasks:
  fixes k k' :: "('q, 's) timer_kernel"
  assumes inv: "delay_inv S fpoll r ar k (fr # rest)" and k: "k_tasks k' = k_tasks k" "k_app k' = k_app k"
    and fr: "polled fr = None" "frame_stage fr = None" "\<And>t. frame_duty t r fr = 0" "\<not> timer_poll S fr"
    and frs: "\<And>f. f \<in> set frs \<Longrightarrow> polled f = None \<and> frame_stage f = None \<and> (\<forall>t. frame_duty t r f = 0) \<and> frame_held S fpoll r ar k' f"
  shows "delay_inv S fpoll r ar k' (frs @ rest)"
proof -
  have no: "duty t r frs = 0" "\<not> list_ex (busy t) frs" "pushing frs = {#}" "\<not> busy t fr" for t
  proof -
    show "duty t r frs = 0" using frs by (induction frs) auto
    have "\<not> busy t f" if "polled f = None" for f :: timer_frame using that by (cases f) auto
    then show "\<not> list_ex (busy t) frs" "\<not> busy t fr" using frs fr(1) by (auto simp: list_ex_iff)
    show "pushing frs = {#}" using frs by (induction frs) auto
  qed
  have "passes_on S fpoll r k k' fr frs t" for t
    using no fr(2,3) k by (simp add: passes_on_def flagged_def task_spawned_def)
  then show ?thesis using frs delay_invD(2) [OF inv] k fr(4)
    by (intro delay_inv_pass [OF inv]) (auto simp: homed_def no_joiner_def list_all_iff)
qed

lemma busy_once:
  assumes "distinct (map snd (polls (fr # rest)))" "polled fr = Some (e, t)"
  shows "\<not> list_ex (busy t) rest"
proof
  assume "list_ex (busy t) rest"
  then obtain f where f: "f \<in> set rest" "busy t f" by (auto simp: list_ex_iff)
  have "\<exists>e'. polled f = Some (e', t)" using f(2) by (cases f) auto
  then obtain e' where "polled f = Some (e', t)" ..
  then show False using polls_unique [OF assms, of e' t] polled_in_polls [OF f(1)] by simp
qed

lemma delay_loop:
  assumes rt: "runtime V n L" and sched: "sched_inv V L n k (FLoop e # rest)" and tasks: "task_inv L n k (FLoop e # rest)"
    and inv: "delay_inv S fpoll r ar k (FLoop e # rest)" and step: "step_frame V L fpoll (FLoop e) k = Inr (frs, k')"
  shows "delay_inv S fpoll r ar k' (frs @ rest)"
proof -
  note I = sched_invD [OF sched] and D = delay_invD [OF inv]
  have e: "e < n" using I(2) by (simp add: stack_inv_def)
  have app: "k_app k' = k_app k"
    using step by (auto simp: rbind_Inr_iff dest: app_run_next split: option.splits)
  show ?thesis
  proof (cases rule: runtime.run_next_ok [OF rt I(1) e, case_names task empty])
    case (task t k2)
    then have s: "frs = [FGot e t]" "k_tasks k' = (k_tasks k)(t := (k_tasks k t)\<lparr>ti_state := state_run_dequeue (ti_state (k_tasks k t))\<rparr>)"
      using step by auto
    have q: "t \<in> set (queue L k e)" using task(2) by simp
    then have "t \<in># queued L n k" using e by (auto simp: in_queued)
    then have pos: "0 < count (queued L n k) t" by (simp add: count_greater_zero_iff)
    have sum: "count (queued L n k) t + count (pushing (FLoop e # rest)) t = (if flagged k t then 1 else 0)"
      using I(3) unfolding queue_inv_def by (metis count_union)
    have "flagged k t" using sum pos by (cases "flagged k t") simp_all
    moreover from this have "count (queued L n k) t + count (pushing (FLoop e # rest)) t = 1" using sum by simp
    with pos have "count (pushing (FLoop e # rest)) t = 0" by linarith
    ultimately have f: "flagged k t" "t \<notin># pushing (FLoop e # rest)" by (simp_all only: not_in_iff)
    have home: "homed S k t" "aimed_at S e t"
    proof -
      show h: "homed S k t"
      proof (cases "t \<in> ds_tasks S")
        case True
        then show ?thesis using D(4) [OF True] f by (simp add: continued_def)
      qed (simp add: homed_def)
      have "(e, t) \<in> queue_set L n k" using q e by (simp add: queue_set_def)
      then show "aimed_at S e t"
        using h agreeD [OF task_invD(4) [OF tasks]] by (auto simp: aimed_at_def homed_def ptr_set_def)
    qed
    have "passes_on S fpoll r k k' (FLoop e) frs u" for u
      using f(1) by (auto simp: passes_on_def s flagged_def task_spawned_def)
    then show ?thesis using home D(2) app
      by (intro delay_inv_pass [OF inv]) (auto simp: s homed_def no_joiner_def)
  next
    case (empty k2)
    then have "frs = [FRunEnd e]" "k_tasks k' = k_tasks k" using step by auto
    then show ?thesis using app by (intro delay_inv_tasks [OF inv]) auto
  qed
qed

lemma delay_got:
  assumes progs: "delay_programs S fpoll" and sched: "sched_inv V L n k (FGot e t # rest)"
    and one: "distinct (map snd (polls (FGot e t # rest)))"
    and inv: "delay_inv S fpoll r ar k (FGot e t # rest)" and step: "step_frame V L fpoll (FGot e t) k = Inr (frs, k')"
  shows "\<exists>r ar. delay_inv S fpoll r ar k' (frs @ rest)"
proof -
  note D = delay_invD [OF inv]
  have home: "aimed_at S e t" "homed S k t" using D(3) by simp_all
  have k': "k' = k" using step by (auto simp: rbind_Inr_iff split: option.splits poll_fn.splits)
  have alone: "\<not> list_ex (busy t) rest" by (rule busy_once [OF one]) simp
  show ?thesis
  proof (cases "t \<in> ds_tasks S")
    case False
    then have "delay_inv S fpoll r ar k (frs @ rest)"
      using step D(2) home progs k'
      by (intro delay_inv_pass [OF inv]) (auto simp: passes_on_def delay_programs_def rbind_Inr_iff split: option.splits poll_fn.splits)
    then show ?thesis using k' by blast
  next
    case True
    note d = held_one [OF inv True, simplified]
    have "rests S fpoll k t" using D(4) [OF True] d(4) alone by (simp add: continued_def)
    then obtain f where f: "ts_f (k_tasks k t) = Init f" "ti_poll_fn (k_tasks k t) = Some PollStorage"
        "waits_at S fpoll t f (k_app k) \<or> ds_start S t f" by (auto simp: rests_def)
    then have frs: "frs = [FPoll e t None (fpoll t f)]" using step by (auto simp: rbind_Inr_iff cell_as_mut_def)
    have at: "delay_at S fpoll t (k_app k) (fpoll t f) True False"
      using f(3)
    proof
      assume "waits_at S fpoll t f (k_app k)"
      then obtain a c d where w: "ds_home S a = t" "fpoll t f = do_poll_delay a t f c" "runs S fpoll t c"
          "waiting_on S t a d (k_app k)" by (auto simp: waits_at_def)
      then have "a \<notin> te_data ` set (entries (k_app k))" using d(2) by (auto simp: no_entries)
      then have "delays (k_app k) a = Some d" "td_deadline d \<le> tm_now (k_app k)" using w(4) by (auto simp: waiting_on_def)
      then show ?thesis using at_poll [OF w(1-3)] w(2) by simp
    next
      assume "ds_start S t f"
      then show ?thesis using progs True by (auto simp: delay_programs_def intro: at_run)
    qed
    have other: "\<not> list_ex (timer_poll S) rest"
      by (rule no_other_poll [OF sched, of S fpoll r ar]) (use D(3) home True in \<open>simp_all add: aimed_at_def\<close>)
    have "k\<lparr>k_app := k_app k\<rparr> = k" by simp
    then have "list_all (frame_held S fpoll True False k) rest"
      using D(3) other held_no_poll [of S fpoll r ar k _ True False "k_app k"] by (auto simp: list_all_iff list_ex_iff)
    moreover have "continued S fpoll True k (frs @ rest) u" if "u \<in> ds_tasks S" for u
      using D(4) [OF that] duty_no_poll [OF that other, of r True] by (auto simp: continued_def frs)
    ultimately have "delay_inv S fpoll True False k (frs @ rest)"
      using D(1,2,5) at home other True by (simp add: delay_inv_def frs)
    then show ?thesis using k' by blast
  qed
qed

section \<open>The end of a task\<close>

lemma wake_task_other:
  assumes "wake_task L v k = Inr k'"
  shows "u \<noteq> v \<Longrightarrow> k_tasks k' u = k_tasks k u" "js_waker (k_tasks k' u) = js_waker (k_tasks k u)"
proof -
  show "js_waker (k_tasks k' u) = js_waker (k_tasks k u)"
    using wake_task_core [OF assms, of u] by (simp add: task_core_def)
  show "k_tasks k' u = k_tasks k u" if "u \<noteq> v"
    using assms that
    by (auto simp: wake_task_def executor_enqueue_eq fetch_enqueue_eq rbind_Inr_iff
      dest!: enqueue_locked_tasks pend_tasks split: option.splits if_splits)
qed

text \<open>An activation that has no duty for \<open>t\<close>, and does not poll it, does not need its executor.\<close>

lemma held_forget:
  assumes held: "frame_held S fpoll r ar k fr" and t: "frame_duty t r fr = 0" "\<not> busy t fr"
    and k': "k_app k' = k_app k" "\<And>u. u \<noteq> t \<Longrightarrow> ti_executor_ptr (k_tasks k' u) = ti_executor_ptr (k_tasks k u)"
  shows "frame_held S fpoll r ar k' fr"
proof -
  have h: "u \<noteq> t \<Longrightarrow> homed S k' u = homed S k u" for u using k'(2) by (simp add: homed_def)
  have st: "stage_held S k st \<Longrightarrow> stage_duty t st = 0 \<Longrightarrow> stage_held S k' st" for st
    using h by (cases "(S, k, st)" rule: stage_held.cases) (auto split: if_splits)
  have op: "op_held S k op \<Longrightarrow> \<not> wakes t op \<Longrightarrow> op_held S k' op" for op
    using h by (auto simp: op_held_def)
  show ?thesis
    using held t st h k'(1) by (cases fr) (auto simp: list_all_iff filter_empty_conv intro: op split: if_splits)
qed

lemma duty_none: "duty t r stk = 0 \<Longrightarrow> fr \<in> set stk \<Longrightarrow> frame_duty t r fr = 0"
  by (induction stk) auto

lemma delay_null:
  assumes one: "distinct (map snd (polls (FNull e t # rest)))" and inv: "delay_inv S fpoll r ar k (FNull e t # rest)"
  shows "delay_inv S fpoll r ar (poll_clear_executor t k) (FDrop e t # rest)"
proof -
  let ?k = "poll_clear_executor t k"
  note D = delay_invD [OF inv]
  have k': "k_app ?k = k_app k" "flagged ?k u = flagged k u" "task_spawned ?k u = task_spawned k u"
      "js_waker (k_tasks ?k u) = js_waker (k_tasks k u)" "ti_poll_fn (k_tasks ?k u) = ti_poll_fn (k_tasks k u)"
      "ts_f (k_tasks ?k u) = ts_f (k_tasks k u)" "u \<noteq> t \<Longrightarrow> ti_executor_ptr (k_tasks ?k u) = ti_executor_ptr (k_tasks k u)" for u
    by (simp_all add: poll_clear_executor_def app_simps flagged_def task_spawned_def)
  have h: "u \<noteq> t \<or> u \<notin> ds_tasks S \<Longrightarrow> homed S ?k u = homed S k u" for u
    using k'(7) [of u] by (cases "u = t") (simp_all add: homed_def)
  have busy: "\<not> list_ex (busy t) rest" by (rule busy_once [OF one]) simp
  have "frame_held S fpoll r ar ?k f" if f: "f \<in> set rest" for f
  proof -
    have held: "frame_held S fpoll r ar k f" using D(3) f by (simp add: list_all_iff)
    show ?thesis
    proof (cases "t \<in> ds_tasks S")
      case True
      have "frame_duty t r f = 0" by (rule duty_none [OF held_one(3) [OF inv True] f]) simp
      then show ?thesis using busy f by (intro held_forget [OF held _ _ k'(1,7)]) (auto simp: list_ex_iff)
    next
      case False
      then show ?thesis using h by (intro frame_held_mono [OF held _ k'(1)]) (metis)
    qed
  qed
  moreover have "continued S fpoll r ?k (FDrop e t # rest) u" if u: "u \<in> ds_tasks S" for u
  proof (cases "u = t")
    case True
    then show ?thesis using held_one [OF inv u] D(4) [OF u] k' by (simp add: continued_def)
  next
    case False
    then show ?thesis using D(4) [OF u] k' h [of u] rests_cong [OF k'(1) k'(5,6)] by (simp add: continued_def)
  qed
  ultimately show ?thesis using D(1-3,5) k'(1,4) by (simp add: delay_inv_def no_joiner_def list_all_iff)
qed

lemma delay_despawn:
  assumes inv: "delay_inv S fpoll r ar k (FDespawn e t # rest)" and step: "poll_despawn L t k = Inr k'"
  shows "delay_inv S fpoll r ar k' (FLoop e # rest)"
proof -
  let ?k1 = "put_state t (state_despawn (ti_state (k_tasks k t))) k"
  note D = delay_invD [OF inv]
  have w: "(\<forall>u\<in>ds_tasks S. u \<noteq> t \<longrightarrow> k_tasks k' u = k_tasks k u) \<and> no_joiner S k'
    \<and> (t \<in> ds_tasks S \<longrightarrow> \<not> task_spawned k' t \<and> flagged k' t = flagged k t \<and> ti_executor_ptr (k_tasks k' t) = ti_executor_ptr (k_tasks k t))"
  proof (cases "js_waker (k_tasks k t)")
    case None
    then have "k' = ?k1" using step by (simp add: poll_despawn_def)
    then show ?thesis using D(2) by (auto simp: no_joiner_def task_spawned_def flagged_def)
  next
    case (Some v)
    then have v: "wake_task L v (upd_task t (\<lambda>i. i\<lparr>js_waker := None\<rparr>) ?k1) = Inr k'" "v \<notin> ds_tasks S"
      using step D(2) by (auto simp: poll_despawn_def waker_wake_def no_joiner_def)
    note o = wake_task_other [OF v(1)]
    have "no_joiner S k'" using D(2) unfolding no_joiner_def o(2) by simp
    moreover have "k_tasks k' u = k_tasks (upd_task t (\<lambda>i. i\<lparr>js_waker := None\<rparr>) ?k1) u" if "u \<in> ds_tasks S" for u
      using that v(2) by (intro o(1)) blast
    ultimately show ?thesis by (simp add: task_spawned_def flagged_def)
  qed
  have home: "homed S k' u = homed S k u" for u
    using w by (cases "u \<in> ds_tasks S"; cases "u = t") (auto simp: homed_def)
  have "passes_on S fpoll r k k' (FDespawn e t) [FLoop e] u" if u: "u \<in> ds_tasks S" for u
  proof (cases "u = t")
    case True
    have "task_spawned k t" using held_one(4) [OF inv] u True by simp
    then show ?thesis using w u True by (simp add: passes_on_def)
  next
    case False
    then have "k_tasks k' u = k_tasks k u" using w u by blast
    then show ?thesis using False by (simp add: passes_on_def task_spawned_def flagged_def)
  qed
  then have "delay_inv S fpoll r ar k' ([FLoop e] @ rest)"
    using w home app_despawn [OF step] by (intro delay_inv_pass [OF inv]) auto
  then show ?thesis by simp
qed

section \<open>Every step\<close>

lemma delay_frame:
  assumes rt: "runtime V n L" and progs: "delay_programs S fpoll" and sched: "sched_inv V L n k (fr # rest)"
    and tasks: "task_inv L n k (fr # rest)" and inv: "delay_inv S fpoll r ar k (fr # rest)"
    and step: "step_frame V L fpoll fr k = Inr (frs, k')"
  shows "\<exists>r ar. delay_inv S fpoll r ar k' (frs @ rest)"
proof -
  note D = delay_invD [OF inv] and one = task_invD(1) [OF tasks]
  show ?thesis
  proof (cases fr)
    case (FIrq kind ops st)
    then show ?thesis using delay_irq inv step by fastforce
  next
    case FClear
    then have "k_tasks k' = k_tasks k" "k_app k' = k_app k" "frs \<in> {[FSched], []}"
      using step app_pend(3) by (auto simp: rbind_Inr_iff clear_pend_def Let_def ipi_clear_def split: option.splits ipi_dev.splits if_splits)
    then have "delay_inv S fpoll r ar k' (frs @ rest)"
      using FClear by (intro delay_inv_tasks [OF inv]) auto
    then show ?thesis by blast
  next
    case FSched
    obtain rtk k2 where pre: "try_preempt V k = Inr (rtk, k2)" using step FSched by (auto simp: rbind_Inr_iff)
    have "k' = k2 \<and> (frs = [] \<or> (\<exists>e. frs = [FLoop e]))"
    proof (cases rtk)
      case (Some y)
      then show ?thesis using step pre FSched by (cases y) (auto split: if_splits)
    qed (use step pre FSched in simp)
    then have "k_tasks k' = k_tasks k" "k_app k' = k_app k" "frs = [] \<or> (\<exists>e. frs = [FLoop e])"
      using preempt_tasks [OF pre] app_preempt [OF pre] by auto
    then have "delay_inv S fpoll r ar k' (frs @ rest)"
      using FSched by (intro delay_inv_tasks [OF inv]) auto
    then show ?thesis by blast
  next
    case (FLoop e)
    then show ?thesis using delay_loop [OF rt] sched tasks inv step by blast
  next
    case (FGot e t)
    then show ?thesis using delay_got [OF progs] sched one inv step by blast
  next
    case (FPoll e t st p)
    have "ti_poll_fn (k_tasks k t) = Some PollStorage" using task_invD(8) [OF tasks] FPoll by simp
    then show ?thesis using delay_poll [OF progs] sched inv step FPoll by simp
  next
    case (FReady e t out)
    then have k': "k' = poll_store_result t out k" "frs = [FNull e t]" using step by simp_all
    have "delay_inv S fpoll r ar k' (frs @ rest)"
      using D(2,3) FReady
      by (intro delay_inv_pass [OF inv])
        (auto simp: k' app_simps homed_def poll_store_result_def no_joiner_def passes_on_def flagged_def task_spawned_def)
    then show ?thesis by blast
  next
    case (FNull e t)
    then have "k' = poll_clear_executor t k" "frs = [FDrop e t]" using step by simp_all
    then show ?thesis using delay_null [of e t rest S fpoll r ar k] one inv FNull by auto
  next
    case (FDrop e t)
    then have k': "k' = upd_task t (\<lambda>i. i\<lparr>ts_f := Uninit, ti_poll_fn := Some PollExited\<rparr>) k" "frs = [FDespawn e t]"
      using step by (auto simp: poll_drop_future_def rbind_Inr_iff cell_drop_in_place_def split: cell.splits)
    have "delay_inv S fpoll r ar k' (frs @ rest)"
      using D(2,3) FDrop
      by (intro delay_inv_pass [OF inv])
        (auto simp: k' app_simps homed_def no_joiner_def passes_on_def flagged_def task_spawned_def)
    then show ?thesis by blast
  next
    case (FDespawn e t)
    then have "poll_despawn L t k = Inr k'" "frs = [FLoop e]" using step by (auto simp: rbind_Inr_iff)
    then show ?thesis using delay_despawn inv FDespawn by fastforce
  next
    case (FRunEnd e)
    then have "delay_inv S fpoll r ar k' (frs @ rest)" using step by (intro delay_inv_tasks [OF inv]) auto
    then show ?thesis by blast
  next
    case (FComplete e)
    then have "delay_inv S fpoll r ar k' (frs @ rest)"
      using step by (intro delay_inv_tasks [OF inv]) (auto simp: complete_executor_def)
    then show ?thesis by blast
  next
    case FIdle
    then have "delay_inv S fpoll r ar k' (frs @ rest)" using step by (intro delay_inv_tasks [OF inv]) auto
    then show ?thesis by blast
  qed
qed

section \<open>Runs\<close>

fun delay_event :: "delay_setup \<Rightarrow> (nat, timer_statics) event \<Rightarrow> bool" where
  "delay_event S (TakeIsr ops) = (\<forall>op\<in>set ops. delay_op S op)"
| "delay_event S (TakeMsi ops) = (\<forall>op\<in>set ops. delay_op S op)"
| "delay_event S ev = True"

text \<open>From boot, with an empty timer queue, under any interrupts that the application may have.\<close>

inductive delay_run ::
  "(priority, 's) vec_api \<Rightarrow> (tid, 'q) list_api \<Rightarrow> (tid \<Rightarrow> nat \<Rightarrow> timer_prog) \<Rightarrow> nat \<Rightarrow> delay_setup \<Rightarrow>
   (nat, nat, 'q, 's, timer_statics) machine \<Rightarrow> bool"
  for V :: "(priority, 's) vec_api" and L :: "(tid, 'q) list_api"
    and fpoll :: "tid \<Rightarrow> nat \<Rightarrow> timer_prog" and n :: nat and S :: delay_setup where
  delay_boot: "boot_machine V L (ClintMsip True) n g ops = Inr m \<Longrightarrow> entries g = [] \<Longrightarrow> \<forall>op\<in>set ops. delay_op S op \<Longrightarrow>
    delay_run V L fpoll n S m"
| delay_step: "delay_run V L fpoll n S m \<Longrightarrow> disciplined n m \<Longrightarrow> delay_event S ev \<Longrightarrow>
    exec V L fpoll ev m = Some (Inr m') \<Longrightarrow> delay_run V L fpoll n S m'"

lemma delay_run_disciplined: "delay_run V L fpoll n S m \<Longrightarrow> reachable_disciplined V L fpoll n m"
  by (induction rule: delay_run.induct) (auto intro: disciplined_boot disciplined_step)

lemma delay_run_reachable: "delay_run V L fpoll n S m \<Longrightarrow> reachable V L fpoll n m"
  by (rule reachable_disciplined_reachable [OF delay_run_disciplined])

lemma delay_push:
  assumes inv: "delay_inv S fpoll r ar k stk" and ops: "\<forall>op\<in>set ops. delay_op S op"
  shows "delay_inv S fpoll r ar k (FIrq kind ops None # stk)"
proof -
  have "filter (wakes t) ops = []" if "t \<in> ds_tasks S" for t by (rule wakes_none [OF ops that])
  then show ?thesis using inv ops by (auto simp: delay_inv_def continued_def op_held_def list_all_iff)
qed

lemma delay_exec:
  assumes rt: "runtime V n L" and progs: "delay_programs S fpoll" and run: "delay_run V L fpoll n S m"
    and inv: "delay_inv S fpoll r ar (m_kernel m) (m_stack m)" and ev: "delay_event S ev"
    and step: "exec V L fpoll ev m = Some (Inr m')"
  shows "\<exists>r ar. delay_inv S fpoll r ar (m_kernel m') (m_stack m')"
proof (cases ev)
  case Step
  then obtain fr rest frs where s: "m_stack m = fr # rest" "m_stack m' = frs @ rest"
      "step_frame V L fpoll fr (m_kernel m) = Inr (frs, m_kernel m')"
    using step by (auto simp: rbind_Inr_iff split: list.splits)
  have "sched_inv V L n (m_kernel m) (m_stack m)"
    by (rule runtime.reachable_inv [OF rt delay_run_reachable [OF run]])
  then show ?thesis
    using delay_frame [OF rt progs _ _ _ s(3)] runtime.disciplined_inv [OF rt delay_run_disciplined [OF run]] inv
    unfolding s(1,2) by blast
next
  case RaiseMsi
  then have m': "m_stack m' = m_stack m" "m_kernel m' = (m_kernel m)\<lparr>k_msip := True\<rparr>" using step by auto
  have "delay_inv S fpoll r ar (m_kernel m') (m_stack m)"
  proof -
    have h: "homed S (m_kernel m') = homed S (m_kernel m)" by (simp add: m' homed_def fun_eq_iff)
    have "list_all (frame_held S fpoll r ar (m_kernel m')) (m_stack m)"
      using delay_invD(3) [OF inv] frame_held_mono [of S fpoll r ar "m_kernel m" _ "m_kernel m'"] h
      by (auto simp: list_all_iff m'(2))
    then show ?thesis
      using inv by (auto simp: delay_inv_def m' continued_def rests_def task_spawned_def no_joiner_def homed_def)
  qed
  then show ?thesis using m'(1) by auto
next
  case (TakeIsr ops)
  then have "m_kernel m' = m_kernel m" "m_stack m' = FIrq KIsr ops None # m_stack m"
    using step by (auto split: list.splits if_splits)
  then show ?thesis using delay_push [OF inv] ev TakeIsr by auto
next
  case (TakeMsi ops)
  then have "m_kernel m' = m_kernel m" "m_stack m' = FIrq KHook ops None # m_stack m"
    using step by (auto split: list.splits if_splits)
  then show ?thesis using delay_push [OF inv] ev TakeMsi by auto
qed

lemma delay_run_inv:
  assumes rt: "runtime V n L" and progs: "delay_programs S fpoll"
  shows "delay_run V L fpoll n S m \<Longrightarrow> \<exists>r ar. delay_inv S fpoll r ar (m_kernel m) (m_stack m)"
proof (induction rule: delay_run.induct)
  case (delay_boot g ops m)
  have "0 < n" "n \<le> 4096"
    using delay_boot(1) by (auto simp: boot_machine_def boot_kernel_def spawner_new_def split: if_splits)
  moreover obtain b where "bitmap_new 64 = Inr b" by (rule bitmap_new_ok [of 64]) simp_all
  ultimately have m: "k_app (m_kernel m) = g" "m_stack m = [FIrq KBoot ops None]" "k_tasks (m_kernel m) = (\<lambda>t. storage_new)"
    using delay_boot(1) by (auto simp: boot_machine_def boot_kernel_def spawner_new_def spawner_init_def)
  have "delay_inv S fpoll True False (m_kernel m) []"
    using delay_boot(2) by (simp add: delay_inv_def m delays_linked_def no_joiner_def storage_new_def continued_def
      flagged_def task_spawned_def entries_of_def armed_def)
  then show ?case using delay_push [OF _ delay_boot(3)] m(2) by fastforce
next
  case (delay_step m ev m')
  then show ?case using delay_exec [OF rt progs] by blast
qed

end
