(* ===== verification/DelayTasks.thy ===== *)
theory DelayTasks
  imports DelayTokens AwaitTasks
begin

text \<open>
  Delays on the machine, from boot and under every interleaving of interrupts, scheduler and tasks: the
  timer interrupt never follows a pointer to a delay that is gone, the timer is programmed for every
  task that sleeps, and a task whose delay is due goes on behind its \<open>await\<close>.  The tasks that wait
  for delays share an executor and wait for nothing else; \<open>DelayFuture\<close> has the runs that show what
  happens without the one and without the other.
\<close>

section \<open>The timer interrupt\<close>

lemma delay_run_handler:
  assumes rt: "bounded_vec V n" "intrusive_list L" and progs: "delay_programs S fpoll" and m: "delay_run V L fpoll n S m"
  shows "\<exists>ws s. handle_timer_isr TIMER_QUEUE (tm_now (k_app (m_kernel m))) (tm_timer (k_app (m_kernel m))) = Some (Inr (ws, s))
    \<and> armed TIMER_QUEUE s \<and> set ws \<subseteq> ds_tasks S"
proof -
  let ?g = "k_app (m_kernel m)"
  obtain r ar where inv: "delay_inv S fpoll r ar (m_kernel m) (m_stack m)"
    using delay_run_inv [OF runtime.intro [OF rt] progs m] by blast
  note linked = delay_invD(1) [OF inv]
  obtain ws s where s: "handle_timer_isr TIMER_QUEUE (tm_now ?g) (tm_timer ?g) = Some (Inr (ws, s))" "armed TIMER_QUEUE s"
      "\<And>t. count (mset ws) t + entries_of S (?g\<lparr>tm_timer := s\<rparr>) t = entries_of S ?g t"
    using timer_isr_ok [OF linked] by metis
  have "set ws \<subseteq> ds_tasks S"
  proof
    fix w assume "w \<in> set ws"
    then have "0 < count (mset ws) w" by (simp add: count_greater_zero_iff)
    then have "entries_of S ?g w \<noteq> 0" using s(3) [of w] by linarith
    then show "w \<in> ds_tasks S" using linked by (auto simp: no_entries delays_linked_def)
  qed
  then show ?thesis using s(1,2) by blast
qed

text \<open>All that is due is run-queued when the handler returns, whatever it interrupted.\<close>

lemma delay_run_due:
  assumes rt: "bounded_vec V n" "intrusive_list L" and progs: "delay_programs S fpoll" and m: "delay_run V L fpoll n S m"
    and fr: "m_stack m = fr # rest" "frame_mie fr"
  shows "\<exists>j m'. exec_all V L fpoll (TakeIsr [tick_isr] # replicate j Step) m = Some (Inr m')
    \<and> m_stack m' = m_stack m \<and> armed TIMER_QUEUE (tm_timer (k_app (m_kernel m')))
    \<and> (\<forall>x\<in>set (entries (k_app (m_kernel m))). te_deadline x \<le> tm_now (k_app (m_kernel m)) \<longrightarrow>
         run_queued (ti_state (k_tasks (m_kernel m') (ds_home S (te_data x)))))"
proof -
  let ?k = "m_kernel m" and ?g = "k_app (m_kernel m)"
  obtain r ar where inv: "delay_inv S fpoll r ar ?k (m_stack m)"
    using delay_run_inv [OF runtime.intro [OF rt] progs m] by blast
  note D = delay_invD [OF inv]
  have alive: "\<forall>x\<in>set (entries ?g). entry_alive (delays ?g) x"
    using D(1) by (auto simp: delays_linked_def entry_alive_def)
  have vec: "bounded_vec TIMER_QUEUE 16" and put: "\<forall>s g. tm_timer (g\<lparr>tm_timer := s\<rparr>) = s"
    by (simp_all add: TIMER_QUEUE_def list_vec_bounded)
  obtain j m' where j: "exec_all V L fpoll (TakeIsr [tick_isr] # replicate j Step) m = Some (Inr m')" "m_stack m' = m_stack m"
      "armed TIMER_QUEUE (tm_timer (k_app (m_kernel m')))"
      "\<forall>x\<in>set (entries ?g). expired (tm_now ?g) x \<and> ti_executor_ptr (k_tasks ?k (entry_waker (delays ?g) x)) \<noteq> None
        \<longrightarrow> run_queued (ti_state (k_tasks (m_kernel m') (entry_waker (delays ?g) x)))"
    using timer_interrupt_queues_due_tasks [OF rt delay_run_reachable [OF m] fr vec put alive, of tm_now]
    unfolding tick_isr_def by blast
  have "run_queued (ti_state (k_tasks (m_kernel m') (ds_home S (te_data x))))"
    if x: "x \<in> set (entries ?g)" "te_deadline x \<le> tm_now ?g" for x
  proof -
    have t: "ds_home S (te_data x) \<in> ds_tasks S" using D(1) x(1) by (simp add: delays_linked_def)
    have "entries_of S ?g (ds_home S (te_data x)) \<noteq> 0" using x(1) by (auto simp: no_entries)
    then have "homed S ?k (ds_home S (te_data x))" using D(4) [OF t] by (simp add: continued_def)
    then show ?thesis
      using bspec [OF j(4) x(1)] x(2) t linked_waker [OF D(1) x(1)] by (simp add: expired_def homed_def)
  qed
  then show ?thesis using j(1-3) by blast
qed

lemma flagged_somewhere:
  assumes rt: "bounded_vec V n" "intrusive_list L" and m: "reachable V L fpoll n m"
    and t: "run_queued (ti_state (k_tasks (m_kernel m) t))"
  shows "(\<exists>p<n. t \<in> set (queue L (m_kernel m) p)) \<or> t \<in># pushing (m_stack m)"
proof -
  have "count (queued L n (m_kernel m) + pushing (m_stack m)) t = 1"
    using sched_invD(3) [OF inv_of [OF rt m]] t by (simp add: queue_inv_def flagged_def)
  then have "t \<in># queued L n (m_kernel m) + pushing (m_stack m)" by (metis count_greater_zero_iff zero_less_one)
  then show ?thesis by (auto simp: in_queued)
qed

section \<open>A task that sleeps\<close>

text \<open>In an idle machine the duty to continue a task is with the timer queue.\<close>

lemma idle_delay:
  assumes rt: "bounded_vec V n" "intrusive_list L" and progs: "delay_programs S fpoll" and m: "delay_run V L fpoll n S m"
    and idle: "m_stack m = [FIdle]" "\<not> (k_pend_marker (m_kernel m) \<and> k_msip (m_kernel m))"
    and t: "t \<in> ds_tasks S" "spawned (ti_state (k_tasks (m_kernel m) t))"
  obtains x f a c d where "x \<in> set (entries (k_app (m_kernel m)))" "te_data x = a" "ds_home S a = t"
    "sys_compare (tm_timer (k_app (m_kernel m))) \<le> te_deadline x" "delays_linked S (k_app (m_kernel m))"
    "ti_executor_ptr (k_tasks (m_kernel m) t) = Some (ds_exec S)" "ti_poll_fn (k_tasks (m_kernel m) t) = Some PollStorage"
    "ts_f (k_tasks (m_kernel m) t) = Init f" "fpoll t f = do_poll_delay a t f c" "runs S fpoll t c"
    "delays (k_app (m_kernel m)) a = Some d" "td_deadline d = te_deadline x" "td_registered d"
    "\<forall>y\<in>set (entries (k_app (m_kernel m))). ds_home S (te_data y) = t \<longrightarrow> y = x"
proof -
  let ?k = "m_kernel m" and ?g = "k_app (m_kernel m)"
  obtain r ar where inv: "delay_inv S fpoll r ar ?k (m_stack m)"
    using delay_run_inv [OF runtime.intro [OF rt] progs m] by blast
  note D = delay_invD [OF inv] and r = delay_run_reachable [OF m]
  have "queued L n ?k = {#}" using idle_means_no_work [OF rt r idle] by (simp add: queued_def)
  then have free: "\<not> flagged ?k t"
    using sched_invD(3) [OF inv_of [OF rt r]] idle(1) by (auto simp: queue_inv_def dest: spec [of _ t] split: if_splits)
  have c: "entries_of S ?g t = 1" "homed S ?k t" "rests S fpoll ?k t"
    using D(4) [OF t(1)] idle(1) free t(2) by (auto simp: continued_def task_spawned_def)
  obtain f where f: "ts_f (k_tasks ?k t) = Init f" "ti_poll_fn (k_tasks ?k t) = Some PollStorage" "waits_at S fpoll t f ?g"
    using c(1,3) by (auto simp: rests_def)
  obtain a cc d where w: "ds_home S a = t" "fpoll t f = do_poll_delay a t f cc" "runs S fpoll t cc" "td_registered d"
      "waiting_on S t a d ?g" using f(3) by (auto simp: waits_at_def)
  have "\<exists>x\<in>set (entries ?g). ds_home S (te_data x) = t" using c(1) no_entries [of S ?g t] by auto
  then obtain x where x: "x \<in> set (entries ?g)" "te_data x = a" using w(5) by (auto simp: waiting_on_def)
  have d: "delays ?g a = Some d" using w(5) by (simp add: waiting_on_def)
  have "\<exists>d'. delays ?g (te_data x) = Some d' \<and> td_deadline d' = te_deadline x"
    using D(1) x(1) unfolding delays_linked_def by blast
  then have dl: "td_deadline d = te_deadline x" using d x(2) by auto
  have "inj_on te_data (set (entries ?g))" using D(1) by (simp add: delays_linked_def distinct_map)
  moreover have "te_data y = te_data x" if "y \<in> set (entries ?g)" "ds_home S (te_data y) = t" for y
    using that w(5) x(2) by (simp add: waiting_on_def)
  ultimately have "\<forall>y\<in>set (entries ?g). ds_home S (te_data y) = t \<longrightarrow> y = x" using x(1) by (auto dest: inj_onD)
  moreover have "sys_compare (tm_timer ?g) \<le> te_deadline x" using D(5) idle(1) x(1) by (simp add: armed_def)
  moreover have "ti_executor_ptr (k_tasks ?k t) = Some (ds_exec S)" using c(2) t(1) by (simp add: homed_def)
  ultimately show ?thesis by (intro that [OF x w(1) _ D(1) _ f(2,1) w(2,3) d dl w(4)]) blast+
qed

text \<open>When it alone is due, the interrupt takes the machine behind the \<open>await\<close>.\<close>

lemma idle_delay_resumes:
  assumes rt: "bounded_vec V n" "intrusive_list L" and m: "reachable V L fpoll n m"
    and idle: "m_stack m = [FIdle]" "\<not> (k_pend_marker (m_kernel m) \<and> k_msip (m_kernel m))"
    and linked: "delays_linked S (k_app (m_kernel m))"
    and x: "x \<in> set (entries (k_app (m_kernel m)))" "te_data x = a" "ds_home S a = t" "delays (k_app (m_kernel m)) a = Some d"
      "td_deadline d = te_deadline x"
    and t: "ti_executor_ptr (k_tasks (m_kernel m) t) = Some e" "ti_poll_fn (k_tasks (m_kernel m) t) = Some PollStorage"
      "ts_f (k_tasks (m_kernel m) t) = Init f" "fpoll t f = do_poll_delay a t f c"
    and due: "te_deadline x \<le> tm_now (k_app (m_kernel m))"
      "\<forall>y\<in>set (entries (k_app (m_kernel m))). te_deadline y \<le> tm_now (k_app (m_kernel m)) \<longrightarrow> y = x"
  shows "\<exists>j\<le>8. \<exists>m'. exec_all V L fpoll (TakeIsr [tick_isr] # replicate j Step
        @ [TakeMsi [], Step, Step, Step, Step, Step, Step, Step, Step]) m = Some (Inr m')
      \<and> m_stack m' = [FPoll e t None c, FIdle]"
proof -
  let ?k = "m_kernel m" and ?g = "k_app (m_kernel m)"
  obtain ws s where s: "handle_timer_isr TIMER_QUEUE (tm_now ?g) (tm_timer ?g) = Some (Inr (ws, s))"
      "\<And>t. others S t ?g (?g\<lparr>tm_timer := s\<rparr>)"
      "mset ws = image_mset (\<lambda>x. ds_home S (te_data x)) (filter_mset (expired (tm_now ?g)) (mset (entries ?g)))"
    using timer_isr_ok [OF linked] by metis
  have "filter_mset (expired (tm_now ?g)) (mset (entries ?g)) = {#y \<in># mset (entries ?g). y = x#}"
    using due by (intro filter_mset_cong) (auto simp: expired_def)
  also have "\<dots> = {#x#}"
  proof -
    have "distinct (entries ?g)" using linked by (simp add: delays_linked_def distinct_map)
    then have "count (mset (entries ?g)) x = 1" using x(1) unfolding distinct_count_atmost_1 by simp
    then show ?thesis by (simp add: filter_eq_replicate_mset)
  qed
  finally have "mset ws = {#t#}" using s(3) x(2,3) by simp
  then have ws: "ws = [t]" by simp
  let ?h = "?g\<lparr>tm_timer := s\<rparr>" and ?rest = "[FIdle]"
  let ?m1 = "\<lparr>m_kernel = ?k\<lparr>k_app := ?h\<rparr>, m_stack = FIrq KIsr [IsrWake t] None # ?rest\<rparr>"
  have isr: "exec_all V L fpoll [TakeIsr [tick_isr], Step] m = Some (Inr ?m1)"
    using idle(1) s(1) by (simp add: tick_isr_def timer_handler_def ws)
  note I = sched_invD [OF inv_of [OF rt exec_all_reachable [OF isr m]]]
  obtain k1 where k1: "wake_task L t (?k\<lparr>k_app := ?h\<rparr>) = Inr k1" "wake_effect L t (?k\<lparr>k_app := ?h\<rparr>) k1"
    using wake_task_ok [OF rt I(1,3,5)] by auto
  obtain i where i: "i \<le> 6" "exec_all V L fpoll (replicate i Step) ?m1
      = Some (Inr \<lparr>m_kernel = k1, m_stack = FIrq KIsr [] None # ?rest\<rparr>)"
    using handler_wake [OF k1(1), of V fpoll KIsr "[]" ?rest] by blast
  let ?m2 = "\<lparr>m_kernel = k1, m_stack = [FIdle]\<rparr>"
  have run: "exec_all V L fpoll (TakeIsr [tick_isr] # replicate (i + 2) Step) m = Some (Inr ?m2)"
    using exec_all_then [OF isr, of "replicate (i + 1) Step"] steps_append [OF i(2), of 1] by simp
  have app: "k_app k1 = ?h" using app_wake [OF k1(1)] by simp
  obtain m3 where m3: "exec_all V L fpoll ((TakeIsr [tick_isr] # replicate (i + 2) Step) @ [TakeMsi [], Step, Step, Step, Step, Step]) m
      = Some (Inr m3)" "m_stack m3 = [FPoll e t None (fpoll t f), FIdle]" "k_app (m_kernel m3) = ?h"
    using woken_idle_polls [OF rt m idle t(1-3) run _ k1(1,2), of ?h] app by auto
  have g3: "delays ?h a = Some d" "td_deadline d \<le> tm_now ?h" using s(2) x(3-5) due(1) by (auto simp: others_def)
  have "\<exists>m'. exec_all V L fpoll [Step, Step, Step] m3 = Some (Inr m') \<and> m_stack m' = [FPoll e t None c, FIdle]"
    using m3(2,3) g3
    by (simp add: t(4) do_poll_delay_steps unmark_step_def drop_step_def on_timer_def put_delay_def delay_drop_def)
  then obtain m' where m': "exec_all V L fpoll [Step, Step, Step] m3 = Some (Inr m')" "m_stack m' = [FPoll e t None c, FIdle]"
    by blast
  have "exec_all V L fpoll (((TakeIsr [tick_isr] # replicate (i + 2) Step) @ [TakeMsi [], Step, Step, Step, Step, Step])
      @ [Step, Step, Step]) m = Some (Inr m')"
    by (simp only: exec_all_then [OF m3(1)] m'(1))
  then show ?thesis using i(1) m'(2) by (intro exI [of _ "i + 2"] conjI exI [of _ m']) simp_all
qed

section \<open>Properties\<close>

text \<open>
  The setting of the three properties, which their first sentences name: the application is one of
  \<open>delay_programs\<close>, and the run one of \<open>delay_run\<close>.  That is, at most sixteen tasks wait for delays
  (the capacity of the queue); they are spawned on one executor; between delays, each at an address of
  the task's own, they only wake other tasks, spawn, and access memory other than the timer's, until
  they return; nobody else wakes them; all other tasks, and all handlers but the timer's, keep off the
  timer; the timer queue is empty at boot, and every state that a step is made from is disciplined.
  The timer interrupt may come at any time, and time may pass at any rate.
\<close>

text \<open>
  C29. In an application in which at most sixteen tasks wait for delays, and for nothing
  else, all on one executor, each at addresses of its own, nobody else wakes them, and nobody else uses
  the timer (\<open>delay_programs\<close>), the
  timer interrupt never follows a dangling pointer: at every moment of every disciplined run of it
  from boot (\<open>delay_run\<close>), in the middle of polls, wakes and spawns as well as between them,
  \<open>handle_timer_isr\<close> would return, having woken only tasks that wait for delays, and leave the timer
  programmed for what is still queued.  (Without the restriction it is false: \<open>DelayFuture\<close> has a run
  in which a poll before the interrupt leaves an entry that dangles.)
\<close>

theorem timer_never_dangles:
  assumes rt: "bounded_vec V n" "intrusive_list L" and progs: "delay_programs S fpoll" and m: "delay_run V L fpoll n S m"
  shows "\<exists>ws s. handle_timer_isr TIMER_QUEUE (tm_now (k_app (m_kernel m))) (tm_timer (k_app (m_kernel m))) = Some (Inr (ws, s))
    \<and> armed TIMER_QUEUE s \<and> set ws \<subseteq> ds_tasks S"
  by (rule delay_run_handler [OF assms])

text \<open>
  C28. In an application in which at most sixteen tasks wait for delays, and for nothing
  else, all on one executor, each at addresses of its own, nobody else wakes them, and nobody else uses
  the timer (\<open>delay_programs\<close>), and in
  a disciplined run of it from boot (\<open>delay_run\<close>): whatever code the timer interrupt comes to, at any
  priority and in any call that can be interrupted, its handler returns there if it is not interrupted
  itself, with the timer programmed for the delays that are left; and every task whose delay was due
  is run-queued, and it is in a run queue or in a call of the interrupted code that is about to put
  it there.
\<close>

theorem due_delays_are_queued:
  assumes rt: "bounded_vec V n" "intrusive_list L" and progs: "delay_programs S fpoll" and m: "delay_run V L fpoll n S m"
    and fr: "m_stack m = fr # rest" "frame_mie fr"
  shows "\<exists>j m'. exec_all V L fpoll (TakeIsr [tick_isr] # replicate j Step) m = Some (Inr m')
    \<and> m_stack m' = m_stack m \<and> armed TIMER_QUEUE (tm_timer (k_app (m_kernel m')))
    \<and> (\<forall>x\<in>set (entries (k_app (m_kernel m))). te_deadline x \<le> tm_now (k_app (m_kernel m)) \<longrightarrow>
         run_queued (ti_state (k_tasks (m_kernel m') (ds_home S (te_data x))))
         \<and> ((\<exists>p<n. ds_home S (te_data x) \<in> set (queue L (m_kernel m') p))
             \<or> ds_home S (te_data x) \<in># pushing (m_stack m)))"
proof -
  obtain j m' where j: "exec_all V L fpoll (TakeIsr [tick_isr] # replicate j Step) m = Some (Inr m')"
      "m_stack m' = m_stack m" "armed TIMER_QUEUE (tm_timer (k_app (m_kernel m')))"
      "\<forall>x\<in>set (entries (k_app (m_kernel m))). te_deadline x \<le> tm_now (k_app (m_kernel m)) \<longrightarrow>
         run_queued (ti_state (k_tasks (m_kernel m') (ds_home S (te_data x))))"
    using delay_run_due [OF assms] by blast
  show ?thesis
    using j flagged_somewhere [OF rt exec_all_reachable [OF j(1) delay_run_reachable [OF m]], unfolded j(2)] by blast
qed

text \<open>
  C27. A delay ends.  In an application in which at most sixteen tasks wait for delays, and for nothing
  else, all on one executor, each at addresses of its own, nobody else wakes them, and nobody else uses
  the timer (\<open>delay_programs\<close>), and in a disciplined run of it from boot (\<open>delay_run\<close>): whenever the
  machine is idle with no reschedule pending, every spawned task of those that wait for delays has an
  entry in the timer queue, and the compare register is not behind its deadline, so that the interrupt
  comes; and if the entry is due, and no other is, then when the interrupt comes, the scheduler's
  after it, and no other in between, at most 18 steps later the machine is in that task's program,
  behind the \<open>await\<close>.
\<close>

theorem sleeping_delay_resumes:
  assumes rt: "bounded_vec V n" "intrusive_list L" and progs: "delay_programs S fpoll" and m: "delay_run V L fpoll n S m"
    and idle: "m_stack m = [FIdle]" "\<not> (k_pend_marker (m_kernel m) \<and> k_msip (m_kernel m))"
    and t: "t \<in> ds_tasks S" "spawned (ti_state (k_tasks (m_kernel m) t))"
  shows "\<exists>x\<in>set (entries (k_app (m_kernel m))). ds_home S (te_data x) = t
    \<and> sys_compare (tm_timer (k_app (m_kernel m))) \<le> te_deadline x
    \<and> (te_deadline x \<le> tm_now (k_app (m_kernel m))
         \<and> (\<forall>y\<in>set (entries (k_app (m_kernel m))). te_deadline y \<le> tm_now (k_app (m_kernel m)) \<longrightarrow> y = x) \<longrightarrow>
       (\<exists>j\<le>8. \<exists>m' f c. exec_all V L fpoll (TakeIsr [tick_isr] # replicate j Step
            @ [TakeMsi [], Step, Step, Step, Step, Step, Step, Step, Step]) m = Some (Inr m')
          \<and> ts_f (k_tasks (m_kernel m) t) = Init f \<and> fpoll t f = do_poll_delay (te_data x) t f c
          \<and> m_stack m' = [FPoll (ds_exec S) t None c, FIdle]))"
proof (rule idle_delay [OF rt progs m idle t])
  fix x f a c d
  assume x: "x \<in> set (entries (k_app (m_kernel m)))" "te_data x = a" "ds_home S a = t"
    and compare: "sys_compare (tm_timer (k_app (m_kernel m))) \<le> te_deadline x" and linked: "delays_linked S (k_app (m_kernel m))"
    and task: "ti_executor_ptr (k_tasks (m_kernel m) t) = Some (ds_exec S)" "ti_poll_fn (k_tasks (m_kernel m) t) = Some PollStorage"
      "ts_f (k_tasks (m_kernel m) t) = Init f" "fpoll t f = do_poll_delay a t f c"
    and d: "delays (k_app (m_kernel m)) a = Some d" "td_deadline d = te_deadline x"
  show ?thesis
  proof (intro bexI [OF _ x(1)] conjI impI)
    assume due: "te_deadline x \<le> tm_now (k_app (m_kernel m))
      \<and> (\<forall>y\<in>set (entries (k_app (m_kernel m))). te_deadline y \<le> tm_now (k_app (m_kernel m)) \<longrightarrow> y = x)"
    show "\<exists>j\<le>8. \<exists>m' f c. exec_all V L fpoll (TakeIsr [tick_isr] # replicate j Step
          @ [TakeMsi [], Step, Step, Step, Step, Step, Step, Step, Step]) m = Some (Inr m')
        \<and> ts_f (k_tasks (m_kernel m) t) = Init f \<and> fpoll t f = do_poll_delay (te_data x) t f c
        \<and> m_stack m' = [FPoll (ds_exec S) t None c, FIdle]"
      using idle_delay_resumes [OF rt delay_run_reachable [OF m] idle linked x d task] due task(3,4) x(2) by blast
  qed (use x compare in simp_all)
qed

section \<open>Applications\<close>

text \<open>The integration test, and the demonstration, of the async timer are such applications.\<close>

definition test_setup :: delay_setup where
  "test_setup = \<lparr>ds_tasks = {0}, ds_home = (\<lambda>a. 0), ds_exec = 0, ds_start = (\<lambda>t f. f = 0)\<rparr>"

definition only_task :: "(tid \<Rightarrow> nat \<Rightarrow> timer_prog) \<Rightarrow> tid \<Rightarrow> nat \<Rightarrow> timer_prog" where
  "only_task fpoll t f = (if t = 0 then fpoll 0 f else Ready 0)"

lemma shutdown_runs: "runs S fpoll t do_shutdown"
  unfolding do_shutdown_def by (rule runs_access) (simp_all add: same_timer_def runs_ready)

lemma note_runs: "runs S fpoll t p \<Longrightarrow> runs S fpoll t (do_note i p)"
  unfolding do_note_def by (rule runs_access) (simp_all add: same_timer_def)

lemma delays_then_runs:
  "i + left = m \<Longrightarrow> runs test_setup (only_task (delay_task m duration)) 0 (delays_then left duration i)"
proof (induction left arbitrary: i)
  case (Suc left)
  have "runs test_setup (only_task (delay_task m duration)) 0 (do_note (Suc i) (delays_then left duration (Suc i)))"
    by (rule note_runs [OF Suc.IH]) (use Suc.prems in simp)
  moreover have "only_task (delay_task m duration) 0 (Suc i)
      = do_poll_delay i 0 (Suc i) (do_note (Suc i) (delays_then left duration (Suc i)))"
    using Suc.prems by (auto simp: only_task_def delay_task_def)
  ultimately show ?case by (simp add: runs_after test_setup_def)
qed (simp add: shutdown_runs)

lemma delay_task_programs: "delay_programs test_setup (only_task (delay_task m duration))"
proof -
  have "runs test_setup (only_task (delay_task m duration)) 0 (only_task (delay_task m duration) 0 0)"
    using delays_then_runs [of 0 m m duration] by (simp add: only_task_def delay_task_def)
  then show ?thesis by (auto simp: delay_programs_def test_setup_def only_task_def)
qed

text \<open>Two tasks at one priority, with a delay of one and of two milliseconds.\<close>

definition sleepers :: "tid \<Rightarrow> nat \<Rightarrow> timer_prog" where
  "sleepers t f =
     (if t < 2 then if f = 0 then do_after t t (if t = 0 then 1000000 else 2000000) 1 (do_note t (Ready 0))
        else do_poll_delay t t 1 (do_note t (Ready 0))
      else Ready 0)"

definition sleepers_setup :: delay_setup where
  "sleepers_setup = \<lparr>ds_tasks = {0, 1}, ds_home = id, ds_exec = 0, ds_start = (\<lambda>t f. f = 0)\<rparr>"

lemma sleepers_programs: "delay_programs sleepers_setup sleepers"
proof -
  have "runs sleepers_setup sleepers t (do_after t t dur 1 (do_note t (Ready 0)))" if "t < 2" for t dur
    by (rule runs_after) (use that in \<open>simp_all add: sleepers_setup_def sleepers_def note_runs runs_ready\<close>)
  then show ?thesis by (auto simp: delay_programs_def sleepers_setup_def sleepers_def)
qed

lemma checked_exec_delay:
  "checked_exec V L fpoll n evs m = Some m' \<Longrightarrow> delay_run V L fpoll n S m \<Longrightarrow> \<forall>ev\<in>set evs. delay_event S ev \<Longrightarrow>
    delay_run V L fpoll n S m'"
proof (induction evs arbitrary: m)
  case (Cons ev evs)
  then obtain m1 where "disciplined n m" "exec V L fpoll ev m = Some (Inr m1)"
      "checked_exec V L fpoll n evs m1 = Some m'"
    by (auto split: if_splits option.splits sum.splits)
  then show ?case using Cons delay_step by fastforce
qed simp

lemma checked_run_delay:
  "checked_run fpoll n g ops evs = Some m \<Longrightarrow> entries g = [] \<Longrightarrow> \<forall>op\<in>set ops. delay_op S op \<Longrightarrow>
    \<forall>ev\<in>set evs. delay_event S ev \<Longrightarrow> delay_run (list_vec n) list_list fpoll n S m"
  unfolding checked_run_def by (auto split: sum.splits intro: checked_exec_delay delay_boot)

definition sleepers_ops :: "(nat, timer_statics) isr_op list" where
  "sleepers_ops = [IsrSpawn 0 0 (Priority 0), IsrSpawn 1 0 (Priority 0)]"

definition pass_time :: "u64 \<Rightarrow> (nat, timer_statics) isr_op" where
  "pass_time d = IsrAccess (\<lambda>g. g\<lparr>tm_now := max (tm_now g) d\<rparr>) (\<lambda>g. [])"

definition sleepers_run :: "(nat, timer_statics) event list" where
  "sleepers_run = replicate 10 Step @ TakeMsi [] # replicate 40 Step @ [TakeIsr [pass_time 10000], Step, Step]"

text \<open>Both wait, the first is due, and its interrupt has not come.\<close>

definition one_due :: "(nat, nat, tid list, priority list, timer_statics) machine \<Rightarrow> bool" where
  "one_due m \<longleftrightarrow> (case m_stack m of [FIdle] \<Rightarrow> True | _ \<Rightarrow> False) \<and> \<not> (k_pend_marker (m_kernel m) \<and> k_msip (m_kernel m))
     \<and> spawned (ti_state (k_tasks (m_kernel m) 0))
     \<and> \<not> run_queued (ti_state (k_tasks (m_kernel m) 0)) \<and> tm_now (k_app (m_kernel m)) = 10000
     \<and> sys_queue (tm_timer (k_app (m_kernel m)))
         = [\<lparr>te_deadline = 10000, te_callback = WakeTrampoline, te_data = 0\<rparr>, \<lparr>te_deadline = 20000, te_callback = WakeTrampoline, te_data = 1\<rparr>]"

lemma sleepers_wait: "run_ends one_due (checked_run sleepers 4 timer_statics_new sleepers_ops sleepers_run)"
  by code_simp

lemma sleepers_state:
  obtains m where "one_due m" "delay_run (list_vec 4) list_list sleepers 4 sleepers_setup m"
proof -
  obtain m where m: "checked_run sleepers 4 timer_statics_new sleepers_ops sleepers_run = Some m" "one_due m"
    by (rule checked_run_obtain [OF sleepers_wait])
  have "delay_op sleepers_setup (pass_time d)" for d
    unfolding pass_time_def by (rule op_access) simp_all
  then have "delay_run (list_vec 4) list_list sleepers 4 sleepers_setup m"
    by (intro checked_run_delay [OF m(1)])
      (auto simp: timer_statics_new_def TIMER_QUEUE_def queue_new_def sleepers_ops_def sleepers_run_def sleepers_setup_def
        delay_op_simps may_spawn_def)
  then show ?thesis using that m(2) by blast
qed

theorem timer_never_dangles_witness:
  "\<exists>m ws s. reachable (list_vec 4) list_list sleepers 4 m \<and> length (entries (k_app (m_kernel m))) = 2
     \<and> handle_timer_isr TIMER_QUEUE (tm_now (k_app (m_kernel m))) (tm_timer (k_app (m_kernel m))) = Some (Inr (ws, s))"
proof -
  obtain m where m: "one_due m" "delay_run (list_vec 4) list_list sleepers 4 sleepers_setup m" by (rule sleepers_state)
  show ?thesis
    using timer_never_dangles [OF list_vec_bounded list_list_intrusive sleepers_programs m(2)] delay_run_reachable [OF m(2)] m(1)
    by (auto simp: one_due_def TIMER_QUEUE_def)
qed

theorem due_delays_are_queued_witness:
  "\<exists>m evs m' p. reachable (list_vec 4) list_list sleepers 4 m \<and> \<not> run_queued (ti_state (k_tasks (m_kernel m) 0))
     \<and> exec_all (list_vec 4) list_list sleepers evs m = Some (Inr m')
     \<and> m_stack m' = [FIdle] \<and> p < 4 \<and> 0 \<in> set (queue list_list (m_kernel m') p)"
proof -
  obtain m where m: "one_due m" "delay_run (list_vec 4) list_list sleepers 4 sleepers_setup m" by (rule sleepers_state)
  have idle: "m_stack m = [FIdle]" "frame_mie FIdle" using m(1) by (auto simp: one_due_def split: list.splits frame.splits)
  have g: "\<lparr>te_deadline = 10000, te_callback = WakeTrampoline, te_data = 0\<rparr> \<in> set (entries (k_app (m_kernel m)))"
      "tm_now (k_app (m_kernel m)) = 10000" "\<not> run_queued (ti_state (k_tasks (m_kernel m) 0))"
    using m(1) by (simp_all add: one_due_def TIMER_QUEUE_def)
  obtain evs m' where r: "exec_all (list_vec 4) list_list sleepers evs m = Some (Inr m')" "m_stack m' = m_stack m"
      "\<forall>x\<in>set (entries (k_app (m_kernel m))). te_deadline x \<le> tm_now (k_app (m_kernel m)) \<longrightarrow>
         (\<exists>p<4. ds_home sleepers_setup (te_data x) \<in> set (queue list_list (m_kernel m') p))"
    using due_delays_are_queued [OF list_vec_bounded list_list_intrusive sleepers_programs m(2) idle]
    unfolding idle(1) by (simp del: exec_all.simps) blast
  then obtain p where "p < 4" "0 \<in> set (queue list_list (m_kernel m') p)"
    using g(1,2) by (auto simp: sleepers_setup_def dest: bspec)
  then show ?thesis using delay_run_reachable [OF m(2)] idle(1) g(3) r(1,2) by auto
qed

theorem sleeping_delay_resumes_witness:
  "\<exists>m evs m' c. reachable (list_vec 4) list_list sleepers 4 m \<and> m_stack m = [FIdle]
     \<and> exec_all (list_vec 4) list_list sleepers evs m = Some (Inr m') \<and> m_stack m' = [FPoll 0 0 None c, FIdle]"
proof -
  obtain m where m: "one_due m" "delay_run (list_vec 4) list_list sleepers 4 sleepers_setup m" by (rule sleepers_state)
  have idle: "m_stack m = [FIdle]" using m(1) by (auto simp: one_due_def split: list.splits frame.splits)
  let ?x = "\<lparr>te_deadline = 10000, te_callback = WakeTrampoline, te_data = 0\<rparr>" and ?g = "k_app (m_kernel m)"
  have g: "entries ?g = [?x, \<lparr>te_deadline = 20000, te_callback = WakeTrampoline, te_data = 1\<rparr>]" "tm_now ?g = 10000"
    using m(1) by (simp_all add: one_due_def TIMER_QUEUE_def)
  have t: "\<not> (k_pend_marker (m_kernel m) \<and> k_msip (m_kernel m))" "0 \<in> ds_tasks sleepers_setup"
      "spawned (ti_state (k_tasks (m_kernel m) 0))"
    using m(1) by (simp_all add: one_due_def sleepers_setup_def)
  obtain x where x: "x \<in> set (entries ?g)" "ds_home sleepers_setup (te_data x) = 0"
    and run: "te_deadline x \<le> tm_now ?g \<and> (\<forall>y\<in>set (entries ?g). te_deadline y \<le> tm_now ?g \<longrightarrow> y = x) \<longrightarrow>
       (\<exists>j\<le>8. \<exists>m' f c. exec_all (list_vec 4) list_list sleepers (TakeIsr [tick_isr] # replicate j Step
            @ [TakeMsi [], Step, Step, Step, Step, Step, Step, Step, Step]) m = Some (Inr m')
          \<and> ts_f (k_tasks (m_kernel m) 0) = Init f \<and> sleepers 0 f = do_poll_delay (te_data x) 0 f c
          \<and> m_stack m' = [FPoll (ds_exec sleepers_setup) 0 None c, FIdle])"
    using sleeping_delay_resumes [OF list_vec_bounded list_list_intrusive sleepers_programs m(2) idle t] by blast
  have "x = ?x" using x by (auto simp: g(1) sleepers_setup_def)
  then have "te_deadline x \<le> tm_now ?g \<and> (\<forall>y\<in>set (entries ?g). te_deadline y \<le> tm_now ?g \<longrightarrow> y = x)"
    by (simp add: g)
  then have "\<exists>evs m' c. exec_all (list_vec 4) list_list sleepers evs m = Some (Inr m') \<and> m_stack m' = [FPoll 0 0 None c, FIdle]"
    using run by (force simp: sleepers_setup_def simp del: exec_all.simps)
  then show ?thesis using delay_run_reachable [OF m(2)] idle by blast
qed

end
