(* ===== verification/HandlerTable.thy ===== *)
theory HandlerTable
  imports Trap
begin

text \<open>
  Which code a trap ends in: the handlers that \<open>trap_handler\<close> dispatches to are symbols, which the
  application may define, and which the linker script (\<open>archs/riscv64-rt/link.x\<close>) otherwise assigns
  to the default handlers of \<open>archs/riscv64-rt/src/lib.rs\<close>.  The default of the application's part of
  \<open>MachineSoft\<close> and of the timer interrupt returns; the default of the other symbols waits for ever, with
  interrupts disabled.
\<close>

section \<open>The default handlers\<close>

text \<open>The part of a hart that they see; \<open>wfi\<close> may return at any time and changes nothing.\<close>

record hart_view =
  hv_mie :: bool
  hv_pending :: "interrupt set"

definition wfi :: "hart_view \<Rightarrow> hart_view" where
  "wfi h = h"

definition arch_idle :: "hart_view \<Rightarrow> hart_view" where
  "arch_idle h = wfi h"

partial_function (option) default_abort :: "hart_view \<Rightarrow> hart_view option" where
  "default_abort h = default_abort (wfi h)"

partial_function (option) default_start_trap :: "hart_view \<Rightarrow> hart_view option" where
  "default_start_trap h = default_start_trap (wfi h)"

partial_function (option) panic_handler :: "hart_view \<Rightarrow> hart_view option" where
  "panic_handler h = panic_handler h"

definition default_setup_interrupts :: "hart_view \<Rightarrow> hart_view option" where
  "default_setup_interrupts h = Some h"

definition default_interrupt_handler :: "hart_view \<Rightarrow> hart_view option" where
  "default_interrupt_handler h = Some h"

definition arch_init :: "hart_view \<Rightarrow> hart_view option" where
  "arch_init h = Some h"

lemma waits_for_ever: "default_abort h = None" "default_start_trap h = None" "panic_handler h = None"
proof -
  have "False" if "default_abort h = Some y" for y
    by (rule default_abort.raw_induct [of "\<lambda>h y. False", OF _ that])
  then show "default_abort h = None" by (cases "default_abort h") simp_all
  have "False" if "default_start_trap h = Some y" for y
    by (rule default_start_trap.raw_induct [of "\<lambda>h y. False", OF _ that])
  then show "default_start_trap h = None" by (cases "default_start_trap h") simp_all
  have "False" if "panic_handler h = Some y" for y
    by (rule panic_handler.raw_induct [of "\<lambda>h y. False", OF _ that])
  then show "panic_handler h = None" by (cases "panic_handler h") simp_all
qed

section \<open>The linker script\<close>

datatype symbol =
    Abort | ExceptionHandler | DefaultHandler | PreInitTrap | StartTrap | StartDefaultHandlerTrap | SetupInterrupts
  | ExcSym except | IntSym interrupt | InnerMachineSoft
  | DefaultAbort | DefaultStartTrap | DefaultSetupInterrupts | DefaultInterruptHandler | RtMachineExternal

text \<open>\<open>PROVIDE(s = r)\<close>: \<open>s\<close> is \<open>r\<close> unless an object file defines \<open>s\<close>.  \<open>MachineSoft\<close> has no default.\<close>

fun provided :: "symbol \<Rightarrow> symbol option" where
  "provided Abort = Some DefaultAbort"
| "provided PreInitTrap = Some DefaultAbort"
| "provided StartTrap = Some DefaultStartTrap"
| "provided SetupInterrupts = Some DefaultSetupInterrupts"
| "provided ExceptionHandler = Some Abort"
| "provided DefaultHandler = Some Abort"
| "provided StartDefaultHandlerTrap = Some StartTrap"
| "provided (ExcSym e) = Some ExceptionHandler"
| "provided (IntSym SupervisorSoft) = Some DefaultHandler"
| "provided InnerMachineSoft = Some DefaultInterruptHandler"
| "provided (IntSym SupervisorTimer) = Some DefaultHandler"
| "provided (IntSym MachineTimer) = Some DefaultInterruptHandler"
| "provided (IntSym SupervisorExternal) = Some DefaultHandler"
| "provided (IntSym MachineExternal) = Some RtMachineExternal"
| "provided s = None"

text \<open>The symbols of the architecture crate and of the platform crate that have \<open>no_mangle\<close>.\<close>

definition arch_symbols :: "symbol set" where
  "arch_symbols = {DefaultAbort, DefaultStartTrap, DefaultSetupInterrupts, DefaultInterruptHandler, ExceptionHandler,
     RtMachineExternal}"

fun depth :: "symbol \<Rightarrow> nat" where
  "depth Abort = 1" | "depth PreInitTrap = 1" | "depth StartTrap = 1" | "depth SetupInterrupts = 1"
| "depth ExceptionHandler = 2" | "depth DefaultHandler = 2" | "depth StartDefaultHandlerTrap = 2"
| "depth (ExcSym e) = 3" | "depth (IntSym i) = 3" | "depth InnerMachineSoft = 1"
| "depth s = 0"

lemma provided_depth: "provided s = Some r \<Longrightarrow> depth r < depth s"
  by (cases s rule: provided.cases) auto

text \<open>Which object symbol a symbol stands for; \<open>None\<close> is an error of the linker.\<close>

function resolve :: "symbol set \<Rightarrow> symbol \<Rightarrow> symbol option" where
  "resolve app s = (if s \<in> app \<union> arch_symbols then Some s
     else case provided s of None \<Rightarrow> None | Some r \<Rightarrow> resolve app r)"
  by auto
termination by (relation "measure (\<lambda>(app, s). depth s)") (auto intro: provided_depth)

declare resolve.simps [simp del]

text \<open>An application with \<open>#[executor::main]\<close> defines \<open>MachineSoft\<close>; without that it does not link.\<close>

lemma machine_soft_needed: "resolve app (IntSym MachineSoft) = None \<longleftrightarrow> IntSym MachineSoft \<notin> app"
  by (simp add: resolve.simps arch_symbols_def)

text \<open>What the application defines is used.\<close>

lemma resolve_own: "s \<in> app \<Longrightarrow> resolve app s = Some s"
  by (simp add: resolve.simps)

lemma resolve_default:
  assumes "app \<inter> (arch_symbols \<union> {Abort, DefaultHandler}) = {}" "s \<notin> app"
  shows "s = ExcSym e \<Longrightarrow> resolve app s = Some ExceptionHandler"
    "s \<in> {IntSym SupervisorSoft, IntSym SupervisorTimer, IntSym SupervisorExternal} \<Longrightarrow> resolve app s = Some DefaultAbort"
    "s \<in> {InnerMachineSoft, IntSym MachineTimer} \<Longrightarrow> resolve app s = Some DefaultInterruptHandler"
    "s = IntSym MachineExternal \<Longrightarrow> resolve app s = Some RtMachineExternal"
  using assms by (auto simp: resolve.simps [of app s] resolve.simps [of app "ExcSym e"] resolve.simps [of app "IntSym MachineExternal"]
    resolve.simps [of app ExceptionHandler] resolve.simps [of app DefaultHandler]
    resolve.simps [of app Abort] resolve.simps [of app DefaultAbort] resolve.simps [of app DefaultInterruptHandler]
    resolve.simps [of app RtMachineExternal] arch_symbols_def)

text \<open>The code behind the default symbols.\<close>

fun default_code :: "symbol \<Rightarrow> (hart_view \<Rightarrow> hart_view option) option" where
  "default_code DefaultAbort = Some default_abort"
| "default_code DefaultStartTrap = Some default_start_trap"
| "default_code DefaultSetupInterrupts = Some default_setup_interrupts"
| "default_code DefaultInterruptHandler = Some default_interrupt_handler"
| "default_code ExceptionHandler = Some panic_handler"
| "default_code s = None"

text \<open>The handler that the linker picks, and what becomes of the hart.\<close>

definition ends_in_code :: "symbol set \<Rightarrow> symbol \<Rightarrow> hart_view \<Rightarrow> hart_view option option" where
  "ends_in_code app s h = Option.bind (resolve app s) (\<lambda>r. map_option (\<lambda>code. code h) (default_code r))"

text \<open>
  A software or timer interrupt that the application has no handler for is over at once.  (If it
  ended in \<open>abort\<close>, as those of the supervisor do, the hart would never take another.)
\<close>

lemma unhandled_interrupt_returns:
  assumes "app \<inter> (arch_symbols \<union> {Abort, DefaultHandler}) = {}" "s \<notin> app" "s \<in> {InnerMachineSoft, IntSym MachineTimer}"
  shows "ends_in_code app s h = Some (Some h)"
  using resolve_default(3) [OF assms] by (simp add: ends_in_code_def default_interrupt_handler_def)

lemma unhandled_supervisor_interrupt_hangs:
  assumes "app \<inter> (arch_symbols \<union> {Abort, DefaultHandler}) = {}" "s \<notin> app"
    and "s \<in> {IntSym SupervisorSoft, IntSym SupervisorTimer, IntSym SupervisorExternal}"
  shows "ends_in_code app s h = Some None"
  using resolve_default(2) [OF assms] by (simp add: ends_in_code_def waits_for_ever)

end
