(* ===== verification/Spec2Isabelle.thy ===== *)
theory Spec2Isabelle
  imports Prelude PriorityBitmap Containers Priority TaskState Kernel Machine KernelLemmas SchedInv SchedStage SchedStep SchedReach SafeInv SafeStep SafeReach SchedProps SchedCalls SchedLive SchedTraces TimerQueue DelayFuture AsyncMutex Trap Irq SerialRx Platform Macros SharedState TestApps MutexTasks TimerTasks DemoApps UnitTests HostTests ExecutorTests Startup GeneratedCode TaskLayout WakeSlots AwaitTasks Devices Latency
  WorkLeft Quiescence DemoHandlers DelayProtocol DelayTokens DelayTasks HandlerTable
begin

text \<open>
  RT-Async is an asynchronous real-time executor for a single RISC-V hart.  This development
  models its crates from the source and proves what makes them correct.  Paths below are under
  \<open>src/\<close>; \<open>executor/\<close>, \<open>platform/\<close> and so on stand for \<open>modules/executor/src/\<close>,
  \<open>modules/platform/src/\<close> and so on.

  \<^bold>\<open>The program.\<close>  Tasks are futures in static storage (\<open>executor/task/storage.rs\<close>).  There
  is one executor per priority (\<open>executor/executor.rs\<close>), each with a first-in first-out run queue
  (\<open>executor/task/run_queue.rs\<close>, an intrusive list), and a bitmap of the priorities that are
  ready (\<open>executor/priority_bitmap.rs\<close>).  Waking a task sets its run-queued flag, appends it to the
  queue of its executor, sets the executor's bit and pends a software interrupt.  The handler of
  that interrupt (generated by \<open>#[executor::main]\<close>, \<open>executor-macro/lib.rs\<close>) calls
  \<open>Spawner::try_preempt\<close> (\<open>executor/spawner.rs\<close>) until no executor that is ready outranks the
  running one, and runs the loop of each executor it finds on the stack of the code it
  interrupted; \<open>Spawner::prio_stack\<close> holds the priorities of the loops that are on the stack.
  On top of this are delays (\<open>futures/timer.rs\<close> over the queue of \<open>timer/lib.rs\<close>), an async mutex
  (\<open>futures/mutex.rs\<close>), futures that wait for interrupts (\<open>platform/irq.rs\<close>) and for serial input
  (\<open>futures/serial.rs\<close>), and below it a platform layer: the trap path, a driver model that is
  instantiated from the device tree, and the drivers of QEMU's board.

  \<^bold>\<open>The theories, in the order of their imports.\<close>
  \<^item> \<open>Prelude\<close>: word types, panics and the result monad, \<open>trailing_zeros\<close>, sets of bits.
  \<^item> \<open>PriorityBitmap\<close>: \<open>executor/priority_bitmap.rs\<close>.  The abstract specification is a set of
    priorities, a locale states it, and every sequence of operations refines it.
  \<^item> \<open>Containers\<close>: the contracts of the two third-party containers (see the parameters below),
    with list implementations that meet them.
  \<^item> \<open>Priority\<close>, \<open>TaskState\<close>, \<open>Kernel\<close>: the remaining files of the executor crate.  The record
    \<open>kernel\<close> is what its functions share: executors, tasks, the bitmap, the priority stack and the
    two pending bits (\<open>PEND_MARKER\<close> and \<open>msip\<close>).  A function that interrupts cannot split is one
    definition; the others are the definitions of their atomic pieces.
  \<^item> \<open>Machine\<close>: the running system.  Its state is a kernel and a stack of activations, the running one
    first.  \<open>exec\<close> is one step of the running code (\<open>step_frame\<close>), or an interrupt that is taken; \<open>reachable\<close> is what follows from boot.  Futures are arbitrary: \<open>fpoll\<close> gives
    the calls one poll makes, as a tree that branches on the results.  An external interrupt may come
    between any two steps with interrupts enabled, and make any calls.
  \<^item> \<open>KernelLemmas\<close>: the effect of each kernel operation on queues, bits, flags and pointers.
  \<^item> \<open>SchedInv\<close>, \<open>SchedStage\<close>, \<open>SchedStep\<close>, \<open>SchedReach\<close>: the invariant of the scheduler, and its
    preservation by the calls, by the handler and by the loops.
  \<^item> \<open>SafeInv\<close>, \<open>SafeStep\<close>, \<open>SafeReach\<close>: the invariant of task storage, under the discipline of
    spawns below, and with it the absence of panics and undefined behaviour.
  \<^item> \<open>SchedProps\<close>, \<open>SchedCalls\<close>, \<open>SchedLive\<close>, \<open>SchedTraces\<close>: the properties of the scheduler: which
    task runs, what a wake does, that a poll comes back, what a join handle gets, and runs of
    concrete programs, found by evaluation, on which the code does what it does not intend.
  \<^item> \<open>TimerQueue\<close>, \<open>DelayFuture\<close>: \<open>timer/lib.rs\<close> and \<open>futures/timer.rs\<close> with the timer interrupt
    handler; \<open>AsyncMutex\<close>: \<open>futures/mutex.rs\<close>.
  \<^item> \<open>AwaitIrq\<close>: the protocol of a flag, a waker slot and an interrupt, as a locale whose law is
    that a notification is not slept through; \<open>SerialRx\<close> (\<open>platform/drivers/serial_ns16550a.rs\<close> and
    \<open>futures/serial.rs\<close>) and \<open>Irq\<close> (\<open>platform/irq.rs\<close>, with the PLIC driver) interpret it.
  \<^item> \<open>Trap\<close>: \<open>archs/riscv64-rt/src\<close>: the assembly of the trap entry, instruction by instruction, on
    registers, CSRs and memory, and the dispatch of causes.
  \<^item> \<open>DeviceRegistry\<close>, \<open>Platform\<close>: the driver model (\<open>platform/driver.rs\<close>, \<open>bus.rs\<close>, \<open>device.rs\<close>,
    \<open>dtb.rs\<close>, \<open>lib.rs\<close>), the CLINT and reset drivers, the two boards, and boot.
  \<^item> \<open>Startup\<close>: \<open>archs/riscv64-rt/src/start.rs\<close>, the logger, \<open>platform::init\<close>, the repository's
    device tree, and the theorem that what \<open>init\<close> leaves is what the machine starts from.
  \<^item> \<open>Macros\<close>: what the attribute macros of \<open>executor-macro/lib.rs\<close> accept.  \<open>GeneratedCode\<close>: the code
    they emit, as a list of statements for the entry point and one for the handler, executed with the
    interrupt bits of \<open>mstatus\<close> on a stack of such lists; it refines the machine, so that what is
    proved of the machine is true of that code.
  \<^item> \<open>TaskLayout\<close>: the \<open>repr(C)\<close> layout of a task's storage, the pointer arithmetic of \<open>TaskRef\<close>, and
    the pointers that the intrusive list and the wakers keep, on 64-bit addresses.
  \<^item> \<open>SharedState\<close>: the memory that tasks and handlers share on the running machine (\<open>k_app\<close>, which
    \<open>Access\<close> and \<open>IsrAccess\<close> read and update in one step): a predicate that every access preserves
    holds in every run; mutual exclusion of the async mutex among tasks that preempt each other.
  \<^item> \<open>TestApps\<close>: the programs of \<open>apps/test/src/bin\<close> as programs of the machine, and their runs:
    they end with the log that they assert.  \<open>MutexTasks\<close>: these programs use the mutex properly, and
    a run in which a waiter starves.  \<open>TimerTasks\<close>: the timer interrupt on the machine, and the test of
    the async timer.  \<open>DemoApps\<close>: the programs of \<open>apps/demo/src/bin\<close>; \<open>DemoHandlers\<close>: those
    that write \<open>MachineSoft\<close> by hand, and that the invariant of the scheduler holds with them.
  \<^item> \<open>WakeSlots\<close>: a task that waits with its waker in a slot of the shared memory, on the machine: the
    wake is in the slot, in a handler or a call that is in progress, or the task is run-queued.
    One task uses a slot, as the code has room for one waker in it.
    \<open>AwaitTasks\<close>: \<open>SerialRx\<close> and \<open>IrqFuture\<close> in tasks, and \<open>MachineExternal\<close> with the handler
    table; the locale of \<open>AwaitIrq\<close> extended by the place of the slot in the shared memory.
  \<^item> \<open>Latency\<close>: a bound on the steps from an interrupt to the poll of the task it wakes.
  \<^item> \<open>WorkLeft\<close>, \<open>Quiescence\<close>: a measure of the work that a state of the machine has left, and
    from it that the system comes to rest, under every schedule of its own interrupt, if every future
    has finitely much left to do and no spawn breaks the discipline.
  \<^item> \<open>DelayProtocol\<close>, \<open>DelayTokens\<close>, \<open>DelayTasks\<close>: tasks that wait for delays, on the machine.  What
    a poll of \<open>after\<close> relies on at each point at which it may be interrupted, and what handlers and
    other tasks leave of it; the invariant that the duty to continue such a task is in exactly one
    place (its spawn, its run-queued flag, its poll, the timer queue, the handler); and from it that
    the timer interrupt follows no dangling pointer, and that a task that sleeps goes on.
  \<^item> \<open>HandlerTable\<close>: the symbols of the linker script \<open>archs/riscv64-rt/link.x\<close> and the default handlers
    of \<open>archs/riscv64-rt/src/lib.rs\<close>: which handler a trap ends in, and whether it returns.
  \<^item> \<open>Devices\<close>: the contracts of the traits \<open>Timer\<close> and \<open>Ipi\<close>, met by the registers of the CLINT and by
    the fields that the models of the executor and of the delays have for them; the receive loop of
    the serial port; \<open>timer.rs\<close> of the tests, on the platform without the executor.
  \<^item> \<open>UnitTests\<close>, \<open>HostTests\<close>, \<open>ExecutorTests\<close>: the unit tests of the executor crate, as scripts of
    calls with the results they assert; they validate the model against the tests of the code.

  \<^bold>\<open>How a panic and an error appear.\<close>  A panic is \<open>Inl\<close> of a constructor of \<open>panic\<close>; undefined
  behaviour that the code can reach (an uninitialised read, a second drop, a dangling pointer) is the
  constructor \<open>UndefinedBehaviour\<close>, so a theorem that an operation returns \<open>Inr\<close> excludes both.

  \<^bold>\<open>Parameters.\<close>  Code that is not in the repository is an argument of the definitions:
  \<^item> \<open>cordyceps::List\<close> (\<open>intrusive_list\<close>) and \<open>heapless::Vec\<close> (\<open>bounded_vec\<close>): records of
    operations, with their documented behaviour as locales.  The precondition of the list, that
    an element is not linked twice, is proved of the code (in \<open>SchedCalls\<close>);
  \<^item> \<open>critical_section\<close>: a closure run with interrupts disabled, hence one step;
  \<^item> the device tree parser, the numbering of causes of the \<open>riscv\<close> crate, and what a device returns
    when it is read: functions;
  \<^item> futures, interrupt handlers and the user's \<open>main\<close>: functions, too.
  A property that assumes something of a parameter has a witness with a concrete one.

  \<^bold>\<open>The discipline of spawns.\<close>  \<open>spawn\<close> panics on a priority out of range, and does not
  know whether the task is still in the hands of an executor.  \<open>disciplined\<close> says that a task is spawned at a
  priority in range, and not at a moment at which an executor's loop has taken the same task from
  its queue and was interrupted before it read the poll function.  A theorem of \<open>SchedCalls\<close> shows
  that it suffices, one of \<open>SchedTraces\<close> that something of the kind is needed.  The
  invariant of the scheduler holds without it.

  \<^bold>\<open>Bounds and fuel.\<close>  Integers of the code are words of their width; task, executor and
  interrupt numbers that index tables are \<open>nat\<close>.  The bitmap is proved for 1 to 64 groups of 64, and
  a spawner has 1 to 4096 executors, as \<open>Spawner::new\<close> asserts.  The machine is a step relation and
  needs no fuel; that a poll comes back is stated with the number of steps existentially, and that the
  system comes to rest as an inductive predicate over all runs.
  \<open>checked_run\<close> and \<open>plain_run\<close> evaluate concrete runs from an explicit list of events; \<open>run_app\<close>
  has fuel for 400 steps, which is enough for the programs it runs, since the theorems about them say
  that they reach their end.  The blocking loop of the
  serial transmit is \<open>partial_function (option)\<close>, and it is proved to return under the assumption that
  the device's register empties; so are the loops of the timer test (the clock reaches the deadline)
  and the receive loop (the FIFO is finite); the loop of \<open>dequeue_expired\<close> is total.

  \<^bold>\<open>Delays on the machine.\<close>  What \<open>DelayTasks\<close> shows holds of an application in which at most
  sixteen tasks wait for delays (the capacity of the queue), all on one executor, each at addresses of
  its own, and in which nobody else wakes them (\<open>delay_programs\<close>); the timer interrupt may come at any
  time, early or late, and time may pass at any rate.  The integration test and the demonstration of the
  async timer are such applications.  The properties of that theory state the restriction; what
  \<open>DelayFuture\<close> shows of the interrupt itself needs only that the queue is linked to delays that are
  there.  \<open>DelayFuture\<close> also has runs that show what two executors
  (a deadline is overwritten by a later one) and a poll before the interrupt (an entry is left
  that points to a delay that is gone) do instead.

  \<^bold>\<open>Not modelled.\<close>  Formatting, the sections of the linker scripts, build scripts, the token
  streams between what a macro accepts and the statements it emits, memory ordering (one hart), and the
  time a step takes.  The traits of \<open>platform/device.rs\<close> that no driver of the repository implements
  (I2C, SPI, mailbox, pin and clock controllers) are handles only.

  \<^bold>\<open>The properties\<close> are the theorems that a \<open>C\<close> number precedes, each after a text that
  states what it assumes and what it shows.  The first eighteen are of the scheduler: fixed priorities,
  the stack of priorities, preemption and its bound, the generated code, no panics, flags, queues,
  layout, wakes, polls that come back, joins.  Then come the trap path, interrupts and serial input that
  are not slept through, alone and on the machine, timers, the mutex, the platform, its registers and
  its interrupt controllers.  Runs of concrete programs are lemmas beside them: the integration tests
  (\<open>TestApps\<close>), and runs that show a defect or that a hypothesis is needed, among them the wake of
  a join handle that is lost when the joined task completes between the two steps of the poll, and the
  future that is polled while it is being polled (both in \<open>SchedTraces\<close>).

  \<^bold>\<open>What could follow.\<close>  The bound of \<open>Latency\<close> for a handler that is preempted itself; in the
  style of \<open>DelayTokens\<close>, tasks that wait for delays and for the mutex, whose wakes an unlock makes, once
  the code keeps the compare register programmed when polls preempt each other.
\<close>

end
